(* ===== verification/Prelude.thy ===== *)
theory Prelude
  imports Main "HOL-Library.Word"
begin

text \<open>
  Shared vocabulary of the development: the machine types of the sources, the shift and
  count-zero operations the sources use on 64-bit words, the collections of simplification
  rules, the generic facts on lists and words that the component theories share, and the
  interfaces (locales) that several components implement.
\<close>

unbundle bit_operations_syntax

section \<open>Machine types\<close>

type_synonym u8 = "8 word"
type_synonym u16 = "16 word"
type_synonym u32 = "32 word"
type_synonym u64 = "64 word"

section \<open>Collections of rules\<close>

named_theorems bit_pos_simps \<open>membership of bit positions after word operations\<close>
named_theorems rc_consts \<open>constants and accessors of the object header\<close>

section \<open>Counting trailing zeros\<close>

text \<open>\<open>__builtin_ctzll\<close>: the number of zero bits below the lowest set bit; the builtin is
  undefined at 0, where this function gives the width.\<close>

definition ctz :: "'a::len word \<Rightarrow> nat" where
  "ctz w = length (takeWhile (\<lambda>n. \<not> bit w n) [0..<LENGTH('a)])"

lemma takeWhile_upt_least:
  assumes "k < m" "P k" "\<And>j. j < k \<Longrightarrow> \<not> P j"
  shows "takeWhile (\<lambda>n. \<not> P n) [0..<m] = [0..<k]"
proof -
  have "[0..<m] = [0..<k] @ k # [Suc k..<m]"
    using assms(1) by (metis less_imp_add_positive upt_add_eq_append upt_conv_Cons
        le0 less_imp_le_nat add_0 le_add1)
  then show ?thesis
    using assms(2,3) by (simp add: takeWhile_append)
qed

lemma ctz_least:
  fixes w :: "'a::len word"
  assumes "w \<noteq> 0"
  shows "bit w (ctz w)" and "j < ctz w \<Longrightarrow> \<not> bit w j" and "ctz w < LENGTH('a)"
proof -
  have "\<exists>n. bit w n"
    using assms by (metis bit_eq_iff bit_0_eq bot_apply bot_bool_def)
  then obtain n where n: "bit w n" by blast
  define k where "k = (LEAST n. bit w n)"
  have bk: "bit w k" unfolding k_def using n by (rule LeastI)
  have lk: "\<not> bit w j" if "j < k" for j
    using that not_less_Least unfolding k_def by blast
  have kl: "k < LENGTH('a)" using bk by (rule bit_imp_le_length)
  have "ctz w = k"
    unfolding ctz_def using takeWhile_upt_least[of k "LENGTH('a)" "bit w"] kl bk lk by simp
  with bk lk kl show "bit w (ctz w)" "j < ctz w \<Longrightarrow> \<not> bit w j" "ctz w < LENGTH('a)"
    by simp_all
qed

section \<open>Words\<close>

lemma and_exp_eq_0 [bit_pos_simps]:
  "(w AND 2 ^ n = 0) \<longleftrightarrow> \<not> bit w n" if "n < LENGTH('a)" for w :: "'a::len word"
proof -
  have *: "bit (w AND 2 ^ n) j \<longleftrightarrow> j = n \<and> bit w n" for j
    by (auto simp: bit_simps that)
  show ?thesis
  proof
    assume "w AND 2 ^ n = 0"
    then show "\<not> bit w n" using *[of n] by simp
  next
    assume "\<not> bit w n"
    then show "w AND 2 ^ n = 0" by (intro bit_word_eqI) (simp add: *)
  qed
qed

lemma unat_less_u64: "unat x < 2 ^ 64" for x :: u64
  by (rule order_less_le_trans[OF unsigned_less]) simp

lemma unat_less_u32: "unat x < 2 ^ 32" for x :: u32
  by (rule order_less_le_trans[OF unsigned_less]) simp

lemma u64_of_nat_unat: "n < 2 ^ 64 \<Longrightarrow> unat (of_nat n :: u64) = n"
  by (simp add: unat_of_nat take_bit_nat_eq_self_iff)

lemma u32_of_nat_unat: "n < 2 ^ 32 \<Longrightarrow> unat (of_nat n :: u32) = n"
  by (simp add: unat_of_nat take_bit_nat_eq_self_iff)

lemma word_nonzero_iff_bit: "(w \<noteq> 0) \<longleftrightarrow> (\<exists>n < LENGTH('a). bit w n)" for w :: "'a::len word"
  using ctz_least by (metis bit_0_eq bot_apply bot_bool_def)

lemma word_div_mod_unique:
  "a = b" if "a div n = b div n" "a mod n = b mod n" for a b n :: "'a::len word"
  using that by (metis div_mult_mod_eq)

section \<open>Arrays of 64-bit words as sets of bit positions\<close>

definition words_bit :: "u64 list \<Rightarrow> nat \<Rightarrow> bool" where
  "words_bit ws i \<longleftrightarrow> i div 64 < length ws \<and> bit (ws ! (i div 64)) (i mod 64)"

lemma words_bit_bound: "words_bit ws i \<Longrightarrow> i < 64 * length ws"
  by (simp add: words_bit_def) linarith

lemma words_bit_ext:
  assumes "length ws = length vs" "\<And>i. words_bit ws i \<longleftrightarrow> words_bit vs i"
  shows "ws = vs"
proof (rule nth_equalityI)
  show "length ws = length vs" by fact
  fix k assume k: "k < length ws"
  show "ws ! k = vs ! k"
  proof (rule bit_word_eqI)
    fix j assume "j < LENGTH(64)"
    then have "(64 * k + j) div 64 = k" "(64 * k + j) mod 64 = j" by simp_all
    then show "bit (ws ! k) j = bit (vs ! k) j"
      using assms(2)[of "64 * k + j"] k assms(1) by (simp add: words_bit_def)
  qed
qed

lemma words_zero_iff: "(\<forall>w\<in>set ws. w = 0) \<longleftrightarrow> (\<nexists>i. words_bit ws i)"
proof
  assume "\<forall>w\<in>set ws. w = 0"
  then show "\<nexists>i. words_bit ws i"
    unfolding words_bit_def using nth_mem by fastforce
next
  assume none: "\<nexists>i. words_bit ws i"
  show "\<forall>w\<in>set ws. w = 0"
  proof (rule ccontr)
    assume "\<not> (\<forall>w\<in>set ws. w = 0)"
    then obtain k where k: "k < length ws" "ws ! k \<noteq> 0"
      by (auto simp: in_set_conv_nth)
    then obtain j where j: "j < 64" "bit (ws ! k) j"
      by (auto simp: word_nonzero_iff_bit)
    then have "words_bit ws (64 * k + j)"
      using k by (simp add: words_bit_def)
    with none show False by blast
  qed
qed

lemma words_bit_update:
  assumes "k < length ws"
  shows "words_bit (ws[k := w]) i \<longleftrightarrow> (if i div 64 = k then bit w (i mod 64) else words_bit ws i)"
  using assms by (auto simp: words_bit_def nth_list_update)

lemma words_bit_replicate_0 [simp]: "\<not> words_bit (replicate m 0) i"
  by (simp add: words_bit_def)

lemma words_bit_map2:
  assumes "length ws = length vs" "\<And>a b j. j < 64 \<Longrightarrow> bit (f a b) j \<longleftrightarrow> P (bit a j) (bit b j)" "\<not> P False False"
  shows "words_bit (map2 f ws vs) i \<longleftrightarrow> P (words_bit ws i) (words_bit vs i)"
proof (cases "i div 64 < length ws")
  case True
  with assms show ?thesis by (simp add: words_bit_def)
next
  case False
  with assms(1,3) show ?thesis by (simp add: words_bit_def)
qed

lemma words_bit_Cons: "words_bit (w # ws) i \<longleftrightarrow> (if i < 64 then bit w i else words_bit ws (i - 64))"
proof (cases "i < 64")
  case False
  then have "i = (i - 64) + 64" by simp
  then have "i div 64 = Suc ((i - 64) div 64)" "i mod 64 = (i - 64) mod 64"
    by (metis Suc_eq_plus1 div_add_self2 zero_neq_numeral, metis mod_add_self2)
  with False show ?thesis by (simp add: words_bit_def)
qed (simp add: words_bit_def)

section \<open>The interface of a container of bit positions\<close>

text \<open>
  Several components keep a set of bit positions behind three operations: set a position, reset
  it, test it. The container may change its representation in a test (a cached cursor), so a test
  returns the container too. Positions outside \<open>dom\<close> are refused by the container.
\<close>

datatype 'k bit_op = BSet 'k | BReset 'k | BTest 'k

fun bit_spec_op :: "'k bit_op \<Rightarrow> 'k set \<Rightarrow> 'k set" where
  "bit_spec_op (BSet k) A = insert k A"
| "bit_spec_op (BReset k) A = A - {k}"
| "bit_spec_op (BTest k) A = A"

fun bit_op_key :: "'k bit_op \<Rightarrow> 'k" where
  "bit_op_key (BSet k) = k"
| "bit_op_key (BReset k) = k"
| "bit_op_key (BTest k) = k"

fun bit_do_op ::
  "('k \<Rightarrow> 's \<Rightarrow> 's) \<Rightarrow> ('k \<Rightarrow> 's \<Rightarrow> 's) \<Rightarrow> ('k \<Rightarrow> 's \<Rightarrow> bool \<times> 's) \<Rightarrow> 'k bit_op \<Rightarrow> 's \<Rightarrow> 's" where
  "bit_do_op st rs ts (BSet k) s = st k s"
| "bit_do_op st rs ts (BReset k) s = rs k s"
| "bit_do_op st rs ts (BTest k) s = snd (ts k s)"

locale bit_container =
  fixes inv :: "'s \<Rightarrow> bool"
    and abs :: "'s \<Rightarrow> 'k set"
    and dom :: "'k set"
    and set_op :: "'k \<Rightarrow> 's \<Rightarrow> 's"
    and reset_op :: "'k \<Rightarrow> 's \<Rightarrow> 's"
    and test_op :: "'k \<Rightarrow> 's \<Rightarrow> bool \<times> 's"
  assumes inv_set: "inv s \<Longrightarrow> k \<in> dom \<Longrightarrow> inv (set_op k s)"
    and inv_reset: "inv s \<Longrightarrow> k \<in> dom \<Longrightarrow> inv (reset_op k s)"
    and inv_test: "inv s \<Longrightarrow> k \<in> dom \<Longrightarrow> inv (snd (test_op k s))"
    and abs_set: "inv s \<Longrightarrow> k \<in> dom \<Longrightarrow> abs (set_op k s) = insert k (abs s)"
    and abs_reset: "inv s \<Longrightarrow> k \<in> dom \<Longrightarrow> abs (reset_op k s) = abs s - {k}"
    and abs_test: "inv s \<Longrightarrow> k \<in> dom \<Longrightarrow> abs (snd (test_op k s)) = abs s"
    and test_iff: "inv s \<Longrightarrow> k \<in> dom \<Longrightarrow> fst (test_op k s) \<longleftrightarrow> k \<in> abs s"
begin

lemma op_refines:
  "inv s \<Longrightarrow> bit_op_key p \<in> dom \<Longrightarrow> inv (bit_do_op set_op reset_op test_op p s) \<and> abs (bit_do_op set_op reset_op test_op p s) = bit_spec_op p (abs s)"
  by (cases p) (auto simp: inv_set inv_reset inv_test abs_set abs_reset abs_test)

lemma run_refines:
  "inv s \<Longrightarrow> bit_op_key ` set ps \<subseteq> dom \<Longrightarrow>
     inv (fold (bit_do_op set_op reset_op test_op) ps s) \<and> abs (fold (bit_do_op set_op reset_op test_op) ps s) = fold bit_spec_op ps (abs s)"
  by (induction ps arbitrary: s) (auto simp: op_refines)

lemma test_after_set:
  "inv s \<Longrightarrow> k \<in> dom \<Longrightarrow> j \<in> dom \<Longrightarrow> fst (test_op j (set_op k s)) \<longleftrightarrow> j = k \<or> fst (test_op j s)"
  by (simp add: test_iff inv_set abs_set)

lemma test_after_reset:
  "inv s \<Longrightarrow> k \<in> dom \<Longrightarrow> j \<in> dom \<Longrightarrow> fst (test_op j (reset_op k s)) \<longleftrightarrow> j \<noteq> k \<and> fst (test_op j s)"
  by (auto simp add: test_iff inv_reset abs_reset)

end

end
