(* ===== verification/Sparse_Bitvector.thy ===== *)
theory Sparse_Bitvector
  imports Prelude
begin

text \<open>
  The sparse bit vector of the data-flow analyses,
  \<^verbatim>\<open>src/src/mapleall/mempool/include/maple_sparse_bitvector.h\<close>.

  A vector is a list of elements sorted by index; an element covers \<open>n\<close> consecutive bits
  (the template parameter \<open>bitVectorSize\<close>) in an array of 64-bit words. The list iterator
  \<open>currIter\<close>, a cached cursor that even the const member functions move, is a position in the
  list, its length standing for \<open>end()\<close>. A binary operation takes a flag that says whether the
  right operand is the object itself (\<open>this == &rhs\<close>).
\<close>

unbundle bit_operations_syntax

section \<open>Elements\<close>

record sbv_elem =
  e_index :: u32
  e_words :: "u64 list"

definition kBitWordNum :: "nat \<Rightarrow> nat" where
  "kBitWordNum n = (n + 64 - 1) div 64"

definition Elem_new :: "nat \<Rightarrow> u32 \<Rightarrow> sbv_elem" where
  "Elem_new n idx = \<lparr>e_index = idx, e_words = replicate (kBitWordNum n) 0\<rparr>"

definition Elem_Set :: "u32 \<Rightarrow> sbv_elem \<Rightarrow> sbv_elem" where
  "Elem_Set idx e =
     (let i = unat (idx div 64); ws = e_words e
      in e\<lparr>e_words := ws[i := ws ! i OR push_bit (unat (idx mod 64)) 1]\<rparr>)"

definition Elem_Reset :: "u32 \<Rightarrow> sbv_elem \<Rightarrow> sbv_elem" where
  "Elem_Reset idx e =
     (let i = unat (idx div 64); ws = e_words e
      in e\<lparr>e_words := ws[i := ws ! i AND NOT (push_bit (unat (idx mod 64)) 1)]\<rparr>)"

definition Elem_Test :: "u32 \<Rightarrow> sbv_elem \<Rightarrow> bool" where
  "Elem_Test idx e \<longleftrightarrow>
     (e_words e ! unat (idx div 64)) AND push_bit (unat (idx mod 64)) 1 \<noteq> 0"

fun words_Empty :: "u64 list \<Rightarrow> bool" where
  "words_Empty [] = True"
| "words_Empty (w # ws) = (if w \<noteq> 0 then False else words_Empty ws)"

definition Elem_Empty :: "sbv_elem \<Rightarrow> bool" where
  "Elem_Empty e = words_Empty (e_words e)"

text \<open>The inner loop of \<open>ConvertToSet\<close>: strip the trailing zeros, then the set bit itself.\<close>

function word_ConvertToSet :: "u64 \<Rightarrow> u32 \<Rightarrow> u32 \<Rightarrow> u32 set \<Rightarrow> u32 set" where
  "word_ConvertToSet tmp bitPos off res =
     (if tmp = 0 then res
      else let tz = ctz tmp; bitPos' = bitPos + of_nat tz
           in word_ConvertToSet (drop_bit tz tmp - 1) bitPos' off (insert (off + bitPos') res))"
  by pat_completeness auto
termination
proof (relation "measure (\<lambda>(tmp, _, _, _). unat tmp)", goal_cases)
  case 1
  then show ?case by simp
next
  case (2 tmp bitPos off res tz bitPos')
  have "bit (drop_bit tz tmp) 0"
    using ctz_least(1)[OF \<open>tmp \<noteq> 0\<close>] 2(2) by (simp add: bit_drop_bit_eq)
  then have "drop_bit tz tmp \<noteq> 0"
    by auto
  moreover have "unat (drop_bit tz tmp) \<le> unat tmp"
    by (simp add: unat_drop_bit_eq) (simp add: drop_bit_eq_div)
  moreover have "unat (drop_bit tz tmp - 1) < unat (drop_bit tz tmp)"
    using \<open>drop_bit tz tmp \<noteq> 0\<close> by (simp add: unat_minus_one unat_gt_0)
  ultimately show ?case by simp
qed

fun words_ConvertToSet :: "u64 list \<Rightarrow> u32 \<Rightarrow> u32 set \<Rightarrow> u32 set" where
  "words_ConvertToSet [] off res = res"
| "words_ConvertToSet (w # ws) off res =
     words_ConvertToSet ws (off + 64) (word_ConvertToSet w 0 off res)"

definition Elem_ConvertToSet :: "sbv_elem \<Rightarrow> u32 \<Rightarrow> u32 set \<Rightarrow> u32 set" where
  "Elem_ConvertToSet e base res = words_ConvertToSet (e_words e) base res"

text \<open>The word loops return the new words, the flag \<open>changed\<close> and the flag \<open>allzero\<close>.\<close>

fun words_combine ::
  "(u64 \<Rightarrow> u64 \<Rightarrow> u64) \<Rightarrow> u64 list \<Rightarrow> u64 list \<Rightarrow> bool \<Rightarrow> bool \<Rightarrow> u64 list \<times> bool \<times> bool" where
  "words_combine f (w # ws) (v # vs) changed allzero =
     (let w' = f w v;
          (ws', c, z) = words_combine f ws vs (changed \<or> w \<noteq> w') (if w' \<noteq> 0 then False else allzero)
      in (w' # ws', c, z))"
| "words_combine f ws vs changed allzero = (ws, changed, allzero)"

definition Elem_And :: "sbv_elem \<Rightarrow> sbv_elem \<Rightarrow> sbv_elem \<times> bool \<times> bool" where
  "Elem_And e r =
     (let (ws, changed, allzero) = words_combine (\<lambda>a b. a AND b) (e_words e) (e_words r) False True
      in (e\<lparr>e_words := ws\<rparr>, changed, allzero))"

definition Elem_Or :: "sbv_elem \<Rightarrow> sbv_elem \<Rightarrow> sbv_elem \<times> bool" where
  "Elem_Or e r =
     (let (ws, changed, _) = words_combine (\<lambda>a b. a OR b) (e_words e) (e_words r) False True
      in (e\<lparr>e_words := ws\<rparr>, changed))"

definition Elem_Diff :: "sbv_elem \<Rightarrow> sbv_elem \<Rightarrow> sbv_elem \<times> bool \<times> bool" where
  "Elem_Diff e r =
     (let (ws, changed, allzero) = words_combine (\<lambda>a b. a AND NOT b) (e_words e) (e_words r) False True
      in (e\<lparr>e_words := ws\<rparr>, changed, allzero))"

fun words_eq :: "u64 list \<Rightarrow> u64 list \<Rightarrow> bool" where
  "words_eq (w # ws) (v # vs) = (if w \<noteq> v then False else words_eq ws vs)"
| "words_eq _ _ = True"

definition Elem_eq :: "sbv_elem \<Rightarrow> sbv_elem \<Rightarrow> bool" where
  "Elem_eq e r = (if e_index e \<noteq> e_index r then False else words_eq (e_words e) (e_words r))"

section \<open>The vector\<close>

record sbv =
  elementList :: "sbv_elem list"
  currIter :: nat

definition Sbv_new :: sbv where
  "Sbv_new = \<lparr>elementList = [], currIter = 0\<rparr>"

definition Sbv_copy :: "sbv \<Rightarrow> sbv" where
  "Sbv_copy rhs = \<lparr>elementList = elementList rhs, currIter = 0\<rparr>"

definition Sbv_assign :: "bool \<Rightarrow> sbv \<Rightarrow> sbv \<Rightarrow> sbv" where
  "Sbv_assign self v rhs = (if self then v else \<lparr>elementList = elementList rhs, currIter = 0\<rparr>)"

fun iter_back :: "sbv_elem list \<Rightarrow> u32 \<Rightarrow> nat \<Rightarrow> nat" where
  "iter_back es idx 0 = 0"
| "iter_back es idx (Suc i) = (if e_index (es ! Suc i) > idx then iter_back es idx i else Suc i)"

function iter_fwd :: "sbv_elem list \<Rightarrow> u32 \<Rightarrow> nat \<Rightarrow> nat" where
  "iter_fwd es idx i =
     (if i < length es \<and> e_index (es ! i) < idx then iter_fwd es idx (Suc i) else i)"
  by pat_completeness auto
termination
  by (relation "measure (\<lambda>(es, _, i). length es - i)") auto

definition LowerBoundForImpl :: "u32 \<Rightarrow> sbv \<Rightarrow> nat \<times> sbv" where
  "LowerBoundForImpl idx v =
     (let es = elementList v in
      if es = [] then (0, v\<lparr>currIter := 0\<rparr>)
      else let cur = (if currIter v = length es then currIter v - 1 else currIter v);
               v' = v\<lparr>currIter := cur\<rparr>
           in if e_index (es ! cur) = idx then (cur, v')
              else let it = (if e_index (es ! cur) > idx then iter_back es idx cur
                             else iter_fwd es idx cur)
                   in (it, v'\<lparr>currIter := it\<rparr>))"

definition list_emplace :: "nat \<Rightarrow> 'a \<Rightarrow> 'a list \<Rightarrow> 'a list" where
  "list_emplace i x xs = take i xs @ x # drop i xs"

definition list_erase :: "nat \<Rightarrow> 'a list \<Rightarrow> 'a list" where
  "list_erase i xs = take i xs @ drop (Suc i) xs"

definition Sbv_Set :: "nat \<Rightarrow> u32 \<Rightarrow> sbv \<Rightarrow> sbv" where
  "Sbv_Set n bitNO v =
     (let idx = bitNO div of_nat n;
          (iter, es) =
            (if elementList v = [] then (0, [Elem_new n idx])
             else let (it, v') = LowerBoundForImpl idx v; es = elementList v'
                  in if it = length es \<or> e_index (es ! it) \<noteq> idx
                     then let it' = (if it \<noteq> length es \<and> e_index (es ! it) < idx then Suc it else it)
                          in (it', list_emplace it' (Elem_new n idx) es)
                     else (it, es))
      in \<lparr>elementList = es[iter := Elem_Set (bitNO mod of_nat n) (es ! iter)], currIter = iter\<rparr>)"

definition Sbv_Reset :: "nat \<Rightarrow> u32 \<Rightarrow> sbv \<Rightarrow> sbv" where
  "Sbv_Reset n bitNO v =
     (if elementList v = [] then v
      else let idx = bitNO div of_nat n;
               (iter, v') = LowerBoundForImpl idx v; es = elementList v'
           in if iter = length es \<or> e_index (es ! iter) \<noteq> idx then v'
              else let e = Elem_Reset (bitNO mod of_nat n) (es ! iter)
                   in if Elem_Empty e
                      then \<lparr>elementList = list_erase iter es, currIter = (currIter v' + 1) - 1\<rparr>
                      else v'\<lparr>elementList := es[iter := e]\<rparr>)"

definition Sbv_Test :: "nat \<Rightarrow> u32 \<Rightarrow> sbv \<Rightarrow> bool \<times> sbv" where
  "Sbv_Test n bitNO v =
     (if elementList v = [] then (False, v)
      else let idx = bitNO div of_nat n;
               (iter, v') = LowerBoundForImpl idx v; es = elementList v'
           in if iter = length es \<or> e_index (es ! iter) \<noteq> idx then (False, v')
              else (Elem_Test (bitNO mod of_nat n) (es ! iter), v'))"

fun and_loop :: "sbv_elem list \<Rightarrow> sbv_elem list \<Rightarrow> bool \<Rightarrow> sbv_elem list \<times> bool" where
  "and_loop es [] changed = (if es \<noteq> [] then ([], True) else ([], changed))"
| "and_loop [] (f # fs) changed = ([], changed)"
| "and_loop (e # es) (f # fs) changed =
     (if e_index e > e_index f then and_loop (e # es) fs changed
      else if e_index e = e_index f
      then let (e', c, becameZero) = Elem_And e f; (es', ch) = and_loop es fs (c \<or> changed)
           in (if becameZero then es' else e' # es', ch)
      else and_loop es (f # fs) True)"

definition Sbv_and :: "bool \<Rightarrow> sbv \<Rightarrow> sbv \<Rightarrow> bool \<times> sbv" where
  "Sbv_and self v rhs =
     (if self then (False, v)
      else if elementList v = [] \<or> elementList rhs = [] then (False, v)
      else let (es, changed) = and_loop (elementList v) (elementList rhs) False
           in (changed, \<lparr>elementList = es, currIter = 0\<rparr>))"

fun or_loop :: "sbv_elem list \<Rightarrow> sbv_elem list \<Rightarrow> bool \<Rightarrow> sbv_elem list \<times> bool" where
  "or_loop es [] changed = (es, changed)"
| "or_loop [] (f # fs) changed = (let (es', ch) = or_loop [] fs True in (f # es', ch))"
| "or_loop (e # es) (f # fs) changed =
     (if e_index e > e_index f then let (es', ch) = or_loop (e # es) fs True in (f # es', ch)
      else if e_index e = e_index f
      then let (e', c) = Elem_Or e f; (es', ch) = or_loop es fs (c \<or> changed) in (e' # es', ch)
      else let (es', ch) = or_loop es (f # fs) changed in (e # es', ch))"

definition Sbv_or :: "bool \<Rightarrow> sbv \<Rightarrow> sbv \<Rightarrow> bool \<times> sbv" where
  "Sbv_or self v rhs =
     (if self then (False, v)
      else if elementList rhs = [] then (False, v)
      else let (es, changed) = or_loop (elementList v) (elementList rhs) False
           in (changed, \<lparr>elementList = es, currIter = 0\<rparr>))"

definition Sbv_Clear :: "sbv \<Rightarrow> sbv" where
  "Sbv_Clear v = \<lparr>elementList = [], currIter = 0\<rparr>"

fun elems_eq :: "sbv_elem list \<Rightarrow> sbv_elem list \<Rightarrow> bool" where
  "elems_eq (e # es) (f # fs) = (if \<not> Elem_eq e f then False else elems_eq es fs)"
| "elems_eq es fs = (es = [] \<and> fs = [])"

definition Sbv_eq :: "sbv \<Rightarrow> sbv \<Rightarrow> bool" where
  "Sbv_eq v rhs = elems_eq (elementList v) (elementList rhs)"

definition Sbv_neq :: "sbv \<Rightarrow> sbv \<Rightarrow> bool" where
  "Sbv_neq v rhs = (\<not> Sbv_eq v rhs)"

fun elems_Empty :: "sbv_elem list \<Rightarrow> bool" where
  "elems_Empty [] = True"
| "elems_Empty (e # es) = (if \<not> Elem_Empty e then False else elems_Empty es)"

definition Sbv_Empty :: "sbv \<Rightarrow> bool" where
  "Sbv_Empty v = (if elementList v = [] then True else elems_Empty (elementList v))"

fun diff_loop :: "sbv_elem list \<Rightarrow> sbv_elem list \<Rightarrow> bool \<Rightarrow> sbv_elem list \<times> bool" where
  "diff_loop es [] changed = (es, changed)"
| "diff_loop [] (f # fs) changed = ([], changed)"
| "diff_loop (e # es) (f # fs) changed =
     (if e_index e > e_index f then diff_loop (e # es) fs changed
      else if e_index e = e_index f
      then let (e', c, becameZero) = Elem_Diff e f; (es', ch) = diff_loop es fs (c \<or> changed)
           in (if becameZero then es' else e' # es', ch)
      else let (es', ch) = diff_loop es (f # fs) changed in (e # es', ch))"

definition Sbv_Diff :: "bool \<Rightarrow> sbv \<Rightarrow> sbv \<Rightarrow> bool \<times> sbv" where
  "Sbv_Diff self v rhs =
     (if self then (if \<not> Sbv_Empty v then (True, Sbv_Clear v) else (False, v))
      else if elementList v = [] \<or> elementList rhs = [] then (False, v)
      else let (es, changed) = diff_loop (elementList v) (elementList rhs) False
           in (changed, \<lparr>elementList = es, currIter = 0\<rparr>))"

fun elems_ConvertToSet :: "nat \<Rightarrow> sbv_elem list \<Rightarrow> u32 set \<Rightarrow> u32 set" where
  "elems_ConvertToSet n [] res = res"
| "elems_ConvertToSet n (e # es) res =
     elems_ConvertToSet n es (Elem_ConvertToSet e (of_nat n * e_index e) res)"

definition Sbv_ConvertToSet :: "nat \<Rightarrow> sbv \<Rightarrow> u32 set \<Rightarrow> u32 set" where
  "Sbv_ConvertToSet n v res = elems_ConvertToSet n (elementList v) res"


declare iter_fwd.simps [simp del] word_ConvertToSet.simps [simp del]

section \<open>Invariant and abstraction\<close>

definition elem_ok :: "nat \<Rightarrow> sbv_elem \<Rightarrow> bool" where
  "elem_ok n e \<longleftrightarrow> length (e_words e) = kBitWordNum n \<and>
     (\<forall>i. words_bit (e_words e) i \<longrightarrow> i < n \<and> unat (e_index e) * n + i < 2 ^ 32) \<and>
     (\<exists>i. words_bit (e_words e) i)"

definition elems_ok :: "nat \<Rightarrow> sbv_elem list \<Rightarrow> bool" where
  "elems_ok n es \<longleftrightarrow> (\<forall>e\<in>set es. elem_ok n e) \<and> sorted_wrt (\<lambda>a b. e_index a < e_index b) es"

definition sbv_inv :: "nat \<Rightarrow> sbv \<Rightarrow> bool" where
  "sbv_inv n v \<longleftrightarrow> 0 < n \<and> n < 2 ^ 32 \<and> elems_ok n (elementList v) \<and>
     currIter v \<le> length (elementList v)"

definition bits_at :: "sbv_elem list \<Rightarrow> u32 \<Rightarrow> nat set" where
  "bits_at es idx = {i. \<exists>e\<in>set es. e_index e = idx \<and> words_bit (e_words e) i}"

definition elems_abs :: "nat \<Rightarrow> sbv_elem list \<Rightarrow> u32 set" where
  "elems_abs n es = {b. unat (b mod of_nat n) \<in> bits_at es (b div of_nat n)}"

definition sbv_abs :: "nat \<Rightarrow> sbv \<Rightarrow> u32 set" where
  "sbv_abs n v = elems_abs n (elementList v)"

section \<open>Words and elements\<close>

lemma words_Empty_iff: "words_Empty ws \<longleftrightarrow> (\<forall>w\<in>set ws. w = 0)"
  by (induction ws) auto

lemma Elem_Empty_iff: "Elem_Empty e \<longleftrightarrow> (\<nexists>i. words_bit (e_words e) i)"
  by (simp add: Elem_Empty_def words_Empty_iff words_zero_iff)

lemma u32_div_mod_64: "unat (idx div (64::u32)) = unat idx div 64" "unat (idx mod (64::u32)) = unat idx mod 64"
  by (simp_all add: unat_div_distrib unat_mod_distrib)

lemma Elem_Test_iff:
  "unat idx < 64 * length (e_words e) \<Longrightarrow> Elem_Test idx e \<longleftrightarrow> words_bit (e_words e) (unat idx)"
  by (simp add: Elem_Test_def words_bit_def u32_div_mod_64 and_exp_eq_0)
    (auto dest: less_mult_imp_div_less simp: mult.commute)

lemma words_bit_Set:
  assumes "unat idx < 64 * length (e_words e)"
  shows "words_bit (e_words (Elem_Set idx e)) i \<longleftrightarrow> i = unat idx \<or> words_bit (e_words e) i"
proof -
  let ?k = "unat idx div 64"
  have k: "?k < length (e_words e)" using assms by simp
  have "i = unat idx \<longleftrightarrow> i div 64 = ?k \<and> i mod 64 = unat idx mod 64"
    by (metis div_mult_mod_eq)
  then show ?thesis
    using k by (auto simp: Elem_Set_def Let_def u32_div_mod_64 nth_list_update bit_simps words_bit_def)
qed

lemma words_bit_Reset:
  assumes "unat idx < 64 * length (e_words e)"
  shows "words_bit (e_words (Elem_Reset idx e)) i \<longleftrightarrow> i \<noteq> unat idx \<and> words_bit (e_words e) i"
proof -
  let ?k = "unat idx div 64"
  have k: "?k < length (e_words e)" using assms by simp
  have "i = unat idx \<longleftrightarrow> i div 64 = ?k \<and> i mod 64 = unat idx mod 64"
    by (metis div_mult_mod_eq)
  then show ?thesis
    using k by (auto simp: Elem_Reset_def Let_def u32_div_mod_64 nth_list_update bit_simps words_bit_def)
qed

lemma Elem_ops_simps [simp]:
  "e_index (Elem_Set idx e) = e_index e" "e_index (Elem_Reset idx e) = e_index e"
  "e_index (Elem_new n j) = j" "e_words (Elem_new n j) = replicate (kBitWordNum n) 0"
  "length (e_words (Elem_Set idx e)) = length (e_words e)"
  "length (e_words (Elem_Reset idx e)) = length (e_words e)"
  by (simp_all add: Elem_Set_def Elem_Reset_def Elem_new_def Let_def)

lemma words_combine_eq:
  "length ws = length vs \<Longrightarrow>
   words_combine f ws vs c z = (map2 f ws vs, c \<or> map2 f ws vs \<noteq> ws, z \<and> (\<forall>w\<in>set (map2 f ws vs). w = 0))"
  by (induction f ws vs c z rule: words_combine.induct) (auto simp: Let_def)

lemma words_eq_iff: "length ws = length vs \<Longrightarrow> words_eq ws vs \<longleftrightarrow> ws = vs"
  by (induction ws vs rule: words_eq.induct) auto

lemma kBitWordNum_bound: "n \<le> 64 * kBitWordNum n"
  by (simp add: kBitWordNum_def)


section \<open>Sorted element lists\<close>

lemma elems_ok_Cons:
  "elems_ok n (e # es) \<longleftrightarrow> elem_ok n e \<and> (\<forall>x\<in>set es. e_index e < e_index x) \<and> elems_ok n es"
  by (auto simp: elems_ok_def)

lemma elems_ok_Nil [simp]: "elems_ok n []"
  by (simp add: elems_ok_def)

lemma elem_ok_length: "elem_ok n e \<Longrightarrow> length (e_words e) = kBitWordNum n"
  by (simp add: elem_ok_def)

lemma bits_at_Nil [simp]: "bits_at [] idx = {}"
  by (simp add: bits_at_def)

lemma bits_at_Cons:
  "bits_at (e # es) idx = (if e_index e = idx then {i. words_bit (e_words e) i} else {}) \<union> bits_at es idx"
  by (auto simp: bits_at_def)

lemma bits_at_empty: "(\<And>e. e \<in> set es \<Longrightarrow> e_index e \<noteq> idx) \<Longrightarrow> bits_at es idx = {}"
  by (auto simp: bits_at_def)

lemma bits_at_nonempty: "elems_ok n es \<Longrightarrow> e \<in> set es \<Longrightarrow> bits_at es (e_index e) \<noteq> {}"
  by (fastforce simp: elems_ok_def elem_ok_def bits_at_def)

text \<open>The representation is canonical: the bits determine the list.\<close>

lemma bits_at_canonical:
  "elems_ok n es \<Longrightarrow> elems_ok n fs \<Longrightarrow> (\<And>idx. bits_at es idx = bits_at fs idx) \<Longrightarrow> es = fs"
proof (induction es arbitrary: fs)
  case Nil
  show ?case
  proof (cases fs)
    case (Cons f fs')
    with Nil.prems bits_at_nonempty[of n fs f] show ?thesis by simp
  qed simp
next
  case (Cons e es)
  show ?case
  proof (cases fs)
    case Nil
    with Cons.prems bits_at_nonempty[of n "e # es" e] show ?thesis by simp
  next
    case fs: (Cons f fs')
    have less: "\<forall>x\<in>set es. e_index e < e_index x" "\<forall>x\<in>set fs'. e_index f < e_index x"
      using Cons.prems fs by (auto simp: elems_ok_Cons)
    have rest: "elems_ok n es" "elems_ok n fs'" "elem_ok n e" "elem_ok n f"
      using Cons.prems fs by (auto simp: elems_ok_Cons)
    have in1: "\<exists>x\<in>set fs. e_index x = e_index e"
      using bits_at_nonempty[OF Cons.prems(1), of e] Cons.prems(3)[of "e_index e"]
      by (auto simp: bits_at_def)
    have in2: "\<exists>x\<in>set (e # es). e_index x = e_index f"
      using bits_at_nonempty[OF Cons.prems(2), of f] Cons.prems(3)[of "e_index f"] fs
      by (auto simp: bits_at_def)
    have same: "e_index e = e_index f"
      using in1 in2 less fs by (metis order.asym set_ConsD)
    have empties: "bits_at es (e_index f) = {}" "bits_at fs' (e_index f) = {}"
      using less same by (auto intro!: bits_at_empty)
    have "words_bit (e_words e) i \<longleftrightarrow> words_bit (e_words f) i" for i
      using Cons.prems(3)[of "e_index f"] fs same empties by (auto simp: bits_at_Cons)
    then have "e_words e = e_words f"
      using rest by (intro words_bit_ext) (simp_all add: elem_ok_def)
    with same have ef: "e = f" by simp
    have "bits_at es idx = bits_at fs' idx" for idx
      using Cons.prems(3)[of idx] fs same empties ef by (cases "idx = e_index f") (auto simp: bits_at_Cons)
    with Cons.IH[OF rest(1,2)] ef fs show ?thesis by simp
  qed
qed

lemma u32_of_parts:
  assumes "0 < n" "n < 2 ^ 32" "i < n" "unat idx * n + i < 2 ^ 32"
  shows "(of_nat (unat idx * n + i) :: u32) div of_nat n = idx"
    and "unat ((of_nat (unat idx * n + i) :: u32) mod of_nat n) = i"
proof -
  let ?b = "of_nat (unat idx * n + i) :: u32"
  have b: "unat ?b = unat idx * n + i"
    using assms by (simp add: unat_of_nat del: of_nat_add of_nat_mult)
  have nn: "unat (of_nat n :: u32) = n"
    using assms by (simp add: unat_of_nat)
  have "unat (?b div of_nat n) = unat idx"
    using b nn assms by (simp add: unat_div_distrib del: of_nat_add of_nat_mult)
  then show "?b div of_nat n = idx" by (simp only: word_unat_eq_iff)
  show "unat (?b mod of_nat n) = i"
    using b nn assms by (simp add: unat_mod_distrib del: of_nat_add of_nat_mult)
qed

lemma bits_at_from_abs:
  assumes "0 < n" "n < 2 ^ 32" "elems_ok n es"
  shows "i \<in> bits_at es idx \<longleftrightarrow>
     i < n \<and> unat idx * n + i < 2 ^ 32 \<and> (of_nat (unat idx * n + i) :: u32) \<in> elems_abs n es"
proof -
  have "i \<in> bits_at es idx \<Longrightarrow> i < n \<and> unat idx * n + i < 2 ^ 32"
    using assms(3) by (auto simp: bits_at_def elems_ok_def elem_ok_def)
  then show ?thesis
    using u32_of_parts[OF assms(1,2)] by (auto simp: elems_abs_def)
qed

lemma elems_abs_eq_iff:
  assumes "0 < n" "n < 2 ^ 32" "elems_ok n es" "elems_ok n fs"
  shows "elems_abs n es = elems_abs n fs \<longleftrightarrow> es = fs"
  using bits_at_canonical[OF assms(3,4)] bits_at_from_abs[OF assms(1,2,3)]
    bits_at_from_abs[OF assms(1,2,4)] by blast

section \<open>The cursor\<close>

lemma sorted_nth_less:
  "elems_ok n es \<Longrightarrow> i < j \<Longrightarrow> j < length es \<Longrightarrow> e_index (es ! i) < e_index (es ! j)"
  by (simp add: elems_ok_def sorted_wrt_iff_nth_less)

lemma iter_back_spec:
  "iter_back es idx i \<le> i \<and> (\<forall>j. iter_back es idx i < j \<and> j \<le> i \<longrightarrow> idx < e_index (es ! j)) \<and>
     (iter_back es idx i = 0 \<or> e_index (es ! iter_back es idx i) \<le> idx)"
proof (induction es idx i rule: iter_back.induct)
  case (2 es idx i)
  then show ?case by (auto simp: le_Suc_eq)
qed simp

lemma iter_fwd_spec:
  "i \<le> length es \<Longrightarrow> i \<le> iter_fwd es idx i \<and> iter_fwd es idx i \<le> length es \<and>
     (\<forall>j. i \<le> j \<and> j < iter_fwd es idx i \<longrightarrow> e_index (es ! j) < idx) \<and>
     (iter_fwd es idx i = length es \<or> idx \<le> e_index (es ! iter_fwd es idx i))"
proof (induction es idx i rule: iter_fwd.induct)
  case (1 es idx i)
  show ?case
  proof (cases "i < length es \<and> e_index (es ! i) < idx")
    case True
    then have eq: "iter_fwd es idx i = iter_fwd es idx (Suc i)" by (simp add: iter_fwd.simps[of es idx i])
    show ?thesis
      using "1.IH"[OF True] True unfolding eq by (metis Suc_leI Suc_le_eq le_eq_less_or_eq)
  next
    case False
    then show ?thesis using "1.prems" by (auto simp: iter_fwd.simps[of es idx i])
  qed
qed

definition insert_pos :: "sbv_elem list \<Rightarrow> u32 \<Rightarrow> nat \<Rightarrow> nat" where
  "insert_pos es idx it = (if it \<noteq> length es \<and> e_index (es ! it) < idx then Suc it else it)"

lemma LowerBoundForImpl_spec:
  assumes "sbv_inv n v" "elementList v \<noteq> []" "LowerBoundForImpl idx v = (it, v')"
  defines "es \<equiv> elementList v"
  shows "elementList v' = es" "currIter v' = it" "it \<le> length es"
    and "(it < length es \<and> e_index (es ! it) = idx) \<or>
         ((it = length es \<or> e_index (es ! it) \<noteq> idx) \<and> insert_pos es idx it \<le> length es \<and>
          (\<forall>j. j < insert_pos es idx it \<longrightarrow> e_index (es ! j) < idx) \<and>
          (\<forall>j. insert_pos es idx it \<le> j \<and> j < length es \<longrightarrow> idx < e_index (es ! j)))"
proof -
  define cur where "cur = (if currIter v = length es then currIter v - 1 else currIter v)"
  have ok: "elems_ok n es" and cl: "cur < length es"
    using assms(1,2) by (auto simp: sbv_inv_def es_def cur_def)
  have srt: "\<And>i j. i < j \<Longrightarrow> j < length es \<Longrightarrow> e_index (es ! i) < e_index (es ! j)"
    using sorted_nth_less[OF ok] .
  have it: "it = (if e_index (es ! cur) = idx then cur
                  else if e_index (es ! cur) > idx then iter_back es idx cur else iter_fwd es idx cur)"
    and v': "elementList v' = es" "currIter v' = it"
    using assms(2,3) by (auto simp: LowerBoundForImpl_def Let_def es_def cur_def split: if_splits)
  show "elementList v' = es" "currIter v' = it" by fact+
  have b: "iter_back es idx cur \<le> cur"
      "\<And>j. iter_back es idx cur < j \<Longrightarrow> j \<le> cur \<Longrightarrow> idx < e_index (es ! j)"
      "iter_back es idx cur = 0 \<or> e_index (es ! iter_back es idx cur) \<le> idx"
    using iter_back_spec[of es idx cur] by blast+
  have f: "cur \<le> iter_fwd es idx cur" "iter_fwd es idx cur \<le> length es"
      "\<And>j. cur \<le> j \<Longrightarrow> j < iter_fwd es idx cur \<Longrightarrow> e_index (es ! j) < idx"
      "iter_fwd es idx cur = length es \<or> idx \<le> e_index (es ! iter_fwd es idx cur)"
    using iter_fwd_spec[of cur es idx] cl by auto
  show "it \<le> length es" using it b f cl by (auto split: if_splits)
  consider (hit) "e_index (es ! cur) = idx" | (dn) "e_index (es ! cur) > idx"
    | (up) "e_index (es ! cur) < idx" by (meson less_linear)
  then show "(it < length es \<and> e_index (es ! it) = idx) \<or>
         ((it = length es \<or> e_index (es ! it) \<noteq> idx) \<and> insert_pos es idx it \<le> length es \<and>
          (\<forall>j. j < insert_pos es idx it \<longrightarrow> e_index (es ! j) < idx) \<and>
          (\<forall>j. insert_pos es idx it \<le> j \<and> j < length es \<longrightarrow> idx < e_index (es ! j)))"
  proof cases
    case hit
    then show ?thesis using it cl by simp
  next
    case dn
    then have it': "it = iter_back es idx cur" using it by auto
    have above: "idx < e_index (es ! j)" if "it < j" "j < length es" for j
      using that b(2)[of j] dn srt[of cur j] it' by (cases "j \<le> cur") (auto intro: order.strict_trans)
    show ?thesis
    proof (cases "e_index (es ! it)" idx rule: linorder_cases)
      case less
      then have "e_index (es ! j) < idx" if "j < Suc it" for j
        using that srt[of j it] b(1) cl it' by (auto simp: less_Suc_eq intro: order.strict_trans)
      then show ?thesis using less above b(1) cl it' by (auto simp: insert_pos_def)
    next
      case equal
      then show ?thesis using b(1) cl it' by simp
    next
      case greater
      then have "it = 0" using b(3) it' by auto
      have "idx < e_index (es ! j)" if "j < length es" for j
        using that above[of j] greater \<open>it = 0\<close> by (cases j) auto
      then show ?thesis using greater \<open>it = 0\<close> cl by (auto simp: insert_pos_def)
    qed
  next
    case up
    then have it': "it = iter_fwd es idx cur" using it by auto
    have below: "e_index (es ! j) < idx" if "j < it" for j
      using that f(3)[of j] up srt[of j cur] cl it' by (cases "cur \<le> j") (auto intro: order.strict_trans)
    show ?thesis
    proof (cases "it = length es")
      case True
      then show ?thesis using below by (auto simp: insert_pos_def)
    next
      case False
      then have il: "it < length es" and ge: "idx \<le> e_index (es ! it)" using f(2,4) it' by auto
      show ?thesis
      proof (cases "e_index (es ! it) = idx")
        case True then show ?thesis using il by simp
      next
        case ne: False
        then have gt: "idx < e_index (es ! it)" using ge by simp
        have "idx < e_index (es ! j)" if "it \<le> j" "j < length es" for j
          using that gt srt[of it j] by (cases "it = j") (auto intro: order.strict_trans)
        moreover have "insert_pos es idx it = it" using gt by (auto simp: insert_pos_def)
        ultimately show ?thesis using gt il below by auto
      qed
    qed
  qed
qed


section \<open>Set, Reset and Test\<close>

lemma bits_at_append: "bits_at (es @ fs) idx = bits_at es idx \<union> bits_at fs idx"
  by (auto simp: bits_at_def)

lemma elems_ok_middle:
  "elems_ok n (A @ e # B) \<longleftrightarrow> elems_ok n (A @ B) \<and> elem_ok n e \<and>
     (\<forall>x\<in>set A. e_index x < e_index e) \<and> (\<forall>x\<in>set B. e_index e < e_index x)"
  by (auto simp: elems_ok_def sorted_wrt_append intro: order.strict_trans)

lemma bits_at_middle:
  assumes "elems_ok n (A @ e # B)"
  shows "bits_at (A @ B) idx = (if idx = e_index e then {} else bits_at (A @ e # B) idx)"
    and "bits_at (A @ B) (e_index e) = {}"
proof -
  have "bits_at A (e_index e) = {}" "bits_at B (e_index e) = {}"
    using assms by (auto simp: elems_ok_middle intro!: bits_at_empty)
  then show "bits_at (A @ B) idx = (if idx = e_index e then {} else bits_at (A @ e # B) idx)"
    and "bits_at (A @ B) (e_index e) = {}"
    by (auto simp: bits_at_append bits_at_Cons)
qed

lemma list_middle:
  assumes "it < length es"
  obtains A B where "es = A @ es ! it # B" "\<And>x. es[it := x] = A @ x # B" "list_erase it es = A @ B"
proof
  show "es = take it es @ es ! it # drop (Suc it) es"
    using assms by (simp add: id_take_nth_drop)
  show "es[it := x] = take it es @ x # drop (Suc it) es" for x
    using assms by (rule upd_conv_take_nth_drop)
  show "list_erase it es = take it es @ drop (Suc it) es"
    by (simp add: list_erase_def)
qed

lemma bits_at_update:
  assumes "elems_ok n es" "it < length es" "e_index e' = e_index (es ! it)"
  shows "bits_at (es[it := e']) idx =
    (if idx = e_index e' then {i. words_bit (e_words e') i} else bits_at es idx)"
proof -
  obtain A B where AB: "es = A @ es ! it # B" "\<And>x. es[it := x] = A @ x # B"
    using list_middle[OF assms(2)] by metis
  have ok: "elems_ok n (A @ es ! it # B)" using assms(1) AB(1) by simp
  have "bits_at (es[it := e']) idx =
      (if idx = e_index e' then {i. words_bit (e_words e') i} else {}) \<union> bits_at (A @ B) idx"
    by (auto simp: AB(2) bits_at_append bits_at_Cons)
  then show ?thesis
    using bits_at_middle[OF ok] assms(3) AB(1) by auto
qed

lemma elems_ok_update:
  assumes "elems_ok n es" "it < length es" "e_index e' = e_index (es ! it)" "elem_ok n e'"
  shows "elems_ok n (es[it := e'])"
  using assms set_update_subset_insert[of es it e']
  by (auto simp: elems_ok_def sorted_wrt_iff_nth_less nth_list_update)

lemma list_emplace_update:
  "i \<le> length xs \<Longrightarrow> (list_emplace i x xs)[i := y] = list_emplace i y xs"
  "i \<le> length xs \<Longrightarrow> list_emplace i x xs ! i = x"
  "set (list_emplace i x xs) = insert x (set xs)"
  by (simp_all add: list_emplace_def list_update_append nth_append)
    (metis append_take_drop_id set_append)

lemma length_list_emplace: "length (list_emplace i x xs) = Suc (length xs)"
  by (simp add: list_emplace_def)

lemma bits_at_emplace:
  "bits_at (list_emplace i e es) idx =
     (if e_index e = idx then {i. words_bit (e_words e) i} else {}) \<union> bits_at es idx"
  by (auto simp: bits_at_def list_emplace_update)

lemma elems_ok_emplace:
  assumes "elems_ok n es" "elem_ok n e" "i \<le> length es"
    "\<And>j. j < i \<Longrightarrow> e_index (es ! j) < e_index e"
    "\<And>j. i \<le> j \<Longrightarrow> j < length es \<Longrightarrow> e_index e < e_index (es ! j)"
  shows "elems_ok n (list_emplace i e es)"
proof -
  have "\<forall>x\<in>set (take i es). e_index x < e_index e"
    using assms(3,4) by (auto simp: in_set_conv_nth)
  moreover have "\<forall>x\<in>set (drop i es). e_index e < e_index x"
    using assms(3,5) by (auto simp: in_set_conv_nth)
  moreover have "sorted_wrt (\<lambda>a b. e_index a < e_index b) (take i es @ drop i es)"
    using assms(1) by (simp add: elems_ok_def)
  ultimately show ?thesis
    using assms(1,2) unfolding elems_ok_def
    by (auto simp: list_emplace_def sorted_wrt_append dest: in_set_takeD in_set_dropD intro: order.strict_trans)
qed

lemma bits_at_erase:
  assumes "elems_ok n es" "it < length es"
  shows "bits_at (list_erase it es) idx = (if idx = e_index (es ! it) then {} else bits_at es idx)"
    and "elems_ok n (list_erase it es)"
proof -
  obtain A B where AB: "es = A @ es ! it # B" "list_erase it es = A @ B"
    using list_middle[OF assms(2)] by metis
  have ok: "elems_ok n (A @ es ! it # B)" using assms(1) AB(1) by simp
  show "bits_at (list_erase it es) idx = (if idx = e_index (es ! it) then {} else bits_at es idx)"
    using bits_at_middle(1)[OF ok, of idx] AB by simp
  show "elems_ok n (list_erase it es)"
    using ok AB(2) by (simp add: elems_ok_middle)
qed

lemma bits_at_miss:
  "\<lbrakk>\<forall>j. j < p \<longrightarrow> e_index (es ! j) < idx; \<forall>j. p \<le> j \<and> j < length es \<longrightarrow> idx < e_index (es ! j)\<rbrakk>
     \<Longrightarrow> bits_at es idx = {}"
  by (rule bits_at_empty) (metis in_set_conv_nth not_le order.irrefl)

lemma bits_at_hit:
  assumes "elems_ok n es" "it < length es"
  shows "bits_at es (e_index (es ! it)) = {i. words_bit (e_words (es ! it)) i}"
  using bits_at_update[OF assms, of "es ! it" "e_index (es ! it)"] by simp

lemma u32_parts:
  assumes "0 < n" "n < 2 ^ 32"
  shows "unat ((b::u32) mod of_nat n) < n"
    and "unat (b div of_nat n) * n + unat (b mod of_nat n) = unat b"
    and "unat (b mod of_nat n) < 64 * kBitWordNum n"
proof -
  have nn: "unat (of_nat n :: u32) = n" using assms by (simp add: unat_of_nat)
  show a: "unat (b mod of_nat n) < n"
    using assms nn by (simp add: unat_mod_distrib)
  show "unat (b div of_nat n) * n + unat (b mod of_nat n) = unat b"
    using nn by (simp add: unat_mod_distrib unat_div_distrib)
  show "unat (b mod of_nat n) < 64 * kBitWordNum n"
    using a kBitWordNum_bound[of n] by linarith
qed

lemma elem_ok_Set:
  assumes "0 < n" "n < 2 ^ 32" "e_index e = b div of_nat n" "elem_ok n e \<or> e = Elem_new n (b div of_nat n)"
  shows "elem_ok n (Elem_Set (b mod of_nat n) e)"
    and "words_bit (e_words (Elem_Set (b mod of_nat n) e)) i \<longleftrightarrow>
         i = unat (b mod of_nat n) \<or> words_bit (e_words e) i"
proof -
  note parts = u32_parts[OF assms(1,2), of b]
  have len: "length (e_words e) = kBitWordNum n"
    using assms(4) by (auto simp: elem_ok_def)
  show wb: "words_bit (e_words (Elem_Set (b mod of_nat n) e)) i \<longleftrightarrow>
         i = unat (b mod of_nat n) \<or> words_bit (e_words e) i" for i
    using parts(3) len by (intro words_bit_Set) simp
  have "unat (b div of_nat n) * n + unat (b mod of_nat n) < 2 ^ 32"
    using parts(2) unsigned_less[of b] by simp
  then show "elem_ok n (Elem_Set (b mod of_nat n) e)"
    using assms(3,4) parts(1) len by (auto simp: elem_ok_def wb)
qed

lemma insert_abs:
  assumes "\<And>idx. bits_at fs idx =
    (if idx = (b::u32) div of_nat n then insert (unat (b mod of_nat n)) (bits_at es idx) else bits_at es idx)"
  shows "elems_abs n fs = insert b (elems_abs n es)"
  using assms by (auto simp: elems_abs_def word_unat_eq_iff[symmetric] intro: word_div_mod_unique)

lemma Sbv_Set_correct:
  assumes "sbv_inv n v"
  shows "sbv_inv n (Sbv_Set n b v)" "sbv_abs n (Sbv_Set n b v) = insert b (sbv_abs n v)"
proof -
  let ?idx = "b div of_nat n :: u32" and ?m = "b mod of_nat n :: u32"
  define es where "es = elementList v"
  have n: "0 < n" "n < 2 ^ 32" and ok: "elems_ok n es"
    using assms by (auto simp: sbv_inv_def es_def)
  note new = elem_ok_Set[OF n, where b = b and e = "Elem_new n ?idx", simplified]
  have goal: "sbv_inv n (Sbv_Set n b v)" "sbv_abs n (Sbv_Set n b v) = insert b (sbv_abs n v)"
    if "elementList (Sbv_Set n b v) = fs" "elems_ok n fs" "currIter (Sbv_Set n b v) \<le> length fs"
      "\<And>idx. bits_at fs idx = (if idx = ?idx then insert (unat ?m) (bits_at es idx) else bits_at es idx)" for fs
    using that n insert_abs[of fs b n es] by (simp_all add: sbv_inv_def sbv_abs_def es_def)
  show "sbv_inv n (Sbv_Set n b v)" "sbv_abs n (Sbv_Set n b v) = insert b (sbv_abs n v)"
  proof (atomize(full), cases "es = []")
    case True
    then show "sbv_inv n (Sbv_Set n b v) \<and> sbv_abs n (Sbv_Set n b v) = insert b (sbv_abs n v)"
      using new n by (intro conjI goal[of "[Elem_Set ?m (Elem_new n ?idx)]"])
        (auto simp: Sbv_Set_def es_def elems_ok_Cons bits_at_Cons)
  next
    case False
    obtain it v' where lb: "LowerBoundForImpl ?idx v = (it, v')" by (cases "LowerBoundForImpl ?idx v")
    note spec = LowerBoundForImpl_spec[OF assms _ lb, folded es_def, OF False]
    show "sbv_inv n (Sbv_Set n b v) \<and> sbv_abs n (Sbv_Set n b v) = insert b (sbv_abs n v)"
    proof (cases "it < length es \<and> e_index (es ! it) = ?idx")
      case True
      have e: "elem_ok n (es ! it)" using ok True by (simp add: elems_ok_def)
      let ?e = "Elem_Set ?m (es ! it)"
      have upd: "elem_ok n ?e" "\<And>i. words_bit (e_words ?e) i \<longleftrightarrow> i = unat ?m \<or> words_bit (e_words (es ! it)) i"
        using elem_ok_Set[OF n, where b = b and e = "es ! it"] e True by auto
      have "bits_at (es[it := ?e]) idx = (if idx = ?idx then insert (unat ?m) (bits_at es idx) else bits_at es idx)"
        for idx
        using bits_at_update[OF ok, of it ?e idx] bits_at_hit[OF ok, of it] True by (auto simp: upd(2))
      moreover have "elementList (Sbv_Set n b v) = es[it := ?e]" "currIter (Sbv_Set n b v) = it"
        using False lb True spec(1) by (auto simp: Sbv_Set_def es_def Let_def)
      moreover have "elems_ok n (es[it := ?e])"
        using True upd(1) by (intro elems_ok_update[OF ok]) auto
      ultimately show ?thesis
        using True by (intro conjI goal[of "es[it := ?e]"]) auto
    next
      case miss: False
      let ?p = "insert_pos es ?idx it"
      have pos: "?p \<le> length es" "\<forall>j. j < ?p \<longrightarrow> e_index (es ! j) < ?idx"
        "\<forall>j. ?p \<le> j \<and> j < length es \<longrightarrow> ?idx < e_index (es ! j)"
        using spec(4) miss by auto
      have "elementList (Sbv_Set n b v) = list_emplace ?p (Elem_Set ?m (Elem_new n ?idx)) es"
        "currIter (Sbv_Set n b v) = ?p"
        using False lb miss spec(1,3) pos(1)
        by (auto simp: Sbv_Set_def es_def Let_def list_emplace_update insert_pos_def)
      then show ?thesis
        using new ok pos bits_at_miss[OF pos(2,3)]
        by (intro conjI goal[of "list_emplace ?p (Elem_Set ?m (Elem_new n ?idx)) es"])
          (auto simp: elems_ok_emplace bits_at_emplace length_list_emplace)
    qed
  qed
qed


lemma remove_abs:
  assumes "\<And>idx. bits_at fs idx =
    (if idx = (b::u32) div of_nat n then bits_at es idx - {unat (b mod of_nat n)} else bits_at es idx)"
  shows "elems_abs n fs = elems_abs n es - {b}"
  using assms by (auto simp: elems_abs_def word_unat_eq_iff[symmetric] intro: word_div_mod_unique)

lemma sbv_inv_cursor: "sbv_inv n v \<Longrightarrow> elementList v' = elementList v \<Longrightarrow> currIter v' \<le> length (elementList v) \<Longrightarrow>
   sbv_inv n v' \<and> sbv_abs n v' = sbv_abs n v"
  by (simp add: sbv_inv_def sbv_abs_def)

lemma Sbv_Reset_correct:
  assumes "sbv_inv n v"
  shows "sbv_inv n (Sbv_Reset n b v) \<and> sbv_abs n (Sbv_Reset n b v) = sbv_abs n v - {b}"
proof (cases "elementList v = []")
  case True
  then show ?thesis
    using assms by (simp add: Sbv_Reset_def sbv_abs_def elems_abs_def)
next
  case False
  let ?idx = "b div of_nat n :: u32" and ?m = "b mod of_nat n :: u32"
  define es where "es = elementList v"
  have n: "0 < n" "n < 2 ^ 32" and ok: "elems_ok n es"
    using assms by (auto simp: sbv_inv_def es_def)
  obtain it v' where lb: "LowerBoundForImpl ?idx v = (it, v')" by (cases "LowerBoundForImpl ?idx v")
  note spec = LowerBoundForImpl_spec[OF assms False lb, folded es_def]
  show ?thesis
  proof (cases "it < length es \<and> e_index (es ! it) = ?idx")
    case hit: True
    let ?e = "Elem_Reset ?m (es ! it)"
    have e: "elem_ok n (es ! it)" using ok hit by (simp add: elems_ok_def)
    have wb: "words_bit (e_words ?e) i \<longleftrightarrow> i \<noteq> unat ?m \<and> words_bit (e_words (es ! it)) i" for i
      using u32_parts(3)[OF n, of b] e by (intro words_bit_Reset) (simp add: elem_ok_def)
    have goal: ?thesis
      if "elementList (Sbv_Reset n b v) = fs" "elems_ok n fs" "currIter (Sbv_Reset n b v) \<le> length fs"
        "\<And>idx. bits_at fs idx = (if idx = ?idx then bits_at es idx - {unat ?m} else bits_at es idx)" for fs
      using that n remove_abs[of fs b n es] by (simp add: sbv_inv_def sbv_abs_def es_def)
    show ?thesis
    proof (cases "Elem_Empty ?e")
      case True
      have "bits_at (list_erase it es) idx = (if idx = ?idx then bits_at es idx - {unat ?m} else bits_at es idx)" for idx
        using bits_at_erase(1)[OF ok, of it idx] bits_at_hit[OF ok, of it] hit True wb by (auto simp: Elem_Empty_iff)
      moreover have "elementList (Sbv_Reset n b v) = list_erase it es" "currIter (Sbv_Reset n b v) = it"
        using False lb hit spec(1,2) True by (auto simp: Sbv_Reset_def es_def Let_def)
      ultimately show ?thesis
        using hit bits_at_erase(2)[OF ok] by (intro goal) (auto simp: list_erase_def)
    next
      case ne: False
      have "elem_ok n ?e"
        using e ne by (auto simp: elem_ok_def wb Elem_Empty_iff)
      moreover have "bits_at (es[it := ?e]) idx = (if idx = ?idx then bits_at es idx - {unat ?m} else bits_at es idx)" for idx
        using bits_at_update[OF ok, of it ?e idx] bits_at_hit[OF ok, of it] hit wb by auto
      moreover have "elementList (Sbv_Reset n b v) = es[it := ?e]" "currIter (Sbv_Reset n b v) = it"
        using False lb hit spec(1,2) ne by (auto simp: Sbv_Reset_def es_def Let_def)
      ultimately show ?thesis
        using hit by (intro goal[of "es[it := ?e]"]) (auto intro: elems_ok_update[OF ok])
    qed
  next
    case miss: False
    have "Sbv_Reset n b v = v'"
      using False lb miss spec(1,3) by (auto simp: Sbv_Reset_def es_def Let_def)
    moreover have "b \<notin> sbv_abs n v"
      using spec(4) miss bits_at_miss[of "insert_pos es ?idx it" es ?idx]
      by (auto simp: sbv_abs_def elems_abs_def es_def)
    ultimately show ?thesis
      using sbv_inv_cursor[OF assms, of v'] spec(1-3) by (auto simp: es_def)
  qed
qed

lemma Sbv_Test_correct:
  assumes "sbv_inv n v"
  shows "sbv_inv n (snd (Sbv_Test n b v)) \<and> sbv_abs n (snd (Sbv_Test n b v)) = sbv_abs n v \<and>
    (fst (Sbv_Test n b v) \<longleftrightarrow> b \<in> sbv_abs n v)"
proof (cases "elementList v = []")
  case True
  then show ?thesis
    using assms by (simp add: Sbv_Test_def sbv_abs_def elems_abs_def)
next
  case False
  let ?idx = "b div of_nat n :: u32" and ?m = "b mod of_nat n :: u32"
  define es where "es = elementList v"
  have n: "0 < n" "n < 2 ^ 32" and ok: "elems_ok n es"
    using assms by (auto simp: sbv_inv_def es_def)
  obtain it v' where lb: "LowerBoundForImpl ?idx v = (it, v')" by (cases "LowerBoundForImpl ?idx v")
  note spec = LowerBoundForImpl_spec[OF assms False lb, folded es_def]
  have snd: "snd (Sbv_Test n b v) = v'"
    using False lb by (auto simp: Sbv_Test_def Let_def)
  have "fst (Sbv_Test n b v) \<longleftrightarrow> unat ?m \<in> bits_at es ?idx"
  proof (cases "it < length es \<and> e_index (es ! it) = ?idx")
    case True
    then have "elem_ok n (es ! it)" using ok by (simp add: elems_ok_def)
    then show ?thesis
      using False lb True spec(1) u32_parts(3)[OF n, of b] bits_at_hit[OF ok, of it]
      by (auto simp: Sbv_Test_def es_def Let_def elem_ok_def Elem_Test_iff)
  next
    case miss: False
    then show ?thesis
      using False lb spec(1,3,4) bits_at_miss[of "insert_pos es ?idx it" es ?idx]
      by (auto simp: Sbv_Test_def es_def Let_def)
  qed
  then show ?thesis
    using snd sbv_inv_cursor[OF assms, of v'] spec(1-3) by (simp add: sbv_abs_def elems_abs_def es_def)
qed

interpretation sbv64: bit_container "sbv_inv n" "sbv_abs n" UNIV "Sbv_Set n" "Sbv_Reset n" "Sbv_Test n" for n
  by unfold_locales (simp_all add: Sbv_Set_correct Sbv_Reset_correct Sbv_Test_correct)


section \<open>Union, intersection and difference\<close>

lemma words_combine_elem:
  fixes f :: "u64 \<Rightarrow> u64 \<Rightarrow> u64" and e r :: sbv_elem
  assumes "length (e_words e) = length (e_words r)"
  defines "e' \<equiv> e\<lparr>e_words := map2 f (e_words e) (e_words r)\<rparr>"
  shows "words_combine f (e_words e) (e_words r) False True =
     (map2 f (e_words e) (e_words r), e' \<noteq> e, \<nexists>i. words_bit (e_words e') i)"
    and "e_index e' = e_index e" "length (e_words e') = length (e_words e)"
proof -
  have upd: "(e' = e) = (map2 f (e_words e) (e_words r) = e_words e)"
    unfolding e'_def by (cases e) auto
  show "words_combine f (e_words e) (e_words r) False True =
     (map2 f (e_words e) (e_words r), e' \<noteq> e, \<nexists>i. words_bit (e_words e') i)"
    unfolding words_combine_eq[OF assms(1)] words_zero_iff upd by (simp add: e'_def)
  show "e_index e' = e_index e" "length (e_words e') = length (e_words e)"
    using assms(1) by (simp_all add: e'_def)
qed

lemma Elem_combine_ok:
  assumes "elem_ok n e" "elem_ok n r"
  shows "Elem_And e r = (e', c, z) \<Longrightarrow> e_index e' = e_index e \<and> length (e_words e') = kBitWordNum n \<and>
      (c \<longleftrightarrow> e' \<noteq> e) \<and> (\<forall>i. words_bit (e_words e') i \<longleftrightarrow> words_bit (e_words e) i \<and> words_bit (e_words r) i) \<and>
      (z \<longleftrightarrow> (\<nexists>i. words_bit (e_words e') i))" (is "?And \<Longrightarrow> _")
    and "Elem_Diff e r = (e', c, z) \<Longrightarrow> e_index e' = e_index e \<and> length (e_words e') = kBitWordNum n \<and>
      (c \<longleftrightarrow> e' \<noteq> e) \<and> (\<forall>i. words_bit (e_words e') i \<longleftrightarrow> words_bit (e_words e) i \<and> \<not> words_bit (e_words r) i) \<and>
      (z \<longleftrightarrow> (\<nexists>i. words_bit (e_words e') i))" (is "?Diff \<Longrightarrow> _")
    and "Elem_Or e r = (e', c) \<Longrightarrow> e_index e' = e_index e \<and> length (e_words e') = kBitWordNum n \<and>
      (c \<longleftrightarrow> e' \<noteq> e) \<and> (\<forall>i. words_bit (e_words e') i \<longleftrightarrow> words_bit (e_words e) i \<or> words_bit (e_words r) i)"
     (is "?Or \<Longrightarrow> _")
proof -
  have len: "length (e_words e) = length (e_words r)" "length (e_words e) = kBitWordNum n"
    using assms by (simp_all add: elem_ok_def)
  note W = words_combine_elem[OF len(1)]
  have "words_bit (map2 (\<lambda>a b. a AND b) (e_words e) (e_words r)) i \<longleftrightarrow>
      words_bit (e_words e) i \<and> words_bit (e_words r) i" for i
    by (rule words_bit_map2[OF len(1)]) (auto simp: bit_simps)
  moreover have "words_bit (map2 (\<lambda>a b. a AND NOT b) (e_words e) (e_words r)) i \<longleftrightarrow>
      words_bit (e_words e) i \<and> \<not> words_bit (e_words r) i" for i
    by (rule words_bit_map2[OF len(1)]) (auto simp: bit_simps)
  moreover have "words_bit (map2 (\<lambda>a b. a OR b) (e_words e) (e_words r)) i \<longleftrightarrow>
      words_bit (e_words e) i \<or> words_bit (e_words r) i" for i
    by (rule words_bit_map2[OF len(1)]) (auto simp: bit_simps)
  moreover have "?And \<Longrightarrow> e' = e\<lparr>e_words := map2 (\<lambda>a b. a AND b) (e_words e) (e_words r)\<rparr> \<and> c = (e' \<noteq> e) \<and>
      z = (\<nexists>i. words_bit (e_words e') i)"
    unfolding Elem_And_def W(1) Let_def by (auto simp only: prod.case prod.inject)
  moreover have "?Diff \<Longrightarrow> e' = e\<lparr>e_words := map2 (\<lambda>a b. a AND NOT b) (e_words e) (e_words r)\<rparr> \<and> c = (e' \<noteq> e) \<and>
      z = (\<nexists>i. words_bit (e_words e') i)"
    unfolding Elem_Diff_def W(1) Let_def by (auto simp only: prod.case prod.inject)
  moreover have "?Or \<Longrightarrow> e' = e\<lparr>e_words := map2 (\<lambda>a b. a OR b) (e_words e) (e_words r)\<rparr> \<and> c = (e' \<noteq> e)"
    unfolding Elem_Or_def W(1) Let_def by (auto simp only: prod.case prod.inject)
  ultimately show
      "?And \<Longrightarrow> e_index e' = e_index e \<and> length (e_words e') = kBitWordNum n \<and>
      (c \<longleftrightarrow> e' \<noteq> e) \<and> (\<forall>i. words_bit (e_words e') i \<longleftrightarrow> words_bit (e_words e) i \<and> words_bit (e_words r) i) \<and>
      (z \<longleftrightarrow> (\<nexists>i. words_bit (e_words e') i))"
    and "?Diff \<Longrightarrow> e_index e' = e_index e \<and> length (e_words e') = kBitWordNum n \<and>
      (c \<longleftrightarrow> e' \<noteq> e) \<and> (\<forall>i. words_bit (e_words e') i \<longleftrightarrow> words_bit (e_words e) i \<and> \<not> words_bit (e_words r) i) \<and>
      (z \<longleftrightarrow> (\<nexists>i. words_bit (e_words e') i))"
    and "?Or \<Longrightarrow> e_index e' = e_index e \<and> length (e_words e') = kBitWordNum n \<and>
      (c \<longleftrightarrow> e' \<noteq> e) \<and> (\<forall>i. words_bit (e_words e') i \<longleftrightarrow> words_bit (e_words e) i \<or> words_bit (e_words r) i)"
    using W(2,3) len(2) by simp_all
qed

definition idxs :: "sbv_elem list \<Rightarrow> u32 set" where
  "idxs es = e_index ` set es"

lemma idxs_simps [simp]: "idxs [] = {}" "idxs (e # es) = insert (e_index e) (idxs es)"
  by (simp_all add: idxs_def)

lemma elems_ok_Cons_idxs:
  "elems_ok n (e # es) \<longleftrightarrow> elem_ok n e \<and> (\<forall>x\<in>idxs es. e_index e < x) \<and> elems_ok n es"
  by (auto simp: elems_ok_Cons idxs_def)

lemma bits_at_not_idx: "idx \<notin> idxs es \<Longrightarrow> bits_at es idx = {}"
  by (auto simp: bits_at_def idxs_def)

lemma neq_if_idxs_sub: "idxs es' \<subseteq> A \<Longrightarrow> (\<forall>x\<in>A. e_index e < x) \<Longrightarrow> es' \<noteq> e # es"
  by auto

lemma or_loop_correct:
  "elems_ok n es \<Longrightarrow> elems_ok n fs \<Longrightarrow> or_loop es fs ch = (es', ch') \<Longrightarrow>
     elems_ok n es' \<and> idxs es' = idxs es \<union> idxs fs \<and> (ch' \<longleftrightarrow> ch \<or> es' \<noteq> es) \<and>
     (\<forall>idx. bits_at es' idx = bits_at es idx \<union> bits_at fs idx)"
proof (induction es fs ch arbitrary: es' ch' rule: or_loop.induct)
  case (1 es changed)
  then show ?case by simp
next
  case (2 f fs changed)
  then show ?case
    by (auto simp: elems_ok_Cons_idxs bits_at_Cons split: prod.splits)
next
  case (3 e es f fs changed)
  consider (gt) "e_index e > e_index f" | (eq) "e_index e = e_index f" | (lt) "e_index e < e_index f"
    by (meson less_linear)
  then show ?case
  proof cases
    case gt
    obtain r c where r: "or_loop (e # es) fs True = (r, c)" by (cases "or_loop (e # es) fs True")
    have IH: "elems_ok n r \<and> idxs r = idxs (e # es) \<union> idxs fs \<and> (c \<longleftrightarrow> True \<or> r \<noteq> e # es) \<and>
       (\<forall>idx. bits_at r idx = bits_at (e # es) idx \<union> bits_at fs idx)"
      using "3.prems" r gt by (intro "3.IH"(1)) (auto simp: elems_ok_Cons)
    have "es' = f # r" "ch' = c" using "3.prems"(3) r gt by auto
    then show ?thesis
      using IH gt "3.prems"(1,2)
      by (auto simp: elems_ok_Cons_idxs bits_at_Cons[of f] intro: order.strict_trans)
  next
    case eq
    obtain e1 c1 where e1: "Elem_Or e f = (e1, c1)" by (cases "Elem_Or e f")
    obtain r c where r: "or_loop es fs (c1 \<or> changed) = (r, c)" by (cases "or_loop es fs (c1 \<or> changed)")
    have IH: "elems_ok n r \<and> idxs r = idxs es \<union> idxs fs \<and> (c \<longleftrightarrow> (c1 \<or> changed) \<or> r \<noteq> es) \<and>
       (\<forall>idx. bits_at r idx = bits_at es idx \<union> bits_at fs idx)"
      using "3.prems" r eq e1 by (intro "3.IH"(2)) (auto simp: elems_ok_Cons)
    have ok: "elem_ok n e" "elem_ok n f" using "3.prems"(1,2) by (auto simp: elems_ok_Cons)
    note E = Elem_combine_ok(3)[OF ok e1]
    have "es' = e1 # r" "ch' = c" using "3.prems"(3) r eq e1 by auto
    moreover have "elem_ok n e1" using E ok eq by (auto simp: elem_ok_def)
    ultimately show ?thesis
      using IH E eq "3.prems"(1,2) by (auto simp: elems_ok_Cons_idxs bits_at_Cons)
  next
    case lt
    then have nlt: "\<not> e_index f < e_index e" "e_index e \<noteq> e_index f" by auto
    obtain r c where r: "or_loop es (f # fs) changed = (r, c)" by (cases "or_loop es (f # fs) changed")
    have IH: "elems_ok n r \<and> idxs r = idxs es \<union> idxs (f # fs) \<and> (c \<longleftrightarrow> changed \<or> r \<noteq> es) \<and>
       (\<forall>idx. bits_at r idx = bits_at es idx \<union> bits_at (f # fs) idx)"
      using "3.prems" r nlt by (intro "3.IH"(3)) (auto simp: elems_ok_Cons)
    have "es' = e # r" "ch' = c" using "3.prems"(3) r nlt by auto
    then show ?thesis
      using IH lt "3.prems"(1,2)
      by (auto simp: elems_ok_Cons_idxs bits_at_Cons[of e] intro: order.strict_trans)
  qed
qed

lemma and_loop_correct:
  "elems_ok n es \<Longrightarrow> elems_ok n fs \<Longrightarrow> and_loop es fs ch = (es', ch') \<Longrightarrow>
     elems_ok n es' \<and> idxs es' \<subseteq> idxs es \<and> (ch' \<longleftrightarrow> ch \<or> es' \<noteq> es) \<and>
     (\<forall>idx. bits_at es' idx = bits_at es idx \<inter> bits_at fs idx)"
proof (induction es fs ch arbitrary: es' ch' rule: and_loop.induct)
  case (1 es changed)
  then show ?case by (auto split: if_splits)
next
  case (2 f fs changed)
  then show ?case by auto
next
  case (3 e es f fs changed)
  consider (gt) "e_index e > e_index f" | (eq) "e_index e = e_index f" | (lt) "e_index e < e_index f"
    by (meson less_linear)
  then show ?case
  proof cases
    case gt
    have IH: "elems_ok n es' \<and> idxs es' \<subseteq> idxs (e # es) \<and> (ch' \<longleftrightarrow> changed \<or> es' \<noteq> e # es) \<and>
       (\<forall>idx. bits_at es' idx = bits_at (e # es) idx \<inter> bits_at fs idx)"
      using "3.prems" gt by (intro "3.IH"(1)) (auto simp: elems_ok_Cons)
    have "e_index f \<notin> idxs (e # es)" using gt "3.prems"(1) by (auto simp: elems_ok_Cons_idxs)
    then show ?thesis using IH bits_at_not_idx[of "e_index f" "e # es"] by (auto simp: bits_at_Cons[of f])
  next
    case eq
    obtain e1 c1 z1 where e1: "Elem_And e f = (e1, c1, z1)" by (cases "Elem_And e f")
    obtain r c where r: "and_loop es fs (c1 \<or> changed) = (r, c)" by (cases "and_loop es fs (c1 \<or> changed)")
    have IH: "elems_ok n r \<and> idxs r \<subseteq> idxs es \<and> (c \<longleftrightarrow> (c1 \<or> changed) \<or> r \<noteq> es) \<and>
       (\<forall>idx. bits_at r idx = bits_at es idx \<inter> bits_at fs idx)"
      using "3.prems" r eq e1 by (intro "3.IH"(2)) (auto simp: elems_ok_Cons)
    have ok: "elem_ok n e" "elem_ok n f" using "3.prems"(1,2) by (auto simp: elems_ok_Cons)
    note E = Elem_combine_ok(1)[OF ok e1]
    have less: "\<forall>x\<in>idxs es. e_index e < x" "\<forall>x\<in>idxs fs. e_index e < x"
      using "3.prems"(1,2) eq by (auto simp: elems_ok_Cons_idxs)
    have none: "bits_at es (e_index f) = {}" "bits_at fs (e_index f) = {}"
      using less eq by (auto intro!: bits_at_not_idx)
    have out: "es' = (if z1 then r else e1 # r)" "ch' = c" using "3.prems"(3) r eq e1 by (auto split: if_splits)
    show ?thesis
    proof (cases z1)
      case True
      then have "e1 \<noteq> e" using E ok(1) by (auto simp: elem_ok_def)
      then show ?thesis
        using True out IH E less neq_if_idxs_sub[of r "idxs es" e es] eq none by (auto simp: bits_at_Cons)
    next
      case False
      then have "elem_ok n e1" using E ok(1) by (auto simp: elem_ok_def)
      then show ?thesis
        using False out IH E less eq none by (auto simp: elems_ok_Cons_idxs bits_at_Cons)
    qed
  next
    case lt
    then have nlt: "\<not> e_index f < e_index e" "e_index e \<noteq> e_index f" by auto
    have IH: "elems_ok n es' \<and> idxs es' \<subseteq> idxs es \<and> (ch' \<longleftrightarrow> True \<or> es' \<noteq> es) \<and>
       (\<forall>idx. bits_at es' idx = bits_at es idx \<inter> bits_at (f # fs) idx)"
      using "3.prems" nlt by (intro "3.IH"(3)) (auto simp: elems_ok_Cons)
    have "\<forall>x\<in>idxs es. e_index e < x" "e_index e \<notin> idxs (f # fs)"
      using "3.prems"(1,2) lt by (auto simp: elems_ok_Cons_idxs)
    then show ?thesis
      using IH bits_at_not_idx[of "e_index e" "f # fs"] neq_if_idxs_sub[of es' "idxs es" e es]
      by (auto simp: bits_at_Cons[of e])
  qed
qed

lemma diff_loop_correct:
  "elems_ok n es \<Longrightarrow> elems_ok n fs \<Longrightarrow> diff_loop es fs ch = (es', ch') \<Longrightarrow>
     elems_ok n es' \<and> idxs es' \<subseteq> idxs es \<and> (ch' \<longleftrightarrow> ch \<or> es' \<noteq> es) \<and>
     (\<forall>idx. bits_at es' idx = bits_at es idx - bits_at fs idx)"
proof (induction es fs ch arbitrary: es' ch' rule: diff_loop.induct)
  case (1 es changed)
  then show ?case by auto
next
  case (2 f fs changed)
  then show ?case by auto
next
  case (3 e es f fs changed)
  consider (gt) "e_index e > e_index f" | (eq) "e_index e = e_index f" | (lt) "e_index e < e_index f"
    by (meson less_linear)
  then show ?case
  proof cases
    case gt
    have IH: "elems_ok n es' \<and> idxs es' \<subseteq> idxs (e # es) \<and> (ch' \<longleftrightarrow> changed \<or> es' \<noteq> e # es) \<and>
       (\<forall>idx. bits_at es' idx = bits_at (e # es) idx - bits_at fs idx)"
      using "3.prems" gt by (intro "3.IH"(1)) (auto simp: elems_ok_Cons)
    have "e_index f \<notin> idxs (e # es)" using gt "3.prems"(1) by (auto simp: elems_ok_Cons_idxs)
    then show ?thesis using IH bits_at_not_idx[of "e_index f" "e # es"] by (auto simp: bits_at_Cons[of f])
  next
    case eq
    obtain e1 c1 z1 where e1: "Elem_Diff e f = (e1, c1, z1)" by (cases "Elem_Diff e f")
    obtain r c where r: "diff_loop es fs (c1 \<or> changed) = (r, c)" by (cases "diff_loop es fs (c1 \<or> changed)")
    have IH: "elems_ok n r \<and> idxs r \<subseteq> idxs es \<and> (c \<longleftrightarrow> (c1 \<or> changed) \<or> r \<noteq> es) \<and>
       (\<forall>idx. bits_at r idx = bits_at es idx - bits_at fs idx)"
      using "3.prems" r eq e1 by (intro "3.IH"(2)) (auto simp: elems_ok_Cons)
    have ok: "elem_ok n e" "elem_ok n f" using "3.prems"(1,2) by (auto simp: elems_ok_Cons)
    note E = Elem_combine_ok(2)[OF ok e1]
    have less: "\<forall>x\<in>idxs es. e_index e < x" "\<forall>x\<in>idxs fs. e_index e < x"
      using "3.prems"(1,2) eq by (auto simp: elems_ok_Cons_idxs)
    have none: "bits_at es (e_index f) = {}" "bits_at fs (e_index f) = {}"
      using less eq by (auto intro!: bits_at_not_idx)
    have out: "es' = (if z1 then r else e1 # r)" "ch' = c" using "3.prems"(3) r eq e1 by (auto split: if_splits)
    show ?thesis
    proof (cases z1)
      case True
      then have "e1 \<noteq> e" using E ok(1) by (auto simp: elem_ok_def)
      then show ?thesis
        using True out IH E less neq_if_idxs_sub[of r "idxs es" e es] eq none by (auto simp: bits_at_Cons)
    next
      case False
      then have "elem_ok n e1" using E ok(1) by (auto simp: elem_ok_def)
      then show ?thesis
        using False out IH E less eq none by (auto simp: elems_ok_Cons_idxs bits_at_Cons)
    qed
  next
    case lt
    then have nlt: "\<not> e_index f < e_index e" "e_index e \<noteq> e_index f" by auto
    obtain r c where r: "diff_loop es (f # fs) changed = (r, c)" by (cases "diff_loop es (f # fs) changed")
    have IH: "elems_ok n r \<and> idxs r \<subseteq> idxs es \<and> (c \<longleftrightarrow> changed \<or> r \<noteq> es) \<and>
       (\<forall>idx. bits_at r idx = bits_at es idx - bits_at (f # fs) idx)"
      using "3.prems" r nlt by (intro "3.IH"(3)) (auto simp: elems_ok_Cons)
    have "es' = e # r" "ch' = c" using "3.prems"(3) r nlt by auto
    moreover have "e_index e \<notin> idxs (f # fs)"
      using "3.prems"(1,2) lt by (auto simp: elems_ok_Cons_idxs)
    ultimately show ?thesis
      using IH "3.prems"(1) bits_at_not_idx[of "e_index e" "f # fs"]
      by (auto simp: elems_ok_Cons_idxs bits_at_Cons[of e])
  qed
qed


lemma elems_abs_combine:
  "(\<And>idx. bits_at es' idx = bits_at es idx \<union> bits_at fs idx) \<Longrightarrow> elems_abs n es' = elems_abs n es \<union> elems_abs n fs"
  "(\<And>idx. bits_at es' idx = bits_at es idx \<inter> bits_at fs idx) \<Longrightarrow> elems_abs n es' = elems_abs n es \<inter> elems_abs n fs"
  "(\<And>idx. bits_at es' idx = bits_at es idx - bits_at fs idx) \<Longrightarrow> elems_abs n es' = elems_abs n es - elems_abs n fs"
  by (auto simp: elems_abs_def)

lemma elems_abs_Nil [simp]: "elems_abs n [] = {}"
  by (simp add: elems_abs_def)

lemma elems_abs_nonempty: "sbv_inv n v \<Longrightarrow> elementList v \<noteq> [] \<Longrightarrow> sbv_abs n v \<noteq> {}"
  using elems_abs_eq_iff[of n "elementList v" "[]"] by (simp add: sbv_inv_def sbv_abs_def)

text \<open>C20: any sequence of \<open>Set\<close>, \<open>Reset\<close> and \<open>Test\<close> calls on a sparse bit vector keeps its
  invariant (sorted, canonical, cursor in range) and leaves exactly the set of bit positions that
  the same calls leave on an abstract set.\<close>

theorem sbv_run_refines_set:
  assumes "sbv_inv n v"
  shows "sbv_inv n (fold (bit_do_op (Sbv_Set n) (Sbv_Reset n) (Sbv_Test n)) ps v) \<and>
    sbv_abs n (fold (bit_do_op (Sbv_Set n) (Sbv_Reset n) (Sbv_Test n)) ps v) =
      fold bit_spec_op ps (sbv_abs n v)"
  using sbv64.run_refines[OF assms] by simp

theorem sbv_run_refines_set_witness:
  "sbv_abs 64 (fold (bit_do_op (Sbv_Set 64) (Sbv_Reset 64) (Sbv_Test 64)) [BSet 7, BSet 200, BReset 7] Sbv_new) = {200}"
proof -
  have "sbv_inv 64 Sbv_new" by (simp add: sbv_inv_def Sbv_new_def)
  then show ?thesis
    using sbv_run_refines_set[of 64 Sbv_new "[BSet 7, BSet 200, BReset 7]"]
    by (simp add: sbv_abs_def Sbv_new_def insert_Diff_if)
qed

text \<open>\<open>Test\<close> answers whether a position was set: after \<open>Set(b)\<close> it answers true exactly at
  \<open>b\<close> and at the positions it answered true at before, and moving the cached cursor does not
  change any answer.\<close>

lemma sbv_test_after_set:
  assumes "sbv_inv n v"
  shows "(fst (Sbv_Test n j (Sbv_Set n b v)) \<longleftrightarrow> j = b \<or> fst (Sbv_Test n j v)) \<and>
    (fst (Sbv_Test n j (snd (Sbv_Test n k v))) \<longleftrightarrow> fst (Sbv_Test n j v))"
  using sbv64.test_after_set[OF assms] sbv64.test_iff[OF assms] sbv64.inv_test[OF assms]
    sbv64.abs_test[OF assms] sbv64.test_iff by auto

text \<open>\<open>operator|=\<close> with another vector computes the union, keeps the invariant, and returns
  true exactly when the set of positions changed (the fixpoint test of the data-flow solvers).\<close>

lemma sbv_or_union:
  assumes "sbv_inv n v" "sbv_inv n w" "Sbv_or False v w = (changed, v')"
  shows "sbv_inv n v' \<and> sbv_abs n v' = sbv_abs n v \<union> sbv_abs n w \<and>
    (changed \<longleftrightarrow> sbv_abs n v' \<noteq> sbv_abs n v)"
proof (cases "elementList w = []")
  case True
  then show ?thesis using assms by (auto simp: Sbv_or_def sbv_abs_def)
next
  case False
  obtain es c where l: "or_loop (elementList v) (elementList w) False = (es, c)"
    by (cases "or_loop (elementList v) (elementList w) False")
  have ok: "elems_ok n (elementList v)" "elems_ok n (elementList w)" and n: "0 < n" "n < 2 ^ 32"
    using assms(1,2) by (simp_all add: sbv_inv_def)
  have v': "elementList v' = es" "currIter v' = 0" "changed = c"
    using assms(3) False l by (auto simp: Sbv_or_def)
  note L = or_loop_correct[OF ok l]
  have "elems_abs n es = elems_abs n (elementList v) \<union> elems_abs n (elementList w)"
    using L by (intro elems_abs_combine(1)) blast
  then show ?thesis
    using v' L n ok elems_abs_eq_iff[OF n, of es "elementList v"] by (auto simp: sbv_inv_def sbv_abs_def)
qed

text \<open>\<open>operator&=\<close> with a non-empty other vector computes the intersection, keeps the
  invariant, and returns true exactly when the set changed; with an empty one it leaves the vector
  as it is, although the intersection is empty.\<close>

lemma sbv_and_intersection:
  assumes "sbv_inv n v" "sbv_inv n w" "Sbv_and False v w = (changed, v')"
  shows "sbv_inv n v' \<and>
    sbv_abs n v' = (if sbv_abs n w = {} then sbv_abs n v else sbv_abs n v \<inter> sbv_abs n w) \<and>
    (changed \<longleftrightarrow> sbv_abs n v' \<noteq> sbv_abs n v)"
proof (cases "elementList v = [] \<or> elementList w = []")
  case True
  then show ?thesis using assms by (auto simp: Sbv_and_def sbv_abs_def)
next
  case False
  obtain es c where l: "and_loop (elementList v) (elementList w) False = (es, c)"
    by (cases "and_loop (elementList v) (elementList w) False")
  have ok: "elems_ok n (elementList v)" "elems_ok n (elementList w)" and n: "0 < n" "n < 2 ^ 32"
    using assms(1,2) by (simp_all add: sbv_inv_def)
  have v': "elementList v' = es" "currIter v' = 0" "changed = c"
    using assms(3) False l by (auto simp: Sbv_and_def)
  note L = and_loop_correct[OF ok l]
  have "elems_abs n es = elems_abs n (elementList v) \<inter> elems_abs n (elementList w)"
    using L by (intro elems_abs_combine(2)) blast
  moreover have "sbv_abs n w \<noteq> {}" using False elems_abs_nonempty[OF assms(2)] by simp
  ultimately show ?thesis
    using v' L n ok elems_abs_eq_iff[OF n, of es "elementList v"] by (auto simp: sbv_inv_def sbv_abs_def)
qed

text \<open>\<open>Diff\<close> with another vector computes the set difference, keeps the invariant and returns
  true exactly when the set changed; with itself it empties the vector.\<close>

lemma sbv_diff_difference:
  assumes "sbv_inv n v" "sbv_inv n w" "Sbv_Diff self v w = (changed, v')" "self \<Longrightarrow> w = v"
  shows "sbv_inv n v' \<and> sbv_abs n v' = sbv_abs n v - sbv_abs n w \<and>
    (changed \<longleftrightarrow> sbv_abs n v' \<noteq> sbv_abs n v)"
proof (cases "self \<or> elementList v = [] \<or> elementList w = []")
  case True
  have "Sbv_Empty v \<longleftrightarrow> elementList v = []"
  proof (cases "elementList v")
    case (Cons e es)
    with assms(1) show ?thesis by (auto simp: Sbv_Empty_def sbv_inv_def elems_ok_Cons elem_ok_def Elem_Empty_iff)
  qed (simp add: Sbv_Empty_def)
  then show ?thesis
    using True assms elems_abs_nonempty[OF assms(1)]
    by (auto simp: Sbv_Diff_def sbv_abs_def Sbv_Clear_def sbv_inv_def split: if_splits)
next
  case False
  obtain es c where l: "diff_loop (elementList v) (elementList w) False = (es, c)"
    by (cases "diff_loop (elementList v) (elementList w) False")
  have ok: "elems_ok n (elementList v)" "elems_ok n (elementList w)" and n: "0 < n" "n < 2 ^ 32"
    using assms(1,2) by (simp_all add: sbv_inv_def)
  have v': "elementList v' = es" "currIter v' = 0" "changed = c"
    using assms(3) False l by (auto simp: Sbv_Diff_def)
  note L = diff_loop_correct[OF ok l]
  have "elems_abs n es = elems_abs n (elementList v) - elems_abs n (elementList w)"
    using L by (intro elems_abs_combine(3)) blast
  then show ?thesis
    using v' L n ok elems_abs_eq_iff[OF n, of es "elementList v"] by (auto simp: sbv_inv_def sbv_abs_def)
qed

text \<open>C21: The in-place operators are the operations on sets: \<open>operator|=\<close> is the union, \<open>operator&=\<close> the
  intersection except for an empty right operand, which leaves the vector as it is, and \<open>Diff\<close> the difference.
  Each keeps the invariant and returns true exactly when the set of positions changed (the fixpoint test of the
  data-flow solvers).\<close>

theorem sbv_set_algebra:
  assumes "sbv_inv n v" "sbv_inv n w"
  shows "(case Sbv_or False v w of (changed, u) \<Rightarrow>
      sbv_inv n u \<and> sbv_abs n u = sbv_abs n v \<union> sbv_abs n w \<and> (changed \<longleftrightarrow> sbv_abs n u \<noteq> sbv_abs n v)) \<and>
    (case Sbv_and False v w of (changed, u) \<Rightarrow>
      sbv_inv n u \<and> sbv_abs n u = (if sbv_abs n w = {} then sbv_abs n v else sbv_abs n v \<inter> sbv_abs n w) \<and>
      (changed \<longleftrightarrow> sbv_abs n u \<noteq> sbv_abs n v)) \<and>
    (case Sbv_Diff False v w of (changed, u) \<Rightarrow>
      sbv_inv n u \<and> sbv_abs n u = sbv_abs n v - sbv_abs n w \<and> (changed \<longleftrightarrow> sbv_abs n u \<noteq> sbv_abs n v)) \<and>
    (case Sbv_Diff True v v of (changed, u) \<Rightarrow>
      sbv_inv n u \<and> sbv_abs n u = {} \<and> (changed \<longleftrightarrow> sbv_abs n v \<noteq> {}))"
proof -
  obtain c1 u1 c2 u2 c3 u3 c4 u4 where r: "Sbv_or False v w = (c1, u1)" "Sbv_and False v w = (c2, u2)"
    "Sbv_Diff False v w = (c3, u3)" "Sbv_Diff True v v = (c4, u4)" by (metis surj_pair)
  have "sbv_inv n u4 \<and> sbv_abs n u4 = {} \<and> (c4 \<longleftrightarrow> sbv_abs n v \<noteq> {})"
    using sbv_diff_difference[OF assms(1) assms(1) r(4)] by (auto simp only: Diff_cancel)
  then show ?thesis
    unfolding r prod.case
    using sbv_or_union[OF assms r(1)] sbv_and_intersection[OF assms r(2)] sbv_diff_difference[OF assms r(3)] by simp
qed

theorem sbv_set_algebra_witness:
  "sbv_abs 64 (snd (Sbv_or False (Sbv_Set 64 3 Sbv_new) (Sbv_Set 64 90 Sbv_new))) = {90, 3} \<and>
   sbv_abs 64 (snd (Sbv_and False (Sbv_Set 64 3 Sbv_new) (Sbv_Set 64 90 Sbv_new))) = {} \<and>
   sbv_abs 64 (snd (Sbv_Diff False (Sbv_Set 64 3 Sbv_new) (Sbv_Set 64 90 Sbv_new))) = {3}"
proof -
  have i: "sbv_inv 64 Sbv_new" by (simp add: sbv_inv_def Sbv_new_def)
  have a: "sbv_abs 64 (Sbv_Set 64 3 Sbv_new) = {3}" "sbv_abs 64 (Sbv_Set 64 90 Sbv_new) = {90}"
    using Sbv_Set_correct(2)[OF i] by (simp_all add: sbv_abs_def Sbv_new_def)
  show ?thesis
    using sbv_set_algebra[OF Sbv_Set_correct(1)[OF i, of 3] Sbv_Set_correct(1)[OF i, of 90]] a
    by (simp add: case_prod_beta)
qed


section \<open>Equality and conversion\<close>

lemma elems_eq_iff:
  "elems_ok n es \<Longrightarrow> elems_ok n fs \<Longrightarrow> elems_eq es fs \<longleftrightarrow> es = fs"
proof (induction es fs rule: elems_eq.induct)
  case (1 e es f fs)
  then have "Elem_eq e f \<longleftrightarrow> e = f"
    by (auto simp: Elem_eq_def elems_ok_Cons elem_ok_def words_eq_iff)
  with 1 show ?case by (auto simp: elems_ok_Cons)
qed auto

text \<open>C22: \<open>operator==\<close>, which compares the element lists, answers whether the two vectors hold
  the same set of positions: the representation is canonical.\<close>

theorem sbv_eq_iff_same_set:
  assumes "sbv_inv n v" "sbv_inv n w"
  shows "Sbv_eq v w \<longleftrightarrow> sbv_abs n v = sbv_abs n w"
  using assms elems_abs_eq_iff[of n "elementList v" "elementList w"]
    elems_eq_iff[of n "elementList v" "elementList w"]
  by (simp add: Sbv_eq_def sbv_abs_def sbv_inv_def)

theorem sbv_eq_iff_same_set_witness:
  "Sbv_eq (Sbv_Set 64 3 (Sbv_Set 64 90 Sbv_new)) (Sbv_Set 64 90 (Sbv_Set 64 3 Sbv_new))"
proof -
  have i: "sbv_inv 64 Sbv_new" by (simp add: sbv_inv_def Sbv_new_def)
  note S = Sbv_Set_correct[OF Sbv_Set_correct(1)[OF i]]
  show ?thesis
    using sbv_eq_iff_same_set[OF S(1)[of 3 90] S(1)[of 90 3]] S(2)[of 3 90] S(2)[of 90 3] Sbv_Set_correct(2)[OF i]
    by auto
qed

lemma bit_minus_1_odd: "odd w \<Longrightarrow> bit (w - 1) j \<longleftrightarrow> j \<noteq> 0 \<and> bit w j" for w :: "'a::len word"
  using even_bit_succ_iff[of "w - 1" j] by (cases "j = 0") (auto simp: bit_0)

lemma word_ConvertToSet_eq:
  "word_ConvertToSet tmp bitPos off res = res \<union> {off + bitPos + of_nat j | j. bit tmp j}"
proof (induction tmp bitPos off res rule: word_ConvertToSet.induct)
  case (1 tmp bitPos off res)
  show ?case
  proof (cases "tmp = 0")
    case True
    then show ?thesis by (simp add: word_ConvertToSet.simps)
  next
    case False
    define tz where "tz = ctz tmp"
    have low: "bit tmp tz" "\<And>j. j < tz \<Longrightarrow> \<not> bit tmp j"
      using ctz_least[OF False] by (simp_all add: tz_def)
    have "odd (drop_bit tz tmp)" using low(1) by (simp add: bit_iff_odd_drop_bit)
    then have bits: "bit (drop_bit tz tmp - 1) j \<longleftrightarrow> j \<noteq> 0 \<and> bit tmp (tz + j)" for j
      by (simp add: bit_minus_1_odd bit_drop_bit_eq)
    have "word_ConvertToSet tmp bitPos off res =
        word_ConvertToSet (drop_bit tz tmp - 1) (bitPos + of_nat tz) off (insert (off + (bitPos + of_nat tz)) res)"
      using False by (subst word_ConvertToSet.simps) (simp add: tz_def Let_def)
    also have "\<dots> = insert (off + (bitPos + of_nat tz)) res \<union>
        {off + (bitPos + of_nat tz) + of_nat j | j. j \<noteq> 0 \<and> bit tmp (tz + j)}"
      using "1.IH"[OF False] by (simp add: tz_def[symmetric] bits)
    also have "{off + (bitPos + of_nat tz) + of_nat j | j. j \<noteq> 0 \<and> bit tmp (tz + j)} =
        {off + bitPos + of_nat k | k. k > tz \<and> bit tmp k}"
    proof -
      have "(\<exists>j. x = off + (bitPos + of_nat tz) + of_nat j \<and> j \<noteq> 0 \<and> bit tmp (tz + j)) \<longleftrightarrow>
            (\<exists>k. x = off + bitPos + of_nat k \<and> k > tz \<and> bit tmp k)" for x
      proof
        assume "\<exists>j. x = off + (bitPos + of_nat tz) + of_nat j \<and> j \<noteq> 0 \<and> bit tmp (tz + j)"
        then obtain j where "x = off + bitPos + of_nat (tz + j)" "tz + j > tz" "bit tmp (tz + j)"
          by (auto simp: algebra_simps)
        then show "\<exists>k. x = off + bitPos + of_nat k \<and> k > tz \<and> bit tmp k" by blast
      next
        assume "\<exists>k. x = off + bitPos + of_nat k \<and> k > tz \<and> bit tmp k"
        then obtain k where k: "x = off + bitPos + of_nat k" "k > tz" "bit tmp k" by blast
        then have "x = off + (bitPos + of_nat tz) + of_nat (k - tz)" by (simp add: algebra_simps)
        with k show "\<exists>j. x = off + (bitPos + of_nat tz) + of_nat j \<and> j \<noteq> 0 \<and> bit tmp (tz + j)"
          by (intro exI[of _ "k - tz"]) simp
      qed
      then show ?thesis by blast
    qed
    also have "insert (off + (bitPos + of_nat tz)) res \<union> {off + bitPos + of_nat k | k. k > tz \<and> bit tmp k} =
        res \<union> {off + bitPos + of_nat j | j. bit tmp j}"
      using low by (auto simp: algebra_simps) (metis linorder_neqE_nat)
    finally show ?thesis .
  qed
qed

lemma words_ConvertToSet_eq:
  "words_ConvertToSet ws off res = res \<union> {off + of_nat i | i. words_bit ws i}"
proof (induction ws off res rule: words_ConvertToSet.induct)
  case (1 off res)
  then show ?case by (simp add: words_bit_def)
next
  case (2 w ws off res)
  have "{off + of_nat i | i. words_bit (w # ws) i} =
      {off + of_nat i | i. bit w i} \<union> {off + 64 + of_nat i | i. words_bit ws i}" (is "?L = ?A \<union> ?B")
  proof
    show "?L \<subseteq> ?A \<union> ?B"
    proof
      fix x assume "x \<in> ?L"
      then obtain i where i: "x = off + of_nat i" "words_bit (w # ws) i" by blast
      show "x \<in> ?A \<union> ?B"
      proof (cases "i < 64")
        case False
        then have "x = off + 64 + of_nat (i - 64)" using i(1) by simp
        with False i(2) show ?thesis by (auto simp: words_bit_Cons)
      qed (use i in \<open>auto simp: words_bit_Cons\<close>)
    qed
    show "?A \<union> ?B \<subseteq> ?L"
    proof
      fix x assume "x \<in> ?A \<union> ?B"
      then consider i where "x = off + of_nat i" "bit w i" | i where "x = off + 64 + of_nat i" "words_bit ws i"
        by blast
      then show "x \<in> ?L"
      proof cases
        case 1
        moreover have "i < 64" using bit_imp_le_length[OF 1(2)] by simp
        ultimately show ?thesis by (auto simp: words_bit_Cons)
      next
        case 2
        then have "x = off + of_nat (i + 64)" "words_bit (w # ws) (i + 64)"
          by (simp_all add: words_bit_Cons)
        then show ?thesis by blast
      qed
    qed
  qed
  then show ?case using 2 by (simp add: word_ConvertToSet_eq Un_assoc)
qed

lemma elems_ConvertToSet_eq:
  assumes n: "0 < n" "n < 2 ^ 32"
  shows "elems_ok n es \<Longrightarrow> elems_ConvertToSet n es res = res \<union> elems_abs n es"
proof (induction es arbitrary: res)
  case Nil
  then show ?case by simp
next
  case (Cons e es)
  then have ok: "elem_ok n e" "elems_ok n es" by (auto simp: elems_ok_Cons)
  have "{of_nat n * e_index e + of_nat i | i. words_bit (e_words e) i} = elems_abs n [e]"
  proof (intro equalityI subsetI)
    fix b assume "b \<in> {of_nat n * e_index e + of_nat i | i. words_bit (e_words e) i}"
    then obtain i where i: "words_bit (e_words e) i" and b: "b = of_nat (unat (e_index e) * n + i)"
      by (auto simp: mult.commute)
    then show "b \<in> elems_abs n [e]"
      using ok(1) u32_of_parts[OF n, of i "e_index e"] by (auto simp: elems_abs_def bits_at_Cons elem_ok_def)
  next
    fix b :: u32 assume "b \<in> elems_abs n [e]"
    then have "e_index e = b div of_nat n" "words_bit (e_words e) (unat (b mod of_nat n))"
      by (auto simp: elems_abs_def bits_at_Cons split: if_splits)
    moreover have "b = of_nat n * (b div of_nat n) + of_nat (unat (b mod of_nat n))"
      by (simp add: mult_div_mod_eq)
    ultimately show "b \<in> {of_nat n * e_index e + of_nat i | i. words_bit (e_words e) i}"
      unfolding mem_Collect_eq by metis
  qed
  moreover have "elems_abs n (e # es) = elems_abs n [e] \<union> elems_abs n es"
    by (auto simp: elems_abs_def bits_at_Cons)
  ultimately show ?case
    using Cons.IH[OF ok(2)] by (simp add: Elem_ConvertToSet_def words_ConvertToSet_eq Un_assoc)
qed

text \<open>C23: \<open>ConvertToSet\<close> inserts into the result set exactly the positions that the vector holds
  (the count-trailing-zeros loop finds every set bit once and stops).\<close>

theorem sbv_convert_roundtrip:
  assumes "sbv_inv n v"
  shows "Sbv_ConvertToSet n v res = res \<union> sbv_abs n v"
  using assms by (simp add: Sbv_ConvertToSet_def sbv_abs_def sbv_inv_def elems_ConvertToSet_eq)

theorem sbv_convert_roundtrip_witness:
  "Sbv_ConvertToSet 64 (Sbv_Set 64 3 (Sbv_Set 64 90 Sbv_new)) {} = {3, 90}"
proof -
  have i: "sbv_inv 64 Sbv_new" by (simp add: sbv_inv_def Sbv_new_def)
  note S = Sbv_Set_correct[OF Sbv_Set_correct(1)[OF i]]
  show ?thesis
    using sbv_convert_roundtrip[OF S(1)[of 3 90]] S(2)[of 3 90] Sbv_Set_correct(2)[OF i, of 90]
    by (simp add: sbv_abs_def Sbv_new_def)
qed

end
