(* ===== verification/Alloc_Utils.thy ===== *)
theory Alloc_Utils
  imports Prelude
begin

text \<open>
  The rounding and page arithmetic of the runtime's allocator,
  \<^verbatim>\<open>src/src/mrt/compiler-rt/include/allocator/alloc_utils.h\<close>. Sizes and addresses are 64-bit
  words (\<open>size_t\<close>, \<open>uintptr_t\<close>), so adding \<open>n - 1\<close> before rounding down may wrap around; the
  lemmas say when it does not.
\<close>

unbundle bit_operations_syntax

definition ALLOCUTIL_PAGE_SIZE :: u64 where
  "ALLOCUTIL_PAGE_SIZE = 0x1000"

definition kAllocUtilLogPageSize :: nat where
  "kAllocUtilLogPageSize = 12"

definition ALLOCUTIL_PAGE_BYTE2CNT :: "u64 \<Rightarrow> u64" where
  "ALLOCUTIL_PAGE_BYTE2CNT x = drop_bit kAllocUtilLogPageSize x"

definition ALLOCUTIL_PAGE_CNT2BYTE :: "u64 \<Rightarrow> u64" where
  "ALLOCUTIL_PAGE_CNT2BYTE x = push_bit kAllocUtilLogPageSize x"

definition ALLOCUTIL_PAGE_RND_DOWN :: "u64 \<Rightarrow> u64" where
  "ALLOCUTIL_PAGE_RND_DOWN x = x AND NOT (ALLOCUTIL_PAGE_SIZE - 1)"

definition ALLOCUTIL_PAGE_RND_UP :: "u64 \<Rightarrow> u64" where
  "ALLOCUTIL_PAGE_RND_UP x = (x + ALLOCUTIL_PAGE_SIZE - 1) AND NOT (ALLOCUTIL_PAGE_SIZE - 1)"

definition ALLOCUTIL_PAGE_ADDR :: "u64 \<Rightarrow> u64" where
  "ALLOCUTIL_PAGE_ADDR x = x AND NOT (ALLOCUTIL_PAGE_SIZE - 1)"

definition AllocUtilRndDown :: "u64 \<Rightarrow> u64 \<Rightarrow> u64" where
  "AllocUtilRndDown x n = x AND (- n)"

definition AllocUtilRndUp :: "u64 \<Rightarrow> u64 \<Rightarrow> u64" where
  "AllocUtilRndUp x n = AllocUtilRndDown (x + n - 1) n"

section \<open>Rounding to a power of two\<close>

lemma and_not_mask_unat:
  "unat (x AND NOT (mask k)) = unat x div 2 ^ k * 2 ^ k" for x :: u64
proof -
  have "x AND NOT (mask k) = push_bit k (drop_bit k x)"
    by (rule bit_word_eqI) (auto simp: bit_simps)
  moreover have "unat (push_bit k (drop_bit k x)) = take_bit LENGTH(64) (push_bit k (drop_bit k (unat x)))"
    by (simp only: unsigned_push_bit_eq unat_drop_bit_eq)
  moreover have "push_bit k (drop_bit k (unat x)) = unat x div 2 ^ k * 2 ^ k"
    by (simp only: push_bit_eq_mult drop_bit_eq_div)
  moreover have "unat x div 2 ^ k * 2 ^ k < 2 ^ 64"
    by (rule order_le_less_trans[OF div_times_less_eq_dividend]) (use unsigned_less[of x] in simp)
  ultimately show ?thesis by (simp add: take_bit_nat_eq_self)
qed

lemma AllocUtilRndDown_unat:
  "unat (AllocUtilRndDown x (2 ^ k)) = unat x div 2 ^ k * 2 ^ k"
  by (simp add: AllocUtilRndDown_def minus_exp_eq_not_mask and_not_mask_unat)

lemma unat_add_pred:
  assumes "k < 64" "unat x + 2 ^ k \<le> 2 ^ 64"
  shows "unat (x + 2 ^ k - 1 :: u64) = unat x + 2 ^ k - 1"
proof -
  have "(of_nat (2 ^ k - 1) :: u64) = 2 ^ k - 1" by (simp add: of_nat_diff)
  then have "x + 2 ^ k - 1 = of_nat (unat x + (2 ^ k - 1))" by (simp only: of_nat_add) simp
  also have "unat \<dots> = take_bit 64 (unat x + (2 ^ k - 1))" by (simp add: unat_of_nat take_bit_eq_mod del: of_nat_add)
  also have "\<dots> = unat x + (2 ^ k - 1)" using assms(2) by (simp add: take_bit_nat_eq_self_iff)
  finally show ?thesis by simp
qed

lemma round_up_nat:
  fixes x n :: nat
  assumes "0 < n"
  shows "x \<le> (x + n - 1) div n * n" "(x + n - 1) div n * n < x + n"
proof -
  have e: "(x + n - 1) div n * n + (x + n - 1) mod n = x + n - 1" by simp
  moreover have "(x + n - 1) mod n \<le> n - 1" using assms using mod_less_divisor[OF assms, of "x + n - 1"] by linarith
  ultimately show "x \<le> (x + n - 1) div n * n" "(x + n - 1) div n * n < x + n"
    using assms by linarith+
qed

lemma AllocUtilRndUp_unat:
  assumes "k < 64" "unat x + 2 ^ k \<le> 2 ^ 64"
  shows "unat (AllocUtilRndUp x (2 ^ k)) = (unat x + 2 ^ k - 1) div 2 ^ k * 2 ^ k"
  using assms by (simp add: AllocUtilRndUp_def AllocUtilRndDown_unat unat_add_pred)

lemma PAGE_SIZE_exp: "ALLOCUTIL_PAGE_SIZE = 2 ^ 12"
  by (simp add: ALLOCUTIL_PAGE_SIZE_def)

lemma PAGE_RND_UP_eq: "ALLOCUTIL_PAGE_RND_UP x = AllocUtilRndUp x (2 ^ 12)"
  by (simp add: ALLOCUTIL_PAGE_RND_UP_def AllocUtilRndUp_def AllocUtilRndDown_def PAGE_SIZE_exp
      minus_exp_eq_not_mask mask_eq_decr_exp[symmetric] del: power_numeral)

lemma PAGE_RND_DOWN_eq: "ALLOCUTIL_PAGE_RND_DOWN x = AllocUtilRndDown x (2 ^ 12)"
  by (simp add: ALLOCUTIL_PAGE_RND_DOWN_def AllocUtilRndDown_def PAGE_SIZE_exp
      minus_exp_eq_not_mask mask_eq_decr_exp[symmetric] del: power_numeral)

lemma PAGE_ADDR_eq: "ALLOCUTIL_PAGE_ADDR x = ALLOCUTIL_PAGE_RND_DOWN x"
  by (simp add: ALLOCUTIL_PAGE_ADDR_def ALLOCUTIL_PAGE_RND_DOWN_def)

lemma BYTE2CNT_unat: "unat (ALLOCUTIL_PAGE_BYTE2CNT x) = unat x div 4096"
  by (simp add: ALLOCUTIL_PAGE_BYTE2CNT_def kAllocUtilLogPageSize_def drop_bit_eq_div unat_div_distrib)

lemma CNT2BYTE_unat:
  assumes "unat x * 4096 < 2 ^ 64"
  shows "unat (ALLOCUTIL_PAGE_CNT2BYTE x) = unat x * 4096"
  using assms
  by (simp add: ALLOCUTIL_PAGE_CNT2BYTE_def kAllocUtilLogPageSize_def push_bit_eq_mult unat_word_ariths)

text \<open>Rounding up to a power of two gives the least multiple of it that is not below the
  argument, as long as the sum does not wrap around; the page variants round to 4096 bytes.\<close>

theorem rnd_up_least_multiple:
  assumes "k < 64" "unat x + 2 ^ k \<le> 2 ^ 64"
  shows "2 ^ k dvd unat (AllocUtilRndUp x (2 ^ k)) \<and> unat x \<le> unat (AllocUtilRndUp x (2 ^ k)) \<and>
    unat (AllocUtilRndUp x (2 ^ k)) < unat x + 2 ^ k"
  using round_up_nat[of "2 ^ k" "unat x"] by (simp add: AllocUtilRndUp_unat[OF assms])

theorem rnd_up_least_multiple_witness:
  "unat (AllocUtilRndUp 100 (2 ^ 3)) < 108 \<and> 100 \<le> unat (AllocUtilRndUp 100 (2 ^ 3))"
  using rnd_up_least_multiple[of 3 100] by simp

end
