(* ===== verification/Alloc_Deque.thy ===== *)
theory Alloc_Deque
  imports Alloc_Utils
begin

text \<open>
  The deques and the fixed-size native allocator that the runtime's page allocator uses for its
  own bookkeeping, \<^verbatim>\<open>src/src/mrt/compiler-rt/include/allocator/deque.h\<close>.

  A \<open>SingleUseDeque\<close> lives in a mapped memory range: addresses are 64-bit words and the memory is a
  function from addresses to values. A \<open>LocalDeque\<close> keeps its first 512 values in an array on the
  stack and spills the rest into a \<open>SingleUseDeque\<close>. The debug assertions of the file are compiled
  out (\<open>DEBUG_DEQUE\<close> is false), so a push beyond the end of the range is not refused; the lemmas
  account for the room that is left.
\<close>

unbundle bit_operations_syntax

section \<open>Interfaces\<close>

text \<open>A queue with a bounded number of pushes.\<close>

locale queue_ops =
  fixes inv :: "'s \<Rightarrow> bool"
    and abs :: "'s \<Rightarrow> 'v list"
    and budget :: "'s \<Rightarrow> nat"
    and is_empty :: "'s \<Rightarrow> bool"
    and push :: "'v \<Rightarrow> 's \<Rightarrow> 's"
    and front :: "'s \<Rightarrow> 'v"
    and pop_front :: "'s \<Rightarrow> 's"
  assumes empty_iff: "inv s \<Longrightarrow> is_empty s \<longleftrightarrow> abs s = []"
    and inv_push: "inv s \<Longrightarrow> 0 < budget s \<Longrightarrow> inv (push v s)"
    and abs_push: "inv s \<Longrightarrow> 0 < budget s \<Longrightarrow> abs (push v s) = abs s @ [v]"
    and budget_push: "inv s \<Longrightarrow> 0 < budget s \<Longrightarrow> budget (push v s) = budget s - 1"
    and front_hd: "inv s \<Longrightarrow> abs s \<noteq> [] \<Longrightarrow> front s = hd (abs s)"
    and inv_pop_front: "inv s \<Longrightarrow> abs s \<noteq> [] \<Longrightarrow> inv (pop_front s)"
    and abs_pop_front: "inv s \<Longrightarrow> abs s \<noteq> [] \<Longrightarrow> abs (pop_front s) = tl (abs s)"
    and budget_pop_front: "inv s \<Longrightarrow> abs s \<noteq> [] \<Longrightarrow> budget (pop_front s) = budget s"
begin

lemma push_all:
  "inv s \<Longrightarrow> length vs \<le> budget s \<Longrightarrow>
     inv (fold push vs s) \<and> abs (fold push vs s) = abs s @ vs \<and> budget (fold push vs s) = budget s - length vs"
  by (induction vs arbitrary: s) (auto simp: inv_push abs_push budget_push)

end

text \<open>Taking values out until the container is empty, with a bound on the number of steps.\<close>

fun drain :: "('s \<Rightarrow> bool) \<Rightarrow> ('s \<Rightarrow> 'v) \<Rightarrow> ('s \<Rightarrow> 's) \<Rightarrow> nat \<Rightarrow> 's \<Rightarrow> 'v list" where
  "drain em rd pp 0 s = []"
| "drain em rd pp (Suc n) s = (if em s then [] else rd s # drain em rd pp n (pp s))"

context queue_ops
begin

lemma drain_front:
  "inv s \<Longrightarrow> length (abs s) \<le> n \<Longrightarrow> drain is_empty front pop_front n s = abs s"
proof (induction n arbitrary: s)
  case (Suc n)
  then show ?case
    by (cases "abs s") (auto simp: empty_iff front_hd inv_pop_front abs_pop_front)
qed simp

end

text \<open>A stack on the same state: pops are exact in the states marked by \<open>exact\<close>.\<close>

locale stack_ops = queue_ops inv abs budget is_empty push front pop_front
  for inv :: "'s \<Rightarrow> bool" and abs :: "'s \<Rightarrow> 'v list" and budget is_empty push front pop_front +
  fixes exact :: "'s \<Rightarrow> bool" and top :: "'s \<Rightarrow> 'v" and pop :: "'s \<Rightarrow> 's"
  assumes top_last: "inv s \<Longrightarrow> abs s \<noteq> [] \<Longrightarrow> top s = last (abs s)"
    and inv_pop: "inv s \<Longrightarrow> abs s \<noteq> [] \<Longrightarrow> inv (pop s)"
    and abs_pop: "inv s \<Longrightarrow> exact s \<Longrightarrow> abs s \<noteq> [] \<Longrightarrow> abs (pop s) = butlast (abs s)"
    and exact_pop: "inv s \<Longrightarrow> exact s \<Longrightarrow> abs s \<noteq> [] \<Longrightarrow> exact (pop s)"
begin

lemma drain_top:
  "inv s \<Longrightarrow> exact s \<Longrightarrow> length (abs s) \<le> n \<Longrightarrow> drain is_empty top pop n s = rev (abs s)"
proof (induction n arbitrary: s)
  case (Suc n)
  show ?case
  proof (cases "abs s" rule: rev_cases)
    case Nil
    then show ?thesis using Suc.prems by (simp add: empty_iff)
  next
    case (snoc ys y)
    then show ?thesis using Suc by (auto simp: empty_iff top_last inv_pop abs_pop exact_pop)
  qed
qed simp

end

section \<open>SingleUseDeque\<close>

record 'v sud =
  beginAddr :: u64
  frontAddr :: u64
  topAddr :: u64
  endAddr :: u64
  mem :: "u64 \<Rightarrow> 'v"

definition kValSize :: u64 where
  "kValSize = 8"

definition Sud_Clear :: "'v sud \<Rightarrow> 'v sud" where
  "Sud_Clear q = q\<lparr>frontAddr := beginAddr q, topAddr := beginAddr q - kValSize\<rparr>"

text \<open>\<open>Init\<close> takes the base and the end of the memory map, which the operating system chooses.\<close>

definition Sud_Init :: "u64 \<Rightarrow> u64 \<Rightarrow> 'v sud \<Rightarrow> 'v sud" where
  "Sud_Init base currEnd q = Sud_Clear (q\<lparr>beginAddr := base, endAddr := currEnd\<rparr>)"

definition Sud_Empty :: "'v sud \<Rightarrow> bool" where
  "Sud_Empty q \<longleftrightarrow> topAddr q < frontAddr q"

definition Sud_Push :: "'v \<Rightarrow> 'v sud \<Rightarrow> 'v sud" where
  "Sud_Push v q =
     (let t = topAddr q + kValSize in q\<lparr>topAddr := t, mem := (mem q)(t := v)\<rparr>)"

definition Sud_Top :: "'v sud \<Rightarrow> 'v" where
  "Sud_Top q = mem q (topAddr q)"

definition Sud_Pop :: "'v sud \<Rightarrow> 'v sud" where
  "Sud_Pop q = q\<lparr>topAddr := topAddr q - kValSize\<rparr>"

definition Sud_Front :: "'v sud \<Rightarrow> 'v" where
  "Sud_Front q = mem q (frontAddr q)"

definition Sud_PopFront :: "'v sud \<Rightarrow> 'v sud" where
  "Sud_PopFront q = q\<lparr>frontAddr := frontAddr q + kValSize\<rparr>"

section \<open>LocalDeque\<close>

text \<open>\<open>kLocalLength\<close> is the page size divided by the size of a pointer; the indices are C ints.\<close>

definition kLocalLength :: int where
  "kLocalLength = 512"

record 'v local_deque =
  ld_front :: int
  ld_top :: int
  ld_sud :: "'v sud"
  ld_array :: "int \<Rightarrow> 'v"

definition Ld_new :: "'v sud \<Rightarrow> (int \<Rightarrow> 'v) \<Rightarrow> 'v local_deque" where
  "Ld_new q arr = \<lparr>ld_front = 0, ld_top = - 1, ld_sud = q, ld_array = arr\<rparr>"

definition Ld_SetSud :: "'v sud \<Rightarrow> 'v local_deque \<Rightarrow> 'v local_deque" where
  "Ld_SetSud q d = d\<lparr>ld_sud := q\<rparr>"

definition Ld_Empty :: "'v local_deque \<Rightarrow> bool" where
  "Ld_Empty d \<longleftrightarrow> ld_top d < ld_front d \<or> (ld_front d = kLocalLength \<and> Sud_Empty (ld_sud d))"

definition Ld_Push :: "'v \<Rightarrow> 'v local_deque \<Rightarrow> 'v local_deque" where
  "Ld_Push v d =
     (if ld_top d < kLocalLength - 1 then
        (let t = ld_top d + 1 in d\<lparr>ld_top := t, ld_array := (ld_array d)(t := v)\<rparr>)
      else let d' = (if ld_top d = kLocalLength - 1
                     then d\<lparr>ld_top := ld_top d + 1, ld_sud := Sud_Clear (ld_sud d)\<rparr> else d)
           in d'\<lparr>ld_sud := Sud_Push v (ld_sud d')\<rparr>)"

definition Ld_Top :: "'v local_deque \<Rightarrow> 'v" where
  "Ld_Top d = (if ld_top d < kLocalLength then ld_array d (ld_top d) else Sud_Top (ld_sud d))"

definition Ld_Pop :: "'v local_deque \<Rightarrow> 'v local_deque" where
  "Ld_Pop d =
     (if ld_top d < kLocalLength then d\<lparr>ld_top := ld_top d - 1\<rparr>
      else let d' = d\<lparr>ld_sud := Sud_Pop (ld_sud d)\<rparr>
           in if ld_front d' < kLocalLength then d'\<lparr>ld_top := ld_top d' - 1\<rparr> else d')"

definition Ld_Front :: "'v local_deque \<Rightarrow> 'v" where
  "Ld_Front d = (if ld_front d < kLocalLength then ld_array d (ld_front d) else Sud_Front (ld_sud d))"

definition Ld_PopFront :: "'v local_deque \<Rightarrow> 'v local_deque" where
  "Ld_PopFront d =
     (if ld_front d < kLocalLength then d\<lparr>ld_front := ld_front d + 1\<rparr>
      else d\<lparr>ld_sud := Sud_PopFront (ld_sud d)\<rparr>)"

section \<open>The single-use deque as a list\<close>

definition sud_fi :: "'v sud \<Rightarrow> nat" where
  "sud_fi q = unat (frontAddr q - beginAddr q) div 8"

definition sud_tj :: "'v sud \<Rightarrow> nat" where
  "sud_tj q = unat (topAddr q + 8 - beginAddr q) div 8"

definition sud_cap :: "'v sud \<Rightarrow> nat" where
  "sud_cap q = (unat (endAddr q) - unat (beginAddr q)) div 8"

definition sud_rep :: "'v sud \<Rightarrow> nat \<Rightarrow> nat \<Rightarrow> bool" where
  "sud_rep q i j \<longleftrightarrow> 8 \<le> unat (beginAddr q) \<and> i \<le> j \<and> unat (beginAddr q) \<le> unat (endAddr q) \<and>
     j \<le> sud_cap q \<and> frontAddr q = beginAddr q + of_nat (8 * i) \<and> topAddr q = beginAddr q + of_nat (8 * j) - 8"

definition sud_inv :: "'v sud \<Rightarrow> bool" where
  "sud_inv q \<longleftrightarrow> sud_rep q (sud_fi q) (sud_tj q)"

definition sud_abs :: "'v sud \<Rightarrow> 'v list" where
  "sud_abs q = map (\<lambda>k. mem q (beginAddr q + of_nat (8 * k))) [sud_fi q..<sud_tj q]"

definition sud_room :: "'v sud \<Rightarrow> nat" where
  "sud_room q = sud_cap q - sud_tj q"

lemma sud_cap_bound: "unat (beginAddr q) \<le> unat (endAddr q) \<Longrightarrow> j \<le> sud_cap q \<Longrightarrow> unat (beginAddr q) + 8 * j \<le> unat (endAddr q)"
  unfolding sud_cap_def by linarith

lemma sud_addr:
  assumes "sud_rep q i j" "k \<le> sud_cap q"
  shows "unat (beginAddr q + of_nat (8 * k)) = unat (beginAddr q) + 8 * k"
proof -
  have "unat (beginAddr q) + 8 * k < 2 ^ 64"
    using assms sud_cap_bound[of q k] unat_less_u64[of "endAddr q"] by (simp add: sud_rep_def)
  moreover have "beginAddr q + of_nat (8 * k) = of_nat (unat (beginAddr q) + 8 * k)" by simp
  ultimately show ?thesis using u64_of_nat_unat by metis
qed

lemma sud_rep_idx:
  assumes "sud_rep q i j"
  shows "sud_fi q = i" "sud_tj q = j"
proof -
  have b: "8 * j < 2 ^ 64"
    using assms sud_cap_bound[of q j] unat_less_u64[of "endAddr q"] by (simp add: sud_rep_def)
  have "frontAddr q - beginAddr q = of_nat (8 * i)" "topAddr q + 8 - beginAddr q = of_nat (8 * j)"
    using assms by (simp_all add: sud_rep_def del: of_nat_mult)
  moreover have "8 * i < 2 ^ 64" using b assms by (simp add: sud_rep_def)
  ultimately show "sud_fi q = i" "sud_tj q = j"
    unfolding sud_fi_def sud_tj_def using b by (simp_all only: u64_of_nat_unat nonzero_mult_div_cancel_left)
qed

lemma sud_inv_rep: "sud_inv q \<longleftrightarrow> (\<exists>i j. sud_rep q i j)"
  unfolding sud_inv_def using sud_rep_idx by metis

lemma sud_repE:
  assumes "sud_inv q"
  obtains i j where "sud_rep q i j" "sud_fi q = i" "sud_tj q = j" "i \<le> j" "j \<le> sud_cap q"
  using assms sud_rep_idx by (auto simp: sud_inv_def sud_rep_def)

lemma Sud_Clear_rep:
  assumes "8 \<le> unat (beginAddr q)" "unat (beginAddr q) \<le> unat (endAddr q)"
  shows "sud_rep (Sud_Clear q) 0 0" "sud_cap (Sud_Clear q) = sud_cap q"
  using assms by (simp_all add: sud_rep_def Sud_Clear_def kValSize_def sud_cap_def)

lemma Sud_Push_rep:
  assumes "sud_rep q i j" "j < sud_cap q"
  shows "sud_rep (Sud_Push v q) i (Suc j)" "sud_cap (Sud_Push v q) = sud_cap q"
    "mem (Sud_Push v q) = (mem q)(beginAddr q + of_nat (8 * j) := v)" "beginAddr (Sud_Push v q) = beginAddr q"
  using assms by (auto simp: sud_rep_def Sud_Push_def kValSize_def sud_cap_def Let_def algebra_simps)

lemma Sud_PopFront_rep:
  assumes "sud_rep q i j" "i < j"
  shows "sud_rep (Sud_PopFront q) (Suc i) j"
  using assms by (simp add: sud_rep_def Sud_PopFront_def kValSize_def sud_cap_def algebra_simps)

lemma Sud_Pop_rep:
  assumes "sud_rep q i j" "i < j"
  shows "sud_rep (Sud_Pop q) i (j - 1)"
proof -
  obtain k where "j = Suc k" using assms(2) by (cases j) auto
  then show ?thesis using assms
    by (simp add: sud_rep_def Sud_Pop_def kValSize_def sud_cap_def algebra_simps)
qed

lemma sud_abs_rep:
  "sud_rep q i j \<Longrightarrow> sud_abs q = map (\<lambda>k. mem q (beginAddr q + of_nat (8 * k))) [i..<j]"
  by (simp add: sud_abs_def sud_rep_idx)

lemma sud_addr_inj:
  assumes "sud_rep q i j" "k \<le> sud_cap q" "l \<le> sud_cap q" "beginAddr q + of_nat (8 * k) = beginAddr q + of_nat (8 * l)"
  shows "k = l"
proof -
  have "unat (beginAddr q) + 8 * k = unat (beginAddr q) + 8 * l"
    using sud_addr[OF assms(1,2)] sud_addr[OF assms(1,3)] unfolding assms(4) by (rule trans[OF sym])
  then show ?thesis by simp
qed

lemma Sud_Empty_iff: "sud_inv q \<Longrightarrow> Sud_Empty q \<longleftrightarrow> sud_abs q = []"
proof (erule sud_repE)
  fix i j assume r: "sud_rep q i j" and le: "i \<le> j" "j \<le> sud_cap q"
  have t: "unat (topAddr q) = unat (beginAddr q) + 8 * j - 8"
  proof -
    have "unat (beginAddr q + of_nat (8 * j)) = unat (beginAddr q) + 8 * j" by (rule sud_addr[OF r le(2)])
    moreover have "8 \<le> unat (beginAddr q)" "topAddr q = beginAddr q + of_nat (8 * j) - 8"
      using r by (simp_all add: sud_rep_def)
    moreover have "unat (w - 8) = unat w - 8" if "8 \<le> unat w" for w :: u64
      using that unat_sub[of 8 w] by (simp add: word_le_nat_alt)
    ultimately show ?thesis by (metis trans_le_add1)
  qed
  have f: "unat (frontAddr q) = unat (beginAddr q) + 8 * i"
    using sud_addr[OF r, of i] r le by (simp add: sud_rep_def)
  show ?thesis
    using r le t f by (auto simp: Sud_Empty_def word_less_nat_alt sud_abs_rep[OF r] sud_rep_def)
qed

lemma Sud_Push_abs:
  assumes "sud_rep q i j" "j < sud_cap q"
  shows "sud_abs (Sud_Push v q) = sud_abs q @ [v]"
proof -
  note P = Sud_Push_rep[OF assms]
  have "map (mem (Sud_Push v q) \<circ> (\<lambda>k. beginAddr q + of_nat (8 * k))) [i..<j] =
      map (mem q \<circ> (\<lambda>k. beginAddr q + of_nat (8 * k))) [i..<j]"
    unfolding P(3)
  proof (rule map_cong[OF refl])
    fix k assume k: "k \<in> set [i..<j]"
    have "beginAddr q + of_nat (8 * k) \<noteq> beginAddr q + of_nat (8 * j)"
      using sud_addr_inj[OF assms(1), of k j] assms(2) k by auto
    then show "((mem q)(beginAddr q + of_nat (8 * j) := v) \<circ> (\<lambda>k. beginAddr q + of_nat (8 * k))) k =
        (mem q \<circ> (\<lambda>k. beginAddr q + of_nat (8 * k))) k" by (simp del: of_nat_mult)
  qed
  moreover have "i \<le> j" using assms(1) by (simp add: sud_rep_def)
  ultimately show ?thesis
    by (simp add: sud_abs_rep[OF P(1)] sud_abs_rep[OF assms(1)] P(3,4) comp_def del: of_nat_mult of_nat_Suc)
qed

lemma Sud_Front_hd: "sud_rep q i j \<Longrightarrow> i < j \<Longrightarrow> Sud_Front q = hd (sud_abs q)"
  by (simp add: sud_abs_rep Sud_Front_def upt_conv_Cons) (simp add: sud_rep_def)

lemma Sud_PopFront_abs: "sud_rep q i j \<Longrightarrow> i < j \<Longrightarrow> sud_abs (Sud_PopFront q) = tl (sud_abs q)"
  by (simp add: sud_abs_rep[OF Sud_PopFront_rep] sud_abs_rep upt_conv_Cons del: of_nat_mult)
    (simp add: Sud_PopFront_def)

lemma Sud_Top_last: "sud_rep q i j \<Longrightarrow> i < j \<Longrightarrow> Sud_Top q = last (sud_abs q)"
  by (cases j) (simp_all add: sud_abs_rep Sud_Top_def, simp add: sud_rep_def)

lemma Sud_Pop_abs: "sud_rep q i j \<Longrightarrow> i < j \<Longrightarrow> sud_abs (Sud_Pop q) = butlast (sud_abs q)"
  by (cases j) (simp_all add: sud_abs_rep[OF Sud_Pop_rep] sud_abs_rep butlast_append del: of_nat_mult upt_Suc,
    simp_all add: Sud_Pop_def)

lemma sud_abs_Nil_iff: "sud_rep q i j \<Longrightarrow> sud_abs q = [] \<longleftrightarrow> i = j"
  by (simp add: sud_abs_rep) (auto simp: sud_rep_def)

lemma sud_rep_cap:
  "sud_cap (Sud_PopFront q) = sud_cap q" "sud_cap (Sud_Pop q) = sud_cap q"
  by (simp_all add: sud_cap_def Sud_PopFront_def Sud_Pop_def)

lemma sud_room_rep: "sud_rep q i j \<Longrightarrow> sud_room q = sud_cap q - j"
  by (simp add: sud_room_def sud_rep_idx)

interpretation sudq: stack_ops sud_inv sud_abs sud_room Sud_Empty Sud_Push Sud_Front Sud_PopFront
  "\<lambda>_. True" Sud_Top Sud_Pop
proof
  fix q :: "'v sud" and v :: 'v
  assume i: "sud_inv q"
  then obtain i j where r: "sud_rep q i j" "i \<le> j" by (elim sud_repE)
  show "Sud_Empty q \<longleftrightarrow> sud_abs q = []" using i by (rule Sud_Empty_iff)
  show "sud_inv (Sud_Push v q)" "sud_abs (Sud_Push v q) = sud_abs q @ [v]"
    "sud_room (Sud_Push v q) = sud_room q - 1" if "0 < sud_room q"
  proof -
    have c: "j < sud_cap q" using that r by (simp add: sud_room_rep)
    note P = Sud_Push_rep[OF r(1) c]
    show "sud_inv (Sud_Push v q)" using P(1) by (auto simp: sud_inv_rep)
    show "sud_abs (Sud_Push v q) = sud_abs q @ [v]" by (rule Sud_Push_abs[OF r(1) c])
    show "sud_room (Sud_Push v q) = sud_room q - 1"
      by (simp add: sud_room_rep[OF P(1)] sud_room_rep[OF r(1)] P(2))
  qed
  assume ne: "sud_abs q \<noteq> []"
  then have lt: "i < j" using r sud_abs_Nil_iff[OF r(1)] by simp
  show "Sud_Front q = hd (sud_abs q)" "Sud_Top q = last (sud_abs q)"
    "sud_abs (Sud_PopFront q) = tl (sud_abs q)" "sud_abs (Sud_Pop q) = butlast (sud_abs q)"
    using Sud_Front_hd[OF r(1) lt] Sud_Top_last[OF r(1) lt] Sud_PopFront_abs[OF r(1) lt] Sud_Pop_abs[OF r(1) lt]
    by simp_all
  show "sud_inv (Sud_PopFront q)" "sud_inv (Sud_Pop q)"
    using Sud_PopFront_rep[OF r(1) lt] Sud_Pop_rep[OF r(1) lt] by (auto simp: sud_inv_rep)
  show "sud_room (Sud_PopFront q) = sud_room q"
    by (simp add: sud_room_rep[OF r(1)] sud_room_rep[OF Sud_PopFront_rep[OF r(1) lt]] sud_rep_cap)
qed simp

section \<open>The local deque as a list\<close>

definition ld_local :: "'v local_deque \<Rightarrow> 'v list" where
  "ld_local d = map (ld_array d) [ld_front d..min (ld_top d) (kLocalLength - 1)]"

definition ld_abs :: "'v local_deque \<Rightarrow> 'v list" where
  "ld_abs d = ld_local d @ (if ld_top d = kLocalLength then sud_abs (ld_sud d) else [])"

definition sud_base :: "'v sud \<Rightarrow> bool" where
  "sud_base q \<longleftrightarrow> 8 \<le> unat (beginAddr q) \<and> unat (beginAddr q) \<le> unat (endAddr q)"

definition ld_inv :: "'v local_deque \<Rightarrow> bool" where
  "ld_inv d \<longleftrightarrow> 0 \<le> ld_front d \<and> ld_front d \<le> kLocalLength \<and> ld_top d \<le> kLocalLength \<and>
     ld_front d \<le> ld_top d + 1 \<and> sud_base (ld_sud d) \<and>
     (ld_top d = kLocalLength \<longrightarrow> sud_inv (ld_sud d) \<and> (ld_front d < kLocalLength \<longrightarrow> sud_abs (ld_sud d) \<noteq> []))"

definition ld_room :: "'v local_deque \<Rightarrow> nat" where
  "ld_room d = (if ld_top d < kLocalLength then nat (kLocalLength - 1 - ld_top d) + sud_cap (ld_sud d)
                else sud_room (ld_sud d))"

text \<open>The states in which \<open>Pop\<close> removes exactly the last value: at most one value has spilled, or
  the local array has already been consumed from the front.\<close>

definition ld_exact :: "'v local_deque \<Rightarrow> bool" where
  "ld_exact d \<longleftrightarrow> ld_top d < kLocalLength \<or> ld_front d = kLocalLength \<or> length (sud_abs (ld_sud d)) \<le> 1"

lemmas ld_defs = ld_local_def ld_abs_def ld_inv_def ld_room_def ld_exact_def kLocalLength_def

lemma sud_inv_base: "sud_inv q \<Longrightarrow> sud_base q"
  by (auto simp: sud_inv_def sud_rep_def sud_base_def)

lemma sud_cap_ops [simp]:
  "sud_cap (Sud_Push v q) = sud_cap q" "sud_cap (Sud_Clear q) = sud_cap q"
  by (simp_all add: sud_cap_def Sud_Push_def Sud_Clear_def Let_def)

lemma Sud_Clear_base:
  assumes "sud_base q"
  shows "sud_inv (Sud_Clear q)" "sud_abs (Sud_Clear q) = []" "sud_room (Sud_Clear q) = sud_cap q"
proof -
  note r = Sud_Clear_rep(1)[of q]
  have r: "sud_rep (Sud_Clear q) 0 0" using assms by (intro r) (simp_all add: sud_base_def)
  then show "sud_inv (Sud_Clear q)" "sud_abs (Sud_Clear q) = []" "sud_room (Sud_Clear q) = sud_cap q"
    by (auto simp: sud_inv_rep sud_abs_rep[OF r] sud_room_rep[OF r])
qed

lemma map_upto_upd_above: "j < t \<Longrightarrow> map (f(t := v)) [i..j] = map f [i..j]"
  by simp

lemma Ld_Push_local:
  assumes "ld_inv d" "ld_top d < 511"
  shows "ld_abs (Ld_Push v d) = ld_abs d @ [v]" "ld_inv (Ld_Push v d)" "ld_room (Ld_Push v d) = ld_room d - 1"
proof -
  have P: "Ld_Push v d = d\<lparr>ld_top := ld_top d + 1, ld_array := (ld_array d)(ld_top d + 1 := v)\<rparr>"
    using assms(2) by (simp add: Ld_Push_def kLocalLength_def Let_def)
  have "[ld_front d..ld_top d + 1] = [ld_front d..ld_top d] @ [ld_top d + 1]"
    using assms(1) by (simp add: ld_inv_def upto_rec2)
  then show "ld_abs (Ld_Push v d) = ld_abs d @ [v]"
    using assms by (simp add: P ld_defs min_absorb1)
  show "ld_inv (Ld_Push v d)" "ld_room (Ld_Push v d) = ld_room d - 1"
    using assms by (auto simp: P ld_defs nat_diff_distrib')
qed

lemma Ld_Push_spill:
  assumes "ld_inv d" "ld_top d = 511" "0 < ld_room d"
  shows "ld_abs (Ld_Push v d) = ld_abs d @ [v]" "ld_inv (Ld_Push v d)" "ld_room (Ld_Push v d) = ld_room d - 1"
proof -
  let ?c = "Sud_Clear (ld_sud d)"
  have P: "Ld_Push v d = d\<lparr>ld_top := 512, ld_sud := Sud_Push v ?c\<rparr>"
    using assms(2) by (simp add: Ld_Push_def kLocalLength_def Let_def)
  have b: "sud_base (ld_sud d)" and cap: "0 < sud_cap (ld_sud d)"
    using assms by (simp_all add: ld_defs)
  note C = Sud_Clear_base[OF b]
  have room: "0 < sud_room ?c" using cap C by simp
  note Q = sudq.inv_push[OF C(1) room, of v] sudq.abs_push[OF C(1) room, of v] sudq.budget_push[OF C(1) room, of v]
  show "ld_abs (Ld_Push v d) = ld_abs d @ [v]"
    using assms(2) Q(2) C(2) by (simp add: P ld_defs)
  show "ld_inv (Ld_Push v d)"
    using assms(1,2) Q(1,2) by (simp add: P ld_inv_def kLocalLength_def sud_inv_base)
  show "ld_room (Ld_Push v d) = ld_room d - 1"
    using assms(2) Q(3) C(3) by (simp add: P ld_defs)
qed

lemma Ld_Push_sud:
  assumes "ld_inv d" "ld_top d = 512" "0 < ld_room d"
  shows "ld_abs (Ld_Push v d) = ld_abs d @ [v]" "ld_inv (Ld_Push v d)" "ld_room (Ld_Push v d) = ld_room d - 1"
proof -
  have P: "Ld_Push v d = d\<lparr>ld_sud := Sud_Push v (ld_sud d)\<rparr>"
    using assms(2) by (simp add: Ld_Push_def kLocalLength_def Let_def)
  have i: "sud_inv (ld_sud d)" and room: "0 < sud_room (ld_sud d)" using assms by (simp_all add: ld_defs)
  note Q = sudq.inv_push[OF i room, of v] sudq.abs_push[OF i room, of v] sudq.budget_push[OF i room, of v]
  show "ld_abs (Ld_Push v d) = ld_abs d @ [v]" "ld_inv (Ld_Push v d)" "ld_room (Ld_Push v d) = ld_room d - 1"
    using assms Q by (simp_all add: P ld_defs sud_inv_base)
qed

lemma Ld_Push_correct:
  assumes "ld_inv d" "0 < ld_room d"
  shows "ld_abs (Ld_Push v d) = ld_abs d @ [v]" "ld_inv (Ld_Push v d)" "ld_room (Ld_Push v d) = ld_room d - 1"
proof -
  consider "ld_top d < 511" | "ld_top d = 511" | "ld_top d = 512"
    using assms(1) by (force simp: ld_inv_def kLocalLength_def)
  then show "ld_abs (Ld_Push v d) = ld_abs d @ [v]" "ld_inv (Ld_Push v d)" "ld_room (Ld_Push v d) = ld_room d - 1"
    by (cases; use assms Ld_Push_local[of d v] Ld_Push_spill[of d v] Ld_Push_sud[of d v] in simp)+
qed

lemma Ld_Empty_iff:
  assumes "ld_inv d"
  shows "Ld_Empty d \<longleftrightarrow> ld_abs d = []"
proof (cases "ld_top d = 512")
  case True
  then have "sud_inv (ld_sud d)" using assms by (simp add: ld_inv_def kLocalLength_def)
  then show ?thesis using True assms sudq.empty_iff[of "ld_sud d"] by (auto simp: Ld_Empty_def ld_defs)
next
  case False
  then have "min (ld_top d) 511 = ld_top d" using assms by (simp add: ld_inv_def kLocalLength_def)
  then show ?thesis using False assms by (auto simp: Ld_Empty_def ld_defs)
qed

lemma ld_in_array:
  assumes "ld_inv d" "ld_abs d \<noteq> []" "ld_front d < 512"
  shows "ld_local d = ld_array d (ld_front d) # map (ld_array d) [ld_front d + 1..min (ld_top d) 511]"
proof -
  have "ld_front d \<le> min (ld_top d) 511" using assms by (auto simp: ld_defs split: if_splits)
  then show ?thesis by (simp add: ld_local_def kLocalLength_def upto_rec1)
qed

lemma Ld_PopFront_correct:
  assumes "ld_inv d" "ld_abs d \<noteq> []"
  shows "Ld_Front d = hd (ld_abs d)" "ld_abs (Ld_PopFront d) = tl (ld_abs d)"
    "ld_inv (Ld_PopFront d)" "ld_room (Ld_PopFront d) = ld_room d"
proof -
  consider (loc) "ld_front d < 512" | (sud) "ld_front d = 512" "ld_top d = 512"
    using assms by (force simp: ld_defs)
  then have "Ld_Front d = hd (ld_abs d) \<and> ld_abs (Ld_PopFront d) = tl (ld_abs d) \<and>
      ld_inv (Ld_PopFront d) \<and> ld_room (Ld_PopFront d) = ld_room d"
  proof cases
    case loc
    then have P: "Ld_PopFront d = d\<lparr>ld_front := ld_front d + 1\<rparr>" by (simp add: Ld_PopFront_def kLocalLength_def)
    have "ld_front d \<le> ld_top d" using assms loc by (auto simp: ld_defs split: if_splits)
    then have "ld_inv (Ld_PopFront d)" using assms(1) loc by (auto simp: P ld_inv_def kLocalLength_def)
    then show ?thesis using ld_in_array[OF assms loc] loc
      by (simp add: P Ld_Front_def ld_abs_def ld_room_def kLocalLength_def) (simp add: ld_local_def kLocalLength_def)
  next
    case sud
    then have P: "Ld_PopFront d = d\<lparr>ld_sud := Sud_PopFront (ld_sud d)\<rparr>" by (simp add: Ld_PopFront_def kLocalLength_def)
    have i: "sud_inv (ld_sud d)" and ne: "sud_abs (ld_sud d) \<noteq> []"
      using assms sud by (simp_all add: ld_defs)
    show ?thesis
      using sud assms(1) sudq.front_hd[OF i ne] sudq.inv_pop_front[OF i ne] sudq.abs_pop_front[OF i ne] sudq.budget_pop_front[OF i ne]
      by (simp add: P Ld_Front_def ld_defs sud_inv_base)
  qed
  then show "Ld_Front d = hd (ld_abs d)" "ld_abs (Ld_PopFront d) = tl (ld_abs d)"
    "ld_inv (Ld_PopFront d)" "ld_room (Ld_PopFront d) = ld_room d" by blast+
qed

lemma Ld_Pop_cases:
  assumes "ld_inv d" "ld_abs d \<noteq> []"
  shows "Ld_Top d = last (ld_abs d) \<and> ld_inv (Ld_Pop d) \<and>
    ld_abs (Ld_Pop d) = (if ld_top d = 512 \<and> ld_front d < 512 then ld_local d else butlast (ld_abs d))"
proof -
  consider (loc) "ld_top d < 512" | (mid) "ld_top d = 512" "ld_front d < 512" | (sud) "ld_top d = 512" "ld_front d = 512"
    using assms by (force simp: ld_inv_def kLocalLength_def)
  then show ?thesis
  proof cases
    case loc
    then have P: "Ld_Pop d = d\<lparr>ld_top := ld_top d - 1\<rparr>" by (simp add: Ld_Pop_def kLocalLength_def)
    have m: "min (ld_top d) 511 = ld_top d" "min (ld_top d - 1) 511 = ld_top d - 1" using loc by simp_all
    then have "ld_front d \<le> ld_top d" using assms loc by (auto simp: ld_defs split: if_splits)
    then have "[ld_front d..ld_top d] = [ld_front d..ld_top d - 1] @ [ld_top d]" by (rule upto_rec2)
    then show ?thesis using assms loc m \<open>ld_front d \<le> ld_top d\<close> by (simp add: P Ld_Top_def ld_defs)
  next
    case mid
    have P: "Ld_Pop d = d\<lparr>ld_sud := Sud_Pop (ld_sud d), ld_top := 511\<rparr>" using mid by (simp add: Ld_Pop_def kLocalLength_def Let_def)
    have i: "sud_inv (ld_sud d)" and ne: "sud_abs (ld_sud d) \<noteq> []"
      using assms mid by (simp_all add: ld_inv_def kLocalLength_def)
    show ?thesis using mid assms sudq.top_last[OF i ne] ne sudq.inv_pop[OF i ne]
      by (simp add: P Ld_Top_def ld_defs sud_inv_base)
  next
    case sud
    have P: "Ld_Pop d = d\<lparr>ld_sud := Sud_Pop (ld_sud d)\<rparr>" using sud by (simp add: Ld_Pop_def kLocalLength_def Let_def)
    have i: "sud_inv (ld_sud d)" and ne: "sud_abs (ld_sud d) \<noteq> []" using assms sud by (simp_all add: ld_defs)
    show ?thesis using sud assms sudq.top_last[OF i ne] ne sudq.inv_pop[OF i ne] sudq.abs_pop[OF i _ ne]
      by (simp add: P Ld_Top_def ld_defs sud_inv_base)
  qed
qed

lemma ld_exact_pop:
  assumes "ld_inv d" "ld_exact d" "ld_abs d \<noteq> []"
  shows "ld_abs (Ld_Pop d) = butlast (ld_abs d)" "ld_exact (Ld_Pop d)"
proof -
  have "ld_local d = butlast (ld_abs d)" if "ld_top d = 512" "ld_front d < 512"
  proof -
    have "length (sud_abs (ld_sud d)) = 1"
      using that assms by (cases "sud_abs (ld_sud d)") (auto simp: ld_inv_def ld_exact_def kLocalLength_def)
    then obtain x where "sud_abs (ld_sud d) = [x]" by (metis length_Suc_conv length_0_conv One_nat_def)
    then show ?thesis using that by (simp add: ld_abs_def kLocalLength_def)
  qed
  then show "ld_abs (Ld_Pop d) = butlast (ld_abs d)" using Ld_Pop_cases[OF assms(1,3)] by auto
  show "ld_exact (Ld_Pop d)" using assms(1) by (auto simp: ld_inv_def Ld_Pop_def ld_exact_def kLocalLength_def Let_def)
qed

lemma Ld_Top_last: "ld_inv d \<Longrightarrow> ld_abs d \<noteq> [] \<Longrightarrow> Ld_Top d = last (ld_abs d)"
  and Ld_Pop_inv: "ld_inv d \<Longrightarrow> ld_abs d \<noteq> [] \<Longrightarrow> ld_inv (Ld_Pop d)"
  using Ld_Pop_cases[of d] by blast+

interpretation ldq: stack_ops ld_inv ld_abs ld_room Ld_Empty Ld_Push Ld_Front Ld_PopFront ld_exact Ld_Top Ld_Pop
  by unfold_locales (simp_all add: Ld_Push_correct Ld_PopFront_correct Ld_Empty_iff Ld_Top_last Ld_Pop_inv ld_exact_pop)

section \<open>Queue and stack use of the local deque\<close>

lemma ld_new_inv: "sud_base q \<Longrightarrow> ld_inv (Ld_new q arr) \<and> ld_abs (Ld_new q arr) = [] \<and> ld_room (Ld_new q arr) = 512 + sud_cap q"
  by (simp add: Ld_new_def ld_defs)

lemma ld_exact_short:
  assumes "ld_inv d" "ld_front d = 0" "length (ld_abs d) \<le> 513"
  shows "ld_exact d"
  using assms by (cases "ld_top d = 512") (auto simp: ld_defs)

lemma ld_unspilled_length:
  assumes "ld_inv d" "ld_front d = 0" "ld_top d \<noteq> 512"
  shows "length (ld_abs d) \<le> 512"
  using assms by (simp add: ld_defs) linarith

lemma Ld_Push_front: "ld_front (fold Ld_Push vs d) = ld_front d"
  by (induction vs arbitrary: d) (auto simp: Ld_Push_def Let_def)

text \<open>C28: used as a queue, the local deque gives back the pushed values in the order of the pushes,
  also those that spilled into the memory-mapped deque, as long as the mapped range has room.\<close>

theorem ld_queue_fifo:
  assumes "ld_inv d" "ld_abs d = []" "length vs \<le> ld_room d"
  shows "drain Ld_Empty Ld_Front Ld_PopFront (length vs) (fold Ld_Push vs d) = vs"
  using ldq.push_all[OF assms(1,3)] assms(2) ldq.drain_front[of "fold Ld_Push vs d" "length vs"] by simp

definition sud_example :: "nat sud" where
  "sud_example = Sud_Init 4096 8192 \<lparr>beginAddr = 0, frontAddr = 0, topAddr = 0, endAddr = 0, mem = (\<lambda>_. 0)\<rparr>"

lemma sud_example_base: "sud_base sud_example" "sud_cap sud_example = 512"
  by (simp_all add: sud_example_def Sud_Init_def Sud_Clear_def sud_base_def sud_cap_def)

theorem ld_queue_fifo_witness:
  "drain Ld_Empty Ld_Front Ld_PopFront 600 (fold Ld_Push [0..<600] (Ld_new sud_example (\<lambda>_. 0))) = [0..<600]"
proof -
  note i = ld_new_inv[OF sud_example_base(1), of "\<lambda>_. 0"]
  show ?thesis using ld_queue_fifo[OF i[THEN conjunct1] i[THEN conjunct2, THEN conjunct1], of "[0..<600]"] i
    by (simp add: sud_example_base(2))
qed

text \<open>C29: used as a stack that holds at most 513 values, the local deque gives the values back in
  reverse order.\<close>

theorem ld_stack_lifo:
  assumes "sud_base q" "length vs \<le> 513" "0 < sud_cap q"
  shows "drain Ld_Empty Ld_Top Ld_Pop (length vs) (fold Ld_Push vs (Ld_new q arr)) = rev vs"
proof -
  have n: "ld_inv (Ld_new q arr)" "ld_abs (Ld_new q arr) = []" "ld_room (Ld_new q arr) = 512 + sud_cap q"
    using ld_new_inv[OF assms(1), of arr] by simp_all
  then have "ld_inv (fold Ld_Push vs (Ld_new q arr))" "ld_abs (fold Ld_Push vs (Ld_new q arr)) = vs"
    using ldq.push_all[OF n(1), of vs] assms by simp_all
  moreover have "ld_front (fold Ld_Push vs (Ld_new q arr)) = 0" by (simp add: Ld_Push_front Ld_new_def)
  ultimately show ?thesis using assms(2) ld_exact_short ldq.drain_top by (metis order_refl)
qed

theorem ld_stack_lifo_witness:
  "drain Ld_Empty Ld_Top Ld_Pop 513 (fold Ld_Push [0..<513] (Ld_new sud_example (\<lambda>_. 0))) = rev [0..<513]"
  using ld_stack_lifo[OF sud_example_base(1), of "[0..<513]" "\<lambda>_. 0"] by (simp add: sud_example_base(2) del: upt_rec_numeral)

text \<open>C30: what \<open>Pop\<close> does in every state: it removes the last value, except that with the local
  array still in use it drops everything that has spilled, however many values that is.\<close>

theorem ld_pop_behaviour:
  assumes "ld_inv d" "\<not> Ld_Empty d"
  shows "ld_abs (Ld_Pop d) =
    (if ld_top d = kLocalLength \<and> ld_front d < kLocalLength
     then take (nat (kLocalLength - ld_front d)) (ld_abs d) else butlast (ld_abs d))"
proof -
  have "ld_abs d \<noteq> []" using assms Ld_Empty_iff by blast
  moreover have "ld_local d = take (nat (512 - ld_front d)) (ld_abs d)" if "ld_top d = 512"
    using that by (simp add: ld_abs_def ld_local_def kLocalLength_def)
  ultimately show ?thesis using Ld_Pop_cases[OF assms(1)] by (auto simp: kLocalLength_def)
qed

theorem ld_pop_behaviour_witness:
  "ld_abs (Ld_Pop (fold Ld_Push [0..<600] (Ld_new sud_example (\<lambda>_. 0)))) = [0..<512]"
proof -
  let ?d = "fold Ld_Push [0..<600] (Ld_new sud_example (\<lambda>_. 0))"
  have n: "ld_inv (Ld_new sud_example (\<lambda>_. 0))" "ld_abs (Ld_new sud_example (\<lambda>_. 0)) = []"
    "ld_room (Ld_new sud_example (\<lambda>_. 0)) = 1024"
    using ld_new_inv[OF sud_example_base(1), of "\<lambda>_. 0"] by (simp_all add: sud_example_base(2))
  have p: "ld_inv ?d" "ld_abs ?d = [0..<600]" using ldq.push_all[OF n(1), of "[0..<600]"] n by simp_all
  have f: "ld_front ?d = 0" by (simp only: Ld_Push_front) (simp add: Ld_new_def)
  have t: "ld_top ?d = 512"
  proof (rule ccontr)
    assume "ld_top ?d \<noteq> 512"
    then have "length (ld_abs ?d) \<le> 512" by (rule ld_unspilled_length[OF p(1) f])
    then show False unfolding p(2) by simp
  qed
  have "\<not> Ld_Empty ?d" using Ld_Empty_iff[OF p(1)] unfolding p(2) by simp
  from ld_pop_behaviour[OF p(1) this] show ?thesis
    unfolding p(2) t f by (simp add: kLocalLength_def take_upt)
qed

section \<open>NativeAllocLite\<close>

text \<open>Addresses of slots are words; 0 is \<open>nullptr\<close>. The \<open>next\<close> field of a slot is the word stored
  at its address. \<open>sz\<close> is the template parameter \<open>allocSize\<close>.\<close>

record nal =
  nal_head :: u64
  nal_currAddr :: u64
  nal_endAddr :: u64
  nal_next :: "u64 \<Rightarrow> u64"

definition Nal_Init :: "u64 \<Rightarrow> u64 \<Rightarrow> nal \<Rightarrow> nal" where
  "Nal_Init base currEnd s = s\<lparr>nal_currAddr := base, nal_endAddr := currEnd\<rparr>"

definition Nal_Allocate :: "nat \<Rightarrow> nal \<Rightarrow> u64 \<times> nal" where
  "Nal_Allocate sz s =
     (if nal_head s = 0 then (nal_currAddr s, s\<lparr>nal_currAddr := nal_currAddr s + of_nat sz\<rparr>)
      else (nal_head s, s\<lparr>nal_head := nal_next s (nal_head s)\<rparr>))"

definition Nal_Deallocate :: "u64 \<Rightarrow> nal \<Rightarrow> nal" where
  "Nal_Deallocate addr s = s\<lparr>nal_next := (nal_next s)(addr := nal_head s), nal_head := addr\<rparr>"

text \<open>The steps of the allocator and its clients on a state and the set of slots handed out: an
  allocation while a free slot or unused memory is left, the release of a slot handed out before,
  and a client writing anything into a slot it holds.\<close>

inductive nal_step :: "nat \<Rightarrow> nal \<times> u64 set \<Rightarrow> nal \<times> u64 set \<Rightarrow> bool" for sz :: nat where
  allocate: "nal_head s \<noteq> 0 \<or> unat (nal_currAddr s) + sz \<le> unat (nal_endAddr s) \<Longrightarrow>
     nal_step sz (s, L) (snd (Nal_Allocate sz s), insert (fst (Nal_Allocate sz s)) L)"
| deallocate: "a \<in> L \<Longrightarrow> nal_step sz (s, L) (Nal_Deallocate a s, L - {a})"
| client_write: "a \<in> L \<Longrightarrow> nal_step sz (s, L) (s\<lparr>nal_next := (nal_next s)(a := w)\<rparr>, L)"

fun chain :: "(u64 \<Rightarrow> u64) \<Rightarrow> u64 \<Rightarrow> u64 list \<Rightarrow> bool" where
  "chain nx h [] \<longleftrightarrow> h = 0"
| "chain nx h (x # xs) \<longleftrightarrow> h = x \<and> x \<noteq> 0 \<and> chain nx (nx x) xs"

definition slot :: "nat \<Rightarrow> u64 \<Rightarrow> nat \<Rightarrow> u64" where
  "slot sz base k = base + of_nat (k * sz)"

definition nal_inv :: "nat \<Rightarrow> u64 \<Rightarrow> nal \<times> u64 set \<Rightarrow> bool" where
  "nal_inv sz base st \<longleftrightarrow> (case st of (s, L) \<Rightarrow> \<exists>fs n. chain (nal_next s) (nal_head s) fs \<and> distinct fs \<and>
     L \<inter> set fs = {} \<and> L \<union> set fs = slot sz base ` {..<n} \<and> nal_currAddr s = slot sz base n \<and>
     unat base + n * sz \<le> unat (nal_endAddr s))"

lemma nal_invE:
  assumes "nal_inv sz base (s, L)"
  obtains fs n where "chain (nal_next s) (nal_head s) fs" "distinct fs" "L \<inter> set fs = {}"
    "L \<union> set fs = slot sz base ` {..<n}" "nal_currAddr s = slot sz base n" "unat base + n * sz \<le> unat (nal_endAddr s)"
  using assms by (auto simp: nal_inv_def)

lemma chain_upd: "a \<notin> set fs \<Longrightarrow> chain (nx(a := w)) h fs \<longleftrightarrow> chain nx h fs"
  by (induction fs arbitrary: h) auto

lemma slot_unat:
  assumes "unat base + n * sz < 2 ^ 64"
  shows "unat (slot sz base n) = unat base + n * sz"
proof -
  have "slot sz base n = of_nat (unat base + n * sz)" by (simp add: slot_def)
  then show ?thesis using assms u64_of_nat_unat by metis
qed

lemma slot_unat_end:
  assumes "unat base + n * sz \<le> unat (e :: u64)" "k \<le> n"
  shows "unat (slot sz base k) = unat base + k * sz"
proof -
  have "k * sz \<le> n * sz" using assms(2) by simp
  then show ?thesis using assms(1) unat_less_u64[of e] by (intro slot_unat) linarith
qed

lemma nal_inv_init:
  assumes "unat base \<le> unat e"
  shows "nal_inv sz base (Nal_Init base e \<lparr>nal_head = 0, nal_currAddr = 0, nal_endAddr = 0, nal_next = nx\<rparr>, {})"
  using assms unfolding nal_inv_def prod.case
  by (intro exI[of _ "[]"] exI[of _ 0]) (simp add: Nal_Init_def slot_def)

lemma nal_fresh_slot:
  assumes "unat base + n * sz \<le> unat (e :: u64)" "0 < sz"
  shows "slot sz base n \<notin> slot sz base ` {..<n}"
proof
  assume "slot sz base n \<in> slot sz base ` {..<n}"
  then obtain k where "k < n" "slot sz base n = slot sz base k" by auto
  then show False
    using slot_unat_end[OF assms(1), of k] slot_unat_end[OF assms(1), of n] assms(2) by simp
qed

lemma nal_inv_allocate:
  assumes "nal_inv sz base (s, L)" "0 < sz" "0 < unat base"
    and room: "nal_head s \<noteq> 0 \<or> unat (nal_currAddr s) + sz \<le> unat (nal_endAddr s)"
  shows "nal_inv sz base (snd (Nal_Allocate sz s), insert (fst (Nal_Allocate sz s)) L) \<and> fst (Nal_Allocate sz s) \<notin> L"
proof -
  from assms(1) obtain fs n where i: "chain (nal_next s) (nal_head s) fs" "distinct fs" "L \<inter> set fs = {}"
    "L \<union> set fs = slot sz base ` {..<n}" "nal_currAddr s = slot sz base n" "unat base + n * sz \<le> unat (nal_endAddr s)"
    by (rule nal_invE)
  show ?thesis
  proof (cases fs)
    case Nil
    then have h: "nal_head s = 0" using i(1) by simp
    have "unat (slot sz base n) + sz \<le> unat (nal_endAddr s)" using room h i(5) by simp
    then have "unat base + Suc n * sz \<le> unat (nal_endAddr s)" using slot_unat_end[OF i(6), of n] by simp
    moreover have "slot sz base n \<notin> L" using nal_fresh_slot[OF i(6) assms(2)] i(4) by blast
    moreover have "slot sz base (Suc n) = slot sz base n + of_nat sz" by (simp add: slot_def)
    moreover have "insert (slot sz base n) L = slot sz base ` {..<Suc n}"
      using i(4) Nil by (simp add: lessThan_Suc)
    ultimately show ?thesis using h i(5) unfolding nal_inv_def prod.case
      by (intro conjI exI[of _ "[]"] exI[of _ "Suc n"]) (simp_all add: Nal_Allocate_def)
  next
    case (Cons x xs)
    then show ?thesis using i unfolding nal_inv_def
      by (auto simp: Nal_Allocate_def intro!: exI[of _ xs] exI[of _ n])
  qed
qed

lemma nal_inv_slots_nonzero:
  assumes "nal_inv sz base (s, L)" "0 < unat base" "a \<in> L"
  shows "a \<noteq> 0"
proof -
  from assms(1) obtain fs n where "L \<union> set fs = slot sz base ` {..<n}" and e: "unat base + n * sz \<le> unat (nal_endAddr s)"
    by (rule nal_invE)
  then obtain k where "a = slot sz base k" "k < n" using assms(3) by blast
  note this e
  then have "unat a > 0" using assms(2) slot_unat_end[of base n sz "nal_endAddr s" k] by simp
  then show ?thesis by auto
qed

lemma nal_step_inv:
  assumes "nal_step sz st st'" "nal_inv sz base st" "0 < sz" "0 < unat base"
  shows "nal_inv sz base st'"
  using assms
proof (induction rule: nal_step.induct)
  case (allocate s L)
  then show ?case using nal_inv_allocate by blast
next
  case (deallocate a L s)
  from deallocate.prems(1) obtain fs n where i: "chain (nal_next s) (nal_head s) fs" "distinct fs" "L \<inter> set fs = {}"
    "L \<union> set fs = slot sz base ` {..<n}" "nal_currAddr s = slot sz base n" "unat base + n * sz \<le> unat (nal_endAddr s)"
    by (rule nal_invE)
  have "a \<notin> set fs" "a \<noteq> 0" using deallocate i nal_inv_slots_nonzero by blast+
  moreover have "L - {a} \<union> insert a (set fs) = slot sz base ` {..<n}" using i(4) deallocate.hyps by blast
  ultimately show ?case using i(1,2,3,5,6) unfolding nal_inv_def prod.case
    by (intro exI[of _ "a # fs"] exI[of _ n]) (auto simp: Nal_Deallocate_def chain_upd)
next
  case (client_write a L s w)
  from client_write.prems(1) obtain fs n where i: "chain (nal_next s) (nal_head s) fs" "distinct fs" "L \<inter> set fs = {}"
    "L \<union> set fs = slot sz base ` {..<n}" "nal_currAddr s = slot sz base n" "unat base + n * sz \<le> unat (nal_endAddr s)"
    by (rule nal_invE)
  moreover have "a \<notin> set fs" using i(3) client_write.hyps by blast
  ultimately show ?case unfolding nal_inv_def prod.case
    by (intro exI[of _ fs] exI[of _ n]) (simp add: chain_upd)
qed

lemma nal_reach_inv:
  assumes "(nal_step sz)\<^sup>*\<^sup>* st st'" "nal_inv sz base st" "0 < sz" "0 < unat base"
  shows "nal_inv sz base st'"
  using assms by (induction rule: rtranclp_induct) (auto intro: nal_step_inv)

lemma slots_apart:
  assumes "unat base + n * sz \<le> unat (e :: u64)" "a \<in> slot sz base ` {..<n}" "b \<in> slot sz base ` {..<n}" "a \<noteq> b"
  shows "unat a + sz \<le> unat b \<or> unat b + sz \<le> unat a"
proof -
  obtain j k where jk: "a = slot sz base j" "b = slot sz base k" "j < n" "k < n" using assms(2,3) by auto
  then have u: "unat a = unat base + j * sz" "unat b = unat base + k * sz"
    using slot_unat_end[OF assms(1)] by simp_all
  have "j \<noteq> k" using jk assms(4) by auto
  then have "Suc j \<le> k \<or> Suc k \<le> j" by linarith
  then have "Suc j * sz \<le> k * sz \<or> Suc k * sz \<le> j * sz" by (metis mult_le_mono1)
  then show ?thesis using u by (auto simp: add.commute)
qed

text \<open>C31: in every state that allocations, releases and client writes reach from a fresh allocator,
  an allocation (with a free slot or unused memory left) returns a slot inside the mapped range
  that does not overlap any slot handed out and not yet released.\<close>

theorem nal_alloc_disjoint:
  assumes "0 < sz" "0 < unat base" "unat base \<le> unat e"
    and "(nal_step sz)\<^sup>*\<^sup>* (Nal_Init base e \<lparr>nal_head = 0, nal_currAddr = 0, nal_endAddr = 0, nal_next = nx\<rparr>, {}) (s, L)"
    and "nal_head s \<noteq> 0 \<or> unat (nal_currAddr s) + sz \<le> unat (nal_endAddr s)"
    and "Nal_Allocate sz s = (a, s')"
  shows "unat base \<le> unat a \<and> unat a + sz \<le> unat (nal_endAddr s) \<and>
    (\<forall>b\<in>L. unat a + sz \<le> unat b \<or> unat b + sz \<le> unat a)"
proof -
  have i: "nal_inv sz base (s, L)" using nal_reach_inv[OF assms(4) nal_inv_init[OF assms(3)] assms(1,2)] .
  have a: "nal_inv sz base (s', insert a L)" "a \<notin> L"
    using nal_inv_allocate[OF i assms(1,2,5)] assms(6) by simp_all
  have e: "nal_endAddr s' = nal_endAddr s" using assms(6) by (auto simp: Nal_Allocate_def split: if_splits)
  from a(1) obtain fs n where n: "insert a L \<union> set fs = slot sz base ` {..<n}" "unat base + n * sz \<le> unat (nal_endAddr s)"
    by (auto simp: nal_inv_def e)
  then obtain k where k: "a = slot sz base k" "k < n" by blast
  then have "unat a = unat base + k * sz" using slot_unat_end[OF n(2)] by simp
  moreover have "Suc k * sz \<le> n * sz" using k(2) by (intro mult_le_mono1) simp
  ultimately have "unat base \<le> unat a" "unat a + sz \<le> unat (nal_endAddr s)" using n(2) by simp_all
  moreover have "unat a + sz \<le> unat b \<or> unat b + sz \<le> unat a" if "b \<in> L" for b
    using slots_apart[OF n(2), of a b] n(1) that a(2) by auto
  ultimately show ?thesis by blast
qed

theorem nal_alloc_disjoint_witness:
  "let s0 = Nal_Init 4096 8192 \<lparr>nal_head = 0, nal_currAddr = 0, nal_endAddr = 0, nal_next = (\<lambda>_. 0)\<rparr>;
       s1 = snd (Nal_Allocate 24 s0); a = fst (Nal_Allocate 24 s1)
   in unat a + 24 \<le> 4096 \<or> 4096 + 24 \<le> unat a"
proof -
  let ?s0 = "Nal_Init 4096 8192 \<lparr>nal_head = 0, nal_currAddr = 0, nal_endAddr = 0, nal_next = (\<lambda>_. 0)\<rparr>"
  let ?s1 = "snd (Nal_Allocate 24 ?s0)"
  have s: "nal_step 24 (?s0, {}) (?s1, {4096})"
    using nal_step.allocate[of ?s0 24 "{}"] by (simp add: Nal_Allocate_def Nal_Init_def)
  have c: "nal_head ?s1 \<noteq> 0 \<or> unat (nal_currAddr ?s1) + 24 \<le> unat (nal_endAddr ?s1)"
    by (simp add: Nal_Allocate_def Nal_Init_def)
  show ?thesis
    using nal_alloc_disjoint[OF _ _ _ r_into_rtranclp[where r = "nal_step 24", OF s] c prod.collapse[symmetric]]
    by (auto simp: Let_def)
qed

end
