(* ===== verification/Cartesian_Tree.thy ===== *)
theory Cartesian_Tree
  imports Alloc_Deque "HOL-Library.Multiset"
begin

text \<open>
  The Cartesian tree of free page regions,
  \<^verbatim>\<open>src/src/mrt/compiler-rt/include/allocator/cartesian_tree.h\<close>, at the type the page manager uses
  it, \<open>CartesianTree<uint32_t, uint32_t>\<close>: \<open>key1\<close> is the first page of a free region, \<open>key2\<close> its
  number of pages. The tree is a search tree on \<open>key1\<close> and a max-heap on \<open>key2\<close>.

  Every node has one owner, so the pointer structure is a tree value and \<open>nullptr\<close> is \<open>Null\<close>. A
  pointer \<open>pn\<close> to a child field on the way down from the root is the number of steps that lead to
  it; the stack of such pointers is the local deque of the theory \<open>Alloc_Deque\<close>, with its limits.
  The assertions \<open>CTREE_ASSERT\<close> and the debug checks are compiled out in the source.
\<close>

unbundle bit_operations_syntax

section \<open>Nodes and rotations\<close>

datatype ctree = Null | Node (lchild: ctree) (key1: u32) (key2: u32) (rchild: ctree)
  where
    "lchild Null = Null"
  | "rchild Null = Null"

fun set_l :: "ctree \<Rightarrow> ctree \<Rightarrow> ctree" where
  "set_l (Node l k c r) x = Node x k c r"
| "set_l Null x = Null"

fun set_r :: "ctree \<Rightarrow> ctree \<Rightarrow> ctree" where
  "set_r (Node l k c r) x = Node l k c x"
| "set_r Null x = Null"

text \<open>The callers rotate only after they have seen that the child is there.\<close>

fun RotateLeft :: "ctree \<Rightarrow> ctree" where
  "RotateLeft (Node (Node ll lk lc lr) k c r) = Node ll lk lc (Node lr k c r)"
| "RotateLeft n = n"

fun RotateRight :: "ctree \<Rightarrow> ctree" where
  "RotateRight (Node l k c (Node rl rk rc rr)) = Node (Node l k c rl) rk rc rr"
| "RotateRight n = n"

lemma size_lchild_RotateRight: "rchild n \<noteq> Null \<Longrightarrow> size (lchild (RotateRight n)) < size n"
  by (cases n rule: RotateRight.cases) auto

lemma size_rchild_RotateLeft: "lchild n \<noteq> Null \<Longrightarrow> size (rchild (RotateLeft n)) < size n"
  by (cases n rule: RotateLeft.cases) auto

function LowerNode :: "ctree \<Rightarrow> ctree" where
  "LowerNode n =
     (if n = Null then Null
      else if lchild n \<noteq> Null \<and> key2 (lchild n) > key2 n then
        (if rchild n \<noteq> Null \<and> key2 (rchild n) > key2 (lchild n) then
           (let tmp = RotateRight n in set_l tmp (LowerNode (lchild tmp)))
         else (let tmp = RotateLeft n in set_r tmp (LowerNode (rchild tmp))))
      else if rchild n \<noteq> Null \<and> key2 (rchild n) > key2 n then
        (let tmp = RotateRight n in set_l tmp (LowerNode (lchild tmp)))
      else n)"
  by pat_completeness auto
termination
  by (relation "measure size") (simp_all add: size_lchild_RotateRight size_rchild_RotateLeft)

function RemoveNode :: "ctree \<Rightarrow> ctree" where
  "RemoveNode n =
     (if n = Null then Null
      else if lchild n = Null \<and> rchild n = Null then Null
      else if lchild n = Null then
        (let tmp = RotateRight n in set_l tmp (RemoveNode (lchild tmp)))
      else if rchild n = Null then
        (let tmp = RotateLeft n in set_r tmp (RemoveNode (rchild tmp)))
      else if key2 (lchild n) < key2 (rchild n) then
        (let tmp = RotateRight n in set_l tmp (RemoveNode (lchild tmp)))
      else (let tmp = RotateLeft n in set_r tmp (RemoveNode (rchild tmp))))"
  by pat_completeness auto
termination
  by (relation "measure size") (simp_all add: size_lchild_RotateRight size_rchild_RotateLeft)

declare LowerNode.simps [simp del] RemoveNode.simps [simp del]

definition Ct_Empty :: "ctree \<Rightarrow> bool" where
  "Ct_Empty root \<longleftrightarrow> root = Null"

definition Ct_Top :: "ctree \<Rightarrow> u32" where
  "Ct_Top root = (if root \<noteq> Null then key2 root else 0)"

section \<open>Insertion with merging\<close>

text \<open>The two walks of \<open>MergeAt\<close> for a node connected to the other end of the new region: the walk
  gives \<open>None\<close> on an error, else the connected node's keys (if there is one) and the subtree with
  that node removed.\<close>

fun walk_right :: "u32 \<Rightarrow> ctree \<Rightarrow> (u32 option \<times> ctree) option" where
  "walk_right m Null = Some (None, Null)"
| "walk_right m (Node l k c r) =
     (if k = m then (if l \<noteq> Null then None else Some (Some c, RemoveNode (Node l k c r)))
      else if k < m then None
      else case walk_right m l of None \<Rightarrow> None | Some (x, l') \<Rightarrow> Some (x, Node l' k c r))"

fun walk_left :: "u32 \<Rightarrow> ctree \<Rightarrow> ((u32 \<times> u32) option \<times> ctree) option" where
  "walk_left a Null = Some (None, Null)"
| "walk_left a (Node l k c r) =
     (if k + c = a then (if r \<noteq> Null then None else Some (Some (k, c), RemoveNode (Node l k c r)))
      else if k + c > a then None
      else case walk_left a r of None \<Rightarrow> None | Some (x, r') \<Rightarrow> Some (x, Node l k c r'))"

datatype MergeResult = kSuccess ctree | kMiss | kError

fun MergeAt :: "ctree \<Rightarrow> u32 \<Rightarrow> u32 \<Rightarrow> MergeResult" where
  "MergeAt Null a s = kMiss"
| "MergeAt (Node l k c r) a s =
     (let m = a + s in
      if a = k + c then
        (case walk_right m r of
           None \<Rightarrow> kError
         | Some (None, r') \<Rightarrow> kSuccess (Node l k (c + s) r')
         | Some (Some c', r') \<Rightarrow> kSuccess (Node l k (c + s + c') r'))
      else if m = k then
        (case walk_left a l of
           None \<Rightarrow> kError
         | Some (None, l') \<Rightarrow> kSuccess (Node l' a (c + s) r)
         | Some (Some (k', c'), l') \<Rightarrow> kSuccess (Node l' k' (c + s + c') r))
      else kMiss)"

text \<open>The way from the current node up to the root: the fields of each node passed, without the
  child that was followed.\<close>

datatype frame = WentLeft u32 u32 ctree | WentRight ctree u32 u32

fun plug1 :: "frame \<Rightarrow> ctree \<Rightarrow> ctree" where
  "plug1 (WentLeft k c r) t = Node t k c r"
| "plug1 (WentRight l k c) t = Node l k c t"

fun plug :: "frame list \<Rightarrow> ctree \<Rightarrow> ctree" where
  "plug [] t = t"
| "plug (f # fs) t = plug fs (plug1 f t)"

text \<open>The first loop of \<open>MergeInsertInternal\<close>; \<open>None\<close> is \<open>return false\<close>, before anything was changed.\<close>

fun insert_loop ::
  "u32 \<Rightarrow> u32 \<Rightarrow> ctree \<Rightarrow> frame list \<Rightarrow> nat local_deque \<Rightarrow> (ctree \<times> frame list \<times> nat local_deque) option" where
  "insert_loop a s Null path pnStack = Some (Node Null a s Null, path, pnStack)"
| "insert_loop a s (Node l k c r) path pnStack =
     (case MergeAt (Node l k c r) a s of
        kSuccess n \<Rightarrow> Some (n, path, pnStack)
      | kError \<Rightarrow> None
      | kMiss \<Rightarrow>
          (if a + s < k then insert_loop a s l (WentLeft k c r # path) (Ld_Push (length path) pnStack)
           else if a > k + c then insert_loop a s r (WentRight l k c # path) (Ld_Push (length path) pnStack)
           else None))"

text \<open>The second loop, over the values that \<open>Top\<close> and \<open>Pop\<close> give until the stack is empty: \<open>pn\<close> at
  depth \<open>i\<close> is the field that holds the subtree \<open>n\<close> cut out of the current tree at that depth.\<close>

fun bubble_loop :: "u32 \<Rightarrow> u32 \<Rightarrow> nat list \<Rightarrow> ctree \<Rightarrow> frame list \<Rightarrow> bool \<times> ctree" where
  "bubble_loop a m [] t path = (True, plug path t)"
| "bubble_loop a m (pn # pns) t path =
     (let up = length path - pn; n = plug (take up path) t; outer = drop up path in
      if m < key1 n then
        (if key2 n < key2 (lchild n) then bubble_loop a m pns (RotateLeft n) outer
         else (True, plug outer n))
      else if a > key1 n + key2 n then
        (if key2 n < key2 (rchild n) then bubble_loop a m pns (RotateRight n) outer
         else (True, plug outer n))
      else (False, plug outer n))"

text \<open>\<open>sud\<close> is the memory the stack spills into; the local array is uninitialised.\<close>

definition MergeInsertInternal :: "nat sud \<Rightarrow> u32 \<Rightarrow> u32 \<Rightarrow> ctree \<Rightarrow> bool \<times> ctree" where
  "MergeInsertInternal sud a s root =
     (case insert_loop a s root [] (Ld_new sud (\<lambda>_. 0)) of
        None \<Rightarrow> (False, root)
      | Some (n, path, pnStack) \<Rightarrow>
          bubble_loop a (a + s) (drain Ld_Empty Ld_Top Ld_Pop (length path) pnStack) n path)"

definition MergeInsert :: "nat sud \<Rightarrow> u32 \<Rightarrow> u32 \<Rightarrow> ctree \<Rightarrow> bool \<times> ctree" where
  "MergeInsert sud a s root =
     (if root = Null then (True, Node Null a s Null)
      else if s = 0 then (False, root)
      else MergeInsertInternal sud a s root)"

section \<open>Search\<close>

fun Find_at :: "ctree \<Rightarrow> u32 \<Rightarrow> (u32 \<times> ctree) option" where
  "Find_at Null s = None"
| "Find_at (Node l k c r) s =
     (if c < s then None
      else case (if l \<noteq> Null then Find_at l s else None) of
             Some (a, l') \<Rightarrow> Some (a, Node l' k c r)
           | None \<Rightarrow> let n = Node l (k + s) (c - s) r
                     in Some (k, if c - s \<noteq> 0 then LowerNode n else RemoveNode n))"

definition Ct_Find :: "u32 \<Rightarrow> ctree \<Rightarrow> (u32 \<times> ctree) option" where
  "Ct_Find s root = (if root = Null \<or> s = 0 then None else Find_at root s)"

section \<open>Traversal\<close>

definition It_new :: "ctree sud \<Rightarrow> ctree \<Rightarrow> ctree local_deque" where
  "It_new traversalSud root =
     (let tq = Ld_SetSud traversalSud (Ld_new traversalSud (\<lambda>_. Null))
      in if root \<noteq> Null then Ld_Push root tq else tq)"

definition It_Next :: "ctree local_deque \<Rightarrow> ctree \<times> ctree local_deque" where
  "It_Next tq =
     (if Ld_Empty tq then (Null, tq)
      else let front = Ld_Front tq;
               tq = (if rchild front \<noteq> Null then Ld_Push (rchild front) tq else tq);
               tq = (if lchild front \<noteq> Null then Ld_Push (lchild front) tq else tq)
           in (front, Ld_PopFront tq))"

text \<open>The loop of a client: \<open>Next\<close> until it gives \<open>nullptr\<close>, here at most \<open>n\<close> times.\<close>

fun It_visit :: "nat \<Rightarrow> ctree local_deque \<Rightarrow> (u32 \<times> u32) list" where
  "It_visit 0 tq = []"
| "It_visit (Suc n) tq =
     (let (nd, tq') = It_Next tq
      in if nd = Null then [] else (key1 nd, key2 nd) # It_visit n tq')"

section \<open>Sizing\<close>

definition Ct_regionCount :: "u64 \<Rightarrow> u64" where
  "Ct_regionCount mapSize =
     drop_bit 1 (ALLOCUTIL_PAGE_RND_UP mapSize div ALLOCUTIL_PAGE_SIZE) + 1"

text \<open>The byte counts that \<open>Init\<close> maps for the nodes (24 bytes each, 8-byte aligned) and the deque.\<close>

definition Ct_Init :: "u64 \<Rightarrow> u64 \<times> u64" where
  "Ct_Init mapSize =
     (let regionCount = Ct_regionCount mapSize;
          nativeSize = (regionCount + 7) * AllocUtilRndUp 24 8;
          dequeSize = regionCount * 8
      in (ALLOCUTIL_PAGE_RND_UP nativeSize, ALLOCUTIL_PAGE_RND_UP dequeSize))"

section \<open>The free regions of a tree\<close>

type_synonym region = "nat \<times> nat"

fun regions :: "ctree \<Rightarrow> region list" where
  "regions Null = []"
| "regions (Node l k c r) = regions l @ (unat k, unat c) # regions r"

abbreviation rend :: "region \<Rightarrow> nat" where
  "rend x \<equiv> fst x + snd x"

text \<open>Regions are not empty, stay below \<open>2 ^ 32\<close>, and between two of them there is a page that is
  not free: adjacent regions have been merged.\<close>

definition sep :: "region list \<Rightarrow> bool" where
  "sep rs \<longleftrightarrow> sorted_wrt (\<lambda>x y. rend x < fst y) rs \<and> (\<forall>x\<in>set rs. 0 < snd x \<and> rend x < 2 ^ 32)"

definition pages :: "region list \<Rightarrow> nat set" where
  "pages rs = (\<Union>x\<in>set rs. {fst x..<rend x})"

definition hle :: "ctree \<Rightarrow> u32 \<Rightarrow> bool" where
  "hle t b \<longleftrightarrow> t = Null \<or> key2 t \<le> b"

fun heap :: "ctree \<Rightarrow> bool" where
  "heap Null = True"
| "heap (Node l k c r) \<longleftrightarrow> hle l c \<and> hle r c \<and> heap l \<and> heap r"

fun height :: "ctree \<Rightarrow> nat" where
  "height Null = 0"
| "height (Node l k c r) = Suc (max (height l) (height r))"

lemma sep_append: "sep (xs @ ys) \<longleftrightarrow> sep xs \<and> sep ys \<and> (\<forall>x\<in>set xs. \<forall>y\<in>set ys. rend x < fst y)"
  by (auto simp: sep_def sorted_wrt_append)

lemma sep_Cons: "sep (x # ys) \<longleftrightarrow> 0 < snd x \<and> rend x < 2 ^ 32 \<and> sep ys \<and> (\<forall>y\<in>set ys. rend x < fst y)"
  by (auto simp: sep_def)

lemma sep_Nil [simp]: "sep []"
  by (simp add: sep_def)

lemmas sep_simps = sep_append sep_Cons

lemma sep_mem: "sep rs \<Longrightarrow> x \<in> set rs \<Longrightarrow> 0 < snd x \<and> rend x < 2 ^ 32"
  by (simp add: sep_def)

lemma pages_simps [simp]:
  "pages [] = {}" "pages (x # xs) = {fst x..<rend x} \<union> pages xs" "pages (xs @ ys) = pages xs \<union> pages ys"
  by (auto simp: pages_def)

lemma unat_add_u32: "unat k + unat c < 2 ^ 32 \<Longrightarrow> unat (k + c) = unat k + unat c" for k c :: u32
  using u32_of_nat_unat[of "unat k + unat c"] by simp

lemma hle_simps [simp]: "hle Null b" "hle (Node l k c r) b \<longleftrightarrow> c \<le> b"
  by (simp_all add: hle_def)

lemma hle_trans: "hle t b \<Longrightarrow> b \<le> b' \<Longrightarrow> hle t b'"
  by (auto simp: hle_def)

section \<open>Rotations keep the regions, lowering and removal restore the heap\<close>

lemma regions_Rotate [simp]: "regions (RotateLeft n) = regions n" "regions (RotateRight n) = regions n"
  by (cases n rule: RotateLeft.cases; simp) (cases n rule: RotateRight.cases; simp)

lemma RemoveNode_Node:
  "RemoveNode (Node Null k c Null) = Null"
  "RemoveNode (Node Null k c (Node rl rk rc rr)) = Node (RemoveNode (Node Null k c rl)) rk rc rr"
  "RemoveNode (Node (Node ll lk lc lr) k c Null) = Node ll lk lc (RemoveNode (Node lr k c Null))"
  "RemoveNode (Node (Node ll lk lc lr) k c (Node rl rk rc rr)) =
     (if lc < rc then Node (RemoveNode (Node (Node ll lk lc lr) k c rl)) rk rc rr
      else Node ll lk lc (RemoveNode (Node lr k c (Node rl rk rc rr))))"
  by (simp_all add: RemoveNode.simps[of "Node _ _ _ _"])

lemma RemoveNode_correct:
  "regions (RemoveNode (Node l k c r)) = regions l @ regions r \<and>
   (heap l \<longrightarrow> heap r \<longrightarrow> heap (RemoveNode (Node l k c r)) \<and>
      (\<forall>b. hle l b \<longrightarrow> hle r b \<longrightarrow> hle (RemoveNode (Node l k c r)) b))"
proof (induction "size l + size r" arbitrary: l r rule: less_induct)
  case less
  show ?case
  proof (cases l)
    case Null
    note l = this
    show ?thesis
    proof (cases r)
      case (Node rl rk rc rr)
      have "regions (RemoveNode (Node Null k c rl)) = regions rl" "heap rl \<Longrightarrow> heap (RemoveNode (Node Null k c rl))"
        "heap rl \<Longrightarrow> hle rl b \<Longrightarrow> hle (RemoveNode (Node Null k c rl)) b" for b
        using less[of Null rl] l Node by auto
      then show ?thesis using l Node by (simp add: RemoveNode_Node)
    qed (simp add: l RemoveNode_Node)
  next
    case (Node ll lk lc lr)
    note l = this
    show ?thesis
    proof (cases r)
      case Null
      have "regions (RemoveNode (Node lr k c Null)) = regions lr" "heap lr \<Longrightarrow> heap (RemoveNode (Node lr k c Null))"
        "heap lr \<Longrightarrow> hle lr b \<Longrightarrow> hle (RemoveNode (Node lr k c Null)) b" for b
        using less[of lr Null] l Null by auto
      then show ?thesis using l Null by (simp add: RemoveNode_Node)
    next
      case (Node rl rk rc rr)
      note r = this
      have A: "regions (RemoveNode (Node l k c rl)) = regions l @ regions rl" "heap l \<Longrightarrow> heap rl \<Longrightarrow> heap (RemoveNode (Node l k c rl))"
        "heap l \<Longrightarrow> heap rl \<Longrightarrow> hle l b \<Longrightarrow> hle rl b \<Longrightarrow> hle (RemoveNode (Node l k c rl)) b" for b
        using less[of l rl] r by auto
      have B: "regions (RemoveNode (Node lr k c r)) = regions lr @ regions r" "heap lr \<Longrightarrow> heap r \<Longrightarrow> heap (RemoveNode (Node lr k c r))"
        "heap lr \<Longrightarrow> heap r \<Longrightarrow> hle lr b \<Longrightarrow> hle r b \<Longrightarrow> hle (RemoveNode (Node lr k c r)) b" for b
        using less[of lr r] l by auto
      show ?thesis using A B unfolding l r by (auto simp: RemoveNode_Node)
    qed
  qed
qed

lemma LowerNode_Node:
  "LowerNode (Node l k c r) =
     (case (l, r) of
        (Node ll lk lc lr, Node rl rk rc rr) \<Rightarrow>
          (if lc > c then if rc > lc then Node (LowerNode (Node l k c rl)) rk rc rr
                          else Node ll lk lc (LowerNode (Node lr k c r))
           else if rc > c then Node (LowerNode (Node l k c rl)) rk rc rr else Node l k c r)
      | (Node ll lk lc lr, Null) \<Rightarrow> (if lc > c then Node ll lk lc (LowerNode (Node lr k c r)) else Node l k c r)
      | (Null, Node rl rk rc rr) \<Rightarrow> (if rc > c then Node (LowerNode (Node l k c rl)) rk rc rr else Node l k c r)
      | (Null, Null) \<Rightarrow> Node l k c r)"
  by (subst LowerNode.simps) (auto simp: Let_def split: ctree.splits)

lemma LowerNode_correct:
  "regions (LowerNode (Node l k c r)) = regions l @ (unat k, unat c) # regions r \<and>
   (heap l \<longrightarrow> heap r \<longrightarrow> heap (LowerNode (Node l k c r)) \<and>
      (\<forall>b. hle l b \<longrightarrow> hle r b \<longrightarrow> c \<le> b \<longrightarrow> hle (LowerNode (Node l k c r)) b))"
proof (induction "size l + size r" arbitrary: l r rule: less_induct)
  case less
  have A: "regions (LowerNode (Node l k c rl)) = regions l @ (unat k, unat c) # regions rl"
    "heap l \<Longrightarrow> heap rl \<Longrightarrow> heap (LowerNode (Node l k c rl))"
    "heap l \<Longrightarrow> heap rl \<Longrightarrow> hle l b \<Longrightarrow> hle rl b \<Longrightarrow> c \<le> b \<Longrightarrow> hle (LowerNode (Node l k c rl)) b"
    if "r = Node rl rk rc rr" for rl rk rc rr b
    using less[of l rl] that by auto
  have B: "regions (LowerNode (Node lr k c r)) = regions lr @ (unat k, unat c) # regions r"
    "heap lr \<Longrightarrow> heap r \<Longrightarrow> heap (LowerNode (Node lr k c r))"
    "heap lr \<Longrightarrow> heap r \<Longrightarrow> hle lr b \<Longrightarrow> hle r b \<Longrightarrow> c \<le> b \<Longrightarrow> hle (LowerNode (Node lr k c r)) b"
    if "l = Node ll lk lc lr" for ll lk lc lr b
    using less[of lr r] that by auto
  note U = LowerNode_Node[of l k c r]
  show ?case
  proof (cases l)
    case Null
    note l = this
    show ?thesis using A U by (cases r) (auto simp: l)
  next
    case (Node ll lk lc lr)
    note l = this
    show ?thesis
    proof (cases r)
      case Null
      then show ?thesis using B[OF l] U by (auto simp: l)
    next
      case (Node rl rk rc rr)
      consider "lc > c" "rc > lc" | "lc > c" "\<not> rc > lc" | "\<not> lc > c" "rc > c" | "\<not> lc > c" "\<not> rc > c" by blast
      then show ?thesis using U A[OF Node] B[OF l]
        by cases (auto simp: l Node not_less intro: order_trans less_imp_le)
    qed
  qed
qed

section \<open>First fit\<close>

text \<open>The specification of the search: take the first region that is large enough from its start.\<close>

fun first_fit :: "nat \<Rightarrow> region list \<Rightarrow> (nat \<times> region list) option" where
  "first_fit s [] = None"
| "first_fit s (x # rs) =
     (if s \<le> snd x then Some (fst x, if snd x = s then rs else (fst x + s, snd x - s) # rs)
      else map_option (\<lambda>(a, ys). (a, x # ys)) (first_fit s rs))"

lemma first_fit_append:
  "first_fit s (xs @ ys) =
     (case first_fit s xs of Some (a, xs') \<Rightarrow> Some (a, xs' @ ys)
      | None \<Rightarrow> map_option (\<lambda>(a, ys'). (a, xs @ ys')) (first_fit s ys))"
  by (induction xs) (auto simp: option.map_comp comp_def prod.case_distrib option.map_id split: option.splits)

lemma first_fit_None_iff: "first_fit s rs = None \<longleftrightarrow> (\<forall>x\<in>set rs. snd x < s)"
  by (induction rs) auto

lemma heap_max: "heap t \<Longrightarrow> hle t b \<Longrightarrow> x \<in> set (regions t) \<Longrightarrow> snd x \<le> unat b"
  by (induction t arbitrary: b) (auto simp: word_le_nat_alt hle_def dest: order_trans)

lemma Find_at_first_fit:
  assumes "heap t" "sep (regions t)"
  shows "map_option (\<lambda>(a, t'). (unat a, regions t')) (Find_at t s) = first_fit (unat s) (regions t)"
    and "Find_at t s = Some (a, t') \<Longrightarrow> heap t' \<and> (\<forall>b. hle t b \<longrightarrow> hle t' b)"
proof -
  have "map_option (\<lambda>(a, t'). (unat a, regions t')) (Find_at t s) = first_fit (unat s) (regions t) \<and>
    (\<forall>a t'. Find_at t s = Some (a, t') \<longrightarrow> heap t' \<and> (\<forall>b. hle t b \<longrightarrow> hle t' b))"
    using assms
  proof (induction t)
    case (Node l k c r)
    have IH: "map_option (\<lambda>(a, t'). (unat a, regions t')) (Find_at l s) = first_fit (unat s) (regions l)"
      "\<And>a t'. Find_at l s = Some (a, t') \<Longrightarrow> heap t' \<and> (\<forall>b. hle l b \<longrightarrow> hle t' b)"
      using Node.IH(1) Node.prems by (auto simp: sep_simps)
    show ?case
    proof (cases "c < s")
      case True
      have "snd x < unat s" if "x \<in> set (regions (Node l k c r))" for x
        using heap_max[OF Node.prems(1), of c x] that True by (simp add: word_less_nat_alt)
      then have "first_fit (unat s) (regions (Node l k c r)) = None" using first_fit_None_iff by blast
      then show ?thesis using True by simp
    next
      case False
      then have sc: "unat s \<le> unat c" "s \<le> c" by (simp_all add: word_less_nat_alt word_le_nat_alt)
      have lnull: "(if l \<noteq> Null then Find_at l s else None) = Find_at l s" by simp
      show ?thesis
      proof (cases "Find_at l s")
        case None
        have nl: "first_fit (unat s) (regions l) = None" using IH(1) None by simp
        have d: "unat (c - s) = unat c - unat s" using sc by (simp add: unat_sub)
        have z: "c - s = 0 \<longleftrightarrow> unat c = unat s" using d sc by (simp add: word_unat_eq_iff)
        have ks: "unat (k + s) = unat k + unat s"
          using Node.prems(2) sc by (intro unat_add_u32) (simp add: sep_simps)
        have hl: "heap l" "heap r" "hle l c" "hle r c" using Node.prems by simp_all
        have le: "c - s \<le> c" using d by (simp add: word_le_nat_alt)
        show ?thesis
          using False nl None hl z d ks sc LowerNode_correct[of l "k + s" "c - s" r] RemoveNode_correct[of l "k + s" "c - s" r] le
          by (auto simp: first_fit_append Let_def dest: hle_trans intro: order_trans)
      next
        case (Some p)
        obtain a l' where p: "p = (a, l')" by force
        have "first_fit (unat s) (regions l) = Some (unat a, regions l')" using IH(1) Some p by simp
        then show ?thesis using False Some p IH(2)[of a l'] Node.prems by (auto simp: first_fit_append)
      qed
    qed
  qed simp
  then show "map_option (\<lambda>(a, t'). (unat a, regions t')) (Find_at t s) = first_fit (unat s) (regions t)"
    "Find_at t s = Some (a, t') \<Longrightarrow> heap t' \<and> (\<forall>b. hle t b \<longrightarrow> hle t' b)" by blast+
qed

lemma first_fit_sep:
  assumes "sep rs" "first_fit s rs = Some (a, rs')" "0 < s"
  shows "sep rs' \<and> {a..<a + s} \<subseteq> pages rs \<and> pages rs' = pages rs - {a..<a + s} \<and>
    (\<forall>y\<in>set rs'. \<exists>x\<in>set rs. fst x \<le> fst y)"
  using assms
proof (induction rs arbitrary: rs')
  case (Cons x rs)
  have above: "\<forall>y\<in>pages rs. rend x < y"
    using Cons.prems(1) by (fastforce simp: sep_simps pages_def)
  then have apart: "{fst x..<rend x} \<inter> pages rs = {}" by fastforce
  show ?case
  proof (cases "s \<le> snd x")
    case True
    then have a: "a = fst x" and r: "rs' = (if snd x = s then rs else (fst x + s, snd x - s) # rs)"
      using Cons.prems(2) by auto
    have no: "fst x + s \<le> y" if "y \<in> pages rs" for y
      using bspec[OF above that] True by simp
    have "pages rs' = pages (x # rs) - {a..<a + s}" using True by (auto simp: a r dest: no)
    moreover have "sep rs'" using Cons.prems(1) True by (auto simp: r sep_simps)
    moreover have "\<exists>z\<in>set (x # rs). fst z \<le> fst y" if "y \<in> set rs'" for y
      using that by (cases "y \<in> set rs") (auto simp: r split: if_splits)
    moreover have "{a..<a + s} \<subseteq> pages (x # rs)" using True by (auto simp: a)
    ultimately show ?thesis by blast
  next
    case False
    then obtain ys where ys: "first_fit s rs = Some (a, ys)" "rs' = x # ys" using Cons.prems(2) by auto
    have IH: "sep ys" "{a..<a + s} \<subseteq> pages rs" "pages ys = pages rs - {a..<a + s}"
      "\<forall>y\<in>set ys. \<exists>z\<in>set rs. fst z \<le> fst y"
      using Cons.IH[OF _ ys(1)] Cons.prems(1,3) by (simp_all add: sep_simps)
    have "\<forall>y\<in>set ys. rend x < fst y" using IH(4) Cons.prems(1) by (force simp: sep_simps)
    then have "sep rs'" using IH(1) Cons.prems(1) by (simp add: ys(2) sep_simps)
    moreover have "{fst x..<rend x} \<inter> {a..<a + s} = {}" using IH(2) apart by blast
    ultimately show ?thesis using IH by (auto simp: ys(2))
  qed
qed simp

section \<open>Coalescing\<close>

text \<open>The specification of the insertion: the new region stands alone, or grows the region that
  ends where it starts, or the one that starts where it ends, or joins the two.\<close>

inductive coalesces :: "nat \<Rightarrow> nat \<Rightarrow> region list \<Rightarrow> region list \<Rightarrow> bool" for a s :: nat where
  alone: "\<forall>x\<in>set L. rend x < a \<Longrightarrow> \<forall>x\<in>set R. a + s < fst x \<Longrightarrow> coalesces a s (L @ R) (L @ (a, s) # R)"
| grow_left: "\<forall>x\<in>set L. rend x < a \<Longrightarrow> \<forall>x\<in>set R. a + s < fst x \<Longrightarrow> k + c = a \<Longrightarrow>
    coalesces a s (L @ (k, c) # R) (L @ (k, c + s) # R)"
| grow_right: "\<forall>x\<in>set L. rend x < a \<Longrightarrow> \<forall>x\<in>set R. a + s < fst x \<Longrightarrow>
    coalesces a s (L @ (a + s, c) # R) (L @ (a, c + s) # R)"
| join: "\<forall>x\<in>set L. rend x < a \<Longrightarrow> \<forall>x\<in>set R. a + s < fst x \<Longrightarrow> k + c = a \<Longrightarrow>
    coalesces a s (L @ (k, c) # (a + s, d) # R) (L @ (k, c + s + d) # R)"

lemma coalesces_sep:
  assumes "coalesces a s rs rs'" "sep rs" "0 < s" "a + s < 2 ^ 32"
  shows "sep rs' \<and> pages rs' = pages rs \<union> {a..<a + s} \<and> pages rs \<inter> {a..<a + s} = {}"
proof -
  have out: "pages L \<inter> {a..<a + s} = {}" "pages R \<inter> {a..<a + s} = {}"
    if "\<forall>x\<in>set L. rend x < a" "\<forall>x\<in>set R. a + s < fst x" for L R :: "region list"
    using that by (fastforce simp: pages_def)+
  show ?thesis
    using assms
  proof (induction rule: coalesces.induct)
    case (alone L R)
    then show ?case using out[of L R] by (fastforce simp: sep_simps)
  next
    case (grow_left L R k c)
    moreover have "{k..<k + (c + s)} = {k..<k + c} \<union> {a..<a + s}" using grow_left by auto
    ultimately show ?case using out[of L R] by (fastforce simp: sep_simps)
  next
    case (grow_right L R c)
    moreover have "{a..<a + (c + s)} = {a..<a + s} \<union> {a + s..<a + s + c}" by auto
    moreover have "\<forall>x\<in>set R. a + (c + s) < fst x" "a + (c + s) < 2 ^ 32"
      using grow_right by (auto simp: sep_simps add.assoc add.commute)
    ultimately show ?case using out[of L R] by (fastforce simp: sep_simps)
  next
    case (join L R k c d)
    moreover have "{k..<k + (c + s + d)} = {k..<k + c} \<union> {a..<a + s} \<union> {a + s..<a + s + d}" using join by auto
    moreover have "\<forall>x\<in>set R. k + (c + s + d) < fst x" "k + (c + s + d) < 2 ^ 32"
      using join by (auto simp: sep_simps)
    ultimately show ?case using out[of L R] by (fastforce simp: sep_simps)
  qed
qed

lemma coalesces_ext:
  assumes "coalesces a s rs rs'" "\<forall>x\<in>set P. rend x < a" "\<forall>x\<in>set Q. a + s < fst x"
  shows "coalesces a s (P @ rs @ Q) (P @ rs' @ Q)"
  using assms(1)
proof cases
  case (alone L R)
  then show ?thesis using assms(2,3) coalesces.alone[of "P @ L" a "R @ Q" s] by auto
next
  case (grow_left L R k c)
  then show ?thesis using assms(2,3) coalesces.grow_left[of "P @ L" a "R @ Q" s k c] by auto
next
  case (grow_right L R c)
  then show ?thesis using assms(2,3) coalesces.grow_right[of "P @ L" a "R @ Q" s c] by auto
next
  case (join L R k c d)
  then show ?thesis using assms(2,3) coalesces.join[of "P @ L" a "R @ Q" s k c d] by auto
qed

lemma sep_unat_end: "sep (regions (Node l k c r)) \<Longrightarrow> unat (k + c) = unat k + unat c"
  by (rule unat_add_u32) (simp add: sep_simps)

lemma walk_right_correct:
  assumes "sep (regions t)"
  shows "walk_right m t = None \<Longrightarrow> \<exists>x\<in>set (regions t). fst x < unat m"
    and "walk_right m t = Some (None, t') \<Longrightarrow> t' = t \<and> (\<forall>x\<in>set (regions t). unat m < fst x)"
    and "walk_right m t = Some (Some c, t') \<Longrightarrow> regions t = (unat m, unat c) # regions t' \<and>
      (\<forall>x\<in>set (regions t'). unat m < fst x) \<and> (heap t \<longrightarrow> heap t' \<and> (\<forall>b. hle t b \<longrightarrow> hle t' b))"
proof -
  have "(walk_right m t = None \<longrightarrow> (\<exists>x\<in>set (regions t). fst x < unat m)) \<and>
    (walk_right m t = Some (None, t') \<longrightarrow> t' = t \<and> (\<forall>x\<in>set (regions t). unat m < fst x)) \<and>
    (walk_right m t = Some (Some c, t') \<longrightarrow> regions t = (unat m, unat c) # regions t' \<and>
      (\<forall>x\<in>set (regions t'). unat m < fst x) \<and> (heap t \<longrightarrow> heap t' \<and> (\<forall>b. hle t b \<longrightarrow> hle t' b)))"
    using assms
  proof (induction t arbitrary: t')
    case (Node l k c' r)
    have sl: "sep (regions l)" and after: "\<forall>x\<in>set (regions r). unat k < fst x"
      and before: "\<forall>x\<in>set (regions l). fst x < unat k"
      using Node.prems by (auto simp: sep_simps)
    consider (eq) "k = m" | (lt) "k < m" | (gt) "m < k" by force
    then show ?case
    proof cases
      case eq
      show ?thesis
      proof (cases l)
        case Null
        then show ?thesis using eq after Node.prems RemoveNode_correct[of Null k c' r]
          by (auto dest: hle_trans)
      next
        case (Node ll lk lc lr)
        then show ?thesis using eq before by auto
      qed
    next
      case lt
      then show ?thesis by (auto simp: word_less_nat_alt)
    next
      case gt
      then have "unat m < unat k" by (simp add: word_less_nat_alt)
      then have g: "unat m < unat k" "\<forall>x\<in>set (regions r). unat m < fst x" using after by auto
      show ?thesis
      proof (cases "walk_right m l")
        case None
        then show ?thesis using gt Node.IH(1) sl by auto
      next
        case (Some p)
        obtain y l' where p: "p = (y, l')" by force
        show ?thesis using gt g Some p Node.IH(1)[of l'] sl
          by (cases y) (clarsimp simp: ball_Un, force simp: ball_Un)+
      qed
    qed
  qed simp
  then show "walk_right m t = None \<Longrightarrow> \<exists>x\<in>set (regions t). fst x < unat m"
    "walk_right m t = Some (None, t') \<Longrightarrow> t' = t \<and> (\<forall>x\<in>set (regions t). unat m < fst x)"
    "walk_right m t = Some (Some c, t') \<Longrightarrow> regions t = (unat m, unat c) # regions t' \<and>
      (\<forall>x\<in>set (regions t'). unat m < fst x) \<and> (heap t \<longrightarrow> heap t' \<and> (\<forall>b. hle t b \<longrightarrow> hle t' b))" by blast+
qed

lemma walk_left_correct:
  assumes "sep (regions t)"
  shows "walk_left a t = None \<Longrightarrow> \<exists>x\<in>set (regions t). unat a < rend x"
    and "walk_left a t = Some (None, t') \<Longrightarrow> t' = t \<and> (\<forall>x\<in>set (regions t). rend x < unat a)"
    and "walk_left a t = Some (Some (k, c), t') \<Longrightarrow> regions t = regions t' @ [(unat k, unat c)] \<and>
      unat k + unat c = unat a \<and>
      (\<forall>x\<in>set (regions t'). rend x < unat a) \<and> (heap t \<longrightarrow> heap t' \<and> (\<forall>b. hle t b \<longrightarrow> hle t' b))"
proof -
  have "(walk_left a t = None \<longrightarrow> (\<exists>x\<in>set (regions t). unat a < rend x)) \<and>
    (walk_left a t = Some (None, t') \<longrightarrow> t' = t \<and> (\<forall>x\<in>set (regions t). rend x < unat a)) \<and>
    (walk_left a t = Some (Some (k, c), t') \<longrightarrow> regions t = regions t' @ [(unat k, unat c)] \<and> unat k + unat c = unat a \<and>
      (\<forall>x\<in>set (regions t'). rend x < unat a) \<and> (heap t \<longrightarrow> heap t' \<and> (\<forall>b. hle t b \<longrightarrow> hle t' b)))"
    using assms
  proof (induction t arbitrary: t')
    case (Node l k' c' r)
    have sr: "sep (regions r)" and after: "\<forall>x\<in>set (regions r). unat k' + unat c' < rend x"
      and before: "\<forall>x\<in>set (regions l). rend x < unat k'"
      using Node.prems by (auto simp: sep_simps)
    have before2: "\<forall>x\<in>set (regions l). rend x < unat k' + unat c'" using before by auto
    note e = sep_unat_end[OF Node.prems]
    consider (eq) "k' + c' = a" | (gt) "k' + c' > a" | (lt) "k' + c' < a" by force
    then show ?case
    proof cases
      case eq
      show ?thesis
      proof (cases r)
        case Null
        then show ?thesis using eq e before2 Node.prems RemoveNode_correct[of l k' c' Null]
          by (auto dest: hle_trans)
      next
        case (Node rl rk rc rr)
        then show ?thesis using eq e after by auto
      qed
    next
      case gt
      then show ?thesis using e by (auto simp: word_less_nat_alt)
    next
      case lt
      then have "unat k' + unat c' < unat a" using e by (simp add: word_less_nat_alt)
      then have g: "unat k' + unat c' < unat a" "\<forall>x\<in>set (regions l). rend x < unat a" using before by auto
      show ?thesis
      proof (cases "walk_left a r")
        case None
        then show ?thesis using lt Node.IH(2) sr by auto
      next
        case (Some p)
        obtain y r' where p: "p = (y, r')" by force
        show ?thesis using lt g Some p Node.IH(2)[of r'] sr
          by (cases y) (clarsimp simp: ball_Un, force simp: ball_Un)+
      qed
    qed
  qed simp
  then show "walk_left a t = None \<Longrightarrow> \<exists>x\<in>set (regions t). unat a < rend x"
    "walk_left a t = Some (None, t') \<Longrightarrow> t' = t \<and> (\<forall>x\<in>set (regions t). rend x < unat a)"
    "walk_left a t = Some (Some (k, c), t') \<Longrightarrow> regions t = regions t' @ [(unat k, unat c)] \<and>
      unat k + unat c = unat a \<and>
      (\<forall>x\<in>set (regions t'). rend x < unat a) \<and> (heap t \<longrightarrow> heap t' \<and> (\<forall>b. hle t b \<longrightarrow> hle t' b))" by blast+
qed

section \<open>One node\<close>

lemma overlap_start: "x \<in> set rs \<Longrightarrow> 0 < snd x \<Longrightarrow> a \<le> fst x \<Longrightarrow> fst x < m \<Longrightarrow> pages rs \<inter> {a..<m} \<noteq> {}"
  unfolding pages_def by (rule ccontr) (auto, force)

lemma overlap_end: "x \<in> set rs \<Longrightarrow> 0 < snd x \<Longrightarrow> a < rend x \<Longrightarrow> rend x \<le> m \<Longrightarrow> pages rs \<inter> {a..<m} \<noteq> {}"
proof -
  assume x: "x \<in> set rs" "0 < snd x" "a < rend x" "rend x \<le> m"
  then have "rend x - 1 \<in> {fst x..<rend x}" "rend x - 1 \<in> {a..<m}" by auto
  then show ?thesis using x(1) unfolding pages_def by blast
qed

lemma MergeAt_right:
  assumes sp: "sep (regions (Node l k c r))" and as: "unat a + unat s < 2 ^ 32" "0 < unat s" and e: "a = k + c"
  shows "case MergeAt (Node l k c r) a s of
      kSuccess n \<Rightarrow> coalesces (unat a) (unat s) (regions (Node l k c r)) (regions n) \<and>
        (heap (Node l k c r) \<longrightarrow> heap n \<and> hle (lchild n) c \<and> hle (rchild n) c) \<and> n \<noteq> Null
    | kMiss \<Rightarrow> False
    | kError \<Rightarrow> pages (regions (Node l k c r)) \<inter> {unat a..<unat a + unat s} \<noteq> {}"
proof -
  have m: "unat (a + s) = unat a + unat s" using as(1) by (rule unat_add_u32)
  have ea: "unat a = unat k + unat c" using sep_unat_end[OF sp] e by simp
  have sr: "sep (regions r)" and L: "\<forall>x\<in>set (regions l). rend x < unat a"
    and R: "\<forall>x\<in>set (regions r). unat a < fst x" using sp ea by (auto simp: sep_simps)
  note W = walk_right_correct[OF sr, of "a + s"]
  consider (err) "walk_right (a + s) r = None" | (none) r' where "walk_right (a + s) r = Some (None, r')"
    | (some) c' r' where "walk_right (a + s) r = Some (Some c', r')" by (metis option.exhaust surj_pair)
  then show ?thesis
  proof cases
    case err
    then obtain x where x: "x \<in> set (regions r)" "fst x < unat a + unat s" using W(1) m by auto
    then have "pages (regions r) \<inter> {unat a..<unat a + unat s} \<noteq> {}"
      using R sep_mem[OF sr x(1)] by (intro overlap_start[OF x(1)]) auto
    then show ?thesis using err e by auto
  next
    case none
    then have w: "r' = r" "\<forall>x\<in>set (regions r). unat a + unat s < fst x" using W(2) m by auto
    have cs: "unat (c + s) = unat c + unat s" using as ea by (intro unat_add_u32) simp
    then have le: "c \<le> c + s" by (simp add: word_le_nat_alt)
    have "coalesces (unat a) (unat s) (regions (Node l k c r)) (regions (Node l k (c + s) r))"
      using coalesces.grow_left[OF L w(2), of "unat k" "unat c"] ea cs by simp
    then show ?thesis using none e w(1) le by (auto intro: hle_trans)
  next
    case some
    then have w: "regions r = (unat a + unat s, unat c') # regions r'" "\<forall>x\<in>set (regions r'). unat a + unat s < fst x"
      "heap r \<longrightarrow> heap r' \<and> (\<forall>b. hle r b \<longrightarrow> hle r' b)" using W(3) m by auto
    have "unat a + unat s + unat c' < 2 ^ 32" using sr by (simp add: w(1) sep_simps)
    then have cs: "unat (c + s) = unat c + unat s" "unat (c + s + c') = unat c + unat s + unat c'"
      using ea by (simp_all add: unat_add_u32)
    then have le: "c \<le> c + s + c'" by (simp add: word_le_nat_alt)
    have "coalesces (unat a) (unat s) (regions (Node l k c r)) (regions (Node l k (c + s + c') r'))"
      using coalesces.join[OF L w(2), of "unat k" "unat c" "unat c'"] ea cs w(1) by simp
    then show ?thesis using some e w(3) le by (auto intro: hle_trans)
  qed
qed

lemma MergeAt_left:
  assumes sp: "sep (regions (Node l k c r))" and as: "unat a + unat s < 2 ^ 32" "0 < unat s"
    and e: "a \<noteq> k + c" "a + s = k"
  shows "case MergeAt (Node l k c r) a s of
      kSuccess n \<Rightarrow> coalesces (unat a) (unat s) (regions (Node l k c r)) (regions n) \<and>
        (heap (Node l k c r) \<longrightarrow> heap n \<and> hle (lchild n) c \<and> hle (rchild n) c) \<and> n \<noteq> Null
    | kMiss \<Rightarrow> False
    | kError \<Rightarrow> pages (regions (Node l k c r)) \<inter> {unat a..<unat a + unat s} \<noteq> {}"
proof -
  have m: "unat k = unat a + unat s" using unat_add_u32[OF as(1)] e(2) by simp
  have sl: "sep (regions l)" and L: "\<forall>x\<in>set (regions l). rend x < unat a + unat s"
    and R: "\<forall>x\<in>set (regions r). unat a + unat s < fst x" and kc: "unat k + unat c < 2 ^ 32"
    using sp m by (auto simp: sep_simps)
  note W = walk_left_correct[OF sl, of a]
  have cs: "unat (c + s) = unat c + unat s" using kc m by (intro unat_add_u32) simp
  consider (err) "walk_left a l = None" | (none) l' where "walk_left a l = Some (None, l')"
    | (some) k' c' l' where "walk_left a l = Some (Some (k', c'), l')" by (metis option.exhaust surj_pair)
  then show ?thesis
  proof cases
    case err
    then obtain x where x: "x \<in> set (regions l)" "unat a < rend x" using W(1) by auto
    then have "pages (regions l) \<inter> {unat a..<unat a + unat s} \<noteq> {}"
      using L sep_mem[OF sl x(1)] by (intro overlap_end[OF x(1)]) auto
    then show ?thesis using err e by auto
  next
    case none
    then have w: "l' = l" "\<forall>x\<in>set (regions l). rend x < unat a" using W(2) by auto
    have le: "c \<le> c + s" using cs by (simp add: word_le_nat_alt)
    have "coalesces (unat a) (unat s) (regions (Node l k c r)) (regions (Node l a (c + s) r))"
      using coalesces.grow_right[OF w(2) R, of "unat c"] m cs by simp
    then show ?thesis using none e w(1) le by (auto intro: hle_trans)
  next
    case some
    then have w: "regions l = regions l' @ [(unat k', unat c')]" "unat k' + unat c' = unat a"
      "\<forall>x\<in>set (regions l'). rend x < unat a" "heap l \<longrightarrow> heap l' \<and> (\<forall>b. hle l b \<longrightarrow> hle l' b)" using W(3) by auto
    have cs': "unat (c + s + c') = unat c' + unat s + unat c"
      using kc m w(2) cs by (subst unat_add_u32) simp_all
    then have le: "c \<le> c + s + c'" by (simp add: word_le_nat_alt)
    have "coalesces (unat a) (unat s) (regions (Node l k c r)) (regions (Node l' k' (c + s + c') r))"
      using coalesces.join[OF w(3) R w(2), of "unat c"] m cs' w(1) by simp
    then show ?thesis using some e w(4) le by (auto intro: hle_trans)
  qed
qed

lemma MergeAt_miss: "a \<noteq> k + c \<Longrightarrow> a + s \<noteq> k \<Longrightarrow> MergeAt (Node l k c r) a s = kMiss"
  by simp

lemma MergeAt_success:
  assumes "sep (regions u)" "unat a + unat s < 2 ^ 32" "0 < unat s" "MergeAt u a s = kSuccess n"
  shows "coalesces (unat a) (unat s) (regions u) (regions n)" "n \<noteq> Null"
    "heap u \<Longrightarrow> heap n" "heap u \<Longrightarrow> hle u b \<Longrightarrow> hle (lchild n) b \<and> hle (rchild n) b"
proof -
  obtain l k c r where u: "u = Node l k c r" using assms(4) by (cases u) auto
  consider "a = k + c" | "a \<noteq> k + c" "a + s = k" | "a \<noteq> k + c" "a + s \<noteq> k" by blast
  then have "coalesces (unat a) (unat s) (regions u) (regions n) \<and>
        (heap u \<longrightarrow> heap n \<and> hle (lchild n) c \<and> hle (rchild n) c) \<and> n \<noteq> Null"
  proof cases
    case 1
    then show ?thesis using MergeAt_right[of l k c r a s] assms u by (simp del: MergeAt.simps regions.simps heap.simps)
  next
    case 2
    then show ?thesis using MergeAt_left[of l k c r a s] assms u by (simp del: MergeAt.simps regions.simps heap.simps)
  next
    case 3
    then show ?thesis using MergeAt_miss[OF 3, of l r] assms u by (simp del: MergeAt.simps)
  qed
  then show "coalesces (unat a) (unat s) (regions u) (regions n)" "n \<noteq> Null"
    "heap u \<Longrightarrow> heap n" "heap u \<Longrightarrow> hle u b \<Longrightarrow> hle (lchild n) b \<and> hle (rchild n) b"
    by (auto simp: u intro: hle_trans)
qed

lemma MergeAt_error:
  assumes "sep (regions u)" "unat a + unat s < 2 ^ 32" "0 < unat s" "MergeAt u a s = kError"
  shows "pages (regions u) \<inter> {unat a..<unat a + unat s} \<noteq> {}"
proof -
  obtain l k c r where u: "u = Node l k c r" using assms(4) by (cases u) auto
  consider "a = k + c" | "a \<noteq> k + c" "a + s = k" | "a \<noteq> k + c" "a + s \<noteq> k" by blast
  then show ?thesis
  proof cases
    case 1
    then show ?thesis using MergeAt_right[of l k c r a s] assms u by (simp del: MergeAt.simps regions.simps heap.simps)
  next
    case 2
    then show ?thesis using MergeAt_left[of l k c r a s] assms u by (simp del: MergeAt.simps regions.simps heap.simps)
  next
    case 3
    then show ?thesis using MergeAt_miss[OF 3, of l r] assms u by (simp del: MergeAt.simps)
  qed
qed

section \<open>The way down\<close>

fun pre :: "frame list \<Rightarrow> region list" where
  "pre [] = []"
| "pre (WentLeft k c r # fs) = pre fs"
| "pre (WentRight l k c # fs) = pre fs @ regions l @ [(unat k, unat c)]"

fun post :: "frame list \<Rightarrow> region list" where
  "post [] = []"
| "post (WentLeft k c r # fs) = (unat k, unat c) # regions r @ post fs"
| "post (WentRight l k c # fs) = post fs"

fun frame_ok :: "u32 \<Rightarrow> u32 \<Rightarrow> frame \<Rightarrow> bool" where
  "frame_ok a m (WentLeft k c r) \<longleftrightarrow> m < k"
| "frame_ok a m (WentRight l k c) \<longleftrightarrow> \<not> m < k \<and> a > k + c"

lemma regions_plug: "regions (plug fs t) = pre fs @ regions t @ post fs"
proof (induction fs arbitrary: t)
  case (Cons f fs)
  then show ?case by (cases f) simp_all
qed simp

lemma plug_append: "plug (xs @ ys) t = plug ys (plug xs t)"
  by (induction xs arbitrary: t) simp_all

lemma plug_take_drop: "plug (drop n fs) (plug (take n fs) t) = plug fs t"
  by (metis append_take_drop_id plug_append)

definition insert_result :: "u32 \<Rightarrow> u32 \<Rightarrow> ctree \<Rightarrow> ctree \<Rightarrow> frame list \<Rightarrow> bool" where
  "insert_result a s root n path \<longleftrightarrow> (\<exists>u. plug path u = root \<and>
     (\<forall>x\<in>set (pre path). rend x < unat a) \<and> (\<forall>x\<in>set (post path). unat a + unat s < fst x) \<and>
     list_all (frame_ok a (a + s)) path \<and> length path \<le> height root \<and>
     (u = Null \<and> n = Node Null a s Null \<or> MergeAt u a s = kSuccess n))"

lemma insert_loop_correct:
  "unat a + unat s < 2 ^ 32 \<Longrightarrow> 0 < unat s \<Longrightarrow> sep (regions (plug path t)) \<Longrightarrow> \<forall>x\<in>set (pre path). rend x < unat a \<Longrightarrow>
    \<forall>x\<in>set (post path). unat a + unat s < fst x \<Longrightarrow> list_all (frame_ok a (a + s)) path \<Longrightarrow>
    length path + height t \<le> height (plug path t) \<Longrightarrow>
    (case insert_loop a s t path dq of
       None \<Rightarrow> pages (regions (plug path t)) \<inter> {unat a..<unat a + unat s} \<noteq> {}
     | Some (n, path', dq') \<Rightarrow> insert_result a s (plug path t) n path' \<and> length path \<le> length path' \<and>
         dq' = fold Ld_Push [length path..<length path'] dq)"
proof (induction a s t path dq rule: insert_loop.induct)
  case (1 a s path dq)
  then show ?case unfolding insert_loop.simps insert_result_def by auto
next
  case (2 a s l k c r path dq)
  let ?t = "Node l k c r"
  have st: "sep (regions ?t)" using "2.prems"(3) by (simp add: regions_plug sep_simps)
  have m: "unat (a + s) = unat a + unat s" using "2.prems"(1) by (rule unat_add_u32)
  have kc: "unat (k + c) = unat k + unat c" using st by (rule sep_unat_end)
  show ?case
  proof (cases "MergeAt ?t a s")
    case (kSuccess n)
    then have "insert_result a s (plug path ?t) n path"
      using "2.prems" unfolding insert_result_def by auto
    then show ?thesis using kSuccess by (simp del: MergeAt.simps)
  next
    case kError
    then have "pages (regions ?t) \<inter> {unat a..<unat a + unat s} \<noteq> {}"
      using MergeAt_error[OF st "2.prems"(1,2)] by blast
    then show ?thesis using kError by (auto simp: regions_plug simp del: MergeAt.simps)
  next
    case kMiss
    note miss = this
    have ne: "a \<noteq> k + c"
      using MergeAt_right[OF st "2.prems"(1,2)] miss by (auto simp del: MergeAt.simps regions.simps heap.simps)
    moreover have "a + s \<noteq> k"
      using MergeAt_left[OF st "2.prems"(1,2) ne] miss by (auto simp del: MergeAt.simps regions.simps heap.simps)
    ultimately have ne: "a \<noteq> k + c" "a + s \<noteq> k" by simp_all
    consider (left) "a + s < k" | (right) "\<not> a + s < k" "a > k + c" | (clash) "\<not> a + s < k" "\<not> a > k + c" by blast
    then show ?thesis
    proof cases
      case left
      let ?p = "WentLeft k c r # path"
      have pl: "plug ?p l = plug path ?t" by simp
      have "\<forall>x\<in>set (post ?p). unat a + unat s < fst x"
        using st left m "2.prems"(5) by (auto simp: sep_simps word_less_nat_alt)
      moreover have "length ?p + height l \<le> height (plug path ?t)" using "2.prems"(7) by simp
      ultimately have IH: "case insert_loop a s l ?p (Ld_Push (length path) dq) of
          None \<Rightarrow> pages (regions (plug path ?t)) \<inter> {unat a..<unat a + unat s} \<noteq> {}
        | Some (n, path', dq') \<Rightarrow> insert_result a s (plug path ?t) n path' \<and> length ?p \<le> length path' \<and>
            dq' = fold Ld_Push [length ?p..<length path'] (Ld_Push (length path) dq)"
        using "2.IH"(1)[OF miss left] "2.prems" left by (simp only: pl) simp
      have "insert_loop a s ?t path dq = insert_loop a s l ?p (Ld_Push (length path) dq)"
        using miss left by (simp del: MergeAt.simps)
      then show ?thesis using IH by (auto simp: upt_conv_Cons split: option.splits simp del: insert_loop.simps)
    next
      case right
      let ?p = "WentRight l k c # path"
      have pl: "plug ?p r = plug path ?t" by simp
      have g: "unat k + unat c < unat a" using right kc by (simp add: word_less_nat_alt)
      then have "\<forall>x\<in>set (pre ?p). rend x < unat a"
        using st "2.prems"(4) by (force simp: sep_simps)
      moreover have "length ?p + height r \<le> height (plug path ?t)" using "2.prems"(7) by simp
      ultimately have IH: "case insert_loop a s r ?p (Ld_Push (length path) dq) of
          None \<Rightarrow> pages (regions (plug path ?t)) \<inter> {unat a..<unat a + unat s} \<noteq> {}
        | Some (n, path', dq') \<Rightarrow> insert_result a s (plug path ?t) n path' \<and> length ?p \<le> length path' \<and>
            dq' = fold Ld_Push [length ?p..<length path'] (Ld_Push (length path) dq)"
        using "2.IH"(2)[OF miss right] "2.prems" right by (simp only: pl) simp
      have "insert_loop a s ?t path dq = insert_loop a s r ?p (Ld_Push (length path) dq)"
        using miss right by (simp del: MergeAt.simps)
      then show ?thesis using IH by (auto simp: upt_conv_Cons split: option.splits simp del: insert_loop.simps)
    next
      case clash
      then have "unat k < unat a + unat s" "unat a < unat k + unat c"
        using ne m kc by (auto simp: word_less_nat_alt word_unat_eq_iff)
      then have "max (unat k) (unat a) \<in> {unat k..<unat k + unat c} \<inter> {unat a..<unat a + unat s}"
        using "2.prems"(2) st by (auto simp: sep_simps)
      moreover have "{unat k..<unat k + unat c} \<subseteq> pages (regions ?t)" by auto
      ultimately have "pages (regions ?t) \<inter> {unat a..<unat a + unat s} \<noteq> {}" by blast
      then show ?thesis using miss clash by (auto simp: regions_plug simp del: MergeAt.simps)
    qed
  qed
qed

section \<open>The way up\<close>

lemma bubble_regions: "regions (snd (bubble_loop a m pns t path)) = regions (plug path t)"
proof (induction pns arbitrary: t path)
  case (Cons pn pns)
  let ?u = "length path - pn"
  have "regions (plug (drop ?u path) (RotateLeft (plug (take ?u path) t))) = regions (plug path t)"
    "regions (plug (drop ?u path) (RotateRight (plug (take ?u path) t))) = regions (plug path t)"
    by (metis regions_Rotate(1) regions_plug plug_take_drop, metis regions_Rotate(2) regions_plug plug_take_drop)
  then show ?case by (simp add: Let_def Cons.IH plug_take_drop)
qed simp

lemma frame_ok_root:
  "frame_ok a m f \<Longrightarrow> m < key1 (plug1 f t) \<or> a > key1 (plug1 f t) + key2 (plug1 f t)"
  by (cases f) auto

lemma bubble_true:
  assumes "sorted_wrt (>) pns" "set pns \<subseteq> {..<length path}" "list_all (frame_ok a m) path"
  shows "fst (bubble_loop a m pns t path)"
  using assms
proof (induction pns arbitrary: t path)
  case (Cons pn pns)
  let ?u = "length path - pn"
  have pn: "pn < length path" "length (drop ?u path) = pn" using Cons.prems(2) by auto
  have "take ?u path = take (?u - 1) path @ [path ! (?u - 1)]"
    using pn take_Suc_conv_app_nth[of "?u - 1" path] by (simp add: Suc_diff_Suc)
  then have "plug (take ?u path) t = plug1 (path ! (?u - 1)) (plug (take (?u - 1) path) t)"
    by (simp add: plug_append)
  moreover have "frame_ok a m (path ! (?u - 1))" using Cons.prems(3) pn by (simp add: list_all_length)
  ultimately have root: "m < key1 (plug (take ?u path) t) \<or> a > key1 (plug (take ?u path) t) + key2 (plug (take ?u path) t)"
    by (metis frame_ok_root)
  have "list_all (frame_ok a m) (drop ?u path)" using Cons.prems(3) by (metis append_take_drop_id list_all_append)
  moreover have "set pns \<subseteq> {..<length (drop ?u path)}" using Cons.prems(1) unfolding pn(2) by auto
  ultimately have "fst (bubble_loop a m pns t' (drop ?u path))" for t' using Cons.IH Cons.prems(1) by simp
  then show ?case using root by (auto simp: Let_def)
qed simp

fun fkey :: "frame \<Rightarrow> u32" where
  "fkey (WentLeft k c r) = c"
| "fkey (WentRight l k c) = c"

fun fsib :: "frame \<Rightarrow> ctree" where
  "fsib (WentLeft k c r) = r"
| "fsib (WentRight l k c) = l"

fun hpath :: "frame list \<Rightarrow> bool" where
  "hpath [] = True"
| "hpath (f # fs) \<longleftrightarrow> heap (fsib f) \<and> hle (fsib f) (fkey f) \<and> (fs \<noteq> [] \<longrightarrow> fkey f \<le> fkey (hd fs)) \<and> hpath fs"

lemma heap_plug: "heap (plug fs t) \<longleftrightarrow> heap t \<and> hpath fs \<and> (fs \<noteq> [] \<longrightarrow> hle t (fkey (hd fs)))"
proof (induction fs arbitrary: t)
  case (Cons f fs)
  then show ?case by (cases f) auto
qed simp

lemma bubble_heap:
  "\<lbrakk>t \<noteq> Null; heap t; hpath path; path \<noteq> [] \<longrightarrow> hle (lchild t) (fkey (hd path)) \<and> hle (rchild t) (fkey (hd path));
    list_all (frame_ok a m) path\<rbrakk> \<Longrightarrow> heap (snd (bubble_loop a m (rev [0..<length path]) t path))"
proof (induction path arbitrary: t)
  case (Cons f fs)
  obtain l k c r where t: "t = Node l k c r" using Cons.prems(1) by (cases t) auto
  have h: "hle l (fkey f)" "hle r (fkey f)" "heap l" "heap r" "hle l c" "hle r c" "heap (fsib f)" "hle (fsib f) (fkey f)"
    "hpath fs" "fs \<noteq> [] \<Longrightarrow> fkey f \<le> fkey (hd fs)" "list_all (frame_ok a m) fs"
    using Cons.prems t by auto
  show ?case
  proof (cases "fkey f < c")
    case True
    then have le: "fkey f \<le> c" by simp
    note IH = Cons.IH[OF _ _ h(9) _ h(11)]
    show ?thesis
    proof (cases f)
      case (WentLeft fk fc fr)
      have "heap (snd (bubble_loop a m (rev [0..<length fs]) (Node l k c (Node r fk fc fr)) fs))"
        using h WentLeft le by (intro IH) (auto intro: hle_trans)
      then show ?thesis using Cons.prems(5) True WentLeft t by simp
    next
      case (WentRight fl fk fc)
      have "heap (snd (bubble_loop a m (rev [0..<length fs]) (Node (Node fl fk fc l) k c r) fs))"
        using h WentRight le by (intro IH) (auto intro: hle_trans)
      then show ?thesis using Cons.prems(5) True WentRight t by simp
    qed
  next
    case False
    then have "heap (plug fs (plug1 f t))"
      using h t Cons.prems(2) by (cases f) (auto simp: heap_plug)
    then show ?thesis using Cons.prems(5) False t by (cases f) auto
  qed
qed simp

section \<open>The stack of the insertion\<close>

lemma ld_pop_prefix:
  assumes "ld_inv d" "ld_abs d \<noteq> []"
  shows "\<exists>j < length (ld_abs d). ld_abs (Ld_Pop d) = take j (ld_abs d)"
proof (cases "ld_top d = 512 \<and> ld_front d < 512")
  case True
  then have "sud_abs (ld_sud d) \<noteq> []" "ld_abs d = ld_local d @ sud_abs (ld_sud d)"
    using assms(1) by (auto simp: ld_inv_def ld_abs_def kLocalLength_def)
  then show ?thesis using True Ld_Pop_cases[OF assms] by (intro exI[of _ "length (ld_local d)"]) auto
next
  case False
  then have "ld_abs (Ld_Pop d) = take (length (ld_abs d) - 1) (ld_abs d)"
    using Ld_Pop_cases[OF assms] by (auto simp: butlast_conv_take)
  then show ?thesis using assms(2) by (intro exI[of _ "length (ld_abs d) - 1"]) auto
qed

lemma drain_decreasing:
  assumes "ld_inv d" "sorted_wrt (<) (ld_abs d :: nat list)"
  shows "sorted_wrt (>) (drain Ld_Empty Ld_Top Ld_Pop n d) \<and> set (drain Ld_Empty Ld_Top Ld_Pop n d) \<subseteq> set (ld_abs d)"
  using assms
proof (induction n arbitrary: d)
  case (Suc n)
  show ?case
  proof (cases "ld_abs d = []")
    case True
    then show ?thesis using Suc.prems by (simp add: Ld_Empty_iff)
  next
    case False
    obtain j where j: "j < length (ld_abs d)" "ld_abs (Ld_Pop d) = take j (ld_abs d)"
      using ld_pop_prefix[OF Suc.prems(1) False] by blast
    have "set (take j (ld_abs d)) \<subseteq> set (butlast (ld_abs d))"
      using j(1) by (simp add: butlast_conv_take set_take_subset_set_take)
    moreover have "\<forall>x\<in>set (butlast (ld_abs d)). x < last (ld_abs d)"
      using Suc.prems(2) False by (metis append_butlast_last_id sorted_wrt_append list.set_intros(1))
    ultimately have "\<forall>x\<in>set (ld_abs (Ld_Pop d)). x < Ld_Top d"
      using Ld_Top_last[OF Suc.prems(1) False] j(2) by auto
    moreover have "set (ld_abs (Ld_Pop d)) \<subseteq> set (ld_abs d)" using j(2) by (simp add: set_take_subset)
    moreover have "sorted_wrt (<) (ld_abs (Ld_Pop d))" using j(2) Suc.prems(2) by (simp add: sorted_wrt_take)
    moreover have "Ld_Top d \<in> set (ld_abs d)" using Ld_Top_last[OF Suc.prems(1) False] False by simp
    ultimately show ?thesis
      using Suc.IH[OF Ld_Pop_inv[OF Suc.prems(1) False]] False Suc.prems(1) by (auto simp: Ld_Empty_iff)
  qed
qed simp

lemma insert_stack:
  assumes "sud_base q" "n \<le> 512 + sud_cap q"
  shows "sorted_wrt (>) (drain Ld_Empty Ld_Top Ld_Pop n (fold Ld_Push [0..<n] (Ld_new q arr)))"
    "set (drain Ld_Empty Ld_Top Ld_Pop n (fold Ld_Push [0..<n] (Ld_new q arr))) \<subseteq> {..<n}"
    "n \<le> 513 \<Longrightarrow> drain Ld_Empty Ld_Top Ld_Pop n (fold Ld_Push [0..<n] (Ld_new q arr)) = rev [0..<n]"
proof -
  let ?d = "fold Ld_Push [0..<n] (Ld_new q arr)"
  have i: "ld_inv ?d" "ld_abs ?d = [0..<n]"
    using ldq.push_all[of "Ld_new q arr" "[0..<n]"] ld_new_inv[OF assms(1), of arr] assms(2) by simp_all
  have "sorted_wrt (<) (ld_abs ?d)" unfolding i(2) by (simp add: sorted_wrt_upt)
  from drain_decreasing[OF i(1) this, of n]
  show "sorted_wrt (>) (drain Ld_Empty Ld_Top Ld_Pop n ?d)" "set (drain Ld_Empty Ld_Top Ld_Pop n ?d) \<subseteq> {..<n}"
    unfolding i(2) by (auto simp: atLeast0LessThan)
  have "ld_front ?d = 0" by (simp add: Ld_Push_front Ld_new_def)
  then show "drain Ld_Empty Ld_Top Ld_Pop n ?d = rev [0..<n]" if "n \<le> 513"
    using ld_exact_short[OF i(1)] ldq.drain_top[OF i(1), of n] that unfolding i(2) by simp
qed

section \<open>Insertion\<close>

lemma height_count: "height t \<le> length (regions t)"
  by (induction t) auto

lemma MergeInsert_cases:
  assumes "sep (regions t)" "sud_base q" "length (regions t) \<le> 512 + sud_cap q"
    and as: "unat a + unat s < 2 ^ 32" "0 < unat s" and res: "MergeInsert q a s t = (ok, t')"
  shows "(ok \<and> coalesces (unat a) (unat s) (regions t) (regions t') \<and>
      (heap t \<and> height t \<le> 513 \<longrightarrow> heap t')) \<or>
    (\<not> ok \<and> t' = t \<and> pages (regions t) \<inter> {unat a..<unat a + unat s} \<noteq> {})"
proof (cases t)
  case Null
  then show ?thesis using res coalesces.alone[of "[]" "unat a" "[]" "unat s"] by (auto simp: MergeInsert_def)
next
  case (Node l k c r)
  have s0: "s \<noteq> 0" using as(2) by auto
  then have mi: "MergeInsertInternal q a s t = (ok, t')" using res Node by (simp add: MergeInsert_def)
  note IL = insert_loop_correct[OF as, of "[]" t "Ld_new q (\<lambda>_. 0)"]
  show ?thesis
  proof (cases "insert_loop a s t [] (Ld_new q (\<lambda>_. 0))")
    case None
    then show ?thesis using IL assms(1) mi by (simp add: MergeInsertInternal_def)
  next
    case (Some p)
    obtain n path dq where p: "p = (n, path, dq)" by (cases p)
    have ir: "insert_result a s t n path" and dq: "dq = fold Ld_Push [0..<length path] (Ld_new q (\<lambda>_. 0))"
      using IL assms(1) Some p by simp_all
    from ir obtain u where u: "plug path u = t" "\<forall>x\<in>set (pre path). rend x < unat a"
      "\<forall>x\<in>set (post path). unat a + unat s < fst x" "list_all (frame_ok a (a + s)) path" "length path \<le> height t"
      "u = Null \<and> n = Node Null a s Null \<or> MergeAt u a s = kSuccess n" unfolding insert_result_def by blast
    have len: "length path \<le> 512 + sud_cap q" using u(5) height_count[of t] assms(3) by linarith
    note S = insert_stack[OF assms(2) len, of "\<lambda>_. 0"]
    have bl: "bubble_loop a (a + s) (drain Ld_Empty Ld_Top Ld_Pop (length path) dq) n path = (ok, t')"
      using mi Some p by (simp add: MergeInsertInternal_def)
    have ok: "ok" using bubble_true[OF S(1,2) u(4), of n] bl unfolding dq by simp
    have su: "sep (regions u)" using assms(1) u(1) regions_plug[of path u] by (simp add: sep_append)
    have N: "coalesces (unat a) (unat s) (regions u) (regions n)" "n \<noteq> Null" "heap u \<Longrightarrow> heap n"
      "\<And>b. heap u \<Longrightarrow> hle u b \<Longrightarrow> hle (lchild n) b \<and> hle (rchild n) b"
      using u(6) MergeAt_success[OF su as, of n] coalesces.alone[of "[]" "unat a" "[]" "unat s"] by auto
    have "regions t' = pre path @ regions n @ post path"
      using bubble_regions[of a "a + s" _ n path] bl regions_plug by (metis snd_conv)
    then have "coalesces (unat a) (unat s) (regions t) (regions t')"
      using coalesces_ext[OF N(1) u(2,3)] regions_plug[of path u] u(1) by simp
    moreover have "heap t'" if h: "heap t" "height t \<le> 513"
    proof -
      have "heap u" "hpath path" "path \<noteq> [] \<longrightarrow> hle u (fkey (hd path))"
        using h(1) heap_plug[of path u] u(1) by simp_all
      then have "heap (snd (bubble_loop a (a + s) (rev [0..<length path]) n path))"
        using N u(4) by (intro bubble_heap) auto
      then show ?thesis using bl S(3) u(5) h(2) unfolding dq by simp
    qed
    ultimately show ?thesis using ok by blast
  qed
qed

lemma ct_insert_spec:
  assumes "sep (regions t)" "sud_base q" "length (regions t) \<le> 512 + sud_cap q"
    and "unat a + unat s < 2 ^ 32" "0 < s" and "MergeInsert q a s t = (ok, t')"
  shows "(ok \<longleftrightarrow> pages (regions t) \<inter> {unat a..<unat a + unat s} = {}) \<and> sep (regions t') \<and>
    pages (regions t') = (if ok then pages (regions t) \<union> {unat a..<unat a + unat s} else pages (regions t)) \<and>
    (\<not> ok \<longrightarrow> t' = t)"
proof -
  have s: "0 < unat s" using assms(5) by (simp add: word_less_nat_alt)
  show ?thesis
    using MergeInsert_cases[OF assms(1-4) s assms(6)] coalesces_sep[OF _ assms(1) s assms(4), of "regions t'"] assms(1)
    by auto
qed

text \<open>C6: \<open>MergeInsert\<close> of a non-empty region succeeds exactly when the region overlaps no free
  region; then the free pages grow by exactly its pages and the regions are again separate and
  fully merged (also when the stack of the way down has spilled); when it fails, the tree is
  unchanged.\<close>

theorem ct_insert_coalesces:
  assumes "sep (regions t)" "sud_base q" "length (regions t) \<le> 512 + sud_cap q"
    and "unat a + unat s < 2 ^ 32" "0 < s" and "MergeInsert q a s t = (ok, t')"
  shows "(ok \<longleftrightarrow> pages (regions t) \<inter> {unat a..<unat a + unat s} = {}) \<and> sep (regions t') \<and>
    pages (regions t') = (if ok then pages (regions t) \<union> {unat a..<unat a + unat s} else pages (regions t)) \<and>
    (\<not> ok \<longrightarrow> t' = t)"
  using assms by (rule ct_insert_spec)

lemma sud_base_small: "sud_base sud_example" "sud_cap sud_example = 512"
  by (rule sud_example_base)+

definition ct_example :: ctree where
  "ct_example = Node (Node Null 2 3 Null) 10 8 (Node Null 30 4 Null)"

lemma ct_example_ok: "sep (regions ct_example)" "heap ct_example" "length (regions ct_example) = 3" "height ct_example = 2"
  by (simp_all add: ct_example_def sep_def)

theorem ct_insert_coalesces_witness:
  "snd (MergeInsert sud_example 5 5 ct_example) = Node Null 2 16 (Node Null 30 4 Null) \<and>
   pages (regions (snd (MergeInsert sud_example 5 5 ct_example))) = pages (regions ct_example) \<union> {5..<10}"
proof -
  have e: "MergeInsert sud_example 5 5 ct_example = (True, Node Null 2 16 (Node Null 30 4 Null))"
    by (simp add: MergeInsert_def MergeInsertInternal_def ct_example_def RemoveNode_Node)
  show ?thesis
    using ct_insert_coalesces[OF ct_example_ok(1) sud_base_small(1) _ _ _ e] ct_example_ok(3) by (simp add: e sud_base_small(2))
qed

text \<open>C11: the insertion keeps the heap order on the region sizes as long as the tree is at most 513
  levels high; beyond that the stack of the way down loses entries.\<close>

theorem ct_insert_keeps_heap:
  assumes "sep (regions t)" "heap t" "height t \<le> 513" "sud_base q" "length (regions t) \<le> 512 + sud_cap q"
    and "unat a + unat s < 2 ^ 32" "0 < s" and "MergeInsert q a s t = (ok, t')"
  shows "heap t'"
  using MergeInsert_cases[OF assms(1,4,5,6) _ assms(8)] assms(2,3,7) by (auto simp: word_less_nat_alt)

theorem ct_insert_keeps_heap_witness: "heap (snd (MergeInsert sud_example 50 9 ct_example))"
proof -
  obtain ok t' where e: "MergeInsert sud_example 50 9 ct_example = (ok, t')" by force
  have "length (regions ct_example) \<le> 512 + sud_cap sud_example" by (simp add: ct_example_ok(3) sud_base_small(2))
  then show ?thesis
    using ct_insert_keeps_heap[OF ct_example_ok(1,2) _ sud_base_small(1) _ _ _ e] by (simp add: e ct_example_ok(4))
qed

text \<open>C7: \<open>Find\<close> is first fit on the regions in address order: it takes the requested pages from
  the start of the lowest region that is large enough, and keeps the regions separate and the heap
  order.\<close>

theorem ct_find_first_fit:
  assumes "sep (regions t)" "heap t" "0 < s"
  shows "map_option (\<lambda>(a, t'). (unat a, regions t')) (Ct_Find s t) = first_fit (unat s) (regions t) \<and>
    (\<forall>a t'. Ct_Find s t = Some (a, t') \<longrightarrow> sep (regions t') \<and> heap t' \<and>
       {unat a..<unat a + unat s} \<subseteq> pages (regions t) \<and>
       pages (regions t') = pages (regions t) - {unat a..<unat a + unat s})"
proof -
  have f: "Ct_Find s t = Find_at t s" using assms(3) by (cases "s = 0") (auto simp: Ct_Find_def)
  note F = Find_at_first_fit[OF assms(2,1)]
  have s: "0 < unat s" using assms(3) by (simp add: word_less_nat_alt)
  have "first_fit (unat s) (regions t) = Some (unat a, regions t')" if "Find_at t s = Some (a, t')" for a t'
    using F(1)[of s] that by simp
  then show ?thesis using F first_fit_sep[OF assms(1) _ s] unfolding f by blast
qed

theorem ct_find_first_fit_witness:
  "Ct_Find 2 ct_example = Some (2, Node (Node Null 4 1 Null) 10 8 (Node Null 30 4 Null)) \<and>
   sep (regions (Node (Node Null 4 1 Null) 10 8 (Node Null 30 4 Null)))"
proof -
  have e: "Ct_Find 2 ct_example = Some (2, Node (Node Null 4 1 Null) 10 8 (Node Null 30 4 Null))"
    by (simp add: Ct_Find_def ct_example_def LowerNode_Node)
  show ?thesis using ct_find_first_fit[OF ct_example_ok(1,2), of 2] e by simp
qed

lemma root_max: "heap t \<Longrightarrow> x \<in> set (regions t) \<Longrightarrow> snd x \<le> unat (Ct_Top t)"
  using heap_max[of t "Ct_Top t" x] by (cases t) (auto simp: Ct_Top_def)

text \<open>A request is refused exactly when it is for more pages than \<open>Top\<close> reports, and \<open>Top\<close> is
  the size of the largest free region (0 when there is none).\<close>

theorem ct_find_fails_iff_top_small:
  assumes "sep (regions t)" "heap t" "0 < s"
  shows "(Ct_Find s t = None \<longleftrightarrow> Ct_Top t < s) \<and> unat (Ct_Top t) = Max (insert 0 (snd ` set (regions t)))"
proof -
  have "Ct_Find s t = None \<longleftrightarrow> (\<forall>x\<in>set (regions t). snd x < unat s)"
    using Find_at_first_fit(1)[OF assms(2,1), of s] first_fit_None_iff[of "unat s" "regions t"] assms(3)
    by (auto simp: Ct_Find_def)
  moreover have "Ct_Top t < s \<longleftrightarrow> (\<forall>x\<in>set (regions t). snd x < unat s)"
    using root_max[OF assms(2)] assms(3)
    by (cases t) (auto simp: Ct_Top_def word_less_nat_alt dest: le_less_trans)
  moreover have "Max (insert 0 (snd ` set (regions t))) = unat (Ct_Top t)"
    by (rule Max_eqI) (use root_max[OF assms(2)] in \<open>auto simp: Ct_Top_def\<close>, cases t, auto)
  ultimately show ?thesis by simp
qed

theorem ct_find_fails_iff_top_small_witness: "Ct_Find 9 ct_example = None \<and> Ct_Top ct_example = 8"
proof -
  have t: "Ct_Top ct_example = 8" by (simp add: Ct_Top_def ct_example_def)
  show ?thesis using ct_find_fails_iff_top_small[OF ct_example_ok(1,2), of 9] t by simp
qed

section \<open>The traversal\<close>

fun entries :: "ctree \<Rightarrow> (u32 \<times> u32) list" where
  "entries Null = []"
| "entries (Node l k c r) = entries l @ (k, c) # entries r"

definition total :: "ctree list \<Rightarrow> nat" where
  "total qs = sum_list (map (\<lambda>t. length (entries t)) qs)"

definition kids :: "ctree \<Rightarrow> ctree list" where
  "kids t = filter (\<lambda>x. x \<noteq> Null) [rchild t, lchild t]"

lemma total_simps [simp]: "total [] = 0" "total (t # qs) = length (entries t) + total qs" "total (ps @ qs) = total ps + total qs"
  by (simp_all add: total_def)

lemma total_length: "Null \<notin> set qs \<Longrightarrow> length qs \<le> total qs"
proof (induction qs)
  case (Cons t qs)
  then show ?case by (cases t) auto
qed simp

lemma total_kids: "t \<noteq> Null \<Longrightarrow> total (kids t) + 1 = length (entries t)"
  by (cases t) (auto simp: kids_def)

lemma It_Next_step:
  assumes "ld_inv tq" "ld_abs tq = f # qs" "length (kids f) \<le> ld_room tq"
  obtains tq' where "It_Next tq = (f, tq')" "ld_inv tq'" "ld_abs tq' = qs @ kids f" "ld_room tq' = ld_room tq - length (kids f)"
proof -
  let ?p = "fold Ld_Push (kids f) tq"
  have P: "ld_inv ?p" "ld_abs ?p = f # qs @ kids f" "ld_room ?p = ld_room tq - length (kids f)"
    using ldq.push_all[OF assms(1,3)] assms(2) by simp_all
  have e: "\<not> Ld_Empty tq" "Ld_Front tq = f" using assms(1,2) Ld_Empty_iff[OF assms(1)] ldq.front_hd[OF assms(1)] by simp_all
  have "It_Next tq = (f, Ld_PopFront ?p)"
    using e by (simp add: It_Next_def Let_def kids_def)
  moreover have "ld_inv (Ld_PopFront ?p)" "ld_abs (Ld_PopFront ?p) = qs @ kids f" "ld_room (Ld_PopFront ?p) = ld_room ?p"
    using ldq.inv_pop_front[OF P(1)] ldq.abs_pop_front[OF P(1)] ldq.budget_pop_front[OF P(1)] P(2) by simp_all
  ultimately show ?thesis using that P(3) by simp
qed

lemma It_visit_mset:
  "\<lbrakk>ld_inv tq; Null \<notin> set (ld_abs tq); total (ld_abs tq) \<le> n; total (ld_abs tq) \<le> ld_room tq + length (ld_abs tq)\<rbrakk> \<Longrightarrow>
   mset (It_visit n tq) = mset (concat (map entries (ld_abs tq)))"
proof (induction n arbitrary: tq)
  case 0
  then show ?case using total_length[of "ld_abs tq"] by simp
next
  case (Suc n)
  show ?case
  proof (cases "ld_abs tq")
    case Nil
    then show ?thesis using Suc.prems(1) by (simp add: It_Next_def Ld_Empty_iff)
  next
    case (Cons f qs)
    then have f: "f \<noteq> Null" using Suc.prems(2) by auto
    have k: "Null \<notin> set (kids f)" by (simp add: kids_def)
    have lk: "length (kids f) \<le> total (kids f)" by (rule total_length[OF k])
    have lq: "length qs \<le> total qs" using Suc.prems(2) Cons by (intro total_length) auto
    have tot: "total (ld_abs tq) = 1 + total (kids f) + total qs" using total_kids[OF f] Cons by simp
    then have room: "length (kids f) \<le> ld_room tq" using Suc.prems(4) Cons lk lq by simp
    obtain tq' where N: "It_Next tq = (f, tq')" "ld_inv tq'" "ld_abs tq' = qs @ kids f" "ld_room tq' = ld_room tq - length (kids f)"
      using It_Next_step[OF Suc.prems(1) Cons room] .
    have "mset (It_visit n tq') = mset (concat (map entries (qs @ kids f)))"
      using Suc.IH[OF N(2)] N(3,4) Suc.prems(2-4) tot room k Cons by auto
    moreover have "mset (entries f) = add_mset (key1 f, key2 f) (mset (concat (map entries (kids f))))"
      using f by (cases f) (auto simp: kids_def)
    ultimately show ?thesis using N(1) f Cons by simp
  qed
qed

lemma length_entries_regions: "length (entries t) = length (regions t)"
  by (induction t) auto

text \<open>C12: the iterator visits every region of the tree exactly once, then gives \<open>nullptr\<close>, for any
  tree that fits the deque (the queue order makes this a level-order traversal).\<close>

theorem ct_iterator_visits_all:
  assumes "sud_base q" "length (regions t) \<le> 512 + sud_cap q" "length (regions t) \<le> n"
  shows "mset (It_visit n (It_new q t)) = mset (entries t)"
proof (cases "t = Null")
  case True
  then show ?thesis using It_visit_mset[of "It_new q t" n] ld_new_inv[OF assms(1)]
    by (simp add: It_new_def Ld_SetSud_def Ld_new_def Let_def)
next
  case False
  have N: "ld_inv (Ld_new q (\<lambda>_. Null))" "ld_abs (Ld_new q (\<lambda>_. Null)) = []" "ld_room (Ld_new q (\<lambda>_. Null)) = 512 + sud_cap q"
    using ld_new_inv[OF assms(1)] by simp_all
  have "It_new q t = Ld_Push t (Ld_new q (\<lambda>_. Null))"
    using False by (simp add: It_new_def Ld_SetSud_def Let_def Ld_new_def)
  then have I: "ld_inv (It_new q t)" "ld_abs (It_new q t) = [t]" "ld_room (It_new q t) = 511 + sud_cap q"
    using Ld_Push_correct[OF N(1), of t] N(2,3) by simp_all
  show ?thesis using It_visit_mset[OF I(1), of n] I(2,3) False assms(2,3) by (simp add: length_entries_regions)
qed

lemma sud_base_any:
  "sud_base (Sud_Init 4096 8192 \<lparr>beginAddr = 0, frontAddr = 0, topAddr = 0, endAddr = 0, mem = f\<rparr>)"
  by (simp add: Sud_Init_def Sud_Clear_def sud_base_def)

theorem ct_iterator_visits_all_witness:
  "mset (It_visit 3 (It_new (Sud_Init 4096 8192 \<lparr>beginAddr = 0, frontAddr = 0, topAddr = 0, endAddr = 0, mem = (\<lambda>_. Null)\<rparr>) ct_example)) =
   {#(2, 3), (10, 8), (30, 4)#}"
  using ct_iterator_visits_all[OF sud_base_any[of "\<lambda>_. Null"], of ct_example 3] ct_example_ok(3)
  by (simp add: ct_example_def)

section \<open>The sizes of the bookkeeping memory\<close>

lemma sep_count:
  "sep rs \<Longrightarrow> pages rs \<subseteq> {..<P} \<Longrightarrow> 2 * length rs \<le> P + 1"
proof (induction rs arbitrary: P rule: rev_induct)
  case (snoc x rs)
  have s: "sep rs" "\<forall>y\<in>set rs. rend y < fst x" "0 < snd x" using snoc.prems(1) by (auto simp: sep_simps)
  have "pages rs \<subseteq> {..<fst x - 1}"
  proof
    fix p assume "p \<in> pages rs"
    then obtain y where "y \<in> set rs" "p < rend y" by (auto simp: pages_def)
    then have "p < rend y" "rend y < fst x" using s(2) by auto
    then show "p \<in> {..<fst x - 1}" by simp
  qed
  then have IH: "2 * length rs \<le> fst x - 1 + 1" using snoc.IH s(1) by blast
  have "fst x \<in> pages (rs @ [x])" using s(3) by simp
  then have "fst x < P" using snoc.prems(2) by blast
  show ?case
  proof (cases rs)
    case (Cons y ys)
    then have "0 < fst x" using s(2) by auto
    then show ?thesis using IH \<open>fst x < P\<close> by simp
  qed (use \<open>fst x < P\<close> in simp)
qed simp

lemma regionCount_unat:
  assumes "unat mapSize < 2 ^ 48"
  shows "unat (Ct_regionCount mapSize) = (unat mapSize + 4095) div 4096 div 2 + 1"
proof -
  have "unat (ALLOCUTIL_PAGE_RND_UP mapSize) = (unat mapSize + 4095) div 4096 * 4096"
    using AllocUtilRndUp_unat[of 12 mapSize] assms by (simp add: PAGE_RND_UP_eq)
  then have "unat (ALLOCUTIL_PAGE_RND_UP mapSize div ALLOCUTIL_PAGE_SIZE) = (unat mapSize + 4095) div 4096"
    by (simp add: unat_div_distrib ALLOCUTIL_PAGE_SIZE_def)
  then have d: "unat (drop_bit 1 (ALLOCUTIL_PAGE_RND_UP mapSize div ALLOCUTIL_PAGE_SIZE)) = (unat mapSize + 4095) div 4096 div 2"
    by (simp add: drop_bit_eq_div unat_div_distrib)
  then have "unat (of_nat (unat (drop_bit 1 (ALLOCUTIL_PAGE_RND_UP mapSize div ALLOCUTIL_PAGE_SIZE)) + 1) :: u64) =
      (unat mapSize + 4095) div 4096 div 2 + 1"
    using assms by (subst u64_of_nat_unat) auto
  then show ?thesis by (simp add: Ct_regionCount_def add.commute)
qed

lemma Ct_Init_unat:
  assumes "unat mapSize < 2 ^ 48"
  shows "unat (Ct_regionCount mapSize) * 24 + 168 \<le> unat (fst (Ct_Init mapSize))"
    "unat (Ct_regionCount mapSize) * 8 \<le> unat (snd (Ct_Init mapSize))"
proof -
  let ?r = "Ct_regionCount mapSize"
  have b: "unat ?r \<le> 2 ^ 36" using regionCount_unat[OF assms] assms by simp
  have n: "unat ((?r + 7) * 24) = unat ?r * 24 + 168"
  proof -
    have "(?r + 7) * 24 = of_nat (unat ?r * 24 + 168)" by (simp add: algebra_simps)
    then show ?thesis using b u64_of_nat_unat[of "unat ?r * 24 + 168"] by simp
  qed
  have d: "unat (?r * 8) = unat ?r * 8"
  proof -
    have "?r * 8 = of_nat (unat ?r * 8)" by simp
    then show ?thesis using b u64_of_nat_unat[of "unat ?r * 8"] by simp
  qed
  have r24: "AllocUtilRndUp 24 8 = 24" by (simp add: AllocUtilRndUp_def AllocUtilRndDown_def)
  have up: "unat x \<le> unat (ALLOCUTIL_PAGE_RND_UP x)" if "unat x < 2 ^ 48" for x
    using AllocUtilRndUp_unat[of 12 x] round_up_nat(1)[of 4096 "unat x"] that by (simp add: PAGE_RND_UP_eq)
  show "unat ?r * 24 + 168 \<le> unat (fst (Ct_Init mapSize))"
    using up[of "(?r + 7) * 24"] n b by (simp add: Ct_Init_def Let_def r24)
  show "unat ?r * 8 \<le> unat (snd (Ct_Init mapSize))"
    using up[of "?r * 8"] d b by (simp add: Ct_Init_def Let_def)
qed

text \<open>C13: \<open>Init\<close> maps enough memory: whatever pages of the mapped space are free, the merged regions
  need no more nodes (24 bytes each, seven spare) and no more deque entries than the two mappings
  hold.\<close>

theorem ct_init_suffices:
  assumes "unat mapSize < 2 ^ 48" "sep (regions t)" "pages (regions t) \<subseteq> {..<unat mapSize div 4096}"
  shows "24 * (length (regions t) + 7) \<le> unat (fst (Ct_Init mapSize)) \<and>
    8 * length (regions t) \<le> unat (snd (Ct_Init mapSize))"
proof -
  have "2 * length (regions t) \<le> unat mapSize div 4096 + 1" using sep_count[OF assms(2,3)] .
  moreover have "unat mapSize div 4096 \<le> (unat mapSize + 4095) div 4096" by (intro div_le_mono) simp
  ultimately have "length (regions t) \<le> unat (Ct_regionCount mapSize)"
    using regionCount_unat[OF assms(1)] by linarith
  then have "length (regions t) * 24 \<le> unat (Ct_regionCount mapSize) * 24" "length (regions t) * 8 \<le> unat (Ct_regionCount mapSize) * 8"
    by simp_all
  then show ?thesis using Ct_Init_unat[OF assms(1)] by (simp add: algebra_simps)
qed

theorem ct_init_suffices_witness:
  "24 * (3 + 7) \<le> unat (fst (Ct_Init 0x20000000))"
proof -
  have "pages (regions ct_example) \<subseteq> {..<131072}" by (auto simp: ct_example_def)
  then show ?thesis using ct_init_suffices[of "0x20000000" ct_example] ct_example_ok by simp
qed

section \<open>The interface for the page manager\<close>

text \<open>A store of free pages below a limit. Pages are given to it and taken from it in runs.\<close>

locale page_store =
  fixes inv :: "'s \<Rightarrow> bool"
    and free :: "'s \<Rightarrow> nat set"
    and limit :: nat
    and give :: "u32 \<Rightarrow> u32 \<Rightarrow> 's \<Rightarrow> bool \<times> 's"
    and take_run :: "u32 \<Rightarrow> 's \<Rightarrow> (u32 \<times> 's) option"
  assumes give_ok: "inv s \<Longrightarrow> 0 < n \<Longrightarrow> unat a + unat n \<le> limit \<Longrightarrow> give a n s = (ok, s') \<Longrightarrow>
      inv s' \<and> (ok \<longleftrightarrow> free s \<inter> {unat a..<unat a + unat n} = {}) \<and>
      free s' = (if ok then free s \<union> {unat a..<unat a + unat n} else free s)"
    and take_ok: "inv s \<Longrightarrow> 0 < n \<Longrightarrow> take_run n s = Some (a, s') \<Longrightarrow>
      inv s' \<and> {unat a..<unat a + unat n} \<subseteq> free s \<and> free s' = free s - {unat a..<unat a + unat n} \<and>
      unat a + unat n \<le> limit"

text \<open>A client takes runs out and gives back runs it has taken.\<close>

inductive run_step ::
  "(u32 \<Rightarrow> u32 \<Rightarrow> 's \<Rightarrow> bool \<times> 's) \<Rightarrow> (u32 \<Rightarrow> 's \<Rightarrow> (u32 \<times> 's) option) \<Rightarrow>
   's \<times> (u32 \<times> u32) set \<Rightarrow> 's \<times> (u32 \<times> u32) set \<Rightarrow> bool" for give take_run where
  run_take: "0 < n \<Longrightarrow> take_run n s = Some (a, s') \<Longrightarrow> run_step give take_run (s, C) (s', insert (a, n) C)"
| run_give: "(a, n) \<in> C \<Longrightarrow> give a n s = (ok, s') \<Longrightarrow> run_step give take_run (s, C) (s', C - {(a, n)})"

definition run_pages :: "u32 \<times> u32 \<Rightarrow> nat set" where
  "run_pages x = {unat (fst x)..<unat (fst x) + unat (snd x)}"

definition runs_inv :: "('s \<Rightarrow> bool) \<Rightarrow> ('s \<Rightarrow> nat set) \<Rightarrow> nat \<Rightarrow> nat set \<Rightarrow> 's \<times> (u32 \<times> u32) set \<Rightarrow> bool" where
  "runs_inv I free limit U st \<longleftrightarrow> (case st of (s, C) \<Rightarrow> I s \<and>
     (\<forall>x\<in>C. 0 < snd x \<and> unat (fst x) + unat (snd x) \<le> limit \<and> run_pages x \<inter> free s = {}) \<and>
     (\<forall>x\<in>C. \<forall>y\<in>C. x \<noteq> y \<longrightarrow> run_pages x \<inter> run_pages y = {}) \<and>
     free s \<union> \<Union> (run_pages ` C) = U)"

lemma run_pages_pos: "0 < n \<Longrightarrow> unat a \<in> run_pages (a, n)"
  by (simp add: run_pages_def word_less_nat_alt)

context page_store
begin

lemma take_inv:
  assumes "runs_inv inv free limit U (s, C)" "0 < n" "take_run n s = Some (a, s')"
  shows "runs_inv inv free limit U (s', insert (a, n) C)" "(a, n) \<notin> C"
proof -
  have i: "inv s" "\<forall>x\<in>C. 0 < snd x \<and> unat (fst x) + unat (snd x) \<le> limit \<and> run_pages x \<inter> free s = {}"
    "\<forall>x\<in>C. \<forall>y\<in>C. x \<noteq> y \<longrightarrow> run_pages x \<inter> run_pages y = {}" "free s \<union> \<Union> (run_pages ` C) = U"
    using assms(1) by (auto simp: runs_inv_def)
  have t: "inv s'" "run_pages (a, n) \<subseteq> free s" "free s' = free s - run_pages (a, n)" "unat a + unat n \<le> limit"
    using take_ok[OF i(1) assms(2,3)] by (simp_all add: run_pages_def)
  have d: "\<forall>x\<in>C. run_pages x \<inter> run_pages (a, n) = {}" using i(2) t(2) by blast
  then show "(a, n) \<notin> C" using run_pages_pos[OF assms(2)] by blast
  have "free s' \<union> \<Union> (run_pages ` insert (a, n) C) = U" using i(4) t(2,3) by auto
  then show "runs_inv inv free limit U (s', insert (a, n) C)"
    using t i(2,3) d assms(2) unfolding runs_inv_def by auto
qed

lemma give_inv:
  assumes "runs_inv inv free limit U (s, C)" "(a, n) \<in> C" "give a n s = (ok, s')"
  shows "runs_inv inv free limit U (s', C - {(a, n)})" "ok"
proof -
  have i: "inv s" "\<forall>x\<in>C. 0 < snd x \<and> unat (fst x) + unat (snd x) \<le> limit \<and> run_pages x \<inter> free s = {}"
    "\<forall>x\<in>C. \<forall>y\<in>C. x \<noteq> y \<longrightarrow> run_pages x \<inter> run_pages y = {}" "free s \<union> \<Union> (run_pages ` C) = U"
    using assms(1) by (auto simp: runs_inv_def)
  have n: "0 < n" "unat a + unat n \<le> limit" "run_pages (a, n) \<inter> free s = {}" using i(2) assms(2) by auto
  note g = give_ok[OF i(1) n(1,2) assms(3)]
  show ok: "ok" using g n(3) by (auto simp: run_pages_def)
  have s': "inv s'" "free s' = free s \<union> run_pages (a, n)" using g ok by (simp_all add: run_pages_def)
  have "run_pages x \<inter> free s' = {}" if "x \<in> C - {(a, n)}" for x
    using i(2,3) assms(2) s'(2) that by blast
  moreover have "free s' \<union> \<Union> (run_pages ` (C - {(a, n)})) = U" using i(4) s'(2) assms(2) by blast
  ultimately show "runs_inv inv free limit U (s', C - {(a, n)})"
    using s'(1) i(2,3) unfolding runs_inv_def by auto
qed

lemma run_step_inv: "run_step give take_run st st' \<Longrightarrow> runs_inv inv free limit U st \<Longrightarrow> runs_inv inv free limit U st'"
  by (induction rule: run_step.induct) (auto dest: take_inv give_inv)

lemma run_steps_inv:
  "(run_step give take_run)\<^sup>*\<^sup>* st st' \<Longrightarrow> runs_inv inv free limit U st \<Longrightarrow> runs_inv inv free limit U st'"
  by (induction rule: rtranclp_induct) (auto intro: run_step_inv)

end

lemma Find_at_splits:
  "\<lbrakk>Find_at t s = Some (a, t'); sep (regions t)\<rbrakk> \<Longrightarrow> \<exists>L c R. regions t = L @ (unat a, c) # R \<and> unat s \<le> c \<and>
     regions t' = L @ (if c = unat s then [] else [(unat a + unat s, c - unat s)]) @ R"
proof (induction t arbitrary: t')
  case (Node l k c r)
  have sc: "s \<le> c" using Node.prems(1) by (simp split: if_splits)
  have sl: "sep (regions l)" using Node.prems(2) by (simp add: sep_simps)
  show ?case
  proof (cases "Find_at l s")
    case (Some p)
    obtain b l' where p: "p = (b, l')" by force
    then have "l \<noteq> Null" using Some by (cases l) auto
    then have e: "b = a" "t' = Node l' k c r" using Some p Node.prems(1) sc by (auto split: if_splits)
    then obtain L d R where "regions l = L @ (unat a, d) # R" "unat s \<le> d"
      "regions l' = L @ (if d = unat s then [] else [(unat a + unat s, d - unat s)]) @ R"
      using Node.IH(1)[OF _ sl] Some p by blast
    then show ?thesis using e(2)
      by (intro exI[of _ L] exI[of _ d] exI[of _ "R @ (unat k, unat c) # regions r"]) simp
  next
    case None
    then have e: "a = k" "t' = (if c - s \<noteq> 0 then LowerNode (Node l (k + s) (c - s) r) else RemoveNode (Node l (k + s) (c - s) r))"
      using Node.prems(1) sc by (auto simp: Let_def split: if_splits)
    have d: "unat (c - s) = unat c - unat s" "unat s \<le> unat c" using sc by (simp_all add: unat_sub word_le_nat_alt)
    have z: "c - s = 0 \<longleftrightarrow> unat c = unat s" using d by (simp add: word_unat_eq_iff)
    have ks: "unat (k + s) = unat k + unat s"
      using Node.prems(2) d by (intro unat_add_u32) (simp add: sep_simps)
    show ?thesis using e d z ks LowerNode_correct[of l "k + s" "c - s" r] RemoveNode_correct[of l "k + s" "c - s" r]
      by (intro exI[of _ "regions l"] exI[of _ "unat c"] exI[of _ "regions r"]) auto
  qed
qed simp

lemma carve_region:
  assumes "sep (L @ (a, c) # R)" "0 < s" "s \<le> c"
  defines "rs' \<equiv> L @ (if c = s then [] else [(a + s, c - s)]) @ R"
  shows "sep rs'" "{a..<a + s} \<subseteq> pages (L @ (a, c) # R)" "pages rs' = pages (L @ (a, c) # R) - {a..<a + s}"
proof -
  have "sep (L @ R)" "sep ((a, c) # R)" "\<forall>x\<in>set L. rend x < a" using assms(1) by (auto simp: sep_simps)
  have above: "\<forall>y\<in>pages R. a + c < y" and below: "\<forall>y\<in>pages L. y < a"
    using assms(1) by (fastforce simp: sep_simps pages_def)+
  show "sep rs'" unfolding rs'_def using assms(1-3) by (fastforce simp: sep_simps)
  show "{a..<a + s} \<subseteq> pages (L @ (a, c) # R)" using assms(3) by auto
  have "pages L \<inter> {a..<a + s} = {}" "pages R \<inter> {a..<a + s} = {}" using above below assms(3) by fastforce+
  moreover have "{a..<a + c} - {a..<a + s} = (if c = s then {} else {a + s..<a + s + (c - s)})" using assms(3) by auto
  ultimately show "pages rs' = pages (L @ (a, c) # R) - {a..<a + s}" unfolding rs'_def by auto
qed

lemma Ct_Find_carves:
  assumes "sep (regions t)" "0 < s" "Ct_Find s t = Some (a, t')"
  shows "sep (regions t')" "{unat a..<unat a + unat s} \<subseteq> pages (regions t)"
    "pages (regions t') = pages (regions t) - {unat a..<unat a + unat s}"
proof -
  have s: "0 < unat s" using assms(2) by (simp add: word_less_nat_alt)
  have "Find_at t s = Some (a, t')" using assms(3) by (simp add: Ct_Find_def split: if_splits)
  then obtain L c R where e: "regions t = L @ (unat a, c) # R" "unat s \<le> c"
    "regions t' = L @ (if c = unat s then [] else [(unat a + unat s, c - unat s)]) @ R"
    using Find_at_splits assms(1) by blast
  show "sep (regions t')" "{unat a..<unat a + unat s} \<subseteq> pages (regions t)"
    "pages (regions t') = pages (regions t) - {unat a..<unat a + unat s}"
    using carve_region[of L "unat a" c R "unat s"] assms(1) s e by simp_all
qed

text \<open>The tree as a page store, whatever its height: the memory mapped by \<open>Init\<close> bounds the pages.\<close>

definition ct_store_inv :: "nat sud \<Rightarrow> nat \<Rightarrow> ctree \<Rightarrow> bool" where
  "ct_store_inv q P t \<longleftrightarrow> sep (regions t) \<and> pages (regions t) \<subseteq> {..<P} \<and> sud_base q \<and> P \<le> 2 * sud_cap q \<and> P < 2 ^ 32"

lemma subset_interval_bound: "{a..<a + n} \<subseteq> {..<P :: nat} \<Longrightarrow> 0 < n \<Longrightarrow> a + n \<le> P"
proof -
  assume s: "{a..<a + n} \<subseteq> {..<P}" and n: "0 < n"
  then have "a + n - 1 \<in> {a..<a + n}" by auto
  then have "a + n - 1 < P" using s by blast
  then show ?thesis using n by linarith
qed

interpretation ctstore: page_store "ct_store_inv q P" "\<lambda>t. pages (regions t)" P "MergeInsert q" Ct_Find for q P
proof
  fix t t' :: ctree and a n :: u32 and ok :: bool
  assume i: "ct_store_inv q P t" and n: "0 < n"
  then have n': "0 < unat n" by (simp add: word_less_nat_alt)
  have s: "sep (regions t)" "pages (regions t) \<subseteq> {..<P}" "sud_base q" "P \<le> 2 * sud_cap q" "P < 2 ^ 32"
    using i by (simp_all add: ct_store_inv_def)
  have len: "length (regions t) \<le> 512 + sud_cap q" using sep_count[OF s(1,2)] s(4) by linarith
  {
    assume b: "unat a + unat n \<le> P" and m: "MergeInsert q a n t = (ok, t')"
    have "unat a + unat n < 2 ^ 32" using b s(5) by linarith
    from ct_insert_spec[OF s(1,3) len this n m] show "ct_store_inv q P t' \<and>
       (ok \<longleftrightarrow> pages (regions t) \<inter> {unat a..<unat a + unat n} = {}) \<and>
       pages (regions t') = (if ok then pages (regions t) \<union> {unat a..<unat a + unat n} else pages (regions t))"
      using s b by (auto simp: ct_store_inv_def)
  }
  assume f: "Ct_Find n t = Some (a, t')"
  note F = Ct_Find_carves[OF s(1) n f]
  show "ct_store_inv q P t' \<and> {unat a..<unat a + unat n} \<subseteq> pages (regions t) \<and>
       pages (regions t') = pages (regions t) - {unat a..<unat a + unat n} \<and> unat a + unat n \<le> P"
    using F s subset_interval_bound[of "unat a" "unat n" P] n' by (auto simp: ct_store_inv_def)
qed

end
