(* ===== verification/Page_Manager.thy ===== *)
theory Page_Manager
  imports Cartesian_Tree
begin

text \<open>
  The page manager and the space that the runtime allocates page runs from,
  \<^verbatim>\<open>src/src/mrt/compiler-rt/include/allocator/space.h\<close> and
  \<^verbatim>\<open>src/src/mrt/compiler-rt/src/allocator/space.cpp\<close>, with the part of the memory map
  (\<^verbatim>\<open>src/src/mrt/compiler-rt/src/allocator/mem_map.cpp\<close>) that grows the space. The page manager turns
  addresses into page indices and keeps the free ones in the Cartesian tree; it reaches the tree
  only through the interface \<open>page_store\<close>. The outcome of a system call is an argument.
  Statistics, logging and the release of physical memory are not modelled.
\<close>

unbundle bit_operations_syntax

section \<open>SpacePageManager\<close>

record page_manager =
  baseAddress :: u64
  pageCTree :: ctree

definition CalcPageIdx :: "page_manager \<Rightarrow> u64 \<Rightarrow> u32" where
  "CalcPageIdx pm pageAddr = ucast (ALLOCUTIL_PAGE_BYTE2CNT (pageAddr - baseAddress pm))"

definition CalcChunkSize :: "u64 \<Rightarrow> u32" where
  "CalcChunkSize regionSize = ucast (ALLOCUTIL_PAGE_BYTE2CNT (ALLOCUTIL_PAGE_RND_UP regionSize))"

definition GetRegAddrFromIdx :: "page_manager \<Rightarrow> u32 \<Rightarrow> u64" where
  "GetRegAddrFromIdx pm idx = ALLOCUTIL_PAGE_CNT2BYTE (ucast idx) + baseAddress pm"

text \<open>The boolean is false where the code logs \<open>free page insertion failed, inconsistency\<close>.\<close>

definition AddPages :: "nat sud \<Rightarrow> u64 \<Rightarrow> u32 \<Rightarrow> page_manager \<Rightarrow> bool \<times> page_manager" where
  "AddPages sud firstPage pageCount pm =
     (let pageIdx = CalcPageIdx pm firstPage;
          (ok, t) = MergeInsert sud pageIdx pageCount (pageCTree pm)
      in (ok, pm\<lparr>pageCTree := t\<rparr>))"

definition AddRegion :: "nat sud \<Rightarrow> u64 \<Rightarrow> u64 \<Rightarrow> page_manager \<Rightarrow> bool \<times> page_manager" where
  "AddRegion sud regionAddr regionSize pm = AddPages sud regionAddr (CalcChunkSize regionSize) pm"

definition Pm_GetChunk :: "u64 \<Rightarrow> page_manager \<Rightarrow> u64 \<times> page_manager" where
  "Pm_GetChunk reqSize pm =
     (case Ct_Find (CalcChunkSize reqSize) (pageCTree pm) of
        Some (idx, t) \<Rightarrow> (GetRegAddrFromIdx pm idx, pm\<lparr>pageCTree := t\<rparr>)
      | None \<Rightarrow> (0, pm))"

definition GetLargestChunkSize :: "page_manager \<Rightarrow> u64" where
  "GetLargestChunkSize pm = ALLOCUTIL_PAGE_CNT2BYTE (ucast (Ct_Top (pageCTree pm)))"

section \<open>MemMap\<close>

record mem_map =
  memBaseAddr :: u64
  memCurrSize :: u64
  memMappedSize :: u64

definition GetCurrEnd :: "mem_map \<Rightarrow> u64" where
  "GetCurrEnd m = memBaseAddr m + memCurrSize m"

text \<open>\<open>prot\<close> is false when the protection call fails.\<close>

definition Mm_Extend :: "bool \<Rightarrow> u64 \<Rightarrow> mem_map \<Rightarrow> bool \<times> mem_map" where
  "Mm_Extend prot reqSize m =
     (if memCurrSize m \<ge> memMappedSize m then (False, m)
      else let newCurrSize = memCurrSize m + reqSize
           in if newCurrSize > memMappedSize m then (False, m)
              else if \<not> prot then (False, m)
              else (True, m\<lparr>memCurrSize := newCurrSize\<rparr>))"

section \<open>Space\<close>

record space =
  maxCapacity :: u64
  sp_begin :: u64
  sp_end :: u64
  allocatedPageSize :: u64
  memMap :: mem_map
  pageManager :: page_manager

definition GetSize :: "space \<Rightarrow> u64" where
  "GetSize sp = sp_end sp - sp_begin sp"

definition GetAvailPageCount :: "space \<Rightarrow> u64" where
  "GetAvailPageCount sp = ALLOCUTIL_PAGE_BYTE2CNT (GetSize sp - allocatedPageSize sp)"

definition HasAddress :: "space \<Rightarrow> u64 \<Rightarrow> bool" where
  "HasAddress sp addr \<longleftrightarrow> addr \<ge> sp_begin sp \<and> addr < sp_end sp"

definition Space_Init :: "nat sud \<Rightarrow> u64 \<Rightarrow> mem_map \<Rightarrow> space" where
  "Space_Init sud capacity m =
     (let sp = \<lparr>maxCapacity = capacity, sp_begin = memBaseAddr m, sp_end = GetCurrEnd m, allocatedPageSize = 0,
                memMap = m, pageManager = \<lparr>baseAddress = memBaseAddr m, pageCTree = Null\<rparr>\<rparr>
      in sp\<lparr>pageManager := snd (AddRegion sud (sp_begin sp) (GetSize sp) (pageManager sp))\<rparr>)"

definition Space_GetChunk :: "u64 \<Rightarrow> space \<Rightarrow> u64 \<times> space" where
  "Space_GetChunk reqSize sp =
     (let (addr, pm) = Pm_GetChunk reqSize (pageManager sp); sp' = sp\<lparr>pageManager := pm\<rparr>
      in (addr, if addr \<noteq> 0 then sp'\<lparr>allocatedPageSize := allocatedPageSize sp' + reqSize\<rparr> else sp'))"

definition kPagesOneTime :: u64 where
  "kPagesOneTime = 256"

definition Space_Extend :: "nat sud \<Rightarrow> bool \<Rightarrow> u64 \<Rightarrow> space \<Rightarrow> space" where
  "Space_Extend sud prot deltaSize sp =
     (let reqSize = ALLOCUTIL_PAGE_RND_UP deltaSize; currentSize = GetSize sp in
      if currentSize \<ge> maxCapacity sp \<or> reqSize > maxCapacity sp then sp
      else let oneTimeReq = ALLOCUTIL_PAGE_CNT2BYTE kPagesOneTime;
               remainingSize = maxCapacity sp - currentSize;
               expandValue = min remainingSize (max reqSize oneTimeReq);
               (extendResult, m) = Mm_Extend prot expandValue (memMap sp)
           in if \<not> extendResult then sp
              else let oldEndAddr = sp_end sp
                   in sp\<lparr>memMap := m, sp_end := GetCurrEnd m,
                         pageManager := snd (AddRegion sud oldEndAddr expandValue (pageManager sp))\<rparr>)"

definition Space_Alloc :: "nat sud \<Rightarrow> bool \<Rightarrow> u64 \<Rightarrow> bool \<Rightarrow> space \<Rightarrow> u64 \<times> space" where
  "Space_Alloc sud prot reqSize allowExtension sp =
     (let first = (if GetSize sp - allocatedPageSize sp \<ge> reqSize then Space_GetChunk reqSize sp else (0, sp)) in
      if fst first \<noteq> 0 then first
      else if allowExtension then Space_GetChunk reqSize (Space_Extend sud prot reqSize (snd first))
      else (0, snd first))"

text \<open>\<open>FreeRegion\<close> with \<open>kReleasePageAtFree\<close> off.\<close>

definition FreeRegion :: "nat sud \<Rightarrow> u64 \<Rightarrow> u64 \<Rightarrow> space \<Rightarrow> bool \<times> space" where
  "FreeRegion sud addr pgCnt sp =
     (let (ok, pm) = AddPages sud addr (ucast pgCnt) (pageManager sp); memSize = ALLOCUTIL_PAGE_CNT2BYTE pgCnt
      in (ok, sp\<lparr>pageManager := pm, allocatedPageSize := allocatedPageSize sp - memSize\<rparr>))"

section \<open>Addresses and page indices\<close>

lemma ucast_u32_unat: "unat (ucast (x :: u32) :: u64) = unat x"
  by (simp add: unsigned_ucast_eq take_bit_nat_eq_self_iff order_less_le_trans[OF unat_less_u32])

lemma ucast_u64_unat: "unat x < 2 ^ 32 \<Longrightarrow> unat (ucast (x :: u64) :: u32) = unat x"
  by (simp add: unsigned_ucast_eq take_bit_nat_eq_self_iff)

lemma reg_offset_unat: "unat (ALLOCUTIL_PAGE_CNT2BYTE (ucast (idx :: u32))) = unat idx * 4096"
  using CNT2BYTE_unat[of "ucast idx"] unat_less_u32[of idx] by (simp add: ucast_u32_unat)

lemma CalcPageIdx_GetRegAddr: "CalcPageIdx pm (GetRegAddrFromIdx pm idx) = idx"
proof -
  have "unat (ALLOCUTIL_PAGE_BYTE2CNT (ALLOCUTIL_PAGE_CNT2BYTE (ucast idx))) = unat idx"
    by (simp add: BYTE2CNT_unat reg_offset_unat)
  then show ?thesis
    using unat_less_u32[of idx] by (simp add: CalcPageIdx_def GetRegAddrFromIdx_def word_unat_eq_iff ucast_u64_unat)
qed

lemma GetRegAddr_unat:
  assumes "unat (baseAddress pm) + unat idx * 4096 < 2 ^ 64"
  shows "unat (GetRegAddrFromIdx pm idx) = unat (baseAddress pm) + unat idx * 4096"
proof -
  have "GetRegAddrFromIdx pm idx = of_nat (unat (baseAddress pm) + unat (ALLOCUTIL_PAGE_CNT2BYTE (ucast idx)))"
    by (simp add: GetRegAddrFromIdx_def)
  then show ?thesis using assms u64_of_nat_unat[of "unat (baseAddress pm) + unat idx * 4096"] by (simp add: reg_offset_unat)
qed

lemma CalcChunkSize_unat:
  assumes "unat sz < 2 ^ 44 - 4096"
  shows "unat (CalcChunkSize sz) = (unat sz + 4095) div 4096"
proof -
  have "unat (ALLOCUTIL_PAGE_RND_UP sz) = (unat sz + 4095) div 4096 * 4096"
    using AllocUtilRndUp_unat[of 12 sz] assms by (simp add: PAGE_RND_UP_eq)
  then have "unat (ALLOCUTIL_PAGE_BYTE2CNT (ALLOCUTIL_PAGE_RND_UP sz)) = (unat sz + 4095) div 4096"
    by (simp add: BYTE2CNT_unat)
  moreover have "(unat sz + 4095) div 4096 < 2 ^ 32" using assms by simp
  ultimately show ?thesis by (simp add: CalcChunkSize_def ucast_u64_unat)
qed

section \<open>Allocation sequences\<close>

text \<open>A client allocates (with or without extension of the space, which the system may refuse) and
  frees chunks it has allocated. A chunk is its address and its number of pages.\<close>

inductive space_step :: "nat sud \<Rightarrow> space \<times> (u64 \<times> u32) set \<Rightarrow> space \<times> (u64 \<times> u32) set \<Rightarrow> bool" for sud where
  space_alloc: "unat reqSize < 2 ^ 44 - 4096 \<Longrightarrow> 0 < reqSize \<Longrightarrow>
    Space_Alloc sud prot reqSize allowExtension sp = (addr, sp') \<Longrightarrow>
    space_step sud (sp, C) (sp', if addr \<noteq> 0 then insert (addr, CalcChunkSize reqSize) C else C)"
| space_free: "(addr, n) \<in> C \<Longrightarrow> FreeRegion sud addr (ucast n) sp = (ok, sp') \<Longrightarrow>
    space_step sud (sp, C) (sp', C - {(addr, n)})"

abbreviation free_pages :: "ctree \<Rightarrow> nat set" where
  "free_pages t \<equiv> pages (regions t)"

definition space_geom :: "nat sud \<Rightarrow> space \<Rightarrow> bool" where
  "space_geom sud sp \<longleftrightarrow> (let m = memMap sp in
     0 < unat (memBaseAddr m) \<and> unat (memBaseAddr m) + unat (memMappedSize m) < 2 ^ 64 \<and>
     unat (memMappedSize m) < 2 ^ 43 \<and> 4096 dvd unat (memMappedSize m) \<and> 4096 dvd unat (memCurrSize m) \<and>
     unat (memCurrSize m) \<le> unat (memMappedSize m) \<and> maxCapacity sp = memMappedSize m \<and>
     sp_begin sp = memBaseAddr m \<and> sp_end sp = GetCurrEnd m \<and> baseAddress (pageManager sp) = memBaseAddr m \<and>
     sud_base sud \<and> unat (memMappedSize m) div 4096 \<le> 2 * sud_cap sud)"

definition page_limit :: "space \<Rightarrow> nat" where
  "page_limit sp = unat (maxCapacity sp) div 4096"

definition cur_pages :: "space \<Rightarrow> nat" where
  "cur_pages sp = unat (memCurrSize (memMap sp)) div 4096"

definition chunk_of :: "space \<Rightarrow> u32 \<times> u32 \<Rightarrow> u64 \<times> u32" where
  "chunk_of sp x = (GetRegAddrFromIdx (pageManager sp) (fst x), snd x)"

definition space_runs :: "nat sud \<Rightarrow> space \<Rightarrow> (u32 \<times> u32) set \<Rightarrow> bool" where
  "space_runs sud sp R \<longleftrightarrow> runs_inv (ct_store_inv sud (page_limit sp)) free_pages (page_limit sp) {..<cur_pages sp}
     (pageCTree (pageManager sp), R)"

definition space_inv :: "nat sud \<Rightarrow> space \<times> (u64 \<times> u32) set \<Rightarrow> bool" where
  "space_inv sud st \<longleftrightarrow> (case st of (sp, C) \<Rightarrow> space_geom sud sp \<and> (\<exists>R. C = chunk_of sp ` R \<and> space_runs sud sp R))"

lemma space_invI: "space_geom sud sp \<Longrightarrow> space_runs sud sp R \<Longrightarrow> C = chunk_of sp ` R \<Longrightarrow> space_inv sud (sp, C)"
  unfolding space_inv_def by blast

lemma inj_GetRegAddr: "GetRegAddrFromIdx pm i = GetRegAddrFromIdx pm j \<Longrightarrow> i = j"
  by (metis CalcPageIdx_GetRegAddr)

lemma GetRegAddr_base: "baseAddress pm = baseAddress pm' \<Longrightarrow> GetRegAddrFromIdx pm = GetRegAddrFromIdx pm'"
  by (rule ext) (simp add: GetRegAddrFromIdx_def)

lemma runs_bound:
  assumes "space_runs sud sp R" "x \<in> R"
  shows "unat (fst x) + unat (snd x) \<le> cur_pages sp" "0 < unat (snd x)"
proof -
  have r: "0 < snd x" "run_pages x \<subseteq> {..<cur_pages sp}" using assms by (auto simp: space_runs_def runs_inv_def)
  show n: "0 < unat (snd x)" using r(1) by (simp add: word_less_nat_alt)
  show "unat (fst x) + unat (snd x) \<le> cur_pages sp"
    using subset_interval_bound[OF r(2)[unfolded run_pages_def] n] .
qed

lemma chunk_addr:
  assumes "space_geom sud sp" "unat i \<le> cur_pages sp"
  shows "unat (GetRegAddrFromIdx (pageManager sp) i) = unat (sp_begin sp) + unat i * 4096"
proof -
  have "unat i * 4096 \<le> unat (memCurrSize (memMap sp))" using assms(2) unfolding cur_pages_def by simp
  then show ?thesis using assms(1) GetRegAddr_unat[of "pageManager sp" i] by (simp add: space_geom_def Let_def)
qed

lemma Space_GetChunk_inv:
  assumes "space_inv sud (sp, C)" "0 < reqSize" "unat reqSize < 2 ^ 44 - 4096" "Space_GetChunk reqSize sp = (addr, sp')"
  shows "space_inv sud (sp', if addr \<noteq> 0 then insert (addr, CalcChunkSize reqSize) C else C)"
proof -
  obtain R where g: "space_geom sud sp" and C: "C = chunk_of sp ` R" and r: "space_runs sud sp R"
    using assms(1) by (auto simp: space_inv_def)
  let ?n = "CalcChunkSize reqSize" and ?t = "pageCTree (pageManager sp)"
  have pos: "0 < ?n" using CalcChunkSize_unat[OF assms(3)] assms(2) by (simp add: word_less_nat_alt)
  show ?thesis
  proof (cases "Ct_Find ?n ?t")
    case None
    then have "addr = 0" "sp' = sp" using assms(4) by (simp_all add: Space_GetChunk_def Pm_GetChunk_def Let_def)
    then show ?thesis using assms(1) by simp
  next
    case (Some p)
    obtain i t' where p: "p = (i, t')" by force
    have r': "runs_inv (ct_store_inv sud (page_limit sp)) free_pages (page_limit sp) {..<cur_pages sp} (t', insert (i, ?n) R)"
      using ctstore.take_inv(1)[OF r[unfolded space_runs_def] pos] Some p by blast
    let ?pm = "(pageManager sp)\<lparr>pageCTree := t'\<rparr>"
    have a: "addr = GetRegAddrFromIdx (pageManager sp) i" using assms(4) Some p
      by (simp add: Space_GetChunk_def Pm_GetChunk_def Let_def)
    have lt: "unat i + unat ?n \<le> cur_pages sp"
      using runs_bound(1)[of sud "sp\<lparr>pageManager := ?pm\<rparr>" "insert (i, ?n) R" "(i, ?n)"] r'
      by (simp add: space_runs_def page_limit_def cur_pages_def)
    have "unat addr = unat (sp_begin sp) + unat i * 4096" unfolding a using lt by (intro chunk_addr[OF g]) simp
    then have nz: "addr \<noteq> 0" using g by (auto simp: space_geom_def Let_def)
    have s': "sp' = sp\<lparr>pageManager := ?pm, allocatedPageSize := allocatedPageSize sp + reqSize\<rparr>"
      using assms(4) Some p nz a by (simp add: Space_GetChunk_def Pm_GetChunk_def Let_def)
    have ad: "GetRegAddrFromIdx ?pm = GetRegAddrFromIdx (pageManager sp)" by (rule GetRegAddr_base) simp
    have "space_geom sud sp'" using g by (simp add: s' space_geom_def)
    moreover have "space_runs sud sp' (insert (i, ?n) R)" using r' by (simp add: s' space_runs_def page_limit_def cur_pages_def)
    moreover have "insert (addr, ?n) C = chunk_of sp' ` insert (i, ?n) R" using C a ad by (simp add: s' chunk_of_def)
    ultimately have "space_inv sud (sp', insert (addr, ?n) C)" by (intro space_invI)
    then show ?thesis using nz by simp
  qed
qed

lemma FreeRegion_inv:
  assumes "space_inv sud (sp, C)" "(addr, n) \<in> C" "FreeRegion sud addr (ucast n) sp = (ok, sp')"
  shows "space_inv sud (sp', C - {(addr, n)})" "ok"
proof -
  obtain R where g: "space_geom sud sp" and C: "C = chunk_of sp ` R" and r: "space_runs sud sp R"
    using assms(1) by (auto simp: space_inv_def)
  obtain i where i: "(i, n) \<in> R" "addr = GetRegAddrFromIdx (pageManager sp) i" using assms(2) C by (auto simp: chunk_of_def)
  obtain t' where m: "MergeInsert sud i n (pageCTree (pageManager sp)) = (ok, t')"
    and s': "sp' = sp\<lparr>pageManager := (pageManager sp)\<lparr>pageCTree := t'\<rparr>,
      allocatedPageSize := allocatedPageSize sp - ALLOCUTIL_PAGE_CNT2BYTE (ucast n)\<rparr>"
  proof -
    have "(ucast (ucast n :: u64) :: u32) = n"
      using unat_less_u32[of n] by (simp add: word_unat_eq_iff ucast_u64_unat ucast_u32_unat)
    then show ?thesis using assms(3) that i(2)
      by (cases "MergeInsert sud i n (pageCTree (pageManager sp))") (simp add: FreeRegion_def AddPages_def CalcPageIdx_GetRegAddr)
  qed
  note G = ctstore.give_inv[OF r[unfolded space_runs_def] i(1) m]
  show "ok" by (rule G(2))
  have ad: "GetRegAddrFromIdx (pageManager sp') = GetRegAddrFromIdx (pageManager sp)" by (rule GetRegAddr_base) (simp add: s')
  have "C - {(addr, n)} = chunk_of sp ` (R - {(i, n)})"
    unfolding C i(2) using inj_GetRegAddr by (auto simp: chunk_of_def)
  also have "\<dots> = chunk_of sp' ` (R - {(i, n)})" by (simp add: chunk_of_def ad)
  finally have "C - {(addr, n)} = chunk_of sp' ` (R - {(i, n)})" .
  moreover have "space_geom sud sp'" using g by (simp add: s' space_geom_def)
  moreover have "space_runs sud sp' (R - {(i, n)})" using G(1) by (simp add: s' space_runs_def page_limit_def cur_pages_def)
  ultimately show "space_inv sud (sp', C - {(addr, n)})" by (intro space_invI)
qed

section \<open>Growing the space\<close>

lemma grow_runs:
  assumes "runs_inv (ct_store_inv sud P) free_pages P {..<c} (t, R)" "unat a = c" "0 < n" "c + unat n \<le> P"
    and "MergeInsert sud a n t = (ok, t')"
  shows "runs_inv (ct_store_inv sud P) free_pages P {..<c + unat n} (t', R) \<and> ok"
proof -
  have i: "ct_store_inv sud P t" "\<forall>x\<in>R. 0 < snd x \<and> unat (fst x) + unat (snd x) \<le> P \<and> run_pages x \<inter> free_pages t = {}"
    "\<forall>x\<in>R. \<forall>y\<in>R. x \<noteq> y \<longrightarrow> run_pages x \<inter> run_pages y = {}" "free_pages t \<union> \<Union> (run_pages ` R) = {..<c}"
    using assms(1) by (auto simp: runs_inv_def)
  have "run_pages x \<subseteq> {..<c}" if "x \<in> R" for x using i(4) that by blast
  moreover have "free_pages t \<subseteq> {..<c}" using i(4) by blast
  moreover have "A \<inter> {c..<c + unat n} = {}" if "A \<subseteq> {..<c}" for A using that by auto
  ultimately have new: "\<forall>x\<in>R. run_pages x \<inter> {c..<c + unat n} = {}" "free_pages t \<inter> {c..<c + unat n} = {}" by blast+
  have b: "unat a + unat n \<le> P" using assms(2,4) by simp
  note g = ctstore.give_ok[OF i(1) assms(3) b assms(5)]
  have ok: ok using g new(2) assms(2) by simp
  then have t': "ct_store_inv sud P t'" "free_pages t' = free_pages t \<union> {c..<c + unat n}" using g assms(2) by simp_all
  have "free_pages t' \<union> \<Union> (run_pages ` R) = {..<c} \<union> {c..<c + unat n}" using t'(2) i(4) by blast
  also have "\<dots> = {..<c + unat n}" by auto
  finally have "free_pages t' \<union> \<Union> (run_pages ` R) = {..<c + unat n}" .
  then show ?thesis using ok t' i(2,3) new(1) unfolding runs_inv_def by (auto simp: Int_Un_distrib)
qed

lemma page_aligned_div: "4096 dvd (x :: nat) \<Longrightarrow> (x + 4095) div 4096 = x div 4096"
  by (elim dvdE) simp

lemma min_max_unat:
  "unat (min x y) = min (unat x) (unat y)" "unat (max x y) = max (unat x) (unat y)" for x y :: u64
  by (auto simp: min_def max_def word_le_nat_alt)

lemma rnd_up_dvd: "unat x < 2 ^ 44 - 4096 \<Longrightarrow> 4096 dvd unat (ALLOCUTIL_PAGE_RND_UP x)"
  using AllocUtilRndUp_unat[of 12 x] by (simp add: PAGE_RND_UP_eq)

lemma GetSize_geom: "space_geom sud sp \<Longrightarrow> GetSize sp = memCurrSize (memMap sp)"
  by (simp add: space_geom_def Let_def GetSize_def GetCurrEnd_def)

lemma Extend_grows:
  assumes "space_geom sud sp" "unat deltaSize < 2 ^ 44 - 4096" and ext: "Space_Extend sud prot deltaSize sp \<noteq> sp"
  obtains e where "4096 dvd unat e" "0 < unat e" "unat (memCurrSize (memMap sp)) + unat e \<le> unat (maxCapacity sp)"
    "Space_Extend sud prot deltaSize sp = sp\<lparr>memMap := (memMap sp)\<lparr>memCurrSize := memCurrSize (memMap sp) + e\<rparr>,
        sp_end := GetCurrEnd ((memMap sp)\<lparr>memCurrSize := memCurrSize (memMap sp) + e\<rparr>),
        pageManager := snd (AddRegion sud (sp_end sp) e (pageManager sp))\<rparr>"
proof -
  let ?c = "memCurrSize (memMap sp)" and ?M = "maxCapacity sp" and ?q = "ALLOCUTIL_PAGE_RND_UP deltaSize"
  define e where "e = min (?M - ?c) (max ?q (ALLOCUTIL_PAGE_CNT2BYTE kPagesOneTime))"
  note G = GetSize_geom[OF assms(1)]
  have g: "4096 dvd unat ?M" "4096 dvd unat ?c" "?M = memMappedSize (memMap sp)" "unat ?M < 2 ^ 43"
    using assms(1) by (simp_all add: space_geom_def Let_def)
  have lt: "?c < ?M"
    using ext by (auto simp: Space_Extend_def Let_def G not_le split: if_splits)
  have one: "unat (ALLOCUTIL_PAGE_CNT2BYTE kPagesOneTime) = 1048576"
    by (simp add: ALLOCUTIL_PAGE_CNT2BYTE_def kAllocUtilLogPageSize_def kPagesOneTime_def push_bit_eq_mult)
  have rem: "unat (?M - ?c) = unat ?M - unat ?c" using lt by (simp add: unat_sub)
  have ue: "unat e = min (unat ?M - unat ?c) (max (unat ?q) 1048576)" by (simp add: e_def min_max_unat rem one)
  have "4096 dvd unat ?M - unat ?c" "4096 dvd unat ?q" using g rnd_up_dvd[OF assms(2)] by (auto intro: dvd_diff_nat)
  then have d: "4096 dvd unat e" unfolding ue by (auto simp: min_def max_def)
  have pos: "0 < unat e" using lt unfolding ue by (simp add: word_less_nat_alt)
  have bound: "unat ?c + unat e \<le> unat ?M" using lt unfolding ue by (simp add: word_less_nat_alt)
  have x: "Mm_Extend prot e (memMap sp) = (True, (memMap sp)\<lparr>memCurrSize := ?c + e\<rparr>)"
    using ext lt by (auto simp: Space_Extend_def Let_def G not_le e_def[symmetric] Mm_Extend_def split: if_splits)
  have "\<not> ?M < ?q" using ext by (auto simp: Space_Extend_def Let_def split: if_splits)
  then have "Space_Extend sud prot deltaSize sp = sp\<lparr>memMap := (memMap sp)\<lparr>memCurrSize := ?c + e\<rparr>,
        sp_end := GetCurrEnd ((memMap sp)\<lparr>memCurrSize := ?c + e\<rparr>),
        pageManager := snd (AddRegion sud (sp_end sp) e (pageManager sp))\<rparr>"
    using lt x by (simp add: Space_Extend_def Let_def G not_le e_def[symmetric])
  then show ?thesis using that[OF d pos bound] by blast
qed

lemma CalcPageIdx_end:
  assumes "space_geom sud sp"
  shows "unat (CalcPageIdx (pageManager sp) (sp_end sp)) = cur_pages sp"
proof -
  have e: "sp_end sp - baseAddress (pageManager sp) = memCurrSize (memMap sp)"
    and b: "unat (memCurrSize (memMap sp)) < 2 ^ 43"
    using assms by (simp_all add: space_geom_def Let_def GetCurrEnd_def)
  have "unat (memCurrSize (memMap sp)) div 4096 < 2 ^ 32" using b by simp
  then show ?thesis
    unfolding CalcPageIdx_def e cur_pages_def by (subst ucast_u64_unat) (simp_all add: BYTE2CNT_unat)
qed

lemma Space_Extend_inv:
  assumes "space_inv sud (sp, C)" "unat deltaSize < 2 ^ 44 - 4096"
  shows "space_inv sud (Space_Extend sud prot deltaSize sp, C)"
proof (cases "Space_Extend sud prot deltaSize sp = sp")
  case False
  obtain R where g: "space_geom sud sp" and C: "C = chunk_of sp ` R" and r: "space_runs sud sp R"
    using assms(1) by (auto simp: space_inv_def)
  obtain e where e: "4096 dvd unat e" "0 < unat e" "unat (memCurrSize (memMap sp)) + unat e \<le> unat (maxCapacity sp)"
    and x: "Space_Extend sud prot deltaSize sp = sp\<lparr>memMap := (memMap sp)\<lparr>memCurrSize := memCurrSize (memMap sp) + e\<rparr>,
        sp_end := GetCurrEnd ((memMap sp)\<lparr>memCurrSize := memCurrSize (memMap sp) + e\<rparr>),
        pageManager := snd (AddRegion sud (sp_end sp) e (pageManager sp))\<rparr>" (is "_ = ?sp'")
    using Extend_grows[OF g assms(2) False] .
  let ?c = "memCurrSize (memMap sp)"
  have gb: "unat (maxCapacity sp) < 2 ^ 43" "4096 dvd unat ?c" "maxCapacity sp = memMappedSize (memMap sp)"
    using g by (simp_all add: space_geom_def Let_def)
  have sum: "unat (?c + e) = unat ?c + unat e"
    using e(3) gb(1) u64_of_nat_unat[of "unat ?c + unat e"] by simp
  have n: "unat (CalcChunkSize e) = unat e div 4096"
    using CalcChunkSize_unat[of e] e gb(1) by (simp add: page_aligned_div)
  then have n0: "0 < CalcChunkSize e" using e(1,2) by (auto simp: word_less_nat_alt elim!: dvdE)
  have cp: "cur_pages ?sp' = cur_pages sp + unat (CalcChunkSize e)"
    using gb(2) e(1) by (simp add: cur_pages_def sum n div_plus_div_distrib_dvd_left)
  have le: "cur_pages sp + unat (CalcChunkSize e) \<le> page_limit sp"
    using e(3) cp by (simp add: cur_pages_def sum page_limit_def div_le_mono)
  obtain ok t' where m: "MergeInsert sud (CalcPageIdx (pageManager sp) (sp_end sp)) (CalcChunkSize e) (pageCTree (pageManager sp)) = (ok, t')"
    by force
  have pm: "pageManager ?sp' = (pageManager sp)\<lparr>pageCTree := t'\<rparr>"
    using m by (simp add: AddRegion_def AddPages_def)
  have "runs_inv (ct_store_inv sud (page_limit sp)) free_pages (page_limit sp) {..<cur_pages ?sp'} (t', R)"
    using grow_runs[OF r[unfolded space_runs_def] CalcPageIdx_end[OF g] n0 le m] cp by simp
  then have "space_runs sud ?sp' R" unfolding space_runs_def pm by (simp add: page_limit_def)
  moreover have "space_geom sud ?sp'"
    using g e gb sum unfolding space_geom_def Let_def pm by (simp add: dvd_add)
  moreover have "chunk_of ?sp' = chunk_of sp"
  proof
    fix y
    have "GetRegAddrFromIdx (pageManager ?sp') = GetRegAddrFromIdx (pageManager sp)"
      unfolding pm by (rule GetRegAddr_base) simp
    then show "chunk_of ?sp' y = chunk_of sp y" unfolding chunk_of_def by simp
  qed
  ultimately show ?thesis unfolding x using C by (intro space_invI) simp_all
qed (use assms in simp)

lemma Space_Alloc_inv:
  assumes "space_inv sud (sp, C)" "0 < reqSize" "unat reqSize < 2 ^ 44 - 4096"
    "Space_Alloc sud prot reqSize ext sp = (addr, sp')"
  shows "space_inv sud (sp', if addr \<noteq> 0 then insert (addr, CalcChunkSize reqSize) C else C)"
proof -
  define first where "first = (if GetSize sp - allocatedPageSize sp \<ge> reqSize then Space_GetChunk reqSize sp else (0, sp))"
  have f: "space_inv sud (snd first, if fst first \<noteq> 0 then insert (fst first, CalcChunkSize reqSize) C else C)"
    using Space_GetChunk_inv[OF assms(1-3)] assms(1) unfolding first_def by (cases "Space_GetChunk reqSize sp") auto
  show ?thesis
  proof (cases "fst first \<noteq> 0 \<or> \<not> ext")
    case True
    then have "(addr, sp') = first"
      using assms(4) unfolding Space_Alloc_def first_def[symmetric] Let_def by (auto split: if_splits simp: prod_eq_iff)
    then show ?thesis using f by (metis fst_conv snd_conv)
  next
    case False
    then have "Space_GetChunk reqSize (Space_Extend sud prot reqSize (snd first)) = (addr, sp')"
      using assms(4) unfolding Space_Alloc_def first_def[symmetric] Let_def by auto
    moreover have "space_inv sud (Space_Extend sud prot reqSize (snd first), C)"
      using Space_Extend_inv[OF _ assms(3)] f False by simp
    ultimately show ?thesis using Space_GetChunk_inv assms(2,3) by blast
  qed
qed

lemma space_step_inv: "space_step sud st st' \<Longrightarrow> space_inv sud st \<Longrightarrow> space_inv sud st'"
proof (induction rule: space_step.induct)
  case (space_alloc reqSize prot allowExtension sp addr sp' C)
  then show ?case using Space_Alloc_inv by blast
next
  case (space_free addr n C sp ok sp')
  then show ?case using FreeRegion_inv by blast
qed

lemma space_steps_inv: "(space_step sud)\<^sup>*\<^sup>* st st' \<Longrightarrow> space_inv sud st \<Longrightarrow> space_inv sud st'"
  by (induction rule: rtranclp_induct) (auto intro: space_step_inv)

section \<open>Safety of allocation\<close>

definition map_ok :: "nat sud \<Rightarrow> mem_map \<Rightarrow> bool" where
  "map_ok sud m \<longleftrightarrow> 0 < unat (memBaseAddr m) \<and> unat (memBaseAddr m) + unat (memMappedSize m) < 2 ^ 64 \<and>
     unat (memMappedSize m) < 2 ^ 43 \<and> 4096 dvd unat (memMappedSize m) \<and> 4096 dvd unat (memCurrSize m) \<and>
     0 < unat (memCurrSize m) \<and> unat (memCurrSize m) \<le> unat (memMappedSize m) \<and>
     sud_base sud \<and> unat (memMappedSize m) div 4096 \<le> 2 * sud_cap sud"

lemma Space_Init_inv:
  assumes "map_ok sud m"
  shows "space_inv sud (Space_Init sud (memMappedSize m) m, {})"
proof -
  let ?sp0 = "\<lparr>maxCapacity = memMappedSize m, sp_begin = memBaseAddr m, sp_end = GetCurrEnd m, allocatedPageSize = 0,
     memMap = m, pageManager = \<lparr>baseAddress = memBaseAddr m, pageCTree = Null\<rparr>\<rparr>"
  let ?n = "CalcChunkSize (memCurrSize m)" and ?P = "unat (memMappedSize m) div 4096"
  have g: "space_geom sud ?sp0" using assms by (simp add: map_ok_def space_geom_def)
  have n: "unat ?n = unat (memCurrSize m) div 4096"
    using CalcChunkSize_unat[of "memCurrSize m"] assms by (simp add: map_ok_def page_aligned_div)
  have idx: "CalcPageIdx \<lparr>baseAddress = memBaseAddr m, pageCTree = Null\<rparr> (memBaseAddr m) = 0"
    by (simp add: CalcPageIdx_def ALLOCUTIL_PAGE_BYTE2CNT_def)
  have n0: "0 < ?n" using n assms by (auto simp: map_ok_def word_less_nat_alt elim!: dvdE)
  have le: "unat ?n \<le> ?P" using n assms by (simp add: map_ok_def div_le_mono)
  have "unat (memMappedSize m) < 2 ^ 43" using assms by (simp add: map_ok_def)
  then have "?P < 2 ^ 32" by simp
  then have e: "runs_inv (ct_store_inv sud ?P) free_pages ?P {..<0} (Null, {})"
    using assms by (simp add: runs_inv_def ct_store_inv_def map_ok_def)
  obtain ok t where m: "MergeInsert sud 0 ?n Null = (ok, t)" by force
  have r: "runs_inv (ct_store_inv sud ?P) free_pages ?P {..<unat ?n} (t, {})"
    using grow_runs[OF e _ n0 _ m] le by simp
  have si: "Space_Init sud (memMappedSize m) m = ?sp0\<lparr>pageManager := \<lparr>baseAddress = memBaseAddr m, pageCTree = t\<rparr>\<rparr>"
    using m by (simp add: Space_Init_def AddRegion_def AddPages_def idx Let_def GetSize_def GetCurrEnd_def)
  show ?thesis
    unfolding si using g r n by (intro space_invI[of _ _ "{}"]) (simp_all add: space_geom_def space_runs_def page_limit_def cur_pages_def)
qed

lemma chunk_range:
  assumes "space_geom sud sp" "space_runs sud sp R" "x \<in> R" "chunk_of sp x = (a, n)"
  shows "unat a = unat (sp_begin sp) + unat (fst x) * 4096" "n = snd x"
    "unat a + unat n * 4096 \<le> unat (sp_end sp)"
proof -
  note b = runs_bound[OF assms(2,3)]
  show a: "unat a = unat (sp_begin sp) + unat (fst x) * 4096" and n: "n = snd x"
    using chunk_addr[OF assms(1), of "fst x"] b assms(4) by (auto simp: chunk_of_def)
  have "(unat (fst x) + unat (snd x)) * 4096 \<le> cur_pages sp * 4096" using b(1) by (rule mult_le_mono1)
  moreover have "cur_pages sp * 4096 = unat (memCurrSize (memMap sp))"
    using assms(1) by (simp add: cur_pages_def space_geom_def Let_def)
  moreover have "unat (sp_end sp) = unat (sp_begin sp) + unat (memCurrSize (memMap sp))"
    using assms(1) u64_of_nat_unat[of "unat (sp_begin sp) + unat (memCurrSize (memMap sp))"]
    by (simp add: space_geom_def Let_def GetCurrEnd_def)
  ultimately show "unat a + unat n * 4096 \<le> unat (sp_end sp)" using a n by (simp add: algebra_simps)
qed

lemma run_pages_apart:
  assumes "run_pages x \<inter> run_pages y = {}" "0 < unat (snd x)" "0 < unat (snd y)"
  shows "unat (fst x) + unat (snd x) \<le> unat (fst y) \<or> unat (fst y) + unat (snd y) \<le> unat (fst x)"
proof (rule ccontr)
  assume "\<not> ?thesis"
  then have "max (unat (fst x)) (unat (fst y)) \<in> run_pages x \<inter> run_pages y" using assms(2,3) by (auto simp: run_pages_def)
  then show False using assms(1) by blast
qed

text \<open>C8: whatever sequence of allocations (with or without extension of the space) and frees a
  client performs on an initialised space, the chunks it holds lie inside the space and no two of
  them overlap.\<close>

theorem space_chunks_disjoint:
  assumes "map_ok sud m" "(space_step sud)\<^sup>*\<^sup>* (Space_Init sud (memMappedSize m) m, {}) (sp, C)"
    and "(a, n) \<in> C" "(b, k) \<in> C"
  shows "unat (sp_begin sp) \<le> unat a \<and> unat a + unat n * 4096 \<le> unat (sp_end sp) \<and>
    ((a, n) = (b, k) \<or> unat a + unat n * 4096 \<le> unat b \<or> unat b + unat k * 4096 \<le> unat a)"
proof -
  have "space_inv sud (sp, C)" using space_steps_inv[OF assms(2) Space_Init_inv[OF assms(1)]] .
  then obtain R where g: "space_geom sud sp" and C: "C = chunk_of sp ` R" and r: "space_runs sud sp R"
    by (auto simp: space_inv_def)
  obtain x y where x: "x \<in> R" "chunk_of sp x = (a, n)" and y: "y \<in> R" "chunk_of sp y = (b, k)"
    using assms(3,4) unfolding C by (metis imageE)
  note X = chunk_range[OF g r x] and Y = chunk_range[OF g r y]
  have "(a, n) = (b, k) \<or> unat a + unat n * 4096 \<le> unat b \<or> unat b + unat k * 4096 \<le> unat a"
  proof (cases "x = y")
    case False
    then have "run_pages x \<inter> run_pages y = {}" using r x(1) y(1) by (auto simp: space_runs_def runs_inv_def)
    then have "unat (fst x) + unat (snd x) \<le> unat (fst y) \<or> unat (fst y) + unat (snd y) \<le> unat (fst x)"
      using run_pages_apart runs_bound(2)[OF r x(1)] runs_bound(2)[OF r y(1)] by blast
    then show ?thesis using X(1,2) Y(1,2) by (auto simp: algebra_simps)
  qed (use x y in simp)
  then show ?thesis using X by simp
qed

definition map_example :: mem_map where
  "map_example = \<lparr>memBaseAddr = 0x10000, memCurrSize = 0x4000, memMappedSize = 0x100000\<rparr>"

lemma map_example_ok: "map_ok sud_example map_example"
  by (simp add: map_ok_def map_example_def sud_example_base)

definition space_example :: space where
  "space_example = snd (Space_Alloc sud_example True 0x2000 False
     (snd (Space_Alloc sud_example True 0x1000 False (Space_Init sud_example 0x100000 map_example))))"

lemma space_example_reached:
  "(space_step sud_example)\<^sup>*\<^sup>* (Space_Init sud_example 0x100000 map_example, {}) (space_example, {(0x10000, 1), (0x11000, 2)})"
proof -
  let ?s0 = "Space_Init sud_example 0x100000 map_example"
  have ini: "?s0 = \<lparr>maxCapacity = 0x100000, sp_begin = 0x10000, sp_end = 0x14000, allocatedPageSize = 0, memMap = map_example,
      pageManager = \<lparr>baseAddress = 0x10000, pageCTree = Node Null 0 4 Null\<rparr>\<rparr>"
    by (simp add: Space_Init_def AddRegion_def AddPages_def MergeInsert_def CalcPageIdx_def CalcChunkSize_def map_example_def
        GetCurrEnd_def GetSize_def ALLOCUTIL_PAGE_BYTE2CNT_def ALLOCUTIL_PAGE_RND_UP_def ALLOCUTIL_PAGE_SIZE_def kAllocUtilLogPageSize_def)
  note eval = Space_Alloc_def Space_GetChunk_def Pm_GetChunk_def Ct_Find_def CalcChunkSize_def GetRegAddrFromIdx_def GetSize_def
    ALLOCUTIL_PAGE_BYTE2CNT_def ALLOCUTIL_PAGE_CNT2BYTE_def ALLOCUTIL_PAGE_RND_UP_def ALLOCUTIL_PAGE_SIZE_def kAllocUtilLogPageSize_def LowerNode_Node Let_def
  obtain s1 where a1: "Space_Alloc sud_example True 0x1000 False ?s0 = (0x10000, s1)"
    and s1: "s1 = \<lparr>maxCapacity = 0x100000, sp_begin = 0x10000, sp_end = 0x14000, allocatedPageSize = 0x1000, memMap = map_example,
      pageManager = \<lparr>baseAddress = 0x10000, pageCTree = Node Null 1 3 Null\<rparr>\<rparr>"
    unfolding ini by (simp add: eval)
  obtain s2 where a2: "Space_Alloc sud_example True 0x2000 False s1 = (0x11000, s2)"
    unfolding s1 by (simp add: eval)
  have s2: "s2 = space_example" using a1 a2 by (simp add: space_example_def)
  have c: "CalcChunkSize 0x1000 = 1" "CalcChunkSize 0x2000 = 2" by (simp_all add: eval)
  have "space_step sud_example (?s0, {}) (s1, {(0x10000, 1)})" "space_step sud_example (s1, {(0x10000, 1)}) (s2, {(0x10000, 1), (0x11000, 2)})"
    using space_alloc[OF _ _ a1, of "{}"] space_alloc[OF _ _ a2, of "{(0x10000, 1)}"] c by (simp_all add: insert_commute)
  then show ?thesis unfolding s2 by (rule rtranclp.rtrancl_into_rtrancl[OF r_into_rtranclp])
qed

lemma map_example_size: "memMappedSize map_example = 0x100000"
  by (simp add: map_example_def)

theorem space_chunks_disjoint_witness:
  "unat (sp_begin space_example) \<le> 0x10000 \<and> unat (0x10000 :: u64) + 4096 \<le> unat (0x11000 :: u64)"
  using space_chunks_disjoint[OF map_example_ok, of space_example "{(0x10000, 1), (0x11000, 2)}" "0x10000" 1 "0x11000" 2]
    space_example_reached by (simp add: map_example_size)

text \<open>C9: giving a chunk back that was allocated before never hits the error branch \<open>free page
  insertion failed, inconsistency\<close>, in any state that allocations and frees reach.\<close>

theorem space_free_never_inconsistent:
  assumes "map_ok sud m" "(space_step sud)\<^sup>*\<^sup>* (Space_Init sud (memMappedSize m) m, {}) (sp, C)"
    and "(a, n) \<in> C"
  shows "fst (FreeRegion sud a (ucast n) sp)"
  using FreeRegion_inv(2)[OF space_steps_inv[OF assms(2) Space_Init_inv[OF assms(1)]] assms(3) prod.collapse[symmetric]] .

theorem space_free_never_inconsistent_witness: "fst (FreeRegion sud_example 0x10000 (ucast (1 :: u32)) space_example)"
  using space_free_never_inconsistent[OF map_example_ok, of space_example "{(0x10000, 1), (0x11000, 2)}" "0x10000" 1]
    space_example_reached by (simp add: map_example_size)

end
