(* ===== verification/Obj_Header.thy ===== *)
theory Obj_Header
  imports Prelude
begin

text \<open>
  The 64-bit header of a heap object of the runtime: the reference-count word and the GC word,
  \<^verbatim>\<open>src/src/mrt/compiler-rt/include/sizes.h\<close>. A header word is a 32-bit word; memory is a function
  from addresses to the 32-bit words stored there, and an object address \<open>obj\<close> has its
  reference-count word at \<open>obj - 4\<close> and its GC word at \<open>obj - 8\<close>. An atomic read-modify-write of the
  GC word is one update of the memory. The hot-object statistics and JSAN fields are configured out
  of the build (\<open>RC_HOT_OBJECT_DATA_COLLECT\<close>, \<open>CONFIG_JSAN\<close>).
\<close>

unbundle bit_operations_syntax

section \<open>Constants\<close>

definition kWordBytes :: u64 where "kWordBytes = 4"
definition kDWordBytes :: u64 where "kDWordBytes = 8"
definition kOffsetRefCount :: u64 where "kOffsetRefCount = - kWordBytes"
definition kOffsetGCHeader :: u64 where "kOffsetGCHeader = - kDWordBytes"

definition kRCBits :: u32 where "kRCBits = 0x0000ffff"
definition kRCBitsMsb :: u32 where "kRCBitsMsb = 0x00008000"
definition kResurrectWeakRcBits :: u32 where "kResurrectWeakRcBits = 0x003f0000"
definition kResurrectWeakOneBit :: u32 where "kResurrectWeakOneBit = 0x00010000"
definition KResurrectWeakRcBitsShift :: nat where "KResurrectWeakRcBitsShift = 16"
definition kMaxResurrectWeakRC :: u32 where
  "kMaxResurrectWeakRC = drop_bit KResurrectWeakRcBitsShift kResurrectWeakRcBits"
definition kWeakRcBits :: u32 where "kWeakRcBits = 0x1fc00000"
definition kWeakRCOneBit :: u32 where "kWeakRCOneBit = 0x00400000"
definition kWeakRcBitsShift :: nat where "kWeakRcBitsShift = 22"
definition kMaxWeakRC :: u32 where "kMaxWeakRC = drop_bit kWeakRcBitsShift kWeakRcBits"
definition kWeakCollectedBit :: u32 where "kWeakCollectedBit = 0x20000000"
definition kRCCycleColorMask :: u32 where "kRCCycleColorMask = 0xc0000000"
definition kRCCycleColorBlack :: u32 where "kRCCycleColorBlack = 0x00000000"
definition kRCCycleColorGray :: u32 where "kRCCycleColorGray = 0x40000000"
definition kRCCycleColorWhite :: u32 where "kRCCycleColorWhite = 0x80000000"
definition kRCCycleColorBrown :: u32 where "kRCCycleColorBrown = 0xc0000000"

definition kAllocatedBit :: u32 where "kAllocatedBit = 0x1"
definition kDirtyBit :: u32 where "kDirtyBit = 0x2"
definition kReleasedBit :: u32 where "kReleasedBit = 0x4"
definition kRCTracingBit :: u32 where "kRCTracingBit = 0x8"
definition kHasChildRef :: u32 where "kHasChildRef = 0x40"
definition kMygoteObjBit :: u32 where "kMygoteObjBit = 0x80"
definition kReferenceActiveBit :: u32 where "kReferenceActiveBit = 0x00100000"
definition kEnqueuedFinalizableBit :: u32 where "kEnqueuedFinalizableBit = 0x00200000"
definition kArrayBit :: u32 where "kArrayBit = 0x00400000"
definition kReferenceBit :: u32 where "kReferenceBit = 0x00800000"
definition kFinalizableBit :: u32 where "kFinalizableBit = 0x01000000"
definition kCycleRCMinMask :: u32 where "kCycleRCMinMask = 0x0e000000"
definition kCycleRCMaxMask :: u32 where "kCycleRCMaxMask = 0x70000000"
definition kCyclePatternBit :: u32 where "kCyclePatternBit = 0x80000000"
definition kCycleRCMinShift :: nat where "kCycleRCMinShift = 25"
definition kCycleRCMaxShift :: nat where "kCycleRCMaxShift = 28"

definition CYCLE_MIN_RC :: "u32 \<Rightarrow> u32" where
  "CYCLE_MIN_RC header = drop_bit kCycleRCMinShift (header AND kCycleRCMinMask)"

definition CYCLE_MAX_RC :: "u32 \<Rightarrow> u32" where
  "CYCLE_MAX_RC header = drop_bit kCycleRCMaxShift (header AND kCycleRCMaxMask)"

section \<open>Fields of the reference-count word\<close>

definition GetRCFromRCHeader :: "u32 \<Rightarrow> u32" where
  "GetRCFromRCHeader rcHeader = rcHeader AND kRCBits"

definition GetResurrectWeakRCFromRCHeader :: "u32 \<Rightarrow> u32" where
  "GetResurrectWeakRCFromRCHeader rcHeader = drop_bit KResurrectWeakRcBitsShift (rcHeader AND kResurrectWeakRcBits)"

definition GetWeakRCFromRCHeader :: "u32 \<Rightarrow> u32" where
  "GetWeakRCFromRCHeader rcHeader = drop_bit kWeakRcBitsShift (rcHeader AND kWeakRcBits)"

definition GetTotalWeakRCFromRCHeader :: "u32 \<Rightarrow> u32" where
  "GetTotalWeakRCFromRCHeader rcHeader = rcHeader AND (kWeakRcBits OR kResurrectWeakRcBits)"

definition GetTotalRCFromRCHeader :: "u32 \<Rightarrow> u32" where
  "GetTotalRCFromRCHeader rcHeader = rcHeader AND (kWeakRcBits OR kResurrectWeakRcBits OR kRCBits)"

definition IsWeakCollectedFromRCHeader :: "u32 \<Rightarrow> bool" where
  "IsWeakCollectedFromRCHeader rcHeader \<longleftrightarrow> rcHeader AND kWeakCollectedBit \<noteq> 0"

definition IsRCCollectableFromRCHeader :: "u32 \<Rightarrow> bool" where
  "IsRCCollectableFromRCHeader rcHeader \<longleftrightarrow>
     (let totalRC = GetTotalRCFromRCHeader rcHeader
      in totalRC = 0 \<or> (totalRC = kWeakRCOneBit \<and> \<not> IsWeakCollectedFromRCHeader rcHeader))"

definition SkipRC :: "u32 \<Rightarrow> bool" where
  "SkipRC rcHeader \<longleftrightarrow> rcHeader AND kRCBitsMsb \<noteq> 0"

definition IsRCOverflow :: "u32 \<Rightarrow> bool" where
  "IsRCOverflow rc = SkipRC rc"

definition IsValidForCyclePatterMatch :: "u32 \<Rightarrow> u32 \<Rightarrow> bool" where
  "IsValidForCyclePatterMatch rcFlags curRC \<longleftrightarrow>
     rcFlags AND kCyclePatternBit \<noteq> 0 \<and> curRC \<le> CYCLE_MAX_RC rcFlags \<and> curRC \<ge> CYCLE_MIN_RC rcFlags"

definition SetCycleMaxRC :: "u32 \<Rightarrow> u32 \<Rightarrow> u32" where
  "SetCycleMaxRC oldRcFlags mx = (oldRcFlags AND NOT kCycleRCMaxMask) OR push_bit kCycleRCMaxShift mx"

definition SetCycleMinRC :: "u32 \<Rightarrow> u32 \<Rightarrow> u32" where
  "SetCycleMinRC oldRcFlags mn = (oldRcFlags AND NOT kCycleRCMinMask) OR push_bit kCycleRCMinShift mn"

section \<open>The header in memory\<close>

type_synonym mem32 = "u64 \<Rightarrow> u32"

definition GCHeader :: "mem32 \<Rightarrow> u64 \<Rightarrow> u32" where
  "GCHeader m objAddr = m (objAddr + kOffsetGCHeader)"

definition SetGCHeader :: "u64 \<Rightarrow> u32 \<Rightarrow> mem32 \<Rightarrow> mem32" where
  "SetGCHeader objAddr val m = m(objAddr + kOffsetGCHeader := val)"

definition RCHeader :: "mem32 \<Rightarrow> u64 \<Rightarrow> u32" where
  "RCHeader m objAddr = m (objAddr + kOffsetRefCount)"

definition RefCountLVal :: "u64 \<Rightarrow> u32 \<Rightarrow> mem32 \<Rightarrow> mem32" where
  "RefCountLVal objAddr val m = m(objAddr + kOffsetRefCount := val)"

definition RefCount :: "mem32 \<Rightarrow> u64 \<Rightarrow> u32" where
  "RefCount m obj = GetRCFromRCHeader (RCHeader m obj)"
definition ResurrectWeakRefCount :: "mem32 \<Rightarrow> u64 \<Rightarrow> u32" where
  "ResurrectWeakRefCount m obj = GetResurrectWeakRCFromRCHeader (RCHeader m obj)"
definition WeakRefCount :: "mem32 \<Rightarrow> u64 \<Rightarrow> u32" where
  "WeakRefCount m obj = GetWeakRCFromRCHeader (RCHeader m obj)"
definition TotalRefCount :: "mem32 \<Rightarrow> u64 \<Rightarrow> u32" where
  "TotalRefCount m obj = GetTotalRCFromRCHeader (RCHeader m obj)"
definition TotalWeakRefCount :: "mem32 \<Rightarrow> u64 \<Rightarrow> u32" where
  "TotalWeakRefCount m obj = GetTotalWeakRCFromRCHeader (RCHeader m obj)"
definition IsRCCollectable :: "mem32 \<Rightarrow> u64 \<Rightarrow> bool" where
  "IsRCCollectable m obj = IsRCCollectableFromRCHeader (RCHeader m obj)"
definition IsWeakCollected :: "mem32 \<Rightarrow> u64 \<Rightarrow> bool" where
  "IsWeakCollected m obj = IsWeakCollectedFromRCHeader (RCHeader m obj)"
definition IsRCSkiped :: "mem32 \<Rightarrow> u64 \<Rightarrow> bool" where
  "IsRCSkiped m obj = SkipRC (RCHeader m obj)"

definition SetRCOverflow :: "u64 \<Rightarrow> mem32 \<Rightarrow> mem32" where
  "SetRCOverflow objAddr m =
     (if \<not> IsRCSkiped m objAddr then RefCountLVal objAddr (RCHeader m objAddr OR kRCBitsMsb) m else m)"

text \<open>The flag updates of the GC word, \<open>|=\<close>, \<open>&=\<close>, \<open>fetch_or\<close> and \<open>fetch_and\<close>.\<close>

definition gc_or :: "u32 \<Rightarrow> u64 \<Rightarrow> mem32 \<Rightarrow> mem32" where
  "gc_or b objAddr m = SetGCHeader objAddr (GCHeader m objAddr OR b) m"

definition gc_andnot :: "u32 \<Rightarrow> u64 \<Rightarrow> mem32 \<Rightarrow> mem32" where
  "gc_andnot b objAddr m = SetGCHeader objAddr (GCHeader m objAddr AND NOT b) m"

definition gc_test :: "u32 \<Rightarrow> mem32 \<Rightarrow> u64 \<Rightarrow> bool" where
  "gc_test b m objAddr \<longleftrightarrow> GCHeader m objAddr AND b \<noteq> 0"

definition InitWithAllocatedBit :: "u64 \<Rightarrow> mem32 \<Rightarrow> mem32" where
  "InitWithAllocatedBit objAddr m = SetGCHeader objAddr kAllocatedBit m"
definition ClearAllocatedBit :: "u64 \<Rightarrow> mem32 \<Rightarrow> mem32" where
  "ClearAllocatedBit = gc_andnot kAllocatedBit"
definition IsAllocatedByAllocator :: "mem32 \<Rightarrow> u64 \<Rightarrow> bool" where
  "IsAllocatedByAllocator = gc_test kAllocatedBit"
definition ClearCyclePatternBit :: "u64 \<Rightarrow> mem32 \<Rightarrow> mem32" where
  "ClearCyclePatternBit = gc_andnot kCyclePatternBit"
definition IsDirty :: "mem32 \<Rightarrow> u64 \<Rightarrow> bool" where
  "IsDirty = gc_test kDirtyBit"
definition SetDirty :: "u64 \<Rightarrow> mem32 \<Rightarrow> mem32" where
  "SetDirty = gc_or kDirtyBit"
definition ClearDirtyBit :: "u64 \<Rightarrow> mem32 \<Rightarrow> mem32" where
  "ClearDirtyBit = gc_andnot kDirtyBit"
definition SetReleasedBit :: "u64 \<Rightarrow> mem32 \<Rightarrow> mem32" where
  "SetReleasedBit = gc_or kReleasedBit"
definition HasReleasedBit :: "mem32 \<Rightarrow> u64 \<Rightarrow> bool" where
  "HasReleasedBit = gc_test kReleasedBit"
definition SetMygoteBit :: "u64 \<Rightarrow> mem32 \<Rightarrow> mem32" where
  "SetMygoteBit = gc_or kMygoteObjBit"
definition IsMygoteObj :: "mem32 \<Rightarrow> u64 \<Rightarrow> bool" where
  "IsMygoteObj = gc_test kMygoteObjBit"
definition SetReferenceActive :: "u64 \<Rightarrow> mem32 \<Rightarrow> mem32" where
  "SetReferenceActive objAddr m = (if \<not> IsMygoteObj m objAddr then gc_or kReferenceActiveBit objAddr m else m)"
definition ClearReferenceActive :: "u64 \<Rightarrow> mem32 \<Rightarrow> mem32" where
  "ClearReferenceActive objAddr m = (if \<not> IsMygoteObj m objAddr then gc_andnot kReferenceActiveBit objAddr m else m)"
definition IsReferenceActive :: "mem32 \<Rightarrow> u64 \<Rightarrow> bool" where
  "IsReferenceActive = gc_test kReferenceActiveBit"
definition SetObjFinalizable :: "u64 \<Rightarrow> mem32 \<Rightarrow> mem32" where
  "SetObjFinalizable = gc_or kFinalizableBit"
definition SetEnqueuedObjFinalizable :: "u64 \<Rightarrow> mem32 \<Rightarrow> mem32" where
  "SetEnqueuedObjFinalizable = gc_or kEnqueuedFinalizableBit"
definition ClearObjFinalizable :: "u64 \<Rightarrow> mem32 \<Rightarrow> mem32" where
  "ClearObjFinalizable = gc_andnot (kFinalizableBit OR kEnqueuedFinalizableBit)"
definition IsEnqueuedObjFinalizable :: "mem32 \<Rightarrow> u64 \<Rightarrow> bool" where
  "IsEnqueuedObjFinalizable = gc_test kEnqueuedFinalizableBit"
definition IsObjFinalizable :: "mem32 \<Rightarrow> u64 \<Rightarrow> bool" where
  "IsObjFinalizable = gc_test kFinalizableBit"
definition IsObjResurrectable :: "mem32 \<Rightarrow> u64 \<Rightarrow> bool" where
  "IsObjResurrectable m objAddr \<longleftrightarrow> IsObjFinalizable m objAddr \<and> \<not> IsEnqueuedObjFinalizable m objAddr"
definition SetTraceBit :: "u64 \<Rightarrow> mem32 \<Rightarrow> mem32" where
  "SetTraceBit = gc_or kRCTracingBit"
definition ClearTraceBit :: "u64 \<Rightarrow> mem32 \<Rightarrow> mem32" where
  "ClearTraceBit = gc_andnot kRCTracingBit"

text \<open>\<open>inHeap\<close> is \<open>IS_HEAP_OBJ\<close>, the test of the heap's address range.\<close>

definition IsTraceObj :: "(u64 \<Rightarrow> bool) \<Rightarrow> mem32 \<Rightarrow> u64 \<Rightarrow> bool" where
  "IsTraceObj inHeap m objAddr =
     (if \<not> inHeap objAddr then False else if TotalRefCount m objAddr = 0 then False
      else gc_test kRCTracingBit m objAddr)"
definition HasChildRef :: "mem32 \<Rightarrow> u64 \<Rightarrow> bool" where
  "HasChildRef = gc_test kHasChildRef"
definition SetObjReference :: "u64 \<Rightarrow> mem32 \<Rightarrow> mem32" where
  "SetObjReference = gc_or kReferenceBit"
definition IsObjReference :: "mem32 \<Rightarrow> u64 \<Rightarrow> bool" where
  "IsObjReference = gc_test kReferenceBit"
definition IsArray :: "mem32 \<Rightarrow> u64 \<Rightarrow> bool" where
  "IsArray = gc_test kArrayBit"
definition IsObjectArray :: "mem32 \<Rightarrow> u64 \<Rightarrow> bool" where
  "IsObjectArray m objAddr \<longleftrightarrow> GCHeader m objAddr AND (kArrayBit OR kHasChildRef) = (kArrayBit OR kHasChildRef)"

section \<open>Iteration over the reference fields\<close>

definition kNotRefBits :: u64 where "kNotRefBits = 0"
definition kNormalRefBits :: u64 where "kNormalRefBits = 1"
definition kRefBitsMask :: u64 where "kRefBitsMask = 3"
definition kBitsPerRefWord :: nat where "kBitsPerRefWord = 2"
definition kRefWordPerMapWord :: nat where "kRefWordPerMapWord = 64 div kBitsPerRefWord"
definition kJavaArrayLengthOffset :: u64 where "kJavaArrayLengthOffset = 12"
definition kJavaArrayContentOffset :: u64 where "kJavaArrayContentOffset = 16"

lemma drop_bit_2_less: "w \<noteq> 0 \<Longrightarrow> unat (drop_bit 2 w) < unat w" for w :: u64
  by (simp add: drop_bit_eq_div unat_div_distrib unat_gt_0)

text \<open>The calls \<open>refFunc(field, bits)\<close> in order, as a list of field addresses and kinds. \<open>sz\<close> is the
  size of a reference field; \<open>allNormal\<close> says that the collector is mark-sweep.\<close>

function bitmap_word_fields :: "u64 \<Rightarrow> bool \<Rightarrow> u64 \<Rightarrow> u64 \<Rightarrow> (u64 \<times> u64) list" where
  "bitmap_word_fields sz allNormal bitmapWord fieldAddr =
     (if bitmapWord = 0 then []
      else let wordBits = bitmapWord AND kRefBitsMask;
               here = (if wordBits \<noteq> kNotRefBits then [(fieldAddr, if allNormal then kNormalRefBits else wordBits)] else [])
           in here @ bitmap_word_fields sz allNormal (drop_bit kBitsPerRefWord bitmapWord) (fieldAddr + sz))"
  by pat_completeness auto
termination
  by (relation "measure (\<lambda>(_, _, w, _). unat w)") (simp_all add: kBitsPerRefWord_def drop_bit_2_less)

declare bitmap_word_fields.simps [simp del]

fun ForEachRefFieldNonArrayObj :: "u64 \<Rightarrow> bool \<Rightarrow> u64 list \<Rightarrow> u64 \<Rightarrow> (u64 \<times> u64) list" where
  "ForEachRefFieldNonArrayObj sz allNormal [] baseAddr = []"
| "ForEachRefFieldNonArrayObj sz allNormal (w # ws) baseAddr =
     bitmap_word_fields sz allNormal w baseAddr @
     ForEachRefFieldNonArrayObj sz allNormal ws (baseAddr + sz * of_nat kRefWordPerMapWord)"

definition ForEachObjectArrayElement :: "u64 \<Rightarrow> mem32 \<Rightarrow> u64 \<Rightarrow> (u64 \<times> u64) list" where
  "ForEachObjectArrayElement sz m objAddr =
     (let arrayLengthVal = m (objAddr + kJavaArrayLengthOffset)
      in map (\<lambda>i. (objAddr + kJavaArrayContentOffset + of_nat i * sz, kNormalRefBits)) [0..<unat arrayLengthVal])"

text \<open>\<open>bitmapWords\<close> are those of the object's GCTIB.\<close>

definition DoForEachRefField :: "u64 \<Rightarrow> bool \<Rightarrow> u64 list \<Rightarrow> mem32 \<Rightarrow> u64 \<Rightarrow> (u64 \<times> u64) list" where
  "DoForEachRefField sz allNormal bitmapWords m obj =
     (if IsObjectArray m obj then ForEachObjectArrayElement sz m obj
      else ForEachRefFieldNonArrayObj sz allNormal bitmapWords obj)"

definition ForEachRefField :: "u64 \<Rightarrow> bool \<Rightarrow> u64 list \<Rightarrow> mem32 \<Rightarrow> u64 \<Rightarrow> (u64 \<times> u64) list" where
  "ForEachRefField sz allNormal bitmapWords m obj =
     (if HasChildRef m obj then DoForEachRefField sz allNormal bitmapWords m obj else [])"

section \<open>The reference-count word as a tuple of fields\<close>

text \<open>Strong count (16 bits), resurrectable weak count (6), weak count (7), collected bit, colour (2).\<close>

definition hdr :: "nat \<Rightarrow> nat \<Rightarrow> nat \<Rightarrow> nat \<Rightarrow> nat \<Rightarrow> u32" where
  "hdr s r w c k = of_nat (s + 2 ^ 16 * (r + 2 ^ 6 * (w + 2 ^ 7 * (c + 2 ^ 1 * k))))"

definition hdr_ok :: "nat \<Rightarrow> nat \<Rightarrow> nat \<Rightarrow> nat \<Rightarrow> nat \<Rightarrow> bool" where
  "hdr_ok s r w c k \<longleftrightarrow> s < 2 ^ 16 \<and> r < 2 ^ 6 \<and> w < 2 ^ 7 \<and> c < 2 ^ 1 \<and> k < 2 ^ 2"

lemma bit_join_nat:
  assumes "(a :: nat) < 2 ^ n"
  shows "bit (a + 2 ^ n * b) i \<longleftrightarrow> (if i < n then bit a i else bit b (i - n))"
proof (cases "i < n")
  case True
  then obtain j where n: "n = i + Suc j" by (metis less_imp_Suc_add add_Suc_right)
  then have "a + 2 ^ n * b = a + 2 * (2 ^ j * b) * 2 ^ i" by (simp add: power_add)
  moreover have "(a + 2 * (2 ^ j * b) * 2 ^ i) div 2 ^ i = 2 * (2 ^ j * b) + a div 2 ^ i"
    by (rule div_mult_self1) simp
  ultimately have "(a + 2 ^ n * b) div 2 ^ i = 2 * (2 ^ j * b) + a div 2 ^ i" by (simp only:)
  then show ?thesis using True by (simp add: bit_iff_odd)
next
  case False
  then obtain j where i: "i = n + j" by (metis le_Suc_ex not_less)
  have "(a + 2 ^ n * b) div 2 ^ i = (a + 2 ^ n * b) div 2 ^ n div 2 ^ j" by (simp add: i power_add div_mult2_eq)
  also have "(a + 2 ^ n * b) div 2 ^ n = b" using assms by simp
  finally show ?thesis using False by (simp add: bit_iff_odd i)
qed

lemma bit_small_nat: "(x :: nat) < 2 ^ n \<Longrightarrow> n \<le> i \<Longrightarrow> \<not> bit x i"
  by (simp add: bit_iff_odd) (metis div_less even_zero order_less_le_trans one_le_numeral power_increasing)

lemma bit_hdr:
  assumes "hdr_ok s r w c k"
  shows "bit (hdr s r w c k) i \<longleftrightarrow>
    (if i < 16 then bit s i else if i < 22 then bit r (i - 16) else if i < 29 then bit w (i - 22)
     else if i < 30 then bit c (i - 29) else bit k (i - 30))"
proof (cases "i < 32")
  case True
  have o: "s < 2 ^ 16" "r < 2 ^ 6" "w < 2 ^ 7" "c < 2 ^ 1" using assms by (simp_all add: hdr_ok_def)
  have "bit (hdr s r w c k) i \<longleftrightarrow> bit (s + 2 ^ 16 * (r + 2 ^ 6 * (w + 2 ^ 7 * (c + 2 ^ 1 * k)))) i"
    unfolding hdr_def using True by (simp only: bit_of_nat_iff) (simp add: possible_bit_word)
  also have "\<dots> \<longleftrightarrow> (if i < 16 then bit s i else if i - 16 < 6 then bit r (i - 16) else if i - 16 - 6 < 7
     then bit w (i - 16 - 6) else if i - 16 - 6 - 7 < 1 then bit c (i - 16 - 6 - 7) else bit k (i - 16 - 6 - 7 - 1))"
    using o by (simp only: bit_join_nat)
  finally show ?thesis by auto
next
  case False
  moreover have "\<not> bit k (i - 30)" using False assms by (intro bit_small_nat[of k 2]) (simp_all add: hdr_ok_def)
  ultimately show ?thesis by (auto dest: bit_imp_le_length)
qed

lemma nat_split_div: "n = n mod 2 ^ j + 2 ^ j * (n div 2 ^ j)" for n j :: nat
  by simp

lemma hdr_exists: "\<exists>s r w c k. hdr_ok s r w c k \<and> h = hdr s r w c k" for h :: u32
proof -
  define n where "n = unat h"
  define a where "a = n div 2 ^ 16"
  define b where "b = a div 2 ^ 6"
  define c where "c = b div 2 ^ 7"
  define d where "d = c div 2 ^ 1"
  have "n < 2 ^ 16 * (2 ^ 6 * (2 ^ 7 * (2 ^ 1 * 2 ^ 2)))" unfolding n_def using unat_less_u32[of h] by simp
  then have "d < 2 ^ 2" unfolding d_def c_def b_def a_def by (intro less_mult_imp_div_less) (simp only: mult.commute mult.left_commute)
  then have ok: "hdr_ok (n mod 2 ^ 16) (a mod 2 ^ 6) (b mod 2 ^ 7) (c mod 2 ^ 1) d" by (simp add: hdr_ok_def)
  have "n = n mod 2 ^ 16 + 2 ^ 16 * (a mod 2 ^ 6 + 2 ^ 6 * (b mod 2 ^ 7 + 2 ^ 7 * (c mod 2 ^ 1 + 2 ^ 1 * d)))"
    unfolding d_def c_def b_def a_def nat_split_div[symmetric] by (rule refl)
  then have "of_nat n = hdr (n mod 2 ^ 16) (a mod 2 ^ 6) (b mod 2 ^ 7) (c mod 2 ^ 1) d"
    unfolding hdr_def by (rule arg_cong[where f = of_nat])
  then have "h = hdr (n mod 2 ^ 16) (a mod 2 ^ 6) (b mod 2 ^ 7) (c mod 2 ^ 1) d" unfolding n_def by (simp only: of_nat_unat ucast_id)
  then show ?thesis using ok by blast
qed

lemma hdr_cases:
  fixes h :: u32
  obtains s r w c k where "h = hdr s r w c k" "hdr_ok s r w c k"
  using hdr_exists[of h] by blast

lemma unat_hdr:
  assumes "hdr_ok s r w c k"
  shows "unat (hdr s r w c k) = s + 2 ^ 16 * (r + 2 ^ 6 * (w + 2 ^ 7 * (c + 2 ^ 1 * k)))"
  unfolding hdr_def using assms by (intro u32_of_nat_unat) (simp add: hdr_ok_def)

lemma join_inj:
  fixes a n :: nat
  assumes "a < n" "a' < n"
  shows "a + n * b = a' + n * b' \<longleftrightarrow> a = a' \<and> b = b'"
proof
  assume e: "a + n * b = a' + n * b'"
  have "(a + n * b) mod n = a" "(a' + n * b') mod n = a'" using assms by simp_all
  then have "a = a'" unfolding e by simp
  then show "a = a' \<and> b = b'" using e assms by simp
qed simp

lemma hdr_inj:
  assumes "hdr_ok s r w c k" "hdr_ok s' r' w' c' k'"
  shows "hdr s r w c k = hdr s' r' w' c' k' \<longleftrightarrow> s = s' \<and> r = r' \<and> w = w' \<and> c = c' \<and> k = k'"
  using assms by (simp only: word_unat_eq_iff unat_hdr) (simp only: hdr_ok_def join_inj)

section \<open>Field operations\<close>

definition fld :: "nat \<Rightarrow> nat \<Rightarrow> u32" where
  "fld n j = push_bit n (mask j)"

lemma bit_fld: "bit (fld n j) i \<longleftrightarrow> n \<le> i \<and> i < n + j \<and> i < 32"
  by (auto simp: fld_def bit_push_bit_iff bit_mask_iff possible_bit_word)

lemma mask_consts [rc_consts]:
  "kRCBits = fld 0 16" "kRCBitsMsb = fld 15 (Suc 0)" "kResurrectWeakRcBits = fld 16 6" "kWeakRcBits = fld 22 7"
  "kWeakCollectedBit = fld 29 (Suc 0)" "kRCCycleColorMask = fld 30 2"
  by (simp_all add: kRCBits_def kRCBitsMsb_def kResurrectWeakRcBits_def kWeakRcBits_def kWeakCollectedBit_def
      kRCCycleColorMask_def mask_eq_exp_minus_1 push_bit_eq_mult fld_def)

lemma one_consts [rc_consts]:
  "kMaxResurrectWeakRC = 63" "kMaxWeakRC = 127"
  "kWeakRCOneBit = hdr 0 0 1 0 0" "kResurrectWeakOneBit = hdr 0 1 0 0 0"
  "kRCCycleColorBlack = hdr 0 0 0 0 0" "kRCCycleColorBrown = hdr 0 0 0 0 3"
  by (simp_all add: kMaxResurrectWeakRC_def kMaxWeakRC_def kResurrectWeakRcBits_def kWeakRcBits_def
      KResurrectWeakRcBitsShift_def kWeakRcBitsShift_def kWeakRCOneBit_def kResurrectWeakOneBit_def
      kRCCycleColorBlack_def kRCCycleColorBrown_def hdr_def)

lemma hdr_zero: "hdr 0 0 0 0 0 = 0"
  by (simp add: hdr_def)

lemma hdr_bit_eqI:
  fixes a b :: u32
  assumes "\<And>i. i < 16 \<Longrightarrow> bit a i = bit b i" "\<And>i. 16 \<le> i \<Longrightarrow> i < 22 \<Longrightarrow> bit a i = bit b i"
    "\<And>i. 22 \<le> i \<Longrightarrow> i < 29 \<Longrightarrow> bit a i = bit b i" "\<And>i. 29 \<le> i \<Longrightarrow> i < 30 \<Longrightarrow> bit a i = bit b i"
    "\<And>i. 30 \<le> i \<Longrightarrow> i < 32 \<Longrightarrow> bit a i = bit b i"
  shows "a = b"
proof (rule bit_word_eqI)
  fix i assume "i < LENGTH(32)"
  then have "i < 16 \<or> 16 \<le> i \<and> i < 22 \<or> 22 \<le> i \<and> i < 29 \<or> 29 \<le> i \<and> i < 30 \<or> 30 \<le> i \<and> i < 32" by auto
  then show "bit a i = bit b i" using assms by blast
qed

lemma hdr_ok_parts: "hdr_ok s r w c k \<Longrightarrow> s' \<in> {0, s} \<Longrightarrow> r' \<in> {0, r} \<Longrightarrow> w' \<in> {0, w} \<Longrightarrow> c' \<in> {0, c} \<Longrightarrow> k' \<in> {0, k} \<Longrightarrow>
    hdr_ok s' r' w' c' k'"
  by (auto simp: hdr_ok_def)

lemma hdr_and [rc_consts]:
  assumes "hdr_ok s r w c k"
  shows "hdr s r w c k AND fld 0 16 = hdr s 0 0 0 0"
    "hdr s r w c k AND fld 16 6 = hdr 0 r 0 0 0"
    "hdr s r w c k AND fld 22 7 = hdr 0 0 w 0 0"
    "hdr s r w c k AND fld 29 (Suc 0) = hdr 0 0 0 c 0"
    "hdr s r w c k AND (fld 22 7 OR fld 16 6 OR fld 0 16) = hdr s r w 0 0"
    "hdr s r w c k AND (fld 29 (Suc 0) OR fld 22 7 OR fld 16 6 OR fld 0 16) = hdr s r w c 0"
    "hdr s r w c k AND (fld 29 (Suc 0) OR fld 16 6 OR fld 0 16) = hdr s r 0 c 0"
    "hdr s r w c k AND (fld 0 16 OR fld 16 6) = hdr s r 0 0 0"
  by (rule hdr_bit_eqI; simp add: bit_hdr assms hdr_ok_parts[OF assms] bit_and_iff bit_or_iff bit_not_iff bit_fld)+

lemma hdr_and_not [rc_consts]:
  assumes "hdr_ok s r w c k"
  shows "hdr s r w c k AND NOT (fld 16 6) = hdr s 0 w c k"
    "hdr s r w c k AND NOT (fld 22 7) = hdr s r 0 c k"
    "hdr s r w c k AND NOT (fld 29 (Suc 0)) = hdr s r w 0 k"
    "hdr s r w c k AND NOT (fld 30 2) = hdr s r w c 0"
  by (rule hdr_bit_eqI; simp add: bit_hdr assms hdr_ok_parts[OF assms] bit_and_iff bit_or_iff bit_not_iff bit_fld)+

lemma hdr_or [rc_consts]:
  assumes "hdr_ok s r w c k"
  shows "hdr s 0 w c k OR hdr 0 r 0 0 0 = hdr s r w c k" "hdr s r 0 c k OR hdr 0 0 w 0 0 = hdr s r w c k"
    "hdr s r w c 0 OR hdr 0 0 0 0 k = hdr s r w c k"
  by (rule hdr_bit_eqI; simp add: bit_hdr assms hdr_ok_parts[OF assms] bit_or_iff)+

lemma hdr_or_collected [rc_consts]:
  assumes "hdr_ok s r w c k"
  shows "hdr s r w c k OR fld 29 (Suc 0) = hdr s r w (Suc 0) k"
proof -
  have o: "hdr_ok s r w (Suc 0) k" using assms by (simp add: hdr_ok_def)
  have "bit (1 :: nat) (i - 29) \<longleftrightarrow> i = 29" if "29 \<le> i" "i < 30" for i using that by (simp add: bit_1_iff bit_Suc_0_iff)
  then show ?thesis by (intro hdr_bit_eqI; simp add: bit_hdr assms o bit_or_iff bit_fld bit_Suc_0_iff)
qed

lemma hdr_shifted_r [rc_consts]:
  assumes "r < 64"
  shows "drop_bit 16 (hdr 0 r 0 0 0) = of_nat r" "push_bit 16 (of_nat r) AND fld 16 6 = hdr 0 r 0 0 0"
proof -
  have ok: "hdr_ok 0 r 0 0 0" using assms by (simp add: hdr_ok_def)
  have *: "hdr 0 r 0 0 0 = push_bit 16 (of_nat r)" by (simp add: hdr_def push_bit_eq_mult algebra_simps)
  show "drop_bit 16 (hdr 0 r 0 0 0) = of_nat r"
    using assms unat_hdr[OF ok] by (simp add: word_unat_eq_iff drop_bit_eq_div unat_div_distrib u32_of_nat_unat)
  show "push_bit 16 (of_nat r) AND fld 16 6 = hdr 0 r 0 0 0"
    using hdr_and(2)[OF ok] by (simp add: *[symmetric])
qed

lemma hdr_shifted_w [rc_consts]:
  assumes "w < 128"
  shows "drop_bit 22 (hdr 0 0 w 0 0) = of_nat w" "push_bit 22 (of_nat w) AND fld 22 7 = hdr 0 0 w 0 0"
proof -
  have ok: "hdr_ok 0 0 w 0 0" using assms by (simp add: hdr_ok_def)
  have *: "hdr 0 0 w 0 0 = push_bit 22 (of_nat w)" by (simp add: hdr_def push_bit_eq_mult algebra_simps)
  show "drop_bit 22 (hdr 0 0 w 0 0) = of_nat w"
    using assms unat_hdr[OF ok] by (simp add: word_unat_eq_iff drop_bit_eq_div unat_div_distrib u32_of_nat_unat)
  show "push_bit 22 (of_nat w) AND fld 22 7 = hdr 0 0 w 0 0"
    using hdr_and(3)[OF ok] by (simp add: *[symmetric])
qed

lemma bit_15_iff:
  fixes s :: nat
  assumes "s < 2 ^ 16"
  shows "bit s 15 \<longleftrightarrow> 2 ^ 15 \<le> s"
proof -
  have "s div 2 ^ 15 < 2" using assms by (intro less_mult_imp_div_less) simp
  then have "odd (s div 2 ^ 15) \<longleftrightarrow> 1 \<le> s div 2 ^ 15" by (cases "s div 2 ^ 15") auto
  also have "\<dots> \<longleftrightarrow> 2 ^ 15 \<le> s" by (simp add: less_eq_div_iff_mult_less_eq)
  finally show ?thesis by (simp add: bit_iff_odd)
qed

lemma SkipRC_hdr [rc_consts]:
  assumes "hdr_ok s r w c k"
  shows "SkipRC (hdr s r w c k) \<longleftrightarrow> 2 ^ 15 \<le> s"
proof -
  have s: "s < 2 ^ 16" using assms by (simp add: hdr_ok_def)
  have e: "kRCBitsMsb = 2 ^ 15" by (simp add: kRCBitsMsb_def)
  have "SkipRC (hdr s r w c k) \<longleftrightarrow> bit (hdr s r w c k) 15"
    unfolding SkipRC_def e using and_exp_eq_0[of 15 "hdr s r w c k"] by simp
  then show ?thesis using bit_15_iff[OF s] by (simp add: bit_hdr[OF assms])
qed

lemma IsWeakCollected_hdr [rc_consts]:
  assumes "hdr_ok s r w c k"
  shows "IsWeakCollectedFromRCHeader (hdr s r w c k) \<longleftrightarrow> c = 1"
  using hdr_inj[of 0 0 0 c 0 0 0 0 0 0] assms
  by (auto simp: IsWeakCollectedFromRCHeader_def mask_consts hdr_and[OF assms] hdr_zero hdr_ok_def)

lemma hdr_counts [rc_consts]:
  assumes "hdr_ok s r w c k"
  shows "GetRCFromRCHeader (hdr s r w c k) = of_nat s" "GetResurrectWeakRCFromRCHeader (hdr s r w c k) = of_nat r"
    "GetWeakRCFromRCHeader (hdr s r w c k) = of_nat w" "GetTotalRCFromRCHeader (hdr s r w c k) = hdr s r w 0 0"
  using assms by (simp_all add: GetRCFromRCHeader_def GetResurrectWeakRCFromRCHeader_def GetWeakRCFromRCHeader_def
      GetTotalRCFromRCHeader_def mask_consts hdr_and[OF assms] KResurrectWeakRcBitsShift_def kWeakRcBitsShift_def
      hdr_shifted_r hdr_shifted_w hdr_ok_def) (simp add: hdr_def)

lemma hdr_step:
  "hdr s r w c k + 1 = hdr (Suc s) r w c k" "0 < s \<Longrightarrow> hdr s r w c k - 1 = hdr (s - 1) r w c k"
  by (simp_all add: hdr_def of_nat_diff)

section \<open>The GC word\<close>

lemma headers_apart: "objAddr + kOffsetGCHeader \<noteq> objAddr + kOffsetRefCount" for objAddr :: u64
  by (simp add: kOffsetGCHeader_def kOffsetRefCount_def kWordBytes_def kDWordBytes_def)

lemma GCHeader_upd: "GCHeader (SetGCHeader obj v m) obj = v"
  by (simp add: GCHeader_def SetGCHeader_def)

lemma gc_test_or: "gc_test b (gc_or b' obj m) obj \<longleftrightarrow> gc_test b m obj \<or> b' AND b \<noteq> 0"
  by (simp add: gc_test_def gc_or_def GCHeader_upd bit.conj_disj_distrib2 or_eq_0_iff)

lemma gc_test_andnot: "gc_test b (gc_andnot b' obj m) obj \<longleftrightarrow> GCHeader m obj AND NOT b' AND b \<noteq> 0"
  by (simp add: gc_test_def gc_andnot_def GCHeader_upd and.assoc)

text \<open>The seven single-bit flags that have both a setter and a test.\<close>

datatype gc_flag = Dirty | Released | Mygote | Finalizable | EnqueuedFinalizable | Tracing | Reference

fun flag_bit :: "gc_flag \<Rightarrow> u32" where
  "flag_bit Dirty = kDirtyBit"
| "flag_bit Released = kReleasedBit"
| "flag_bit Mygote = kMygoteObjBit"
| "flag_bit Finalizable = kFinalizableBit"
| "flag_bit EnqueuedFinalizable = kEnqueuedFinalizableBit"
| "flag_bit Tracing = kRCTracingBit"
| "flag_bit Reference = kReferenceBit"

fun flag_set :: "gc_flag \<Rightarrow> u64 \<Rightarrow> mem32 \<Rightarrow> mem32" where
  "flag_set Dirty = SetDirty"
| "flag_set Released = SetReleasedBit"
| "flag_set Mygote = SetMygoteBit"
| "flag_set Finalizable = SetObjFinalizable"
| "flag_set EnqueuedFinalizable = SetEnqueuedObjFinalizable"
| "flag_set Tracing = SetTraceBit"
| "flag_set Reference = SetObjReference"

fun flag_is :: "gc_flag \<Rightarrow> mem32 \<Rightarrow> u64 \<Rightarrow> bool" where
  "flag_is Dirty = IsDirty"
| "flag_is Released = HasReleasedBit"
| "flag_is Mygote = IsMygoteObj"
| "flag_is Finalizable = IsObjFinalizable"
| "flag_is EnqueuedFinalizable = IsEnqueuedObjFinalizable"
| "flag_is Tracing = gc_test kRCTracingBit"
| "flag_is Reference = IsObjReference"

lemmas gc_setters = SetDirty_def SetReleasedBit_def SetMygoteBit_def SetObjFinalizable_def SetEnqueuedObjFinalizable_def
  SetTraceBit_def SetObjReference_def
lemmas gc_testers = IsDirty_def HasReleasedBit_def IsMygoteObj_def IsObjFinalizable_def IsEnqueuedObjFinalizable_def IsObjReference_def
lemmas gc_bits = kDirtyBit_def kReleasedBit_def kMygoteObjBit_def kFinalizableBit_def kEnqueuedFinalizableBit_def
  kRCTracingBit_def kReferenceBit_def

lemma flag_set_or: "flag_set f = gc_or (flag_bit f)" and flag_is_test: "flag_is f = gc_test (flag_bit f)"
  by (cases f; simp add: gc_setters gc_testers)+

lemma flag_bits_apart: "flag_bit f AND flag_bit g \<noteq> 0 \<longleftrightarrow> f = g"
  by (cases f; cases g) (simp_all add: gc_bits)

text \<open>Setting one flag of the GC word makes its own test true, changes the answer of no other
  flag's test, and leaves the reference-count word of the object alone.\<close>

theorem gc_flags_independent:
  "(flag_is g (flag_set f obj m) obj \<longleftrightarrow> f = g \<or> flag_is g m obj) \<and> RCHeader (flag_set f obj m) obj = RCHeader m obj"
proof
  show "flag_is g (flag_set f obj m) obj \<longleftrightarrow> f = g \<or> flag_is g m obj"
    using flag_bits_apart[of f g] by (auto simp: flag_set_or flag_is_test gc_test_or)
  show "RCHeader (flag_set f obj m) obj = RCHeader m obj"
    using headers_apart[of obj] by (simp add: flag_set_or gc_or_def RCHeader_def SetGCHeader_def)
qed

section \<open>Reference fields\<close>

text \<open>The two bits of reference field \<open>j\<close> in the bitmap of the class.\<close>

definition ref_bits :: "u64 list \<Rightarrow> nat \<Rightarrow> u64" where
  "ref_bits ws j = drop_bit (2 * (j mod 32)) (ws ! (j div 32)) AND 3"

definition ref_field :: "u64 \<Rightarrow> bool \<Rightarrow> u64 \<Rightarrow> (nat \<Rightarrow> u64) \<Rightarrow> nat \<Rightarrow> (u64 \<times> u64) list" where
  "ref_field sz allNormal base f j =
     (if f j = 0 then [] else [(base + of_nat j * sz, if allNormal then 1 else f j)])"

lemma bitmap_word_fields_eq:
  assumes "drop_bit (2 * n) w = 0"
  shows "bitmap_word_fields sz an w a = concat (map (ref_field sz an a (\<lambda>j. drop_bit (2 * j) w AND 3)) [0..<n])"
  using assms
proof (induction n arbitrary: w a)
  case 0
  then show ?case by (simp add: bitmap_word_fields.simps)
next
  case (Suc n)
  show ?case
  proof (cases "w = 0")
    case True
    then show ?thesis by (simp add: bitmap_word_fields.simps ref_field_def)
  next
    case False
    have IH: "bitmap_word_fields sz an (drop_bit 2 w) (a + sz) =
        concat (map (ref_field sz an (a + sz) (\<lambda>j. drop_bit (2 * j) (drop_bit 2 w) AND 3)) [0..<n])"
      using Suc.prems by (intro Suc.IH) (simp add: drop_bit_drop_bit add.commute)
    have shift: "ref_field sz an (a + sz) (\<lambda>j. drop_bit (2 * j) (drop_bit 2 w) AND 3) j =
        ref_field sz an a (\<lambda>j. drop_bit (2 * j) w AND 3) (Suc j)" for j
      by (simp add: ref_field_def drop_bit_drop_bit algebra_simps)
    have up: "[0..<Suc n] = 0 # map Suc [0..<n]" by (simp add: upt_conv_Cons map_Suc_upt del: upt_Suc)
    have "bitmap_word_fields sz an w a =
        ref_field sz an a (\<lambda>j. drop_bit (2 * j) w AND 3) 0 @ bitmap_word_fields sz an (drop_bit 2 w) (a + sz)"
      using False by (subst bitmap_word_fields.simps)
        (simp add: Let_def ref_field_def kRefBitsMask_def kNotRefBits_def kNormalRefBits_def kBitsPerRefWord_def)
    then show ?thesis unfolding up IH shift by (simp only: list.map map_map comp_def concat.simps)
  qed
qed

lemma ref_bits_Cons: "ref_bits (w # ws) (32 + j) = ref_bits ws j"
proof -
  have "(32 + j) div 32 = Suc (j div 32)" "(32 + j) mod 32 = j mod 32" by simp_all
  then show ?thesis unfolding ref_bits_def by (simp only: nth_Cons_Suc)
qed

text \<open>C32: the bitmap loop calls the visitor exactly on the reference fields whose two bits are not
  zero, each once, in address order, with the kind from the bitmap (or \<open>normal\<close> under mark-sweep),
  and it ends.\<close>

theorem ref_fields_visited:
  "ForEachRefFieldNonArrayObj sz allNormal ws base =
     concat (map (ref_field sz allNormal base (ref_bits ws)) [0..<32 * length ws])"
proof (induction ws arbitrary: base)
  case (Cons w ws)
  have z: "drop_bit (2 * 32) w = 0" by (rule bit_word_eqI) (simp add: bit_drop_bit_eq)
  have first: "map (ref_field sz allNormal base (\<lambda>j. drop_bit (2 * j) w AND 3)) [0..<32] =
      map (ref_field sz allNormal base (ref_bits (w # ws))) [0..<32]"
    by (rule map_cong) (auto simp: ref_field_def ref_bits_def)
  have rest: "ref_field sz allNormal (base + sz * 32) (ref_bits ws) = (\<lambda>j. ref_field sz allNormal base (ref_bits (w # ws)) (j + 32))"
    using ref_bits_Cons[of w ws] by (intro ext) (simp add: ref_field_def algebra_simps)
  have "[0..<32 * length (w # ws)] = [0..<32] @ map (\<lambda>j. j + 32) [0..<32 * length ws]"
    using upt_add_eq_append[of 0 32 "32 * length ws"] by (simp add: map_add_upt add.commute del: upt_rec_numeral)
  moreover have "ForEachRefFieldNonArrayObj sz allNormal (w # ws) base =
      concat (map (ref_field sz allNormal base (ref_bits (w # ws))) [0..<32]) @
      concat (map (ref_field sz allNormal (base + sz * 32) (ref_bits ws)) [0..<32 * length ws])"
    using bitmap_word_fields_eq[OF z, of sz allNormal base] Cons.IH[of "base + sz * 32"] first
    by (simp add: kRefWordPerMapWord_def kBitsPerRefWord_def del: upt_rec_numeral)
  ultimately show ?case by (simp add: rest comp_def del: upt_rec_numeral)
qed simp

end
