(* ===== verification/Ref_Count.thy ===== *)
theory Ref_Count
  imports Obj_Header
begin

text \<open>
  The reference-count updates of the runtime,
  \<^verbatim>\<open>src/src/mrt/compiler-rt/include/collector/rc_inline.h\<close>. The template parameters (the deltas -1,
  0 or 1, and the flags) are arguments. Each atomic operation is a loop that reads the header word,
  computes a new one and tries to install it with a weak compare-and-exchange; one round of the loop
  is a function of the header it read, and the loop runs against the values that other threads leave
  in the word between the rounds.
\<close>

unbundle bit_operations_syntax

section \<open>New header values\<close>

definition GetNewRCHeaderStrong :: "int \<Rightarrow> bool \<Rightarrow> u32 \<Rightarrow> u32" where
  "GetNewRCHeaderStrong strongRCDelta updateColor header =
     (if strongRCDelta = 0 then header
      else let newHeader = header + of_int strongRCDelta
           in if updateColor then
                (let color = (if strongRCDelta > 0 then kRCCycleColorBlack else kRCCycleColorBrown)
                 in (newHeader AND NOT kRCCycleColorMask) OR color)
              else newHeader)"

definition GetNewRCHeaderWeak :: "int \<Rightarrow> u32 \<Rightarrow> u32" where
  "GetNewRCHeaderWeak weakRCDelta header =
     (if weakRCDelta = 0 then header
      else let weakRC = GetWeakRCFromRCHeader header
           in if weakRC = kMaxWeakRC then header
              else (header AND NOT kWeakRcBits) OR (push_bit kWeakRcBitsShift (weakRC + of_int weakRCDelta) AND kWeakRcBits))"

definition GetNewRCHeaderResurrectWeak :: "int \<Rightarrow> u32 \<Rightarrow> u32" where
  "GetNewRCHeaderResurrectWeak resurrectWeakRCDelta header =
     (if resurrectWeakRCDelta = 0 then header
      else let resurrectWeakRC = GetResurrectWeakRCFromRCHeader header
           in if resurrectWeakRC = kMaxResurrectWeakRC then header
              else (header AND NOT kResurrectWeakRcBits) OR
                (push_bit KResurrectWeakRcBitsShift (resurrectWeakRC + of_int resurrectWeakRCDelta) AND kResurrectWeakRcBits))"

definition new_header :: "int \<Rightarrow> int \<Rightarrow> int \<Rightarrow> bool \<Rightarrow> u32 \<Rightarrow> u32" where
  "new_header strongRCDelta weakRCDelta resurrectWeakRCDelta updateColor header =
     GetNewRCHeaderResurrectWeak resurrectWeakRCDelta
       (GetNewRCHeaderWeak weakRCDelta (GetNewRCHeaderStrong strongRCDelta updateColor header))"

text \<open>The non-atomic update of an object in memory; the old header is returned.\<close>

definition UpdateRC :: "int \<Rightarrow> int \<Rightarrow> int \<Rightarrow> u64 \<Rightarrow> mem32 \<Rightarrow> u32 \<times> mem32" where
  "UpdateRC strongRCDelta weakRCDelta resurrectWeakRCDelta objAddr m =
     (let oldHeader = RCHeader m objAddr in
      if SkipRC oldHeader then (oldHeader, m)
      else (oldHeader, RefCountLVal objAddr (new_header strongRCDelta weakRCDelta resurrectWeakRCDelta False oldHeader) m))"

section \<open>What to do after a decrement\<close>

datatype release_state = kReleaseObject | kCollectedWeak | kNotRelease

definition CanReleaseObj :: "int \<Rightarrow> int \<Rightarrow> int \<Rightarrow> u32 \<Rightarrow> release_state" where
  "CanReleaseObj strongRCDelta weakRCDelta resurrectWeakRCDelta oldHeader =
     (let oldRC = oldHeader AND (kWeakCollectedBit OR kWeakRcBits OR kResurrectWeakRcBits OR kRCBits);
          noWeak = oldHeader AND (kWeakCollectedBit OR kResurrectWeakRcBits OR kRCBits) in
      if strongRCDelta \<noteq> 0 then
        (if oldRC = 1 + kWeakRCOneBit \<or> oldRC = 1 + kWeakCollectedBit then kReleaseObject
         else if noWeak = 1 then kCollectedWeak else kNotRelease)
      else if weakRCDelta \<noteq> 0 then
        (if oldRC = kWeakRCOneBit + kWeakRCOneBit \<or> oldRC = kWeakRCOneBit + kWeakCollectedBit then kReleaseObject
         else kNotRelease)
      else
        (if oldRC = kResurrectWeakOneBit + kWeakRCOneBit \<or> oldRC = kResurrectWeakOneBit + kWeakCollectedBit then kReleaseObject
         else if noWeak = kResurrectWeakOneBit then kCollectedWeak else kNotRelease))"

definition IsInvalidDec :: "int \<Rightarrow> int \<Rightarrow> int \<Rightarrow> u32 \<Rightarrow> bool" where
  "IsInvalidDec strongRCDelta weakRCDelta resurrectWeakRCDelta oldHeader =
     (if IsRCOverflow oldHeader then False
      else if strongRCDelta \<noteq> 0 then oldHeader AND kRCBits = 0
      else if weakRCDelta \<noteq> 0 then oldHeader AND kWeakRcBits = 0
      else oldHeader AND kResurrectWeakRcBits = 0)"

section \<open>One round of each loop\<close>

text \<open>A round returns at once, or tries to write a new header and returns if that succeeds.\<close>

datatype 'r attempt = Return 'r | TryWrite u32 'r

definition AtomicUpdateRC_round :: "int \<Rightarrow> int \<Rightarrow> int \<Rightarrow> u32 \<Rightarrow> u32 attempt" where
  "AtomicUpdateRC_round strongRCDelta weakRCDelta resurrectWeakRCDelta oldHeader =
     (if SkipRC oldHeader then Return oldHeader
      else TryWrite (new_header strongRCDelta weakRCDelta resurrectWeakRCDelta True oldHeader) oldHeader)"

definition AtomicDecRCAndCheckRelease_round ::
  "int \<Rightarrow> int \<Rightarrow> int \<Rightarrow> bool \<Rightarrow> u32 \<Rightarrow> (u32 \<times> release_state) attempt" where
  "AtomicDecRCAndCheckRelease_round strongRCDelta weakRCDelta resurrectWeakRCDelta checkWeakCollected oldHeader =
     (if SkipRC oldHeader then Return (oldHeader, kNotRelease)
      else let newHeader = new_header strongRCDelta weakRCDelta resurrectWeakRCDelta True oldHeader in
        if IsWeakCollectedFromRCHeader newHeader then
          (if GetTotalRCFromRCHeader newHeader = 0 then TryWrite newHeader (oldHeader, kReleaseObject)
           else TryWrite newHeader (oldHeader, kNotRelease))
        else if GetTotalRCFromRCHeader newHeader = kWeakRCOneBit then TryWrite newHeader (oldHeader, kReleaseObject)
        else if checkWeakCollected \<and> newHeader AND (kRCBits OR kResurrectWeakRcBits) = 0
          then TryWrite (newHeader OR kWeakCollectedBit) (oldHeader, kCollectedWeak)
        else TryWrite newHeader (oldHeader, kNotRelease))"

definition AtomicUpdateColor_round :: "u32 \<Rightarrow> u32 \<Rightarrow> u32 attempt" where
  "AtomicUpdateColor_round color oldHeader =
     (if SkipRC oldHeader then Return oldHeader
      else TryWrite ((oldHeader AND NOT kRCCycleColorMask) OR color) oldHeader)"

definition TryAtomicIncStrongRC_round :: "u32 \<Rightarrow> bool attempt" where
  "TryAtomicIncStrongRC_round oldHeader =
     (if SkipRC oldHeader then Return True
      else if GetRCFromRCHeader oldHeader = 0 then Return False
      else TryWrite (GetNewRCHeaderStrong 1 True oldHeader) True)"

definition AtomicCheckWeakCollectable_round :: "bool \<Rightarrow> u32 \<Rightarrow> u32 \<Rightarrow> bool attempt" where
  "AtomicCheckWeakCollectable_round checkResurrectWeak delta oldHeader =
     (if IsWeakCollectedFromRCHeader oldHeader then Return False
      else if GetRCFromRCHeader oldHeader \<noteq> delta then Return False
      else if checkResurrectWeak \<and> oldHeader AND kResurrectWeakRcBits \<noteq> 0 then Return False
      else TryWrite (oldHeader OR kWeakCollectedBit) True)"

definition AtomicClearWeakCollectable_round :: "u32 \<Rightarrow> unit attempt" where
  "AtomicClearWeakCollectable_round oldHeader =
     (if \<not> (oldHeader AND kWeakCollectedBit \<noteq> 0) then Return ()
      else TryWrite (oldHeader AND NOT kWeakCollectedBit) ())"

definition AtomicIncLoadWeak_round :: "bool \<Rightarrow> u64 \<Rightarrow> u32 \<Rightarrow> u64 attempt" where
  "AtomicIncLoadWeak_round incWeak objAddr oldHeader =
     (if oldHeader AND kWeakCollectedBit \<noteq> 0 then Return 0
      else if SkipRC oldHeader then Return objAddr
      else if incWeak then
        (if GetWeakRCFromRCHeader oldHeader = 1 then Return 0
         else TryWrite (GetNewRCHeaderWeak 1 oldHeader) objAddr)
      else TryWrite (GetNewRCHeaderStrong 1 True oldHeader) objAddr)"

section \<open>The loop\<close>

text \<open>The loop on a list of the header values present when its compare-and-exchanges run, each with
  a flag for a spurious failure. It gives the result and the header it wrote, if it wrote one;
  \<open>None\<close> means that it is still looping when the list ends.\<close>

fun cas_loop :: "(u32 \<Rightarrow> 'r attempt) \<Rightarrow> u32 \<Rightarrow> (u32 \<times> bool) list \<Rightarrow> ('r \<times> u32 option) option" where
  "cas_loop round oldHeader [] =
     (case round oldHeader of Return r \<Rightarrow> Some (r, None) | TryWrite _ _ \<Rightarrow> None)"
| "cas_loop round oldHeader ((cur, spurious) # obs) =
     (case round oldHeader of
        Return r \<Rightarrow> Some (r, None)
      | TryWrite newHeader r \<Rightarrow>
          (if cur = oldHeader \<and> \<not> spurious then Some (r, Some newHeader) else cas_loop round cur obs))"

section \<open>All operations on one header\<close>

text \<open>The operations that threads perform on the header of one object, with their parameters.\<close>

datatype rc_op =
    OpUpdate int int int
  | OpDec int int int bool
  | OpColor u32
  | OpTryInc
  | OpCheckWeak bool u32
  | OpClearWeak
  | OpIncLoadWeak bool

fun write_of :: "'r attempt \<Rightarrow> u32 option" where
  "write_of (Return r) = None"
| "write_of (TryWrite h r) = Some h"

fun rc_write :: "rc_op \<Rightarrow> u32 \<Rightarrow> u32 option" where
  "rc_write (OpUpdate s w r) h = write_of (AtomicUpdateRC_round s w r h)"
| "rc_write (OpDec s w r ch) h = write_of (AtomicDecRCAndCheckRelease_round s w r ch h)"
| "rc_write (OpColor c) h = write_of (AtomicUpdateColor_round c h)"
| "rc_write OpTryInc h = write_of (TryAtomicIncStrongRC_round h)"
| "rc_write (OpCheckWeak ck d) h = write_of (AtomicCheckWeakCollectable_round ck d h)"
| "rc_write OpClearWeak h = write_of (AtomicClearWeakCollectable_round h)"
| "rc_write (OpIncLoadWeak iw) h = write_of (AtomicIncLoadWeak_round iw 0 h)"

text \<open>The threads: each is idle or in the middle of an operation with the header it last read.\<close>

inductive rmw_step ::
  "('op \<Rightarrow> u32 \<Rightarrow> u32 option) \<Rightarrow> u32 \<times> (nat \<Rightarrow> ('op \<times> u32) option) \<Rightarrow> 'op list \<Rightarrow>
   u32 \<times> (nat \<Rightarrow> ('op \<times> u32) option) \<Rightarrow> bool" for wr where
  rmw_load: "thr t = None \<Longrightarrow> rmw_step wr (h, thr) [] (h, thr(t \<mapsto> (p, h)))"
| rmw_fail: "thr t = Some (p, old) \<Longrightarrow> wr p old = Some new \<Longrightarrow> rmw_step wr (h, thr) [] (h, thr(t \<mapsto> (p, h)))"
| rmw_commit: "thr t = Some (p, h) \<Longrightarrow> wr p h = Some new \<Longrightarrow> rmw_step wr (h, thr) [p] (new, thr(t := None))"
| rmw_return: "thr t = Some (p, old) \<Longrightarrow> wr p old = None \<Longrightarrow> rmw_step wr (h, thr) [] (h, thr(t := None))"

inductive rmw_run ::
  "('op \<Rightarrow> u32 \<Rightarrow> u32 option) \<Rightarrow> u32 \<times> (nat \<Rightarrow> ('op \<times> u32) option) \<Rightarrow> 'op list \<Rightarrow>
   u32 \<times> (nat \<Rightarrow> ('op \<times> u32) option) \<Rightarrow> bool" for wr where
  run_nil: "rmw_run wr st [] st"
| run_snoc: "rmw_run wr st ps st' \<Longrightarrow> rmw_step wr st' qs st'' \<Longrightarrow> rmw_run wr st (ps @ qs) st''"

section \<open>Effect on the fields\<close>

definition sat_add :: "nat \<Rightarrow> int \<Rightarrow> nat \<Rightarrow> nat" where
  "sat_add mx d x = (if d = 0 \<or> x = mx then x else nat (int x + d))"

definition delta_ok :: "int \<Rightarrow> bool" where
  "delta_ok d \<longleftrightarrow> d \<in> {-1, 0, 1}"

lemma of_nat_u32_eq: "a < 2 ^ 32 \<Longrightarrow> b < 2 ^ 32 \<Longrightarrow> (of_nat a = (of_nat b :: u32)) \<longleftrightarrow> a = b"
  by (metis u32_of_nat_unat)

lemma of_nat_plus_of_int: "0 \<le> int x + d \<Longrightarrow> of_nat x + of_int d = (of_nat (nat (int x + d)) :: u32)"
  by (metis of_int_add of_int_of_nat_eq of_nat_nat)

lemma hdr_add: "0 \<le> int s + d \<Longrightarrow> hdr s r w c k + of_int d = hdr (nat (int s + d)) r w c k"
  using of_nat_plus_of_int[of s d] unfolding hdr_def of_nat_add by (simp only: add.assoc add.commute[of _ "of_int d"]) (simp add: add.assoc[symmetric])

lemma strong_hdr:
  assumes "hdr_ok s r w c k" "delta_ok d" "0 \<le> int s + d" "int s + d < 2 ^ 16"
  shows "GetNewRCHeaderStrong d uc (hdr s r w c k) =
    hdr (nat (int s + d)) r w c (if d = 0 \<or> \<not> uc then k else if d > 0 then 0 else 3)"
proof (cases "d = 0")
  case True
  then show ?thesis by (simp add: GetNewRCHeaderStrong_def)
next
  case False
  define s' where "s' = nat (int s + d)"
  have o: "hdr_ok s' r w c k" "hdr_ok s' r w c 3" using assms by (auto simp: hdr_ok_def s'_def)
  have a: "hdr s r w c k + of_int d = hdr s' r w c k" using hdr_add[OF assms(3)] by (simp add: s'_def)
  have b: "(hdr s' r w c k AND NOT kRCCycleColorMask) OR kRCCycleColorBlack = hdr s' r w c 0"
    "(hdr s' r w c k AND NOT kRCCycleColorMask) OR kRCCycleColorBrown = hdr s' r w c 3"
    using hdr_or(3)[OF o(2)] by (simp_all add: mask_consts one_consts hdr_and_not[OF o(1)] hdr_zero)
  show ?thesis using False a b by (simp add: GetNewRCHeaderStrong_def Let_def s'_def[symmetric])
qed

lemma weak_hdr:
  assumes "hdr_ok s r w c k" "delta_ok d" "w = 127 \<or> 0 \<le> int w + d"
  shows "GetNewRCHeaderWeak d (hdr s r w c k) = hdr s r (sat_add 127 d w) c k"
proof -
  have w: "w < 128" using assms(1) by (simp add: hdr_ok_def)
  have m: "(of_nat w = (127 :: u32)) \<longleftrightarrow> w = 127" using of_nat_u32_eq[of w 127] w by simp
  show ?thesis
  proof (cases "d = 0 \<or> w = 127")
    case True
    then show ?thesis using m by (auto simp: GetNewRCHeaderWeak_def hdr_counts[OF assms(1)] one_consts sat_add_def)
  next
    case False
    define w' where "w' = nat (int w + d)"
    have w': "w' < 128" using False w assms(2) by (auto simp: w'_def delta_ok_def)
    have o: "hdr_ok s r w' c k" using assms(1) w' by (simp add: hdr_ok_def)
    have "of_nat w + of_int d = (of_nat w' :: u32)" using of_nat_plus_of_int[of w d] False assms(3) by (simp add: w'_def)
    then show ?thesis using False m hdr_or(2)[OF o] hdr_shifted_w(2)[OF w']
      by (simp add: GetNewRCHeaderWeak_def hdr_counts[OF assms(1)] one_consts sat_add_def mask_consts hdr_and_not[OF assms(1)]
          kWeakRcBitsShift_def w'_def[symmetric])
  qed
qed

lemma resurrect_hdr:
  assumes "hdr_ok s r w c k" "delta_ok d" "r = 63 \<or> 0 \<le> int r + d"
  shows "GetNewRCHeaderResurrectWeak d (hdr s r w c k) = hdr s (sat_add 63 d r) w c k"
proof -
  have w: "r < 64" using assms(1) by (simp add: hdr_ok_def)
  have m: "(of_nat r = (63 :: u32)) \<longleftrightarrow> r = 63" using of_nat_u32_eq[of r 63] w by simp
  show ?thesis
  proof (cases "d = 0 \<or> r = 63")
    case True
    then show ?thesis using m by (auto simp: GetNewRCHeaderResurrectWeak_def hdr_counts[OF assms(1)] one_consts sat_add_def)
  next
    case False
    define r' where "r' = nat (int r + d)"
    have r': "r' < 64" using False w assms(2) by (auto simp: r'_def delta_ok_def)
    have o: "hdr_ok s r' w c k" using assms(1) r' by (simp add: hdr_ok_def)
    have "of_nat r + of_int d = (of_nat r' :: u32)" using of_nat_plus_of_int[of r d] False assms(3) by (simp add: r'_def)
    then show ?thesis using False m hdr_or(1)[OF o] hdr_shifted_r(2)[OF r']
      by (simp add: GetNewRCHeaderResurrectWeak_def hdr_counts[OF assms(1)] one_consts sat_add_def mask_consts hdr_and_not[OF assms(1)]
          KResurrectWeakRcBitsShift_def r'_def[symmetric])
  qed
qed

lemma sat_add_less: "delta_ok d \<Longrightarrow> x \<le> mx \<Longrightarrow> sat_add mx d x \<le> mx"
  by (auto simp: sat_add_def delta_ok_def)

lemma new_header_hdr:
  assumes "hdr_ok s r w c k" "delta_ok ds" "delta_ok dw" "delta_ok dr"
    and "0 \<le> int s + ds" "int s + ds < 2 ^ 16" "w = 127 \<or> 0 \<le> int w + dw" "r = 63 \<or> 0 \<le> int r + dr"
  shows "new_header ds dw dr uc (hdr s r w c k) =
      hdr (nat (int s + ds)) (sat_add 63 dr r) (sat_add 127 dw w) c (if ds = 0 \<or> \<not> uc then k else if ds > 0 then 0 else 3)"
    (is "_ = hdr ?s ?r ?w c ?k")
    and "hdr_ok (nat (int s + ds)) (sat_add 63 dr r) (sat_add 127 dw w) c (if ds = 0 \<or> \<not> uc then k else if ds > 0 then 0 else 3)"
proof -
  have o1: "hdr_ok ?s r w c ?k" using assms(1,6) by (auto simp: hdr_ok_def)
  have o2: "hdr_ok ?s r ?w c ?k" using o1 sat_add_less[OF assms(3), of w 127] by (auto simp: hdr_ok_def)
  show "new_header ds dw dr uc (hdr s r w c k) = hdr ?s ?r ?w c ?k"
    unfolding new_header_def strong_hdr[OF assms(1,2,5,6)] weak_hdr[OF o1 assms(3,7)] resurrect_hdr[OF o2 assms(4,8)] ..
  show "hdr_ok ?s ?r ?w c ?k" using o2 sat_add_less[OF assms(4), of r 63] by (auto simp: hdr_ok_def)
qed

definition rc_strong :: "u32 \<Rightarrow> nat" where
  "rc_strong h = unat (GetRCFromRCHeader h)"

definition rc_weak :: "u32 \<Rightarrow> nat" where
  "rc_weak h = unat (GetWeakRCFromRCHeader h)"

definition rc_resurrect :: "u32 \<Rightarrow> nat" where
  "rc_resurrect h = unat (GetResurrectWeakRCFromRCHeader h)"

lemma unat_counts:
  assumes "hdr_ok s r w c k"
  shows "rc_strong (hdr s r w c k) = s" "rc_resurrect (hdr s r w c k) = r" "rc_weak (hdr s r w c k) = w"
  using assms by (simp_all add: rc_strong_def rc_resurrect_def rc_weak_def hdr_counts u32_of_nat_unat hdr_ok_def)

text \<open>C19: on a header whose strong count has not overflowed, an update with deltas of at most one
  that takes no count below zero changes the strong count by exactly its delta, the two weak counts
  by theirs unless they are saturated (then they stay), and keeps the collected bit.\<close>

theorem rc_update_fields:
  assumes "delta_ok ds" "delta_ok dw" "delta_ok dr" "\<not> SkipRC h" "0 \<le> int (rc_strong h) + ds"
    and "rc_weak h = 127 \<or> 0 \<le> int (rc_weak h) + dw" "rc_resurrect h = 63 \<or> 0 \<le> int (rc_resurrect h) + dr"
    and h': "h' = new_header ds dw dr uc h"
  shows "int (rc_strong h') = int (rc_strong h) + ds \<and> rc_weak h' = sat_add 127 dw (rc_weak h) \<and>
    rc_resurrect h' = sat_add 63 dr (rc_resurrect h) \<and>
    (IsWeakCollectedFromRCHeader h' \<longleftrightarrow> IsWeakCollectedFromRCHeader h)"
proof -
  obtain s r w c k where h: "h = hdr s r w c k" and o: "hdr_ok s r w c k" by (rule hdr_cases)
  have s: "s < 2 ^ 15" using assms(4) SkipRC_hdr[OF o] by (simp add: h)
  have pre: "0 \<le> int s + ds" "int s + ds < 2 ^ 16" "w = 127 \<or> 0 \<le> int w + dw" "r = 63 \<or> 0 \<le> int r + dr"
    using assms(1,5-7) s by (auto simp: h unat_counts[OF o] delta_ok_def)
  note N = new_header_hdr[OF o assms(1-3) pre, of uc]
  show ?thesis unfolding h' h N(1) unat_counts[OF N(2)] unat_counts[OF o] IsWeakCollected_hdr[OF N(2)] IsWeakCollected_hdr[OF o]
    using pre(1) by simp
qed

theorem rc_update_fields_witness:
  "rc_strong (new_header 1 (-1) 0 True (hdr 7 2 5 0 3)) = 8 \<and> rc_weak (new_header 1 (-1) 0 True (hdr 7 2 5 0 3)) = 4"
proof -
  have o: "hdr_ok 7 2 5 0 3" by (simp add: hdr_ok_def)
  show ?thesis
    using rc_update_fields[of 1 "-1" 0 "hdr 7 2 5 0 3" "new_header 1 (-1) 0 True (hdr 7 2 5 0 3)" True]
    by (simp add: delta_ok_def SkipRC_hdr[OF o] unat_counts[OF o] sat_add_def)
qed

section \<open>Release decisions\<close>

lemma hdr_special:
  "(1 :: u32) = hdr 1 0 0 0 0" "1 + kWeakRCOneBit = hdr 1 0 1 0 0" "1 + kWeakCollectedBit = hdr 1 0 0 1 0"
  "kWeakRCOneBit + kWeakRCOneBit = hdr 0 0 2 0 0" "kWeakRCOneBit + kWeakCollectedBit = hdr 0 0 1 1 0"
  "kResurrectWeakOneBit + kWeakRCOneBit = hdr 0 1 1 0 0" "kResurrectWeakOneBit + kWeakCollectedBit = hdr 0 1 0 1 0"
  "kResurrectWeakOneBit = hdr 0 1 0 0 0" "kWeakRCOneBit = hdr 0 0 1 0 0" "(0 :: u32) = hdr 0 0 0 0 0"
  by (simp_all add: kWeakRCOneBit_def kWeakCollectedBit_def kResurrectWeakOneBit_def hdr_def)

definition release_of :: "u32 \<Rightarrow> (u32 \<times> release_state) attempt \<Rightarrow> release_state" where
  "release_of h a = (case a of Return r \<Rightarrow> snd r | TryWrite _ r \<Rightarrow> snd r)"

lemma CanReleaseObj_hdr:
  assumes "hdr_ok s r w c k"
  shows "CanReleaseObj ds dw dr (hdr s r w c k) =
    (if ds \<noteq> 0 then (if s = 1 \<and> r = 0 \<and> w = 1 \<and> c = 0 \<or> s = 1 \<and> r = 0 \<and> w = 0 \<and> c = 1 then kReleaseObject
       else if s = 1 \<and> r = 0 \<and> c = 0 then kCollectedWeak else kNotRelease)
     else if dw \<noteq> 0 then (if s = 0 \<and> r = 0 \<and> w = 2 \<and> c = 0 \<or> s = 0 \<and> r = 0 \<and> w = 1 \<and> c = 1 then kReleaseObject else kNotRelease)
     else (if s = 0 \<and> r = 1 \<and> w = 1 \<and> c = 0 \<or> s = 0 \<and> r = 1 \<and> w = 0 \<and> c = 1 then kReleaseObject
       else if s = 0 \<and> r = 1 \<and> c = 0 then kCollectedWeak else kNotRelease))"
proof -
  have a: "hdr s r w c k AND (kWeakCollectedBit OR kWeakRcBits OR kResurrectWeakRcBits OR kRCBits) = hdr s r w c 0"
    "hdr s r w c k AND (kWeakCollectedBit OR kResurrectWeakRcBits OR kRCBits) = hdr s r 0 c 0"
    by (simp_all add: mask_consts hdr_and[OF assms])
  have o: "hdr_ok s r w c 0" "hdr_ok s r 0 c 0" using assms by (simp_all add: hdr_ok_def)
  have e: "hdr s r w c 0 = hdr s' r' w' c' 0 \<longleftrightarrow> s = s' \<and> r = r' \<and> w = w' \<and> c = c'"
    if "hdr_ok s' r' w' c' 0" for s' r' w' c'
    using hdr_inj[OF o(1) that] by simp
  have e2: "hdr s r 0 c 0 = hdr s' r' 0 c' 0 \<longleftrightarrow> s = s' \<and> r = r' \<and> c = c'"
    if "hdr_ok s' r' 0 c' 0" for s' r' c'
    using hdr_inj[OF o(2) that] by simp
  have q1: "hdr s r w c 0 = 1 + kWeakRCOneBit \<longleftrightarrow> s = 1 \<and> r = 0 \<and> w = 1 \<and> c = 0"
    by (subst hdr_special(2)) (rule e; simp add: hdr_ok_def)
  have q2: "hdr s r w c 0 = 1 + kWeakCollectedBit \<longleftrightarrow> s = 1 \<and> r = 0 \<and> w = 0 \<and> c = 1"
    by (subst hdr_special(3)) (rule e; simp add: hdr_ok_def)
  have q3: "hdr s r w c 0 = kWeakRCOneBit + kWeakRCOneBit \<longleftrightarrow> s = 0 \<and> r = 0 \<and> w = 2 \<and> c = 0"
    by (subst hdr_special(4)) (rule e; simp add: hdr_ok_def)
  have q4: "hdr s r w c 0 = kWeakRCOneBit + kWeakCollectedBit \<longleftrightarrow> s = 0 \<and> r = 0 \<and> w = 1 \<and> c = 1"
    by (subst hdr_special(5)) (rule e; simp add: hdr_ok_def)
  have q5: "hdr s r w c 0 = kResurrectWeakOneBit + kWeakRCOneBit \<longleftrightarrow> s = 0 \<and> r = 1 \<and> w = 1 \<and> c = 0"
    by (subst hdr_special(6)) (rule e; simp add: hdr_ok_def)
  have q6: "hdr s r w c 0 = kResurrectWeakOneBit + kWeakCollectedBit \<longleftrightarrow> s = 0 \<and> r = 1 \<and> w = 0 \<and> c = 1"
    by (subst hdr_special(7)) (rule e; simp add: hdr_ok_def)
  have q7: "hdr s r 0 c 0 = 1 \<longleftrightarrow> s = 1 \<and> r = 0 \<and> c = 0"
    by (subst hdr_special(1)) (rule e2; simp add: hdr_ok_def)
  have q8: "hdr s r 0 c 0 = kResurrectWeakOneBit \<longleftrightarrow> s = 0 \<and> r = 1 \<and> c = 0"
    by (subst hdr_special(8)) (rule e2; simp add: hdr_ok_def)
  show ?thesis unfolding CanReleaseObj_def a Let_def q1 q2 q3 q4 q5 q6 q7 q8 by simp
qed

lemma AtomicDec_hdr:
  assumes "hdr_ok s r w c k" "s < 2 ^ 15" "new_header ds dw dr True (hdr s r w c k) = hdr s' r' w' c k'" "hdr_ok s' r' w' c k'"
  shows "release_of h (AtomicDecRCAndCheckRelease_round ds dw dr ch (hdr s r w c k)) =
    (if c = 1 then (if s' = 0 \<and> r' = 0 \<and> w' = 0 then kReleaseObject else kNotRelease)
     else if s' = 0 \<and> r' = 0 \<and> w' = 1 then kReleaseObject
     else if ch \<and> s' = 0 \<and> r' = 0 then kCollectedWeak else kNotRelease)"
proof -
  note o = assms(4)
  have p: "hdr_ok s' r' w' 0 0" "hdr_ok s' r' 0 0 0" using o by (simp_all add: hdr_ok_def)
  have z: "hdr s' r' w' 0 0 = 0 \<longleftrightarrow> s' = 0 \<and> r' = 0 \<and> w' = 0" "hdr s' r' w' 0 0 = kWeakRCOneBit \<longleftrightarrow> s' = 0 \<and> r' = 0 \<and> w' = 1"
    "hdr s' r' 0 0 0 = 0 \<longleftrightarrow> s' = 0 \<and> r' = 0"
    unfolding hdr_special(9,10)
    using hdr_inj[OF p(1), of 0 0 0 0 0] hdr_inj[OF p(1), of 0 0 1 0 0] hdr_inj[OF p(2), of 0 0 0 0 0] by (simp_all add: hdr_ok_def)
  have ns: "\<not> SkipRC (hdr s r w c k)" using SkipRC_hdr[OF assms(1)] assms(2) by simp
  have x: "hdr s' r' w' c k' AND (kRCBits OR kResurrectWeakRcBits) = hdr s' r' 0 0 0" by (simp add: mask_consts hdr_and[OF o])
  show ?thesis
    unfolding AtomicDecRCAndCheckRelease_round_def assms(3) Let_def IsWeakCollected_hdr[OF o] hdr_counts(4)[OF o] x z
    using ns by (simp add: release_of_def)
qed

definition single_dec :: "int \<Rightarrow> int \<Rightarrow> int \<Rightarrow> bool" where
  "single_dec ds dw dr \<longleftrightarrow> (ds, dw, dr) \<in> {(-1, 0, 0), (0, -1, 0), (0, 0, -1)}"

text \<open>For a valid decrement of one count, the release decision that the atomic decrement makes
  from the header it computes is the one that \<open>CanReleaseObj\<close> makes from the header before the
  decrement (the weak decrement does not look for weak collection).\<close>

theorem rc_release_decisions_agree:
  assumes "single_dec ds dw dr" "\<not> SkipRC h" "\<not> IsInvalidDec ds dw dr h"
  shows "release_of h (AtomicDecRCAndCheckRelease_round ds dw dr (dw = 0) h) = CanReleaseObj ds dw dr h"
proof -
  obtain s r w c k where h: "h = hdr s r w c k" and o: "hdr_ok s r w c k" by (rule hdr_cases)
  have s: "s < 2 ^ 15" using assms(2) SkipRC_hdr[OF o] by (simp add: h)
  have cb: "c = 0 \<or> c = 1" using o by (auto simp: hdr_ok_def)
  have d: "delta_ok ds" "delta_ok dw" "delta_ok dr" using assms(1) by (auto simp: single_dec_def delta_ok_def)
  have nz: "ds \<noteq> 0 \<Longrightarrow> 0 < s" "ds = 0 \<Longrightarrow> dw \<noteq> 0 \<Longrightarrow> 0 < w" "ds = 0 \<Longrightarrow> dw = 0 \<Longrightarrow> 0 < r"
    using assms(2,3) hdr_zero unfolding IsInvalidDec_def IsRCOverflow_def h
    by (auto simp: mask_consts hdr_and[OF o] intro!: gr0I)
  have pre: "0 \<le> int s + ds" "int s + ds < 2 ^ 16" "w = 127 \<or> 0 \<le> int w + dw" "r = 63 \<or> 0 \<le> int r + dr"
    using assms(1) nz s by (auto simp: single_dec_def)
  note N = new_header_hdr[OF o d pre, of True]
  note A = AtomicDec_hdr[OF o s N, of h "dw = 0"]
  consider (strong) "ds = -1" "dw = 0" "dr = 0" | (weak) "ds = 0" "dw = -1" "dr = 0" | (res) "ds = 0" "dw = 0" "dr = -1"
    using assms(1) by (auto simp: single_dec_def)
  then show ?thesis
  proof cases
    case strong
    have "nat (int s - 1) = 0 \<longleftrightarrow> s = 1" using nz(1) strong by auto
    then show ?thesis unfolding h A[unfolded h] CanReleaseObj_hdr[OF o]
      using strong cb by (elim disjE) (simp_all add: sat_add_def)
  next
    case weak
    have "sat_add 127 (-1) w = 0 \<longleftrightarrow> w = 1" "sat_add 127 (-1) w = 1 \<longleftrightarrow> w = 2" using nz(2) weak by (auto simp: sat_add_def)
    then show ?thesis unfolding h A[unfolded h] CanReleaseObj_hdr[OF o]
      using weak cb by (elim disjE) (simp_all add: sat_add_def)
  next
    case res
    have "sat_add 63 (-1) r = 0 \<longleftrightarrow> r = 1" using nz(3) res by (auto simp: sat_add_def)
    then show ?thesis unfolding h A[unfolded h] CanReleaseObj_hdr[OF o]
      using res cb by (elim disjE) (auto simp: sat_add_def[of 127])
  qed
qed

theorem rc_release_decisions_agree_witness:
  "CanReleaseObj (-1) 0 0 (hdr 1 0 1 0 0) = kReleaseObject \<and>
   release_of 0 (AtomicDecRCAndCheckRelease_round (-1) 0 0 True (hdr 1 0 1 0 0)) = kReleaseObject"
proof -
  have o: "hdr_ok (Suc 0) 0 (Suc 0) 0 0" by (simp add: hdr_ok_def)
  have i: "\<not> IsInvalidDec (-1) 0 0 (hdr (Suc 0) 0 (Suc 0) 0 0)"
    using hdr_inj[of "Suc 0" 0 0 0 0 0 0 0 0 0]
    by (simp add: IsInvalidDec_def IsRCOverflow_def SkipRC_hdr[OF o] mask_consts hdr_and[OF o] hdr_zero hdr_ok_def)
  show ?thesis
    using rc_release_decisions_agree[of "-1" 0 0 "hdr (Suc 0) 0 (Suc 0) 0 0"] i CanReleaseObj_hdr[OF o, of "-1" 0 0]
    by (simp add: single_dec_def SkipRC_hdr[OF o] release_of_def)
qed

section \<open>The loops are atomic\<close>

text \<open>Whatever other threads write between its rounds, a compare-and-exchange loop that returns
  after a write has applied one round to the header that was in memory at that moment, and one that
  returns without a write has taken its answer from a header that was in memory; if the word is left
  alone during one round that is not interrupted spuriously, the loop returns.\<close>

theorem rc_loop_linearizes:
  "(\<forall>r new. cas_loop round old obs = Some (r, Some new) \<longrightarrow> (\<exists>cur. (cur, False) \<in> set obs \<and> round cur = TryWrite new r)) \<and>
   (\<forall>r. cas_loop round old obs = Some (r, None) \<longrightarrow> (\<exists>cur. cur \<in> insert old (fst ` set obs) \<and> round cur = Return r)) \<and>
   cas_loop round old ((cur, sp) # (cur, False) # obs) \<noteq> None"
proof (intro conjI)
  show "\<forall>r new. cas_loop round old obs = Some (r, Some new) \<longrightarrow> (\<exists>cur. (cur, False) \<in> set obs \<and> round cur = TryWrite new r)"
    by (induction round old obs rule: cas_loop.induct) (auto split: attempt.splits if_splits)
  show "\<forall>r. cas_loop round old obs = Some (r, None) \<longrightarrow> (\<exists>cur. cur \<in> insert old (fst ` set obs) \<and> round cur = Return r)"
  proof (induction round old obs rule: cas_loop.induct)
    case (1 round old)
    then show ?case by (auto split: attempt.splits)
  next
    case (2 round old cur sp obs)
    then show ?case by (cases "round old") (auto split: if_splits)
  qed
  show "cas_loop round old ((cur, sp) # (cur, False) # obs) \<noteq> None"
    by (simp split: attempt.splits)
qed

theorem rc_loop_linearizes_witness:
  "\<exists>cur. (cur, False) \<in> {(hdr 3 0 2 0 0, False)} \<and> AtomicUpdateRC_round 1 0 0 cur = TryWrite (hdr 4 0 2 0 0) (hdr 3 0 2 0 0)"
proof -
  have o: "hdr_ok 3 0 2 0 0" by (simp add: hdr_ok_def)
  have r: "AtomicUpdateRC_round 1 0 0 (hdr 3 0 2 0 0) = TryWrite (hdr 4 0 2 0 0) (hdr 3 0 2 0 0)"
    using new_header_hdr(1)[OF o, of 1 0 0 True] by (simp add: AtomicUpdateRC_round_def SkipRC_hdr[OF o] delta_ok_def sat_add_def)
  then have "cas_loop (AtomicUpdateRC_round 1 0 0) (hdr 3 0 2 0 0) [(hdr 3 0 2 0 0, False)] = Some (hdr 3 0 2 0 0, Some (hdr 4 0 2 0 0))"
    by simp
  then show ?thesis
    using rc_loop_linearizes[of "AtomicUpdateRC_round 1 0 0" "hdr 3 0 2 0 0" "[(hdr 3 0 2 0 0, False)]"] by auto
qed

section \<open>Concurrent operations on one header\<close>

text \<open>The sequential specification: the committed operations one after the other.\<close>

fun replay :: "('op \<Rightarrow> u32 \<Rightarrow> u32 option) \<Rightarrow> 'op list \<Rightarrow> u32 \<Rightarrow> u32 option" where
  "replay wr [] h = Some h"
| "replay wr (p # ps) h = (case wr p h of None \<Rightarrow> None | Some h' \<Rightarrow> replay wr ps h')"

lemma replay_append: "replay wr (ps @ qs) h = (case replay wr ps h of None \<Rightarrow> None | Some h' \<Rightarrow> replay wr qs h')"
  by (induction ps arbitrary: h) (auto split: option.splits)

lemma rmw_step_replay: "rmw_step wr st ps st' \<Longrightarrow> replay wr ps (fst st) = Some (fst st')"
  by (induction rule: rmw_step.induct) auto

lemma rmw_run_replay: "rmw_run wr st ps st' \<Longrightarrow> replay wr ps (fst st) = Some (fst st')"
  by (induction rule: rmw_run.induct) (auto simp: replay_append dest: rmw_step_replay)

text \<open>Invariants of a header under concurrent read-modify-write operations.\<close>

locale rmw_invariant =
  fixes wr :: "'op \<Rightarrow> u32 \<Rightarrow> u32 option"
    and ok :: "'op \<Rightarrow> bool"
    and J :: "u32 \<Rightarrow> bool"
  assumes write_keeps: "ok p \<Longrightarrow> J h \<Longrightarrow> wr p h = Some h' \<Longrightarrow> J h'"
begin

lemma replay_keeps: "list_all ok ps \<Longrightarrow> J h \<Longrightarrow> replay wr ps h = Some h' \<Longrightarrow> J h'"
  by (induction ps arbitrary: h) (auto split: option.splits dest: write_keeps)

lemma run_keeps: "rmw_run wr (h, thr) ps (h', thr') \<Longrightarrow> list_all ok ps \<Longrightarrow> J h \<Longrightarrow> J h'"
  using rmw_run_replay[of wr "(h, thr)" ps "(h', thr')"] replay_keeps by auto

end

fun op_ok :: "rc_op \<Rightarrow> bool" where
  "op_ok (OpUpdate s w r) \<longleftrightarrow> delta_ok s \<and> delta_ok w \<and> delta_ok r"
| "op_ok (OpDec s w r ch) \<longleftrightarrow> delta_ok s \<and> delta_ok w \<and> delta_ok r"
| "op_ok (OpColor c) \<longleftrightarrow> c \<in> {kRCCycleColorBlack, kRCCycleColorGray, kRCCycleColorWhite, kRCCycleColorBrown}"
| "op_ok _ \<longleftrightarrow> True"

fun strong_delta :: "rc_op \<Rightarrow> int" where
  "strong_delta (OpUpdate s w r) = s"
| "strong_delta (OpDec s w r ch) = s"
| "strong_delta OpTryInc = 1"
| "strong_delta (OpIncLoadWeak iw) = (if iw then 0 else 1)"
| "strong_delta _ = 0"

lemma rc_strong_bits: "rc_strong h = unat (h AND fld 0 16)"
  by (simp add: rc_strong_def GetRCFromRCHeader_def mask_consts)

lemma and_or_other_field: "a AND fld 0 16 = 0 \<Longrightarrow> (h OR a) AND fld 0 16 = h AND fld 0 16" for a h :: u32
  by (simp add: bit.conj_disj_distrib2)

lemma fld_disjoint: "16 \<le> n \<Longrightarrow> (x AND fld n j) AND fld 0 16 = 0"
  by (rule bit_word_eqI) (auto simp: bit_and_iff bit_fld)

lemma and_not_other_field: "16 \<le> n \<Longrightarrow> (h AND NOT (fld n j)) AND fld 0 16 = h AND fld 0 16"
  by (rule bit_word_eqI) (auto simp: bit_and_iff bit_not_iff bit_fld)

lemma rc_strong_Weak: "rc_strong (GetNewRCHeaderWeak d h) = rc_strong h"
  by (simp add: GetNewRCHeaderWeak_def Let_def rc_strong_bits mask_consts and_or_other_field fld_disjoint and_not_other_field)

lemma rc_strong_Resurrect: "rc_strong (GetNewRCHeaderResurrectWeak d h) = rc_strong h"
  by (simp add: GetNewRCHeaderResurrectWeak_def Let_def rc_strong_bits mask_consts and_or_other_field fld_disjoint and_not_other_field)

lemma rc_strong_collected:
  "rc_strong (h OR kWeakCollectedBit) = rc_strong h" "rc_strong (h AND NOT kWeakCollectedBit) = rc_strong h"
proof -
  have "kWeakCollectedBit AND fld 0 16 = 0" using fld_disjoint[of 29 "kWeakCollectedBit" 1] by (simp add: mask_consts)
  then show "rc_strong (h OR kWeakCollectedBit) = rc_strong h" by (simp add: rc_strong_bits and_or_other_field)
  show "rc_strong (h AND NOT kWeakCollectedBit) = rc_strong h"
    by (simp add: rc_strong_bits mask_consts and_not_other_field)
qed

lemma rc_strong_color:
  assumes "c \<in> {kRCCycleColorBlack, kRCCycleColorGray, kRCCycleColorWhite, kRCCycleColorBrown}"
  shows "rc_strong ((h AND NOT kRCCycleColorMask) OR c) = rc_strong h"
proof -
  have "fld 0 16 = 0xffff" by (simp add: mask_consts(1)[symmetric] kRCBits_def)
  then have "c AND fld 0 16 = 0"
    using assms by (auto simp: kRCCycleColorBlack_def kRCCycleColorGray_def kRCCycleColorWhite_def kRCCycleColorBrown_def)
  then show ?thesis by (simp add: rc_strong_bits mask_consts and_or_other_field and_not_other_field)
qed

lemma rc_strong_Strong:
  assumes "delta_ok d" "0 \<le> int (rc_strong h) + d" "int (rc_strong h) + d < 2 ^ 16"
  shows "int (rc_strong (GetNewRCHeaderStrong d uc h)) = int (rc_strong h) + d"
proof -
  obtain s r w c k where h: "h = hdr s r w c k" and o: "hdr_ok s r w c k" by (rule hdr_cases)
  have p: "0 \<le> int s + d" "int s + d < 2 ^ 16" using assms(2,3) unat_counts(1)[OF o] by (simp_all add: h)
  have o': "hdr_ok (nat (int s + d)) r w c (if d = 0 \<or> \<not> uc then k else if d > 0 then 0 else 3)"
    using o p by (auto simp: hdr_ok_def)
  show ?thesis unfolding h strong_hdr[OF o assms(1) p] unat_counts(1)[OF o'] unat_counts(1)[OF o] using p by simp
qed

lemma rc_strong_new_header:
  assumes "delta_ok d" "0 \<le> int (rc_strong h) + d" "int (rc_strong h) + d < 2 ^ 16"
  shows "int (rc_strong (new_header d dw dr uc h)) = int (rc_strong h) + d"
  using rc_strong_Strong[OF assms] by (simp add: new_header_def rc_strong_Weak rc_strong_Resurrect)

lemma rc_strong_write:
  assumes "op_ok p" "rc_write p h = Some h'" "0 \<le> int (rc_strong h) + strong_delta p" "int (rc_strong h) + strong_delta p < 2 ^ 16"
  shows "int (rc_strong h') = int (rc_strong h) + strong_delta p"
  using assms
proof (cases p)
  case (OpUpdate s w r)
  then show ?thesis using assms rc_strong_new_header[of s h w r True]
    by (auto simp: AtomicUpdateRC_round_def split: if_splits)
next
  case (OpDec s w r ch)
  then have "h' = new_header s w r True h \<or> h' = new_header s w r True h OR kWeakCollectedBit"
    using assms(2) by (auto simp: AtomicDecRCAndCheckRelease_round_def Let_def split: if_splits)
  then have "rc_strong h' = rc_strong (new_header s w r True h)" using rc_strong_collected(1) by metis
  then show ?thesis using assms rc_strong_new_header[of s h w r True] OpDec by simp
next
  case (OpColor c)
  then show ?thesis using assms rc_strong_color[of c h] by (auto simp: AtomicUpdateColor_round_def split: if_splits)
next
  case OpTryInc
  then show ?thesis using assms rc_strong_Strong[of 1 h True]
    by (auto simp: TryAtomicIncStrongRC_round_def delta_ok_def split: if_splits)
next
  case (OpCheckWeak ck d)
  then show ?thesis using assms by (auto simp: AtomicCheckWeakCollectable_round_def rc_strong_collected split: if_splits)
next
  case OpClearWeak
  then show ?thesis using assms by (auto simp: AtomicClearWeakCollectable_round_def rc_strong_collected split: if_splits)
next
  case (OpIncLoadWeak iw)
  then show ?thesis using assms rc_strong_Strong[of 1 h True]
    by (auto simp: AtomicIncLoadWeak_round_def delta_ok_def rc_strong_Weak split: if_splits)
qed

lemma replay_count:
  assumes "list_all op_ok ps" "replay rc_write ps h = Some h'"
    and "\<forall>i \<le> length ps. 0 \<le> int (rc_strong h) + sum_list (map strong_delta (take i ps)) \<and>
      int (rc_strong h) + sum_list (map strong_delta (take i ps)) < 2 ^ 16"
  shows "int (rc_strong h') = int (rc_strong h) + sum_list (map strong_delta ps)"
  using assms
proof (induction ps arbitrary: h)
  case (Cons p ps)
  obtain h1 where h1: "rc_write p h = Some h1" "replay rc_write ps h1 = Some h'"
    using Cons.prems(2) by (auto split: option.splits)
  have s: "int (rc_strong h1) = int (rc_strong h) + strong_delta p"
    using rc_strong_write[OF _ h1(1)] Cons.prems(1) spec[OF Cons.prems(3), of 1] by simp
  have "\<forall>i \<le> length ps. 0 \<le> int (rc_strong h1) + sum_list (map strong_delta (take i ps)) \<and>
      int (rc_strong h1) + sum_list (map strong_delta (take i ps)) < 2 ^ 16"
  proof (intro allI impI)
    fix i assume "i \<le> length ps"
    then show "0 \<le> int (rc_strong h1) + sum_list (map strong_delta (take i ps)) \<and>
      int (rc_strong h1) + sum_list (map strong_delta (take i ps)) < 2 ^ 16"
      using spec[OF Cons.prems(3), of "Suc i"] s by (simp add: add.assoc)
  qed
  then show ?case using Cons.IH[OF _ h1(2)] Cons.prems(1) s by simp
qed simp

text \<open>C14: however many threads run increments, decrements, colour changes and weak operations on one
  object concurrently, the strong count at the end is the count at the start plus the deltas of the
  operations that took effect, none lost and none applied twice, as long as the count stays in range
  on the way.\<close>

theorem rc_concurrent_count_exact:
  assumes "rmw_run rc_write (h, \<lambda>_. None) ps (h', thr)" "list_all op_ok ps"
    and "\<forall>i \<le> length ps. 0 \<le> int (rc_strong h) + sum_list (map strong_delta (take i ps)) \<and>
      int (rc_strong h) + sum_list (map strong_delta (take i ps)) < 2 ^ 16"
  shows "int (rc_strong h') = int (rc_strong h) + sum_list (map strong_delta ps)"
  using replay_count[OF assms(2) _ assms(3)] rmw_run_replay[OF assms(1)] by simp

lemma hdr_eval_inc: "rc_write (OpUpdate 1 0 0) (hdr 3 0 2 0 0) = Some (hdr 4 0 2 0 0)"
proof -
  have o: "hdr_ok 3 0 2 0 0" by (simp add: hdr_ok_def)
  show ?thesis using new_header_hdr(1)[OF o, of 1 0 0 True]
    by (simp add: AtomicUpdateRC_round_def SkipRC_hdr[OF o] delta_ok_def sat_add_def)
qed

lemma run_example:
  "\<exists>thr. rmw_run rc_write (hdr 3 0 2 0 0, \<lambda>_. None) [OpUpdate 1 0 0] (hdr 4 0 2 0 0, thr)"
proof -
  let ?h = "hdr 3 0 2 0 0" and ?p = "OpUpdate 1 0 0"
  have 1: "rmw_step rc_write (?h, \<lambda>_. None) [] (?h, (\<lambda>_. None)(0 \<mapsto> (?p, ?h)))" by (rule rmw_load) simp
  have 2: "rmw_step rc_write (?h, (\<lambda>_. None)(0 \<mapsto> (?p, ?h))) [?p] (hdr 4 0 2 0 0, ((\<lambda>_. None)(0 \<mapsto> (?p, ?h)))(0 := None))"
    by (rule rmw_commit) (simp_all only: hdr_eval_inc fun_upd_same)
  show ?thesis using run_snoc[OF run_snoc[OF run_nil 1] 2] by (simp only: append_Nil) blast
qed

theorem rc_concurrent_count_exact_witness: "int (rc_strong (hdr 4 0 2 0 0)) = int (rc_strong (hdr 3 0 2 0 0)) + 1"
proof -
  obtain thr where r: "rmw_run rc_write (hdr 3 0 2 0 0, \<lambda>_. None) [OpUpdate 1 0 0] (hdr 4 0 2 0 0, thr)"
    using run_example by blast
  have o: "hdr_ok 3 0 2 0 0" by (simp add: hdr_ok_def)
  have "0 \<le> int (rc_strong (hdr 3 0 2 0 0)) + sum_list (map strong_delta (take i [OpUpdate 1 0 0])) \<and>
      int (rc_strong (hdr 3 0 2 0 0)) + sum_list (map strong_delta (take i [OpUpdate 1 0 0])) < 2 ^ 16" for i
    by (cases i) (simp_all add: unat_counts[OF o])
  then show ?thesis using rc_concurrent_count_exact[OF r] by (simp add: delta_ok_def)
qed

section \<open>Overflow\<close>

lemma SkipRC_strong: "SkipRC h \<longleftrightarrow> 2 ^ 15 \<le> rc_strong h"
proof -
  obtain s r w c k where "h = hdr s r w c k" "hdr_ok s r w c k" by (rule hdr_cases)
  then show ?thesis by (simp add: SkipRC_hdr unat_counts)
qed

lemma rc_write_skip: "SkipRC h \<Longrightarrow> rc_write p h = Some h' \<Longrightarrow> rc_strong h' = rc_strong h"
  by (cases p) (auto simp: AtomicUpdateRC_round_def AtomicDecRCAndCheckRelease_round_def AtomicUpdateColor_round_def
      TryAtomicIncStrongRC_round_def AtomicCheckWeakCollectable_round_def AtomicClearWeakCollectable_round_def
      AtomicIncLoadWeak_round_def rc_strong_collected split: if_splits)

interpretation rcskip: rmw_invariant rc_write "\<lambda>_. True" "\<lambda>h. SkipRC h \<and> rc_strong h = n" for n
  by unfold_locales (metis rc_write_skip SkipRC_strong)

text \<open>C16: a strong count that has overflowed sticks: whatever operations threads perform on the
  header afterwards, the strong count never changes again, the header keeps being skipped, and no
  decrement ever decides to release the object.\<close>

theorem rc_overflow_sticks:
  assumes "SkipRC h" "rmw_run rc_write (h, thr) ps (h', thr')"
  shows "SkipRC h' \<and> rc_strong h' = rc_strong h \<and>
    AtomicDecRCAndCheckRelease_round ds dw dr ch h' = Return (h', kNotRelease)"
proof -
  have "SkipRC h' \<and> rc_strong h' = rc_strong h"
    using rcskip.run_keeps[OF assms(2), of "rc_strong h"] assms(1) by (simp add: list_all_iff)
  then show ?thesis by (simp add: AtomicDecRCAndCheckRelease_round_def)
qed

theorem rc_overflow_sticks_witness: "rc_strong (hdr 40000 0 2 0 0) = 40000 \<and> SkipRC (hdr 40000 0 2 0 0)"
proof -
  have o: "hdr_ok 40000 0 2 0 0" by (simp add: hdr_ok_def)
  have s: "SkipRC (hdr 40000 0 2 0 0)" by (simp add: SkipRC_hdr[OF o])
  show ?thesis using rc_overflow_sticks[OF s run_nil] unat_counts[OF o] by simp
qed

end
