(* ===== verification/Simple_Bit_Set.thy ===== *)
theory Simple_Bit_Set
  imports Prelude
begin

text \<open>
  The fixed-size bit set of the compiler utilities,
  \<^verbatim>\<open>src/src/mapleall/maple_util/include/simple_bit_set.h\<close>.

  The object is its array \<open>bitSet\<close> of \<open>kSimpleBitSetSize\<close> words, a list whose length stays fixed.
  The operations of the class are templates over the type of an integral operand: here the operand
  is a word of any length \<open>'a\<close>, its byte order little-endian. \<open>CHECK_FATAL_FALSE\<close> and a shift by
  64 or more (undefined in C++) are \<open>None\<close>.
\<close>

unbundle bit_operations_syntax

section \<open>Data and operations\<close>

type_synonym bitset = "u64 list"

definition kSimpleBitSetAligned :: nat where
  "kSimpleBitSetAligned = 64"

definition kSimpleBitSetSize :: "nat \<Rightarrow> nat" where
  "kSimpleBitSetSize NB = (NB - 1) div kSimpleBitSetAligned + 1"

definition Bs_new :: "nat \<Rightarrow> bitset" where
  "Bs_new NB = replicate (kSimpleBitSetSize NB) 0"

text \<open>\<open>memcpy_s(bitSet, sizeof(bitSet), &input, sizeof(T))\<close>: word \<open>i\<close> keeps the bytes that the
  operand does not reach.\<close>

definition memcpy_words :: "'a::len word \<Rightarrow> bitset \<Rightarrow> bitset" where
  "memcpy_words input ws =
     map (\<lambda>i. (ws ! i AND NOT (mask (LENGTH('a) - 64 * i))) OR ucast (drop_bit (64 * i) input)) [0..<length ws]"

definition Bs_of_int :: "nat \<Rightarrow> 'a::len word \<Rightarrow> bitset" where
  "Bs_of_int NB input = memcpy_words input (replicate (kSimpleBitSetSize NB) 0)"

definition Bs_assign_int :: "'a::len word \<Rightarrow> bitset \<Rightarrow> bitset" where
  "Bs_assign_int input ws = memcpy_words input ws"

definition GetWord :: "bitset \<Rightarrow> nat \<Rightarrow> u64 option" where
  "GetWord ws i = (if i \<ge> length ws then None else Some (ws ! i))"

definition SetWord :: "nat \<Rightarrow> 'a::len word \<Rightarrow> bitset \<Rightarrow> bitset option" where
  "SetWord i input ws = (if i \<ge> length ws then None else Some (ws[i := ucast input]))"

definition GetWordSize :: "bitset \<Rightarrow> nat" where
  "GetWordSize ws = length ws"

fun bs_eq_loop :: "bitset \<Rightarrow> bitset \<Rightarrow> bool" where
  "bs_eq_loop (w # ws) (v # vs) = (if w \<noteq> v then False else bs_eq_loop ws vs)"
| "bs_eq_loop _ _ = True"

definition Bs_eq :: "bitset \<Rightarrow> bitset \<Rightarrow> bool" where
  "Bs_eq ws vs = (if GetWordSize vs = length ws then bs_eq_loop ws vs else False)"

definition Bs_neq :: "bitset \<Rightarrow> bitset \<Rightarrow> bool" where
  "Bs_neq ws vs = (if Bs_eq ws vs then False else True)"

definition Bs_eq_int :: "bitset \<Rightarrow> 'a::len word \<Rightarrow> bool" where
  "Bs_eq_int ws input = (if Bs_eq ws (Bs_of_int (64 * length ws) input) then True else False)"

definition Bs_neq_int :: "bitset \<Rightarrow> 'a::len word \<Rightarrow> bool" where
  "Bs_neq_int ws input = (if Bs_eq ws (Bs_of_int (64 * length ws) input) then False else True)"

text \<open>The loop of \<open>operator<\<close>; the argument is \<open>i + 1\<close>, so 0 is the exit of the loop.\<close>

fun bs_less_loop :: "bitset \<Rightarrow> bitset \<Rightarrow> nat \<Rightarrow> bool" where
  "bs_less_loop ws vs 0 = False"
| "bs_less_loop ws vs (Suc i) =
     (if ws ! i > vs ! i then False
      else if ws ! i < vs ! i then True
      else bs_less_loop ws vs i)"

definition Bs_less :: "bitset \<Rightarrow> bitset \<Rightarrow> bool option" where
  "Bs_less ws vs =
     (if GetWordSize vs = length ws then Some (bs_less_loop ws vs (length ws)) else None)"

definition Bs_shl :: "nat \<Rightarrow> bitset \<Rightarrow> bitset option" where
  "Bs_shl k ws = (if k < 64 then Some (map (push_bit k) ws) else None)"

definition Bs_shr :: "nat \<Rightarrow> bitset \<Rightarrow> bitset option" where
  "Bs_shr k ws = (if k < 64 then Some (map (drop_bit k) ws) else None)"

definition BitMask :: "'a::len word \<Rightarrow> nat \<Rightarrow> 'a word" where
  "BitMask input b = (if b \<noteq> 0 then input AND ucast (NOT (push_bit b (- 1 :: u64))) else input)"

fun check_and_set_loop ::
  "(u64 \<Rightarrow> 'a::len word \<Rightarrow> u64) \<Rightarrow> nat \<Rightarrow> nat \<Rightarrow> 'a word \<Rightarrow> bitset \<Rightarrow> 'a word \<times> bitset" where
  "check_and_set_loop f i 0 tmp ws = (tmp, ws)"
| "check_and_set_loop f i (Suc n) tmp ws =
     check_and_set_loop f (Suc i) n (drop_bit kSimpleBitSetAligned tmp) (ws[i := f (ws ! i) tmp])"

definition CheckAndSet ::
  "'a::len word \<Rightarrow> (u64 \<Rightarrow> 'a word \<Rightarrow> u64) \<Rightarrow> (u64 \<Rightarrow> 'a word \<Rightarrow> nat \<Rightarrow> u64) \<Rightarrow> bitset \<Rightarrow> bitset" where
  "CheckAndSet input f last_f ws =
     (let inputBitSize = LENGTH('a);
          index = inputBitSize div kSimpleBitSetAligned;
          bit = inputBitSize mod kSimpleBitSetAligned;
          (index, bit) = (if index \<ge> length ws then (length ws - 1, 0) else (index, bit))
      in if inputBitSize = 64 then ws[0 := f (ws ! 0) input]
         else let (tmp, ws') = check_and_set_loop f 0 index input ws
              in ws'[index := last_f (ws' ! index) tmp bit])"

definition Bs_and_int_eq :: "'a::len word \<Rightarrow> bitset \<Rightarrow> bitset" where
  "Bs_and_int_eq input ws =
     CheckAndSet input (\<lambda>dst src. dst AND ucast src) (\<lambda>dst src bit. dst AND ucast (BitMask src bit)) ws"

definition Bs_and_int :: "'a::len word \<Rightarrow> bitset \<Rightarrow> bitset" where
  "Bs_and_int input ws = Bs_and_int_eq input ws"

definition Bs_or_int_eq :: "'a::len word \<Rightarrow> bitset \<Rightarrow> bitset" where
  "Bs_or_int_eq input ws =
     CheckAndSet input (\<lambda>dst src. dst OR ucast src) (\<lambda>dst src bit. dst OR ucast (BitMask src bit)) ws"

definition Bs_or_int :: "'a::len word \<Rightarrow> bitset \<Rightarrow> bitset" where
  "Bs_or_int input ws = Bs_or_int_eq input ws"

definition Bs_xor_int_eq :: "'a::len word \<Rightarrow> bitset \<Rightarrow> bitset" where
  "Bs_xor_int_eq input ws =
     CheckAndSet input (\<lambda>dst src. dst XOR ucast src) (\<lambda>dst src bit. dst XOR ucast (BitMask src bit)) ws"

definition Bs_xor_int :: "'a::len word \<Rightarrow> bitset \<Rightarrow> bitset" where
  "Bs_xor_int input ws = Bs_xor_int_eq input ws"

definition Bs_not :: "bitset \<Rightarrow> bitset" where
  "Bs_not ws = map (\<lambda>w. NOT w) ws"

text \<open>The private \<open>Set\<close>: \<open>normalSet\<close> on the words both operands have, \<open>overflowSet\<close> on the rest
  of this set. Both operands of the class have the same size; the code and the model handle the
  other cases too.\<close>

fun normal_loop :: "(u64 \<Rightarrow> u64 \<Rightarrow> u64) \<Rightarrow> bitset \<Rightarrow> nat \<Rightarrow> nat \<Rightarrow> bitset \<Rightarrow> bitset" where
  "normal_loop f vs i 0 ws = ws"
| "normal_loop f vs i (Suc n) ws = normal_loop f vs (Suc i) n (ws[i := f (ws ! i) (vs ! i)])"

definition Bs_Set_with ::
  "bitset \<Rightarrow> (u64 \<Rightarrow> u64 \<Rightarrow> u64) \<Rightarrow> (u64 list \<Rightarrow> u64 list) \<Rightarrow> bitset \<Rightarrow> bitset" where
  "Bs_Set_with vs normalSet overflowSet ws =
     (if GetWordSize vs \<le> length ws
      then let i = GetWordSize vs; ws' = normal_loop normalSet vs 0 i ws
           in take i ws' @ overflowSet (drop i ws')
      else normal_loop normalSet vs 0 (length ws) ws)"

definition Bs_and_eq :: "bitset \<Rightarrow> bitset \<Rightarrow> bitset" where
  "Bs_and_eq vs ws = Bs_Set_with vs (\<lambda>dst src. dst AND src) (\<lambda>xs. replicate (length xs) 0) ws"

definition Bs_and :: "bitset \<Rightarrow> bitset \<Rightarrow> bitset" where
  "Bs_and vs ws = Bs_and_eq vs ws"

definition Bs_or_eq :: "bitset \<Rightarrow> bitset \<Rightarrow> bitset" where
  "Bs_or_eq vs ws = Bs_Set_with vs (\<lambda>dst src. dst OR src) (\<lambda>xs. xs) ws"

definition Bs_or :: "bitset \<Rightarrow> bitset \<Rightarrow> bitset" where
  "Bs_or vs ws = Bs_or_eq vs ws"

definition Bs_xor_eq :: "bitset \<Rightarrow> bitset \<Rightarrow> bitset" where
  "Bs_xor_eq vs ws =
     Bs_Set_with vs (\<lambda>dst src. dst XOR src)
       (\<lambda>xs. if xs = [] then [] else fold (\<lambda>i xs. xs[0 := xs ! 0 XOR 0]) [0..<length xs] xs) ws"

text \<open>The binary \<open>operator^\<close> on two sets calls \<open>&=\<close>, as the source does.\<close>

definition Bs_xor :: "bitset \<Rightarrow> bitset \<Rightarrow> bitset" where
  "Bs_xor vs ws = Bs_and_eq vs ws"

definition Bs_Reset :: "nat \<Rightarrow> bitset \<Rightarrow> bool \<times> bitset" where
  "Bs_Reset pos ws =
     (let index = pos div kSimpleBitSetAligned; bit = pos mod kSimpleBitSetAligned
      in if index \<ge> length ws then (False, ws)
         else (True, ws[index := ws ! index AND NOT (push_bit bit 1)]))"

definition Bs_Reset_all :: "bitset \<Rightarrow> bitset" where
  "Bs_Reset_all ws = replicate (length ws) 0"

definition Bs_Set :: "nat \<Rightarrow> bitset \<Rightarrow> bool \<times> bitset" where
  "Bs_Set pos ws =
     (let index = pos div kSimpleBitSetAligned; bit = pos mod kSimpleBitSetAligned
      in if index \<ge> length ws then (False, ws)
         else (True, ws[index := ws ! index OR push_bit bit 1]))"

definition Bs_index :: "bitset \<Rightarrow> nat \<Rightarrow> int" where
  "Bs_index ws pos =
     (let index = pos div kSimpleBitSetAligned; bit = pos mod kSimpleBitSetAligned
      in if index \<ge> length ws then - 1
         else if ws ! index AND push_bit bit 1 \<noteq> 0 then 1 else 0)"

text \<open>\<open>std::bitset<NB>\<close> is a number below \<open>2 ^ NB\<close>; its shift drops the bits above.\<close>

fun to_bitset_loop :: "nat \<Rightarrow> bitset \<Rightarrow> nat \<Rightarrow> nat \<Rightarrow> nat \<Rightarrow> nat" where
  "to_bitset_loop NB ws i 0 bs = bs"
| "to_bitset_loop NB ws i (Suc n) bs =
     to_bitset_loop NB ws (Suc i) n (bs OR take_bit NB (push_bit (i * kSimpleBitSetAligned) (unat (ws ! i))))"

definition ToBitset :: "bitset \<Rightarrow> nat" where
  "ToBitset ws = to_bitset_loop (64 * length ws) ws 0 (length ws) 0"

section \<open>The set of positions\<close>

definition bs_abs :: "bitset \<Rightarrow> nat set" where
  "bs_abs ws = {i. words_bit ws i}"

definition bs_prefix :: "bitset \<Rightarrow> nat \<Rightarrow> nat" where
  "bs_prefix ws n = (\<Sum>i < n. unat (ws ! i) * 2 ^ (64 * i))"

definition bs_value :: "bitset \<Rightarrow> nat" where
  "bs_value ws = bs_prefix ws (length ws)"

definition bs_run :: "nat bit_op list \<Rightarrow> bitset \<Rightarrow> bitset" where
  "bs_run ps ws =
     fold (bit_do_op (\<lambda>k s. snd (Bs_Set k s)) (\<lambda>k s. snd (Bs_Reset k s)) (\<lambda>k s. (Bs_index s k = 1, s))) ps ws"

definition bs_dom :: "nat \<Rightarrow> nat set" where
  "bs_dom N = {..< 64 * N}"

definition bs_inv :: "nat \<Rightarrow> bitset \<Rightarrow> bool" where
  "bs_inv N ws \<longleftrightarrow> length ws = N"

section \<open>Setting, resetting and testing a position\<close>

lemma kSimpleBitSetSize_multiple: "N > 0 \<Longrightarrow> kSimpleBitSetSize (64 * N) = N"
proof -
  assume "N > 0"
  then have "64 * N - 1 = 63 + (N - 1) * 64" by simp
  then have "(64 * N - 1) div 64 = N - 1" by (simp only: div_mult_self2)
  with \<open>N > 0\<close> show ?thesis by (simp add: kSimpleBitSetSize_def kSimpleBitSetAligned_def)
qed

lemma bs_abs_eqD: "length ws = length vs \<Longrightarrow> bs_abs ws = bs_abs vs \<Longrightarrow> ws = vs"
  by (rule words_bit_ext) (auto simp: bs_abs_def set_eq_iff)

lemma bs_pos: "pos < 64 * length ws \<longleftrightarrow> pos div 64 < length ws"
  by (simp add: div_less_iff_less_mult mult.commute)

lemma words_bit_set_pos:
  assumes "pos div 64 < length ws"
  shows "words_bit (ws[pos div 64 := ws ! (pos div 64) OR push_bit (pos mod 64) 1]) i \<longleftrightarrow> i = pos \<or> words_bit ws i"
proof (cases "i div 64 = pos div 64")
  case True
  then have "i mod 64 = pos mod 64 \<longleftrightarrow> i = pos" by (metis div_mult_mod_eq)
  with True assms show ?thesis
    by (auto simp: words_bit_update words_bit_def bit_simps)
qed (use assms in \<open>auto simp: words_bit_update\<close>)

lemma words_bit_reset_pos:
  assumes "pos div 64 < length ws"
  shows "words_bit (ws[pos div 64 := ws ! (pos div 64) AND NOT (push_bit (pos mod 64) 1)]) i \<longleftrightarrow> i \<noteq> pos \<and> words_bit ws i"
proof (cases "i div 64 = pos div 64")
  case True
  then have "i mod 64 = pos mod 64 \<longleftrightarrow> i = pos" by (metis div_mult_mod_eq)
  with True assms show ?thesis
    by (auto simp: words_bit_update words_bit_def bit_simps)
qed (use assms in \<open>auto simp: words_bit_update\<close>)

lemma Bs_Set_correct:
  "length (snd (Bs_Set pos ws)) = length ws"
  "fst (Bs_Set pos ws) \<longleftrightarrow> pos < 64 * length ws"
  "pos < 64 * length ws \<Longrightarrow> bs_abs (snd (Bs_Set pos ws)) = insert pos (bs_abs ws)"
  "\<not> pos < 64 * length ws \<Longrightarrow> snd (Bs_Set pos ws) = ws"
  unfolding Bs_Set_def Let_def kSimpleBitSetAligned_def bs_pos
  by (auto simp: bs_abs_def words_bit_set_pos simp del: push_bit_of_1)

lemma Bs_Reset_correct:
  "length (snd (Bs_Reset pos ws)) = length ws"
  "fst (Bs_Reset pos ws) \<longleftrightarrow> pos < 64 * length ws"
  "pos < 64 * length ws \<Longrightarrow> bs_abs (snd (Bs_Reset pos ws)) = bs_abs ws - {pos}"
  "\<not> pos < 64 * length ws \<Longrightarrow> snd (Bs_Reset pos ws) = ws"
  unfolding Bs_Reset_def Let_def kSimpleBitSetAligned_def bs_pos
  by (auto simp: bs_abs_def words_bit_reset_pos simp del: push_bit_of_1)

lemma Bs_index_correct:
  "Bs_index ws pos = (if pos < 64 * length ws then (if pos \<in> bs_abs ws then 1 else 0) else - 1)"
  unfolding Bs_index_def Let_def kSimpleBitSetAligned_def bs_pos
  by (simp add: bs_abs_def words_bit_def and_exp_eq_0)

interpretation simple_bs: bit_container "bs_inv N" bs_abs "bs_dom N"
  "\<lambda>k s. snd (Bs_Set k s)" "\<lambda>k s. snd (Bs_Reset k s)" "\<lambda>k s. (Bs_index s k = 1, s)" for N
  by unfold_locales
    (simp_all add: bs_inv_def bs_dom_def Bs_Set_correct Bs_Reset_correct Bs_index_correct)

lemma Bs_new_abs: "bs_abs (Bs_new NB) = {}"
  by (simp add: bs_abs_def Bs_new_def)

lemma Bs_Reset_all_abs: "bs_abs (Bs_Reset_all ws) = {}" "length (Bs_Reset_all ws) = length ws"
  by (simp_all add: bs_abs_def Bs_Reset_all_def)

section \<open>Operations on two sets\<close>

lemma normal_loop_length: "length (normal_loop f vs i n ws) = length ws"
  by (induction f vs i n ws rule: normal_loop.induct) auto

lemma normal_loop_nth:
  "k < length ws \<Longrightarrow>
     normal_loop f vs i n ws ! k = (if i \<le> k \<and> k < i + n then f (ws ! k) (vs ! k) else ws ! k)"
  by (induction f vs i n ws rule: normal_loop.induct) (auto simp: nth_list_update dest: antisym simp: not_less_eq_eq)

lemma normal_loop_map2: "length vs = length ws \<Longrightarrow> normal_loop f vs 0 (length ws) ws = map2 f ws vs"
  by (rule nth_equalityI) (auto simp: normal_loop_length normal_loop_nth)

lemma Bs_Set_with_same:
  "length vs = length ws \<Longrightarrow> g [] = [] \<Longrightarrow> Bs_Set_with vs f g ws = map2 f ws vs"
  by (simp add: Bs_Set_with_def GetWordSize_def Let_def normal_loop_map2 normal_loop_length)

lemma Bs_and_eq_map2: "length vs = length ws \<Longrightarrow> Bs_and_eq vs ws = map2 (\<lambda>a b. a AND b) ws vs"
  and Bs_or_eq_map2: "length vs = length ws \<Longrightarrow> Bs_or_eq vs ws = map2 (\<lambda>a b. a OR b) ws vs"
  and Bs_xor_eq_map2: "length vs = length ws \<Longrightarrow> Bs_xor_eq vs ws = map2 (\<lambda>a b. a XOR b) ws vs"
  by (simp_all add: Bs_and_eq_def Bs_or_eq_def Bs_xor_eq_def Bs_Set_with_same)

lemma bs_abs_map2:
  assumes "length vs = length ws" "\<And>a b j. j < 64 \<Longrightarrow> bit (f a b) j \<longleftrightarrow> P (bit a j) (bit b j)" "\<not> P False False"
  shows "bs_abs (map2 f ws vs) = {i. P (i \<in> bs_abs ws) (i \<in> bs_abs vs)}"
  using words_bit_map2[of ws vs f P] assms by (simp add: bs_abs_def)

lemma Bs_and_eq_abs: "length vs = length ws \<Longrightarrow> bs_abs (Bs_and_eq vs ws) = bs_abs ws \<inter> bs_abs vs"
  by (auto simp: Bs_and_eq_map2 bs_abs_map2[where P = "\<lambda>a b. a \<and> b"] bit_simps)

lemma Bs_or_eq_abs: "length vs = length ws \<Longrightarrow> bs_abs (Bs_or_eq vs ws) = bs_abs ws \<union> bs_abs vs"
  by (auto simp: Bs_or_eq_map2 bs_abs_map2[where P = "\<lambda>a b. a \<or> b"] bit_simps)

lemma Bs_xor_eq_abs:
  "length vs = length ws \<Longrightarrow> bs_abs (Bs_xor_eq vs ws) = (bs_abs ws - bs_abs vs) \<union> (bs_abs vs - bs_abs ws)"
  by (auto simp: Bs_xor_eq_map2 bs_abs_map2[where P = "\<lambda>a b. a \<noteq> b"] bit_simps)

lemma Bs_not_abs: "bs_abs (Bs_not ws) = {..< 64 * length ws} - bs_abs ws"
  by (auto simp: bs_abs_def Bs_not_def words_bit_def bs_pos bit_simps)

lemma Bs_binary_length:
  assumes "length vs = length ws"
  shows "length (Bs_and_eq vs ws) = length ws" "length (Bs_or_eq vs ws) = length ws"
    "length (Bs_xor_eq vs ws) = length ws" "length (Bs_not ws) = length ws"
  using assms by (simp_all add: Bs_and_eq_map2 Bs_or_eq_map2 Bs_xor_eq_map2 Bs_not_def)

text \<open>An integral operand of 64 bits reaches the first word only.\<close>

lemma words_bit_word0:
  "ws \<noteq> [] \<Longrightarrow> words_bit (ws[0 := w]) i \<longleftrightarrow> (if i < 64 then bit w i else words_bit ws i)"
  by (cases ws) (auto simp: words_bit_Cons)

lemma Bs_int_abs:
  fixes x :: u64
  assumes "ws \<noteq> []"
  shows "bs_abs (Bs_and_int_eq x ws) = {i \<in> bs_abs ws. i < 64 \<longrightarrow> bit x i}"
    and "bs_abs (Bs_or_int_eq x ws) = bs_abs ws \<union> {i. bit x i}"
    and "bs_abs (Bs_xor_int_eq x ws) = {i. (i \<in> bs_abs ws) \<noteq> bit x i}"
proof -
  have w0: "words_bit ws i \<longleftrightarrow> bit (ws ! 0) i" if "i < 64" for i
    using assms that by (cases ws) (simp_all add: words_bit_Cons)
  have bx: "i < 64" if "bit x i" for i
    using bit_imp_le_length[OF that] by simp
  show "bs_abs (Bs_and_int_eq x ws) = {i \<in> bs_abs ws. i < 64 \<longrightarrow> bit x i}"
    "bs_abs (Bs_or_int_eq x ws) = bs_abs ws \<union> {i. bit x i}"
    "bs_abs (Bs_xor_int_eq x ws) = {i. (i \<in> bs_abs ws) \<noteq> bit x i}"
    using assms w0 bx
    by (auto simp: bs_abs_def Bs_and_int_eq_def Bs_or_int_eq_def Bs_xor_int_eq_def CheckAndSet_def
        Let_def words_bit_word0 bit_simps)
qed

section \<open>Comparison and conversion\<close>

lemma bs_eq_loop_iff: "length ws = length vs \<Longrightarrow> bs_eq_loop ws vs \<longleftrightarrow> ws = vs"
  by (induction ws vs rule: bs_eq_loop.induct) auto

lemma Bs_eq_iff: "Bs_eq ws vs \<longleftrightarrow> ws = vs"
  by (auto simp: Bs_eq_def GetWordSize_def bs_eq_loop_iff)

lemma bs_prefix_simps:
  "bs_prefix ws 0 = 0" "bs_prefix ws (Suc n) = bs_prefix ws n + unat (ws ! n) * 2 ^ (64 * n)"
  by (simp_all add: bs_prefix_def)

lemma bs_prefix_bound: "bs_prefix ws n < 2 ^ (64 * n)"
proof (induction n)
  case (Suc n)
  have "unat (ws ! n) + 1 \<le> 2 ^ 64" using unat_less_u64[of "ws ! n"] by simp
  then have "(unat (ws ! n) + 1) * 2 ^ (64 * n) \<le> 2 ^ 64 * 2 ^ (64 * n)" by (rule mult_le_mono1)
  moreover have "(2::nat) ^ 64 * 2 ^ (64 * n) = 2 ^ (64 * Suc n)"
    by (simp only: power_add[symmetric] mult_Suc_right)
  moreover have "bs_prefix ws (Suc n) < (unat (ws ! n) + 1) * 2 ^ (64 * n)"
    using Suc by (simp add: bs_prefix_simps add_mult_distrib)
  ultimately show ?case by (metis order_less_le_trans)
qed (simp add: bs_prefix_simps)

lemma bs_prefix_less_top:
  assumes "unat (ws ! n) < unat (vs ! n)"
  shows "bs_prefix ws (Suc n) < bs_prefix vs (Suc n)"
proof -
  have "(unat (ws ! n) + 1) * 2 ^ (64 * n) \<le> unat (vs ! n) * 2 ^ (64 * n)"
    using assms by (intro mult_le_mono1) simp
  then show ?thesis
    using bs_prefix_bound[of ws n] by (simp add: bs_prefix_simps add_mult_distrib)
qed

lemma bs_less_loop_iff: "bs_less_loop ws vs n \<longleftrightarrow> bs_prefix ws n < bs_prefix vs n"
proof (induction n)
  case (Suc n)
  consider "ws ! n < vs ! n" | "vs ! n < ws ! n" | "ws ! n = vs ! n" by (rule linorder_cases)
  then show ?case
  proof cases
    case 1
    then show ?thesis using bs_prefix_less_top[of ws n vs] by (simp add: word_less_nat_alt)
  next
    case 2
    then show ?thesis using bs_prefix_less_top[of vs n ws] by (simp add: word_less_nat_alt)
  next
    case 3
    then show ?thesis using Suc by (simp add: bs_prefix_simps)
  qed
qed (simp add: bs_prefix_simps)

lemma to_bitset_loop_prefix:
  assumes "i + n = length ws" "bs = bs_prefix ws i"
  shows "to_bitset_loop (64 * length ws) ws i n bs = bs_prefix ws (i + n)"
  using assms
proof (induction n arbitrary: i bs)
  case (Suc n)
  define hi where "hi = push_bit (64 * i) (unat (ws ! i))"
  have "hi = unat (ws ! i) * 2 ^ (64 * i)" by (simp add: hi_def push_bit_eq_mult)
  moreover have "hi \<le> bs_prefix ws (Suc i)" by (simp add: calculation bs_prefix_simps)
  moreover have "bs_prefix ws (Suc i) < 2 ^ (64 * length ws)"
    by (rule order_less_le_trans[OF bs_prefix_bound], rule power_increasing) (use Suc.prems(1) in simp_all)
  ultimately have hi: "take_bit (64 * length ws) hi = hi" "hi = unat (ws ! i) * 2 ^ (64 * i)"
    by (auto simp: take_bit_nat_eq_self_iff)
  have "bs OR hi = bs + hi"
  proof (rule disjunctive_add_eq_or[symmetric], rule bit_eqI)
    fix k
    have "\<not> bit bs k" if "64 * i \<le> k"
    proof -
      have "take_bit (64 * i) bs = bs"
        using bs_prefix_bound[of ws i] Suc.prems(2) by (simp add: take_bit_nat_eq_self_iff)
      with that show ?thesis by (metis bit_take_bit_iff leD)
    qed
    then show "bit (bs AND hi) k = bit (0::nat) k" by (auto simp: hi_def bit_simps)
  qed
  then have "bs OR take_bit (64 * length ws) (push_bit (i * 64) (unat (ws ! i))) = bs_prefix ws (Suc i)"
    using hi Suc.prems(2) by (simp add: hi_def[symmetric] mult.commute[of i] bs_prefix_simps)
  with Suc.IH[of "Suc i" "bs_prefix ws (Suc i)"] Suc.prems(1) show ?case
    by (simp add: kSimpleBitSetAligned_def)
qed simp

lemma ToBitset_value: "ToBitset ws = bs_value ws"
  using to_bitset_loop_prefix[of 0 "length ws" ws 0]
  by (simp add: ToBitset_def bs_value_def bs_prefix_simps)

lemma bs_prefix_inj: "bs_prefix ws n = bs_prefix vs n \<Longrightarrow> i < n \<Longrightarrow> ws ! i = vs ! i"
proof (induction n)
  case (Suc n)
  have top: "unat (ws ! n) = unat (vs ! n)"
    using bs_prefix_less_top[of ws n vs] bs_prefix_less_top[of vs n ws] Suc.prems(1)
    by (metis less_irrefl linorder_neqE_nat)
  then have "bs_prefix ws n = bs_prefix vs n" using Suc.prems(1) by (simp add: bs_prefix_simps)
  with Suc.IH Suc.prems(2) top show ?case by (cases "i = n") (simp_all add: word_unat_eq_iff)
qed simp

lemma bs_value_inj: "length ws = length vs \<Longrightarrow> bs_value ws = bs_value vs \<longleftrightarrow> ws = vs"
  unfolding bs_value_def by (metis nth_equalityI bs_prefix_inj)

section \<open>Properties of the bit set\<close>

lemma bs_out_of_range_refused:
  assumes "length ws = N" "\<not> bit_op_key p < 64 * N"
  shows "bit_do_op (\<lambda>k s. snd (Bs_Set k s)) (\<lambda>k s. snd (Bs_Reset k s)) (\<lambda>k s. (Bs_index s k = 1, s)) p ws = ws"
  using assms by (cases p) (simp_all add: Bs_Set_correct Bs_Reset_correct)

lemma bs_run_filter:
  "length ws = N \<Longrightarrow> bs_run ps ws = bs_run (filter (\<lambda>p. bit_op_key p < 64 * N) ps) ws"
proof (induction ps arbitrary: ws)
  case (Cons p ps)
  let ?f = "bit_do_op (\<lambda>k s. snd (Bs_Set k s)) (\<lambda>k s. snd (Bs_Reset k s)) (\<lambda>k s. (Bs_index s k = 1, s))"
  have run: "bs_run (q # qs) ws = bs_run qs (?f q ws)" for q qs ws
    by (simp add: bs_run_def)
  show ?case
  proof (cases "bit_op_key p < 64 * N")
    case True
    then have "length (?f p ws) = N"
      using simple_bs.op_refines[of N ws p] Cons.prems by (simp add: bs_inv_def bs_dom_def)
    then show ?thesis using Cons.IH True by (simp add: run del: bit_do_op.simps)
  next
    case False
    then show ?thesis using Cons bs_out_of_range_refused[OF Cons.prems False]
      by (simp add: run del: bit_do_op.simps)
  qed
qed simp

text \<open>A bit set behaves as a set of positions: after any sequence of \<open>Set\<close>, \<open>Reset\<close> and tests
  on a fresh set of \<open>64 * N\<close> bits, \<open>operator[]\<close> gives 1 on the positions that the same sequence,
  its out-of-range operations left out, puts into a set, 0 on the others, and -1 out of range.\<close>

theorem sbs_run_refines_set:
  assumes "N > 0"
  shows "Bs_index (bs_run ps (Bs_new (64 * N))) k =
         (if k < 64 * N
          then if k \<in> fold bit_spec_op (filter (\<lambda>p. bit_op_key p < 64 * N) ps) {} then 1 else 0
          else - 1)"
proof -
  let ?qs = "filter (\<lambda>p. bit_op_key p < 64 * N) ps"
  have len: "length (Bs_new (64 * N)) = N"
    using assms by (simp add: Bs_new_def kSimpleBitSetSize_multiple)
  have "length (bs_run ?qs (Bs_new (64 * N))) = N"
    "bs_abs (bs_run ?qs (Bs_new (64 * N))) = fold bit_spec_op ?qs {}"
    using simple_bs.run_refines[of N "Bs_new (64 * N)" ?qs] len
    by (auto simp: bs_inv_def bs_dom_def Bs_new_abs bs_run_def)
  then show ?thesis by (simp add: bs_run_filter[OF len, of ps] Bs_index_correct)
qed

theorem sbs_run_refines_set_witness:
  "Bs_index (bs_run [BSet 100, BSet 3, BSet 500, BReset 3] (Bs_new (64 * 2))) 100 = 1"
  using sbs_run_refines_set[of 2 "[BSet 100, BSet 3, BSet 500, BReset 3]" 100] by simp

text \<open>C33: The assigning operators compute intersection, union and symmetric difference of the two
  sets and \<open>~\<close> the complement within the \<open>64 * N\<close> positions; the non-assigning \<open>&\<close> and \<open>|\<close> agree
  with them, but the non-assigning \<open>^\<close> returns the intersection.\<close>

theorem sbs_set_algebra:
  assumes "length vs = length ws"
  shows "bs_abs (Bs_and_eq vs ws) = bs_abs ws \<inter> bs_abs vs \<and> Bs_and vs ws = Bs_and_eq vs ws \<and>
         bs_abs (Bs_or_eq vs ws) = bs_abs ws \<union> bs_abs vs \<and> Bs_or vs ws = Bs_or_eq vs ws \<and>
         bs_abs (Bs_xor_eq vs ws) = (bs_abs ws - bs_abs vs) \<union> (bs_abs vs - bs_abs ws) \<and>
         bs_abs (Bs_not ws) = {..< 64 * length ws} - bs_abs ws \<and>
         bs_abs (Bs_xor vs ws) = bs_abs ws \<inter> bs_abs vs \<and>
         (Bs_xor vs ws = Bs_xor_eq vs ws \<longleftrightarrow> bs_abs ws = {} \<and> bs_abs vs = {})"
proof -
  have "Bs_xor vs ws = Bs_xor_eq vs ws \<longleftrightarrow> bs_abs (Bs_and_eq vs ws) = bs_abs (Bs_xor_eq vs ws)"
    using bs_abs_eqD[of "Bs_and_eq vs ws" "Bs_xor_eq vs ws"] Bs_binary_length[OF assms]
    by (auto simp: Bs_xor_def)
  then show ?thesis
    using assms Bs_and_eq_abs Bs_or_eq_abs Bs_xor_eq_abs Bs_not_abs
    by (auto simp: Bs_and_def Bs_or_def Bs_xor_def)
qed

theorem sbs_set_algebra_witness:
  "Bs_xor [1] [3] \<noteq> Bs_xor_eq [1] [3]"
proof -
  have "0 \<in> bs_abs [1]" by (simp add: bs_abs_def words_bit_def)
  then show ?thesis using sbs_set_algebra[of "[1]" "[3]"] by auto
qed

text \<open>\<open>operator<\<close> orders two sets of the same size as the numbers \<open>ToBitset\<close> makes of them,
  \<open>operator==\<close> holds exactly when these numbers are equal, and sets of different sizes are never
  equal and are refused by \<open>operator<\<close>.\<close>

theorem sbs_order_is_numeric:
  "(Bs_less ws vs = (if length ws = length vs then Some (ToBitset ws < ToBitset vs) else None)) \<and>
   (Bs_eq ws vs \<longleftrightarrow> length ws = length vs \<and> ToBitset ws = ToBitset vs) \<and>
   ToBitset ws < 2 ^ (64 * length ws)"
  using bs_less_loop_iff[of ws vs "length ws"] bs_value_inj[of ws vs] bs_prefix_bound[of ws "length ws"]
  by (auto simp: Bs_less_def GetWordSize_def Bs_eq_iff ToBitset_value bs_value_def)

end
