(* ===== verification/Prim_Type.thy ===== *)
theory Prim_Type
  imports Prelude
begin

text \<open>
  The primitive types of the intermediate representation:
  \<^verbatim>\<open>src/src/mapleall/maple_ir/include/cfg_primitive_types.h\<close>, \<^verbatim>\<open>prim_types.def\<close>,
  \<^verbatim>\<open>prim_types.h\<close>, the predicates of \<^verbatim>\<open>mir_type.h\<close> and the size and conversion tables of
  \<^verbatim>\<open>src/src/mapleall/maple_ir/src/mir_type.cpp\<close>, in the configuration \<open>DYNAMICLANG\<close> that the
  build sets. The pointer size of the target (\<open>GetPointerSize\<close>, 4 or 8) and its logarithm
  (\<open>GetP2Size\<close>) depend on the target and are arguments. A failed \<open>CHECK_FATAL\<close> or \<open>ASSERT(false)\<close>
  is \<open>None\<close>.
\<close>

section \<open>The types and their properties\<close>

datatype (plugins only: code) PrimType =
    PTY_begin | PTY_void | PTY_i8 | PTY_i16 | PTY_i32 | PTY_i64 | PTY_i128 | PTY_u8 | PTY_u16 |
    PTY_u32 | PTY_u64 | PTY_u128 | PTY_u1 | PTY_ptr | PTY_ref | PTY_a32 | PTY_a64 | PTY_f32 |
    PTY_f64 | PTY_f128 | PTY_c64 | PTY_c128 | PTY_simplestr | PTY_simpleobj | PTY_dynany |
    PTY_dynundef | PTY_dynnull | PTY_dynbool | PTY_dyni32 | PTY_dynstr | PTY_dynobj |
    PTY_dynf64 | PTY_dynf32 | PTY_dynnone | PTY_constStr | PTY_gen | PTY_agg | PTY_v2i64 |
    PTY_v4i32 | PTY_v8i16 | PTY_v16i8 | PTY_v2u64 | PTY_v4u32 | PTY_v8u16 | PTY_v16u8 |
    PTY_v2f64 | PTY_v4f32 | PTY_v2i32 | PTY_v4i16 | PTY_v8i8 | PTY_v2u32 | PTY_v4u16 |
    PTY_v8u8 | PTY_v2f32 | PTY_v1i64 | PTY_v1u64 | PTY_reservedpty1 | PTY_reservedpty2 |
    PTY_reservedpty3 | PTY_reservedpty4 | PTY_reservedpty5 | PTY_reservedpty6 |
    PTY_reservedpty7 | PTY_reservedpty8 | PTY_reservedpty9 | PTY_reservedpty10 | PTY_unknown |
    PTY_end

record PrimitiveTypeProperty =
  pt_type :: PrimType
  isInteger :: bool
  isUnsigned :: bool
  isAddress :: bool
  isFloat :: bool
  isPointer :: bool
  isSimple :: bool
  isDynamic :: bool
  isDynamicAny :: bool
  isDynamicNone :: bool
  isVector :: bool

definition PTProperty ::
  "PrimType \<Rightarrow> bool \<Rightarrow> bool \<Rightarrow> bool \<Rightarrow> bool \<Rightarrow> bool \<Rightarrow> bool \<Rightarrow> bool \<Rightarrow> bool \<Rightarrow> bool \<Rightarrow> bool \<Rightarrow> PrimitiveTypeProperty" where
  "PTProperty t i us a f p s d da dn v =
     \<lparr>pt_type = t, isInteger = i, isUnsigned = us, isAddress = a, isFloat = f, isPointer = p,
      isSimple = s, isDynamic = d, isDynamicAny = da, isDynamicNone = dn, isVector = v\<rparr>"

text \<open>One row of \<^verbatim>\<open>prim_types.def\<close> per type, the fields in the order of the constructor.\<close>

primrec GetPrimitiveTypeProperty :: "PrimType \<Rightarrow> PrimitiveTypeProperty" where
  "GetPrimitiveTypeProperty PTY_begin = PTProperty PTY_begin False False False False False False False False False False"
| "GetPrimitiveTypeProperty PTY_void = PTProperty PTY_void False False False False False False False False False False"
| "GetPrimitiveTypeProperty PTY_i8 = PTProperty PTY_i8 True False False False False False False False False False"
| "GetPrimitiveTypeProperty PTY_i16 = PTProperty PTY_i16 True False False False False False False False False False"
| "GetPrimitiveTypeProperty PTY_i32 = PTProperty PTY_i32 True False False False False False False False False False"
| "GetPrimitiveTypeProperty PTY_i64 = PTProperty PTY_i64 True False False False False False False False False False"
| "GetPrimitiveTypeProperty PTY_i128 = PTProperty PTY_i128 True False False False False False False False False False"
| "GetPrimitiveTypeProperty PTY_u8 = PTProperty PTY_u8 True True False False False False False False False False"
| "GetPrimitiveTypeProperty PTY_u16 = PTProperty PTY_u16 True True False False False False False False False False"
| "GetPrimitiveTypeProperty PTY_u32 = PTProperty PTY_u32 True True False False False False False False False False"
| "GetPrimitiveTypeProperty PTY_u64 = PTProperty PTY_u64 True True True False True False False False False False"
| "GetPrimitiveTypeProperty PTY_u128 = PTProperty PTY_u128 True True False False False False False False False False"
| "GetPrimitiveTypeProperty PTY_u1 = PTProperty PTY_u1 True True False False False False False False False False"
| "GetPrimitiveTypeProperty PTY_ptr = PTProperty PTY_ptr True True True False True False False False False False"
| "GetPrimitiveTypeProperty PTY_ref = PTProperty PTY_ref True True True False True False False False False False"
| "GetPrimitiveTypeProperty PTY_a32 = PTProperty PTY_a32 True True True False True False False False False False"
| "GetPrimitiveTypeProperty PTY_a64 = PTProperty PTY_a64 True True True False True False False False False False"
| "GetPrimitiveTypeProperty PTY_f32 = PTProperty PTY_f32 False False False True False False False False False False"
| "GetPrimitiveTypeProperty PTY_f64 = PTProperty PTY_f64 False False False True False False False False False False"
| "GetPrimitiveTypeProperty PTY_f128 = PTProperty PTY_f128 False False False True False False False False False False"
| "GetPrimitiveTypeProperty PTY_c64 = PTProperty PTY_c64 False False False False False False False False False False"
| "GetPrimitiveTypeProperty PTY_c128 = PTProperty PTY_c128 False False False False False False False False False False"
| "GetPrimitiveTypeProperty PTY_simplestr = PTProperty PTY_simplestr False False True False False True False False False False"
| "GetPrimitiveTypeProperty PTY_simpleobj = PTProperty PTY_simpleobj False False True False False True False False False False"
| "GetPrimitiveTypeProperty PTY_dynany = PTProperty PTY_dynany False False False False False False True True False False"
| "GetPrimitiveTypeProperty PTY_dynundef = PTProperty PTY_dynundef False False False False False False True False False False"
| "GetPrimitiveTypeProperty PTY_dynnull = PTProperty PTY_dynnull False False False False False False True False False False"
| "GetPrimitiveTypeProperty PTY_dynbool = PTProperty PTY_dynbool True False False False False False True False False False"
| "GetPrimitiveTypeProperty PTY_dyni32 = PTProperty PTY_dyni32 True False False False False False True False False False"
| "GetPrimitiveTypeProperty PTY_dynstr = PTProperty PTY_dynstr False False False False False False True False False False"
| "GetPrimitiveTypeProperty PTY_dynobj = PTProperty PTY_dynobj False False False False False False True False False False"
| "GetPrimitiveTypeProperty PTY_dynf64 = PTProperty PTY_dynf64 False False False True False False True False False False"
| "GetPrimitiveTypeProperty PTY_dynf32 = PTProperty PTY_dynf32 False False False True False False True False False False"
| "GetPrimitiveTypeProperty PTY_dynnone = PTProperty PTY_dynnone False False False False False False True False True False"
| "GetPrimitiveTypeProperty PTY_constStr = PTProperty PTY_constStr False False False False True False False False False False"
| "GetPrimitiveTypeProperty PTY_gen = PTProperty PTY_gen False False False False False False False False False False"
| "GetPrimitiveTypeProperty PTY_agg = PTProperty PTY_agg False False False False False False False False False False"
| "GetPrimitiveTypeProperty PTY_v2i64 = PTProperty PTY_v2i64 True False False False False False False False False True"
| "GetPrimitiveTypeProperty PTY_v4i32 = PTProperty PTY_v4i32 True False False False False False False False False True"
| "GetPrimitiveTypeProperty PTY_v8i16 = PTProperty PTY_v8i16 True False False False False False False False False True"
| "GetPrimitiveTypeProperty PTY_v16i8 = PTProperty PTY_v16i8 True False False False False False False False False True"
| "GetPrimitiveTypeProperty PTY_v2u64 = PTProperty PTY_v2u64 True True False False False False False False False True"
| "GetPrimitiveTypeProperty PTY_v4u32 = PTProperty PTY_v4u32 True True False False False False False False False True"
| "GetPrimitiveTypeProperty PTY_v8u16 = PTProperty PTY_v8u16 True True False False False False False False False True"
| "GetPrimitiveTypeProperty PTY_v16u8 = PTProperty PTY_v16u8 True True False False False False False False False True"
| "GetPrimitiveTypeProperty PTY_v2f64 = PTProperty PTY_v2f64 False False False True False False False False False True"
| "GetPrimitiveTypeProperty PTY_v4f32 = PTProperty PTY_v4f32 False False False True False False False False False True"
| "GetPrimitiveTypeProperty PTY_v2i32 = PTProperty PTY_v2i32 True False False False False False False False False True"
| "GetPrimitiveTypeProperty PTY_v4i16 = PTProperty PTY_v4i16 True False False False False False False False False True"
| "GetPrimitiveTypeProperty PTY_v8i8 = PTProperty PTY_v8i8 True False False False False False False False False True"
| "GetPrimitiveTypeProperty PTY_v2u32 = PTProperty PTY_v2u32 True True False False False False False False False True"
| "GetPrimitiveTypeProperty PTY_v4u16 = PTProperty PTY_v4u16 True True False False False False False False False True"
| "GetPrimitiveTypeProperty PTY_v8u8 = PTProperty PTY_v8u8 True True False False False False False False False True"
| "GetPrimitiveTypeProperty PTY_v2f32 = PTProperty PTY_v2f32 False False False True False False False False False True"
| "GetPrimitiveTypeProperty PTY_v1i64 = PTProperty PTY_v1i64 True False False False False False False False False True"
| "GetPrimitiveTypeProperty PTY_v1u64 = PTProperty PTY_v1u64 True True False False False False False False False True"
| "GetPrimitiveTypeProperty PTY_reservedpty1 = PTProperty PTY_reservedpty1 False False False False False False False False False False"
| "GetPrimitiveTypeProperty PTY_reservedpty2 = PTProperty PTY_reservedpty2 False False False False False False False False False False"
| "GetPrimitiveTypeProperty PTY_reservedpty3 = PTProperty PTY_reservedpty3 False False False False False False False False False False"
| "GetPrimitiveTypeProperty PTY_reservedpty4 = PTProperty PTY_reservedpty4 False False False False False False False False False False"
| "GetPrimitiveTypeProperty PTY_reservedpty5 = PTProperty PTY_reservedpty5 False False False False False False False False False False"
| "GetPrimitiveTypeProperty PTY_reservedpty6 = PTProperty PTY_reservedpty6 False False False False False False False False False False"
| "GetPrimitiveTypeProperty PTY_reservedpty7 = PTProperty PTY_reservedpty7 False False False False False False False False False False"
| "GetPrimitiveTypeProperty PTY_reservedpty8 = PTProperty PTY_reservedpty8 False False False False False False False False False False"
| "GetPrimitiveTypeProperty PTY_reservedpty9 = PTProperty PTY_reservedpty9 False False False False False False False False False False"
| "GetPrimitiveTypeProperty PTY_reservedpty10 = PTProperty PTY_reservedpty10 False False False False False False False False False False"
| "GetPrimitiveTypeProperty PTY_unknown = PTProperty PTY_unknown False False False False False False False False False False"
| "GetPrimitiveTypeProperty PTY_end = PTProperty PTY_end False False False False False False False False False True"

text \<open>\<open>u64\<close> and \<open>u32\<close> are addresses and pointers exactly on the target with pointers of their size.\<close>

definition prop_IsAddress :: "nat \<Rightarrow> PrimitiveTypeProperty \<Rightarrow> bool" where
  "prop_IsAddress ps p =
     (if pt_type p = PTY_u64 \<or> pt_type p = PTY_u32
      then if (pt_type p = PTY_u64 \<and> ps = 8) \<or> (pt_type p = PTY_u32 \<and> ps = 4) then True else False
      else isAddress p)"

definition prop_IsPointer :: "nat \<Rightarrow> PrimitiveTypeProperty \<Rightarrow> bool" where
  "prop_IsPointer ps p =
     (if pt_type p = PTY_u64 \<or> pt_type p = PTY_u32
      then if (pt_type p = PTY_u64 \<and> ps = 8) \<or> (pt_type p = PTY_u32 \<and> ps = 4) then True else False
      else isPointer p)"

section \<open>Sizes\<close>

definition GetPrimTypeSize :: "nat \<Rightarrow> PrimType \<Rightarrow> nat" where
  "GetPrimTypeSize ps p =
     (if p \<in> {PTY_void, PTY_agg} then 0
      else if p \<in> {PTY_ptr, PTY_ref} then ps
      else if p \<in> {PTY_u1, PTY_i8, PTY_u8} then 1
      else if p \<in> {PTY_i16, PTY_u16} then 2
      else if p \<in> {PTY_a32, PTY_f32, PTY_i32, PTY_u32, PTY_simplestr, PTY_simpleobj} then 4
      else if p \<in> {PTY_a64, PTY_c64, PTY_f64, PTY_i64, PTY_u64, PTY_v2i32, PTY_v4i16, PTY_v8i8, PTY_v2u32,
        PTY_v4u16, PTY_v8u8, PTY_v2f32, PTY_v1i64, PTY_v1u64} then 8
      else if p \<in> {PTY_u128, PTY_i128, PTY_c128, PTY_f128, PTY_v2i64, PTY_v4i32, PTY_v8i16, PTY_v16i8,
        PTY_v2u64, PTY_v4u32, PTY_v8u16, PTY_v16u8, PTY_v2f64, PTY_v4f32} then 16
      else if p \<in> {PTY_dynf32, PTY_dyni32, PTY_dynstr, PTY_dynobj, PTY_dynundef, PTY_dynnull, PTY_dynbool} then 8
      else if p \<in> {PTY_dynany, PTY_dynf64} then 8
      else 0)"

definition GetPrimTypeBitSize :: "nat \<Rightarrow> PrimType \<Rightarrow> nat" where
  "GetPrimTypeBitSize ps p = GetPrimTypeSize ps p * 2 ^ 3"

definition GetAlignedPrimTypeBitSize :: "nat \<Rightarrow> PrimType \<Rightarrow> nat" where
  "GetAlignedPrimTypeBitSize ps p = (let size = GetPrimTypeBitSize ps p in if size \<le> 32 then 32 else 64)"

definition GetPrimTypeActualBitSize :: "nat \<Rightarrow> PrimType \<Rightarrow> nat" where
  "GetPrimTypeActualBitSize ps p = (if p = PTY_u1 then 1 else GetPrimTypeSize ps p * 2 ^ 3)"

definition GetPrimTypeP2Size :: "nat \<Rightarrow> PrimType \<Rightarrow> nat option" where
  "GetPrimTypeP2Size p2 p =
     (if p \<in> {PTY_ptr, PTY_ref} then Some p2
      else if p \<in> {PTY_u1, PTY_i8, PTY_u8} then Some 0
      else if p \<in> {PTY_i16, PTY_u16} then Some 1
      else if p \<in> {PTY_a32, PTY_f32, PTY_i32, PTY_u32, PTY_simplestr, PTY_simpleobj} then Some 2
      else if p \<in> {PTY_a64, PTY_c64, PTY_f64, PTY_i64, PTY_u64, PTY_v2i32, PTY_v4i16, PTY_v8i8, PTY_v2u32,
        PTY_v4u16, PTY_v8u8, PTY_v2f32} then Some 3
      else if p \<in> {PTY_c128, PTY_f128, PTY_v2i64, PTY_v4i32, PTY_v8i16, PTY_v16i8, PTY_v2u64, PTY_v4u32,
        PTY_v8u16, PTY_v16u8, PTY_v2f64, PTY_v4f32} then Some 4
      else if p \<in> {PTY_dynf32, PTY_dyni32, PTY_dynstr, PTY_dynobj, PTY_dynundef, PTY_dynnull, PTY_dynbool,
        PTY_dynany, PTY_dynf64} then Some 3
      else None)"

definition GetVecEleSize :: "PrimType \<Rightarrow> nat option" where
  "GetVecEleSize p =
     (if p \<in> {PTY_v2i64, PTY_v2u64, PTY_v2f64, PTY_v1i64, PTY_v1u64, PTY_i64, PTY_u64} then Some 64
      else if p \<in> {PTY_v2i32, PTY_v2u32, PTY_v2f32, PTY_v4i32, PTY_v4u32, PTY_v4f32} then Some 32
      else if p \<in> {PTY_v4i16, PTY_v4u16, PTY_v8i16, PTY_v8u16} then Some 16
      else if p \<in> {PTY_v8i8, PTY_v8u8, PTY_v16i8, PTY_v16u8} then Some 8
      else if p = PTY_f64 then Some 0
      else None)"

definition GetVecLanes :: "PrimType \<Rightarrow> nat" where
  "GetVecLanes p =
     (if p \<in> {PTY_v2i32, PTY_v2u32, PTY_v2f32, PTY_v2i64, PTY_v2u64, PTY_v2f64} then 2
      else if p \<in> {PTY_v4i16, PTY_v4u16, PTY_v4i32, PTY_v4u32, PTY_v4f32} then 4
      else if p \<in> {PTY_v8i8, PTY_v8u8, PTY_v8i16, PTY_v8u16} then 8
      else if p \<in> {PTY_v16i8, PTY_v16u8, PTY_f128} then 16
      else if p \<in> {PTY_v1i64, PTY_v1u64} then 1
      else 0)"

section \<open>Classification\<close>

definition IsAddress :: "nat \<Rightarrow> PrimType \<Rightarrow> bool" where
  "IsAddress ps p = prop_IsAddress ps (GetPrimitiveTypeProperty p)"

definition IsPossible64BitAddress :: "PrimType \<Rightarrow> bool" where
  "IsPossible64BitAddress p \<longleftrightarrow> p = PTY_ptr \<or> p = PTY_ref \<or> p = PTY_u64 \<or> p = PTY_a64"

definition IsPossible32BitAddress :: "PrimType \<Rightarrow> bool" where
  "IsPossible32BitAddress p \<longleftrightarrow> p = PTY_ptr \<or> p = PTY_ref \<or> p = PTY_u32 \<or> p = PTY_a32"

definition MustBeAddress :: "PrimType \<Rightarrow> bool" where
  "MustBeAddress p \<longleftrightarrow> p = PTY_ptr \<or> p = PTY_ref \<or> p = PTY_a64 \<or> p = PTY_a32"

definition IsInt128Ty :: "PrimType \<Rightarrow> bool" where
  "IsInt128Ty p \<longleftrightarrow> p = PTY_u128 \<or> p = PTY_i128"

definition IsPrimitivePureScalar :: "nat \<Rightarrow> PrimType \<Rightarrow> bool" where
  "IsPrimitivePureScalar ps p =
     (let t = GetPrimitiveTypeProperty p
      in isInteger t \<and> \<not> prop_IsAddress ps t \<and> \<not> isDynamic t \<and> \<not> isVector t)"

definition IsPrimitiveUnsigned :: "PrimType \<Rightarrow> bool" where
  "IsPrimitiveUnsigned p = isUnsigned (GetPrimitiveTypeProperty p)"

definition IsUnsignedInteger :: "PrimType \<Rightarrow> bool" where
  "IsUnsignedInteger p =
     (let t = GetPrimitiveTypeProperty p in IsPrimitiveUnsigned p \<and> isInteger t \<and> \<not> isDynamic t)"

definition IsSignedInteger :: "PrimType \<Rightarrow> bool" where
  "IsSignedInteger p =
     (let t = GetPrimitiveTypeProperty p in \<not> isUnsigned t \<and> isInteger t \<and> \<not> isDynamic t)"

definition IsPrimitiveInteger :: "PrimType \<Rightarrow> bool" where
  "IsPrimitiveInteger p =
     (let t = GetPrimitiveTypeProperty p in isInteger t \<and> \<not> isDynamic t \<and> \<not> isVector t)"

definition IsPrimitiveDynType :: "PrimType \<Rightarrow> bool" where
  "IsPrimitiveDynType p = isDynamic (GetPrimitiveTypeProperty p)"

definition IsPrimitiveDynInteger :: "PrimType \<Rightarrow> bool" where
  "IsPrimitiveDynInteger p = (let t = GetPrimitiveTypeProperty p in isDynamic t \<and> isInteger t)"

definition IsPrimitiveDynFloat :: "PrimType \<Rightarrow> bool" where
  "IsPrimitiveDynFloat p = (let t = GetPrimitiveTypeProperty p in isDynamic t \<and> isFloat t)"

definition IsPrimitiveFloat :: "PrimType \<Rightarrow> bool" where
  "IsPrimitiveFloat p =
     (let t = GetPrimitiveTypeProperty p in isFloat t \<and> \<not> isDynamic t \<and> \<not> isVector t)"

definition IsPrimitiveScalar :: "PrimType \<Rightarrow> bool" where
  "IsPrimitiveScalar p =
     (let t = GetPrimitiveTypeProperty p
      in isInteger t \<or> isFloat t \<or> (isDynamic t \<and> \<not> isDynamicNone t) \<or> isSimple t)"

definition IsPrimitiveValid :: "PrimType \<Rightarrow> bool" where
  "IsPrimitiveValid p \<longleftrightarrow> IsPrimitiveScalar p \<and> \<not> isDynamicAny (GetPrimitiveTypeProperty p)"

definition IsPrimitivePoint :: "nat \<Rightarrow> PrimType \<Rightarrow> bool" where
  "IsPrimitivePoint ps p = prop_IsPointer ps (GetPrimitiveTypeProperty p)"

definition IsPrimitiveVector :: "PrimType \<Rightarrow> bool" where
  "IsPrimitiveVector p = isVector (GetPrimitiveTypeProperty p)"

definition IsPrimitiveVectorFloat :: "PrimType \<Rightarrow> bool" where
  "IsPrimitiveVectorFloat p = (let t = GetPrimitiveTypeProperty p in isVector t \<and> isFloat t)"

definition IsPrimitiveVectorInteger :: "PrimType \<Rightarrow> bool" where
  "IsPrimitiveVectorInteger p = (let t = GetPrimitiveTypeProperty p in isVector t \<and> isInteger t)"

definition IsPrimitiveUnSignedVector :: "PrimType \<Rightarrow> bool" where
  "IsPrimitiveUnSignedVector p = (let t = GetPrimitiveTypeProperty p in isUnsigned t \<and> isVector t)"

definition IsRefOrPtrAssign :: "PrimType \<Rightarrow> PrimType \<Rightarrow> bool" where
  "IsRefOrPtrAssign toType fromType \<longleftrightarrow>
     (toType = PTY_ref \<and> fromType = PTY_ptr) \<or> (toType = PTY_ptr \<and> fromType = PTY_ref)"

section \<open>Conversions between types\<close>

definition GetRegPrimType :: "PrimType \<Rightarrow> PrimType" where
  "GetRegPrimType p =
     (if p \<in> {PTY_i8, PTY_i16} then PTY_i32
      else if p \<in> {PTY_u1, PTY_u8, PTY_u16} then PTY_u32
      else p)"

definition GetReg64PrimType :: "PrimType \<Rightarrow> PrimType" where
  "GetReg64PrimType p =
     (if p \<in> {PTY_i8, PTY_i16, PTY_i32} then PTY_i64
      else if p \<in> {PTY_u1, PTY_u8, PTY_u16, PTY_u32} then PTY_u64
      else p)"

definition GetDynType :: "PrimType \<Rightarrow> PrimType" where
  "GetDynType p =
     (if p = PTY_u1 then PTY_dynbool
      else if p = PTY_i32 then PTY_dyni32
      else if p = PTY_simplestr then PTY_dynstr
      else if p = PTY_simpleobj then PTY_dynobj
      else if p = PTY_f32 then PTY_dynf32
      else if p = PTY_f64 then PTY_dynf64
      else p)"

definition GetNonDynType :: "PrimType \<Rightarrow> PrimType" where
  "GetNonDynType p =
     (if p = PTY_dynbool then PTY_u1
      else if p = PTY_dyni32 then PTY_i32
      else if p = PTY_dynstr then PTY_simplestr
      else if p = PTY_dynobj then PTY_simpleobj
      else if p = PTY_dynf32 then PTY_f32
      else if p = PTY_dynf64 then PTY_f64
      else p)"

definition GetVecElemPrimType :: "PrimType \<Rightarrow> PrimType" where
  "GetVecElemPrimType p =
     (if p \<in> {PTY_v2i32, PTY_v4i32} then PTY_i32
      else if p \<in> {PTY_v2u32, PTY_v4u32} then PTY_u32
      else if p = PTY_v2i64 then PTY_i64
      else if p = PTY_v2u64 then PTY_u64
      else if p \<in> {PTY_v16i8, PTY_v8i8} then PTY_i8
      else if p \<in> {PTY_v16u8, PTY_v8u8} then PTY_u8
      else if p \<in> {PTY_v8i16, PTY_v4i16} then PTY_i16
      else if p \<in> {PTY_v8u16, PTY_v4u16} then PTY_u16
      else if p \<in> {PTY_v2f32, PTY_v4f32} then PTY_f32
      else if p = PTY_v2f64 then PTY_f64
      else PTY_begin)"

definition GetSignedPrimType :: "PrimType \<Rightarrow> PrimType" where
  "GetSignedPrimType p =
     (if p \<in> {PTY_ptr, PTY_ref, PTY_a64, PTY_u64} then PTY_i64
      else if p = PTY_u8 then PTY_i8
      else if p = PTY_u16 then PTY_i16
      else if p \<in> {PTY_a32, PTY_u32} then PTY_i32
      else p)"

definition GetUnsignedPrimType :: "PrimType \<Rightarrow> PrimType" where
  "GetUnsignedPrimType p =
     (if p = PTY_i64 then PTY_u64
      else if p = PTY_i8 then PTY_u8
      else if p = PTY_i16 then PTY_u16
      else if p = PTY_i32 then PTY_u32
      else p)"

definition MinValOfSignedInteger :: "PrimType \<Rightarrow> int option" where
  "MinValOfSignedInteger p =
     (if p = PTY_i8 then Some (- (2 ^ 7))
      else if p = PTY_i16 then Some (- (2 ^ 15))
      else if p = PTY_i32 then Some (- (2 ^ 31))
      else if p = PTY_i64 then Some (- (2 ^ 63))
      else None)"

definition VerifyPrimType :: "PrimType \<Rightarrow> PrimType \<Rightarrow> bool" where
  "VerifyPrimType p1 p2 =
     (if p1 \<in> {PTY_u1, PTY_u8, PTY_u16, PTY_u32, PTY_a32} then IsUnsignedInteger p2
      else if p1 \<in> {PTY_i8, PTY_i16, PTY_i32} then IsSignedInteger p2
      else p1 = p2)"

definition GetIntegerPrimTypeBySizeAndSign :: "nat \<Rightarrow> bool \<Rightarrow> PrimType" where
  "GetIntegerPrimTypeBySizeAndSign sizeBit isSign =
     (if sizeBit = 1 then (if isSign then PTY_begin else PTY_u1)
      else if sizeBit = 8 then (if isSign then PTY_i8 else PTY_u8)
      else if sizeBit = 16 then (if isSign then PTY_i16 else PTY_u16)
      else if sizeBit = 32 then (if isSign then PTY_i32 else PTY_u32)
      else if sizeBit = 64 then (if isSign then PTY_i64 else PTY_u64)
      else PTY_begin)"

definition IsNoCvtNeeded :: "PrimType \<Rightarrow> PrimType \<Rightarrow> bool" where
  "IsNoCvtNeeded toType fromType =
     (if toType = fromType then True
      else if toType = PTY_i32 then fromType = PTY_i16 \<or> fromType = PTY_i8
      else if toType = PTY_u32 then fromType = PTY_u16 \<or> fromType = PTY_u8
      else if toType \<in> {PTY_u1, PTY_u8, PTY_u16} then fromType = PTY_u32
      else if toType \<in> {PTY_i8, PTY_i16} then fromType = PTY_i32
      else if toType \<in> {PTY_i64, PTY_u64, PTY_a64, PTY_ptr}
        then fromType = PTY_ptr \<or> fromType = PTY_u64 \<or> fromType = PTY_a64 \<or> fromType = PTY_i64
      else False)"

definition NeedCvtOrRetype :: "nat \<Rightarrow> PrimType \<Rightarrow> PrimType \<Rightarrow> bool" where
  "NeedCvtOrRetype ps origin compared \<longleftrightarrow>
     GetPrimTypeSize ps origin \<noteq> GetPrimTypeSize ps compared \<or>
     IsSignedInteger origin \<noteq> IsSignedInteger compared"

definition GetExactPtrPrimType :: "nat \<Rightarrow> PrimType" where
  "GetExactPtrPrimType ps = (if ps = 8 then PTY_a64 else PTY_a32)"

section \<open>Agreement of the tables\<close>

lemmas prim_size_defs = GetPrimTypeSize_def GetPrimTypeP2Size_def GetVecEleSize_def GetVecLanes_def
  GetPrimTypeBitSize_def GetPrimTypeActualBitSize_def

lemmas prim_class_defs = IsSignedInteger_def IsUnsignedInteger_def IsPrimitiveInteger_def
  IsPrimitiveVector_def IsPrimitiveUnsigned_def IsPrimitiveFloat_def Let_def PTProperty_def

lemma P2Size_size:
  "(ps, p2) \<in> {(4, 2), (8, 3)} \<Longrightarrow> GetPrimTypeP2Size p2 p = Some n \<Longrightarrow> GetPrimTypeSize ps p = 2 ^ n"
  by (cases p) (auto simp: prim_size_defs)

lemma P2Size_None:
  "ps \<noteq> 0 \<Longrightarrow> GetPrimTypeP2Size p2 p = None \<longleftrightarrow>
     GetPrimTypeSize ps p = 0 \<or> p \<in> {PTY_u128, PTY_i128, PTY_v1i64, PTY_v1u64}"
  by (cases p) (simp_all add: prim_size_defs)

lemma vec_lanes_size:
  "IsPrimitiveVector p \<Longrightarrow> p \<noteq> PTY_end \<Longrightarrow>
     \<exists>e. GetVecEleSize p = Some e \<and> GetVecLanes p * e = GetPrimTypeBitSize ps p"
  by (cases p) (simp_all add: prim_size_defs prim_class_defs)

lemma signed_xor_unsigned:
  "IsPrimitiveInteger p \<Longrightarrow> IsSignedInteger p \<noteq> IsUnsignedInteger p"
  by (auto simp: IsPrimitiveInteger_def IsSignedInteger_def IsUnsignedInteger_def IsPrimitiveUnsigned_def Let_def)

lemma integer_by_size_and_sign:
  "GetIntegerPrimTypeBySizeAndSign n s = p \<Longrightarrow> p \<noteq> PTY_begin \<Longrightarrow>
     IsPrimitiveInteger p \<and> GetPrimTypeActualBitSize ps p = n \<and> IsSignedInteger p = s"
  by (auto simp: GetIntegerPrimTypeBySizeAndSign_def prim_size_defs prim_class_defs split: if_splits)

lemma integer_roundtrip:
  "IsPrimitiveInteger p \<Longrightarrow>
     GetIntegerPrimTypeBySizeAndSign (GetPrimTypeActualBitSize ps p) (IsSignedInteger p) = p \<longleftrightarrow>
     p \<notin> {PTY_i128, PTY_u128, PTY_ptr, PTY_ref, PTY_a32, PTY_a64}"
  by (cases p) (simp_all add: GetIntegerPrimTypeBySizeAndSign_def prim_size_defs prim_class_defs)

lemma signed_version:
  "IsPrimitiveInteger p \<Longrightarrow> ps \<in> {4, 8} \<Longrightarrow>
     (IsSignedInteger (GetSignedPrimType p) \<longleftrightarrow> p \<notin> {PTY_u1, PTY_u128}) \<and>
     (GetPrimTypeSize ps (GetSignedPrimType p) = GetPrimTypeSize ps p \<longleftrightarrow> \<not> (ps = 4 \<and> p \<in> {PTY_ptr, PTY_ref}))"
  by (cases p) (auto simp: GetSignedPrimType_def prim_size_defs prim_class_defs)

lemma unsigned_version:
  "IsPrimitiveInteger p \<Longrightarrow>
     (IsUnsignedInteger (GetUnsignedPrimType p) \<longleftrightarrow> p \<noteq> PTY_i128) \<and>
     GetPrimTypeSize ps (GetUnsignedPrimType p) = GetPrimTypeSize ps p"
  by (cases p) (simp_all add: GetUnsignedPrimType_def prim_size_defs prim_class_defs)

section \<open>Properties of the primitive types\<close>

text \<open>C34: The size tables agree: a power-of-two size is the logarithm of the byte size, it is missing
  exactly for the types without a size and for \<open>u128\<close>, \<open>i128\<close>, \<open>v1i64\<close> and \<open>v1u64\<close>, and the lanes
  of a vector type fill its bits.\<close>

theorem primtype_sizes_agree:
  assumes "(ps, p2) \<in> {(4, 2), (8, 3)}"
  shows "(case GetPrimTypeP2Size p2 p of
            Some n \<Rightarrow> GetPrimTypeSize ps p = 2 ^ n
          | None \<Rightarrow> GetPrimTypeSize ps p = 0 \<or> p \<in> {PTY_u128, PTY_i128, PTY_v1i64, PTY_v1u64}) \<and>
         (IsPrimitiveVector p \<and> p \<noteq> PTY_end \<longrightarrow>
            (\<exists>e. GetVecEleSize p = Some e \<and> GetVecLanes p * e = GetPrimTypeBitSize ps p))"
proof -
  have "ps \<noteq> 0" using assms by auto
  then show ?thesis
    using P2Size_size[OF assms] P2Size_None[of ps p2 p] vec_lanes_size[of p ps]
    by (auto split: option.split)
qed

theorem primtype_sizes_agree_witness:
  "GetPrimTypeSize 8 PTY_v4f32 = 2 ^ 4 \<and> GetVecLanes PTY_v4f32 * 32 = GetPrimTypeBitSize 8 PTY_v4f32"
  using primtype_sizes_agree[of 8 3 PTY_v4f32]
  by (simp add: prim_size_defs prim_class_defs)

text \<open>C35: \<open>GetIntegerPrimTypeBySizeAndSign\<close> inverts size and signedness: what it returns for a width
  and sign has that width and sign, and it gives back every integer type of at most 64 bits that is
  not a pointer or an address; the signed version of an integer type has its size and is signed, the
  unsigned one is unsigned, with the listed exceptions of the code.\<close>

theorem primtype_integer_roundtrip:
  assumes "IsPrimitiveInteger p" "ps \<in> {4, 8}"
  shows "(GetIntegerPrimTypeBySizeAndSign n s = p \<longrightarrow> GetPrimTypeActualBitSize ps p = n \<and> IsSignedInteger p = s) \<and>
         (GetIntegerPrimTypeBySizeAndSign (GetPrimTypeActualBitSize ps p) (IsSignedInteger p) = p \<longleftrightarrow>
            p \<notin> {PTY_i128, PTY_u128, PTY_ptr, PTY_ref, PTY_a32, PTY_a64}) \<and>
         IsSignedInteger p \<noteq> IsUnsignedInteger p \<and>
         (IsSignedInteger (GetSignedPrimType p) \<longleftrightarrow> p \<notin> {PTY_u1, PTY_u128}) \<and>
         (GetPrimTypeSize ps (GetSignedPrimType p) = GetPrimTypeSize ps p \<longleftrightarrow>
            \<not> (ps = 4 \<and> p \<in> {PTY_ptr, PTY_ref})) \<and>
         (IsUnsignedInteger (GetUnsignedPrimType p) \<longleftrightarrow> p \<noteq> PTY_i128) \<and>
         GetPrimTypeSize ps (GetUnsignedPrimType p) = GetPrimTypeSize ps p"
proof -
  have "p \<noteq> PTY_begin" using assms(1) by (auto simp: prim_class_defs)
  then show ?thesis
    using integer_by_size_and_sign[of n s p ps] integer_roundtrip[OF assms(1), of ps]
      signed_xor_unsigned[OF assms(1)] signed_version[OF assms] unsigned_version[OF assms(1), of ps]
    by blast
qed

theorem primtype_integer_roundtrip_witness:
  "GetIntegerPrimTypeBySizeAndSign (GetPrimTypeActualBitSize 8 PTY_i16) (IsSignedInteger PTY_i16) = PTY_i16"
  using primtype_integer_roundtrip[of PTY_i16 8]
  by (simp add: prim_class_defs)

end
