(* ===== verification/Int_Val_Wide.thy ===== *)
theory Int_Val_Wide
  imports Prelude "HOL-Library.Monad_Syntax"
begin

text \<open>
  Arithmetic on arrays of machine words, least significant word first: the static helpers and the
  word loops of \<^verbatim>\<open>src/src/mapleall/maple_util/src/mpl_int_val.cpp\<close>, which the class \<open>IntVal\<close>
  uses for integers of more than 64 bits.

  The helpers are templates over \<open>uint32\<close> and \<open>uint64\<close>: here they are polymorphic in the word length.
  An array is the list of its words. A shift by the width of the type or more, which C++ leaves
  undefined, and a failed \<open>ASSERT\<close> or \<open>CHECK_FATAL\<close> are \<open>None\<close>; \<open>memcpy_s\<close>, \<open>memmove_s\<close> and
  \<open>memset_s\<close> of a size that fits, zero included, succeed.
\<close>

unbundle bit_operations_syntax

section \<open>Single words\<close>

definition iv_assert :: "bool \<Rightarrow> unit option" where
  "iv_assert b = (if b then Some () else None)"

definition shl_word :: "'a::len word \<Rightarrow> nat \<Rightarrow> 'a word option" where
  "shl_word w n = (if n < LENGTH('a) then Some (push_bit n w) else None)"

definition shr_word :: "'a::len word \<Rightarrow> nat \<Rightarrow> 'a word option" where
  "shr_word w n = (if n < LENGTH('a) then Some (drop_bit n w) else None)"

definition SubBorrow :: "'a::len word \<Rightarrow> 'a word \<Rightarrow> 'a word \<times> nat" where
  "SubBorrow dst src = (let tmp = dst; dst = dst - src in (dst, if dst > tmp then 1 else 0))"

definition AddCarry :: "'a::len word \<Rightarrow> 'a word \<Rightarrow> 'a word \<times> nat" where
  "AddCarry dst src = (let dst = dst + src in (dst, if dst < src then 1 else 0))"

text \<open>\<open>__builtin_clz\<close> of a nonzero word.\<close>

definition clz :: "'a::len word \<Rightarrow> nat" where
  "clz w = length (takeWhile (\<lambda>n. \<not> bit w (LENGTH('a) - 1 - n)) [0..<LENGTH('a)])"

definition word_CountLeadingZeros :: "'a::len word \<Rightarrow> nat" where
  "word_CountLeadingZeros w = (if w = 0 then LENGTH('a) else clz w)"

definition word_CountLeadingOnes :: "'a::len word \<Rightarrow> nat" where
  "word_CountLeadingOnes w = (if w = - 1 then LENGTH('a) else clz (NOT w))"

definition word_CountTrallingZeros :: "'a::len word \<Rightarrow> nat" where
  "word_CountTrallingZeros w = (if w = 0 then LENGTH('a) else ctz w)"

definition word_CountTrallingOnes :: "'a::len word \<Rightarrow> nat" where
  "word_CountTrallingOnes w = (if w = - 1 then LENGTH('a) else ctz (NOT w))"

section \<open>Comparison\<close>

text \<open>The loop below the last word; the argument is \<open>i\<close> as the loop test sees it.\<close>

fun compare_loop :: "'a::len word list \<Rightarrow> 'a word list \<Rightarrow> nat \<Rightarrow> int" where
  "compare_loop lhs rhs 0 = 0"
| "compare_loop lhs rhs (Suc i) =
     (if lhs ! i \<noteq> rhs ! i then (if lhs ! i < rhs ! i then - 1 else 1) else compare_loop lhs rhs i)"

definition BitwiseCompare :: "'a::len word list \<Rightarrow> 'a word list \<Rightarrow> nat \<Rightarrow> int option" where
  "BitwiseCompare lhs rhs comparedWidth =
     (let bitSize = LENGTH('a);
          remain = comparedWidth mod bitSize;
          numWords = (comparedWidth + bitSize - 1) div bitSize
      in do {
        iv_assert (numWords \<noteq> 0);
        mask \<leftarrow> shr_word (- 1 :: u64) (bitSize - remain);
        let i = numWords - 1;
        let l = ucast (lhs ! i) AND mask;
        let r = ucast (rhs ! i) AND mask;
        if l \<noteq> r then Some (if l < r then - 1 else 1) else Some (compare_loop lhs rhs i)
      })"

section \<open>Addition and subtraction\<close>

fun WideAdd_loop :: "u64 list \<Rightarrow> u64 list \<Rightarrow> bool \<Rightarrow> u64 list" where
  "WideAdd_loop (w # ws) (v # vs) carry =
     (let w' = w + (v + (if carry then 1 else 0));
          carry' = (if carry then w' \<le> v else w' < v)
      in w' # WideAdd_loop ws vs carry')"
| "WideAdd_loop ws vs carry = ws"

fun carry_loop :: "'a::len word list \<Rightarrow> nat \<Rightarrow> 'a word list" where
  "carry_loop [] carry = []"
| "carry_loop (w # ws) carry =
     (if carry = 1 then let (w', carry') = AddCarry w (of_nat carry) in w' # carry_loop ws carry'
      else w # ws)"

fun WideAdd_word :: "u64 list \<Rightarrow> u64 \<Rightarrow> u64 list" where
  "WideAdd_word [] val = []"
| "WideAdd_word (w # ws) val = (let (w', carry) = AddCarry w val in w' # carry_loop ws carry)"

fun WideSub_loop :: "u64 list \<Rightarrow> u64 list \<Rightarrow> bool \<Rightarrow> u64 list" where
  "WideSub_loop (w # ws) (v # vs) borrow =
     (let w' = w - (v + (if borrow then 1 else 0));
          borrow' = (if borrow then w' \<ge> w else w' > w)
      in w' # WideSub_loop ws vs borrow')"
| "WideSub_loop ws vs borrow = ws"

text \<open>The borrow of this loop is computed from the new word, as the source does.\<close>

fun borrow_loop :: "u64 list \<Rightarrow> bool \<Rightarrow> u64 list" where
  "borrow_loop [] borrow = []"
| "borrow_loop (w # ws) borrow =
     (if borrow then let w' = w - 1 in w' # borrow_loop ws (w' \<ge> 1) else w # ws)"

fun WideSub_word :: "u64 list \<Rightarrow> u64 \<Rightarrow> u64 list" where
  "WideSub_word [] val = []"
| "WideSub_word (w # ws) val = (let w' = w - val in w' # borrow_loop ws (w' > w))"

section \<open>Multiplication\<close>

record LoHi =
  lo :: u32
  hi :: u32

definition GetLoHi :: "u64 \<Rightarrow> LoHi" where
  "GetLoHi value = \<lparr>lo = ucast value, hi = ucast (drop_bit 32 value)\<rparr>"

definition CombineLoHi :: "LoHi \<Rightarrow> u64" where
  "CombineLoHi halfs = push_bit 32 (ucast (hi halfs)) + ucast (lo halfs)"

definition MulOverflow :: "LoHi \<Rightarrow> LoHi \<Rightarrow> u64 \<times> u64" where
  "MulOverflow src0 src1 =
     (let mulLo0Lo1 = GetLoHi (ucast (lo src0) * ucast (lo src1));
          mulLo0Hi1 = GetLoHi (ucast (lo src0) * ucast (hi src1));
          mulHi0Lo1 = GetLoHi (ucast (hi src0) * ucast (lo src1));
          mulHi0Hi1 = GetLoHi (ucast (hi src0) * ucast (hi src1));
          resultLo = lo mulLo0Lo1;
          resultHi = hi mulLo0Lo1;
          (resultHi, c1) = AddCarry resultHi (lo mulLo0Hi1);
          (resultHi, c2) = AddCarry resultHi (lo mulHi0Lo1);
          result = CombineLoHi \<lparr>lo = resultLo, hi = resultHi\<rparr>;
          overflowLo = of_nat (c1 + c2);
          (overflowLo, c3) = AddCarry overflowLo (hi mulLo0Hi1);
          (overflowLo, c4) = AddCarry overflowLo (hi mulHi0Lo1);
          (overflowLo, c5) = AddCarry overflowLo (lo mulHi0Hi1);
          overflowHi = hi mulHi0Hi1 + of_nat (c3 + c4 + c5);
          overflow = CombineLoHi \<lparr>lo = overflowLo, hi = overflowHi\<rparr>
      in (overflow, result))"

text \<open>The carry loop of \<open>MulPart\<close> from word \<open>j\<close> on; \<open>n\<close> is the number of words left.\<close>

fun mul_carry_loop :: "u64 list \<Rightarrow> nat \<Rightarrow> nat \<Rightarrow> nat \<Rightarrow> u64 list" where
  "mul_carry_loop dst j 0 carry = dst"
| "mul_carry_loop dst j (Suc n) carry =
     (if carry \<noteq> 0
      then let (w, carry') = AddCarry (dst ! j) (of_nat carry) in mul_carry_loop (dst[j := w]) (Suc j) n carry'
      else dst)"

definition MulPart_step :: "u64 list \<Rightarrow> u64 \<Rightarrow> u64 \<Rightarrow> nat \<Rightarrow> u64 list" where
  "MulPart_step dst srci multiplier k =
     (let numParts = length dst;
          (overflow, result) = MulOverflow (GetLoHi srci) (GetLoHi multiplier);
          (w, carry) = AddCarry (dst ! k) result;
          dst = dst[k := w]
      in if k + 1 < numParts
         then let (w1, carry1) = AddCarry (dst ! (k + 1)) (of_nat carry);
                  (w2, carry2) = AddCarry w1 overflow;
                  dst = dst[k + 1 := w2]
              in mul_carry_loop dst (k + 2) (numParts - (k + 2)) (carry1 + carry2)
         else dst)"

definition MulPart :: "u64 list \<Rightarrow> u64 list \<Rightarrow> u64 \<Rightarrow> nat \<Rightarrow> u64 list" where
  "MulPart dst src multiplier part =
     fold (\<lambda>i dst. MulPart_step dst (src ! i) multiplier (part + i)) [0..<length dst - part] dst"

definition WideMul_words :: "u64 list \<Rightarrow> u64 list \<Rightarrow> u64 list" where
  "WideMul_words src0 src1 =
     (let numWords = length src0
      in fold (\<lambda>i dst. MulPart dst src0 (src1 ! i) i) [0..<numWords] (replicate numWords 0))"

section \<open>Shifts\<close>

fun shl_loop :: "nat \<Rightarrow> nat \<Rightarrow> nat \<Rightarrow> 'a::len word list \<Rightarrow> 'a word list" where
  "shl_loop sw sb 0 dst = dst"
| "shl_loop sw sb (Suc i) dst =
     (if Suc i > sw
      then let w = push_bit sb (dst ! (i - sw));
               w = (if i > sw then w OR drop_bit (LENGTH('a) - sb) (dst ! (i - (sw + 1))) else w)
           in shl_loop sw sb i (dst[i := w])
      else dst)"

definition ShiftLeft :: "'a::len word list \<Rightarrow> nat \<Rightarrow> 'a word list option" where
  "ShiftLeft dst bits = do {
     let numWords = length dst;
     iv_assert (bits \<le> numWords * LENGTH('a));
     if bits = 0 then Some dst
     else let sw = bits div LENGTH('a);
              sb = bits mod LENGTH('a);
              dst = (if sb = 0 then take sw dst @ take (numWords - sw) dst else shl_loop sw sb numWords dst)
          in Some (replicate sw 0 @ drop sw dst)
   }"

fun shr_loop :: "nat \<Rightarrow> nat \<Rightarrow> nat \<Rightarrow> nat \<Rightarrow> 'a::len word list \<Rightarrow> 'a word list" where
  "shr_loop sw sb i 0 dst = dst"
| "shr_loop sw sb i (Suc n) dst =
     (let tmp = dst ! i;
          dst = dst[i - sw := drop_bit sb tmp];
          dst = (if i \<ge> sw + 1
                 then dst[i - (sw + 1) := dst ! (i - (sw + 1)) OR push_bit (LENGTH('a) - sb) tmp] else dst)
      in shr_loop sw sb (Suc i) n dst)"

definition ShiftRight :: "'a::len word list \<Rightarrow> nat \<Rightarrow> bool \<Rightarrow> 'a word list option" where
  "ShiftRight dst bits negRemainder =
     (let numWords = length dst in
      if bits = 0 then Some dst
      else do {
        iv_assert (bits \<le> numWords * LENGTH('a));
        let sw = bits div LENGTH('a);
        let sb = bits mod LENGTH('a);
        let dst = (if sb = 0 then drop sw dst @ drop (numWords - sw) dst
                   else shr_loop sw sb sw (numWords - sw) dst);
        let filler = (if negRemainder then - 1 else 0 :: 'a word);
        let dst = take (numWords - sw) dst @ replicate sw filler;
        Some (if sb \<noteq> 0
              then let k = numWords - (sw + 1) in dst[k := dst ! k OR push_bit (LENGTH('a) - sb) filler]
              else dst)
      })"

section \<open>Bitwise operations\<close>

definition WideNot_words :: "u64 list \<Rightarrow> u64 list" where
  "WideNot_words ws = map (\<lambda>w. NOT w) ws"

definition WideNeg_words :: "u64 list \<Rightarrow> u64 list" where
  "WideNeg_words ws = WideAdd_word (WideNot_words ws) 1"

definition WideAnd_words :: "u64 list \<Rightarrow> u64 list \<Rightarrow> u64 list" where
  "WideAnd_words ws vs = map2 (\<lambda>a b. a AND b) ws vs"

definition WideOr_words :: "u64 list \<Rightarrow> u64 list \<Rightarrow> u64 list" where
  "WideOr_words ws vs = map2 (\<lambda>a b. a OR b) ws vs"

definition WideXor_words :: "u64 list \<Rightarrow> u64 list \<Rightarrow> u64 list" where
  "WideXor_words ws vs = map2 (\<lambda>a b. a XOR b) ws vs"

fun WideIsSubsetOf_words :: "u64 list \<Rightarrow> u64 list \<Rightarrow> bool" where
  "WideIsSubsetOf_words (w # ws) (v # vs) = (if w AND NOT v \<noteq> 0 then False else WideIsSubsetOf_words ws vs)"
| "WideIsSubsetOf_words ws vs = True"

section \<open>Division\<close>

definition GetNumHalfWords :: "nat \<Rightarrow> nat" where
  "GetNumHalfWords bitWidth = (bitWidth + 31) mod 2 ^ 16 div 32"

fun sub_borrow_loop :: "u32 list \<Rightarrow> nat \<Rightarrow> nat \<Rightarrow> u32 \<Rightarrow> u32 list \<times> u32" where
  "sub_borrow_loop dst j 0 borrow = (dst, borrow)"
| "sub_borrow_loop dst j (Suc n) borrow =
     (if borrow \<noteq> 0
      then let (w, b) = SubBorrow (dst ! j) borrow in sub_borrow_loop (dst[j := w]) (Suc j) n (of_nat b)
      else (dst, borrow))"

fun add_carry_loop :: "u32 list \<Rightarrow> nat \<Rightarrow> nat \<Rightarrow> u32 \<Rightarrow> u32 list \<times> u32" where
  "add_carry_loop dst j 0 carry = (dst, carry)"
| "add_carry_loop dst j (Suc n) carry =
     (if carry \<noteq> 0
      then let (w, c) = AddCarry (dst ! j) carry in add_carry_loop (dst[j := w]) (Suc j) n (of_nat c)
      else (dst, carry))"

definition MulSubOverflow :: "u32 list \<Rightarrow> u32 list \<Rightarrow> u32 \<Rightarrow> u32 list \<times> u32" where
  "MulSubOverflow dst src0 src1 =
     fold (\<lambda>i (dst, overflow).
        let mulRes = GetLoHi (ucast (src0 ! i) * ucast src1);
            (w, borrow) = SubBorrow (dst ! i) (lo mulRes);
            dst = dst[i := w];
            borrow = of_nat borrow + hi mulRes;
            (dst, borrow) = sub_borrow_loop dst (i + 1) (length dst - (i + 1)) borrow
        in (dst, overflow + borrow)) [0..<length dst] (dst, 0)"

definition MulAddOverflow :: "u32 list \<Rightarrow> u32 list \<Rightarrow> u32 \<Rightarrow> u32 list \<times> u32" where
  "MulAddOverflow dst src0 src1 =
     fold (\<lambda>i (dst, overflow).
        let mulRes = GetLoHi (ucast (src0 ! i) * ucast src1);
            (w, carry) = AddCarry (dst ! i) (lo mulRes);
            dst = dst[i := w];
            carry = of_nat carry + hi mulRes;
            (dst, carry) = add_carry_loop dst (i + 1) (length dst - (i + 1)) carry
        in (dst, overflow + carry)) [0..<length dst] (dst, 0)"

definition Normalize :: "u32 list \<Rightarrow> u32 list \<Rightarrow> (nat \<times> u32 list \<times> u32 list) option" where
  "Normalize a b = do {
     iv_assert (length b > 0);
     let shift = word_CountLeadingZeros (b ! (length b - 1));
     iv_assert (shift < 32);
     b' \<leftarrow> ShiftLeft b shift;
     a' \<leftarrow> ShiftLeft a shift;
     Some (shift, a', b')
   }"

text \<open>The correction loop \<open>while A < 0\<close>; \<open>k\<close> is what is left of \<open>maxCounter\<close>.\<close>

fun correct_loop :: "nat \<Rightarrow> u32 list \<Rightarrow> u32 list \<Rightarrow> u32 \<Rightarrow> u32 \<Rightarrow> (u32 list \<times> u32) option" where
  "correct_loop 0 a bShifted qj borrow = (if borrow \<noteq> 0 then None else Some (a, qj))"
| "correct_loop (Suc k) a bShifted qj borrow =
     (if borrow \<noteq> 0
      then let (a', ov) = MulAddOverflow a bShifted 1 in correct_loop k a' bShifted (qj - 1) (borrow - ov)
      else Some (a, qj))"

fun divrem_loop :: "u32 list \<Rightarrow> nat \<Rightarrow> nat \<Rightarrow> nat \<Rightarrow> u32 list \<Rightarrow> u32 list \<Rightarrow> (u32 list \<times> u32 list) option" where
  "divrem_loop b n m 0 q a = Some (q, a)"
| "divrem_loop b n m (Suc j) q a = do {
     let quotient = CombineLoHi \<lparr>lo = a ! (n + j - 1), hi = a ! (n + j)\<rparr> div ucast (b ! (n - 1));
     let qLoHi = GetLoHi quotient;
     let qj = (if hi qLoHi \<noteq> 0 then - 1 else lo qLoHi);
     bShifted \<leftarrow> ShiftLeft (b @ replicate m 0) (j * 32);
     let (a, borrow) = MulSubOverflow a bShifted qj;
     (a, qj) \<leftarrow> correct_loop 2 a bShifted qj borrow;
     divrem_loop b n m j (q[j := qj]) a
   }"

definition BasecaseDivRem :: "u32 list \<Rightarrow> u32 list \<Rightarrow> nat \<Rightarrow> nat \<Rightarrow> (u32 list \<times> u32 list) option" where
  "BasecaseDivRem a b n m = do {
     iv_assert (n > 0 \<and> m \<ge> 1);
     bShifted \<leftarrow> ShiftLeft (b @ replicate m 0) (m * 32);
     c \<leftarrow> BitwiseCompare a bShifted ((n + m) * 32);
     let q = replicate (m + 1) 0;
     let (qm, a) = (if c < 0 then (0, a) else (1, fst (MulSubOverflow a bShifted 1)));
     divrem_loop b n m m (q[m := qm]) a
   }"

text \<open>The bytes of a \<open>uint64\<close> array as a \<open>uint32\<close> array and back, little-endian.\<close>

fun words_halves :: "u64 list \<Rightarrow> u32 list" where
  "words_halves [] = []"
| "words_halves (w # ws) = lo (GetLoHi w) # hi (GetLoHi w) # words_halves ws"

fun halves_words :: "u32 list \<Rightarrow> u64 list" where
  "halves_words [] = []"
| "halves_words [a] = [CombineLoHi \<lparr>lo = a, hi = 0\<rparr>]"
| "halves_words (a # b # xs) = CombineLoHi \<lparr>lo = a, hi = b\<rparr> # halves_words xs"

definition CopyUint32ToUint64 :: "nat \<Rightarrow> u32 list \<Rightarrow> u64 list option" where
  "CopyUint32ToUint64 dstSize src = do {
     iv_assert (length src * 4 \<le> dstSize * 8);
     Some (halves_words (src @ replicate (2 * dstSize - length src) 0))
   }"

text \<open>The part of \<open>WideUnsignedDivRem\<close> that works on the arrays, from the numbers of significant
  bits of the two operands on.\<close>

definition WideUnsignedDivRem_words ::
  "u64 list \<Rightarrow> u64 list \<Rightarrow> nat \<Rightarrow> nat \<Rightarrow> (u64 list \<times> u64 list) option" where
  "WideUnsignedDivRem_words delimer divisor delimerBits divisorBits = do {
     let n = GetNumHalfWords divisorBits;
     let m = GetNumHalfWords delimerBits - n + 1;
     let a = take (n + m - 1) (words_halves delimer) @ [0];
     let b = take n (words_halves divisor);
     (k, a, b) \<leftarrow> Normalize a b;
     (q, r) \<leftarrow> BasecaseDivRem a b n m;
     r \<leftarrow> ShiftRight r k False;
     let numWords = length delimer;
     iv_assert (q ! m = 0);
     quotient \<leftarrow> CopyUint32ToUint64 numWords (take m q);
     remainder \<leftarrow> CopyUint32ToUint64 numWords (take (n + m - 1) r);
     Some (quotient, remainder)
   }"

section \<open>The number in an array\<close>

fun wval :: "'a::len word list \<Rightarrow> nat" where
  "wval [] = 0"
| "wval (w # ws) = unat w + 2 ^ LENGTH('a) * wval ws"

definition base64 :: "nat \<Rightarrow> nat" where
  "base64 n = 2 ^ (64 * n)"

section \<open>Carries\<close>

lemma mod_block:
  fixes x B y M :: nat
  assumes "x < B"
  shows "(x + B * y) mod (B * M) = x + B * (y mod M)"
proof -
  have "(x + B * y) mod (B * M) = B * ((x + B * y) div B mod M) + (x + B * y) mod B"
    by (rule mod_mult2_eq)
  then show ?thesis using assms by simp
qed

lemma unat_less_word: "unat w < 2 ^ LENGTH('a)" for w :: "'a::len word"
  by (rule unsigned_less)

lemma unat_add_carry:
  fixes a b :: "'a::len word"
  shows "unat (a + b) + 2 ^ LENGTH('a) * (if a + b < b then 1 else 0) = unat a + unat b"
proof -
  have m: "unat (a + b) = (unat a + unat b) mod 2 ^ LENGTH('a)"
    by (simp add: unat_word_ariths take_bit_eq_mod)
  show ?thesis
  proof (cases "unat a + unat b < 2 ^ LENGTH('a)")
    case True
    then show ?thesis using m by (simp add: word_less_nat_alt)
  next
    case False
    have "unat a + unat b - 2 ^ LENGTH('a) < 2 ^ LENGTH('a)"
      using unat_less_word[of a] unat_less_word[of b] by linarith
    with False have e: "unat (a + b) = unat a + unat b - 2 ^ LENGTH('a)"
      using m by (simp add: le_mod_geq)
    then have "unat (a + b) < unat b" using False unat_less_word[of a] by linarith
    then show ?thesis using e False by (simp add: word_less_nat_alt)
  qed
qed

lemma AddCarry_eq:
  "AddCarry a b = (w, c) \<Longrightarrow> unat w + 2 ^ LENGTH('a) * c = unat a + unat b \<and> c \<le> 1"
  for a b :: "'a::len word"
  using unat_add_carry[of a b] by (auto simp: AddCarry_def Let_def split: if_splits)

lemma unat_plus_one:
  fixes v :: "'a::len word"
  assumes "v \<noteq> - 1"
  shows "unat (v + 1) = unat v + 1"
proof -
  have "v + 1 \<noteq> 0" using assms by (metis eq_neg_iff_add_eq_0)
  then have "\<not> v + 1 < 1" by (simp add: word_less_nat_alt unat_gt_0)
  then show ?thesis using unat_add_carry[of v 1] by simp
qed

lemma unat_add_carry_in:
  fixes w v :: u64 and c :: bool
  defines "s \<equiv> w + (v + (if c then 1 else 0))"
  shows "unat s + 2 ^ 64 * of_bool (if c then s \<le> v else s < v) = unat w + unat v + of_bool c"
proof (cases c)
  case True
  show ?thesis
  proof (cases "v = - 1")
    case True
    then show ?thesis using \<open>c\<close> by (simp add: s_def unsigned_minus_1_eq_mask mask_eq_exp_minus_1)
  next
    case False
    then have v1: "unat (v + 1) = unat v + 1"
      by (rule unat_plus_one)
    have "s \<le> v \<longleftrightarrow> s < v + 1"
      using v1 unfolding word_le_nat_alt word_less_nat_alt by linarith
    moreover have "s = w + (v + 1)" using \<open>c\<close> by (simp add: s_def)
    ultimately show ?thesis using unat_add_carry[of w "v + 1"] v1 \<open>c\<close> by (simp split: if_splits)
  qed
qed (use unat_add_carry[of w v] in \<open>simp add: s_def split: if_splits\<close>)

lemma unat_sub_borrow:
  fixes w v :: "'a::len word"
  shows "unat (w - v) + unat v = unat w + 2 ^ LENGTH('a) * (if w - v > w then 1 else 0)"
  using unat_add_carry[of v "w - v"] by (auto simp: word_less_nat_alt)

lemma unat_sub_borrow_in:
  fixes w v :: u64 and b :: bool
  defines "s \<equiv> w - (v + (if b then 1 else 0))"
  shows "unat s + unat v + of_bool b = unat w + 2 ^ 64 * of_bool (if b then s \<ge> w else s > w)"
proof (cases b)
  case True
  show ?thesis
  proof (cases "v = - 1")
    case True
    then show ?thesis using \<open>b\<close> by (simp add: s_def unsigned_minus_1_eq_mask mask_eq_exp_minus_1)
  next
    case False
    then have v1: "unat (v + 1) = unat v + 1"
      by (rule unat_plus_one)
    have "v + 1 \<noteq> 0" using v1 by auto
    moreover have "v + 1 = w - s" using True by (simp add: s_def)
    ultimately have "s \<noteq> w" by auto
    then have "s \<ge> w \<longleftrightarrow> s > w" by auto
    then show ?thesis using unat_sub_borrow[of w "v + 1"] v1 \<open>b\<close> by (simp add: s_def)
  qed
qed (use unat_sub_borrow[of w v] in \<open>simp add: s_def split: if_splits\<close>)

section \<open>Addition, subtraction and negation\<close>

lemma wval_bound: "wval ws < 2 ^ (LENGTH('a) * length ws)" for ws :: "'a::len word list"
proof (induction ws)
  case (Cons w ws)
  have "wval ws + 1 \<le> 2 ^ (LENGTH('a) * length ws)" using Cons by simp
  then have "2 ^ LENGTH('a) * (wval ws + 1) \<le> 2 ^ LENGTH('a) * 2 ^ (LENGTH('a) * length ws)"
    by (rule mult_le_mono2)
  moreover have "wval (w # ws) < 2 ^ LENGTH('a) * (wval ws + 1)"
    using unat_less_word[of w] unfolding wval.simps add_mult_distrib2 by linarith
  ultimately show ?case
    by (simp only: list.size add_Suc_right add_0_right One_nat_def mult_Suc_right power_add)
qed simp

lemma pow_block: "(2::nat) ^ (64 * Suc n) = 2 ^ 64 * 2 ^ (64 * n)"
  by (simp only: mult_Suc_right power_add)

lemma wval_cons64: "wval (w # ws) = unat w + 2 ^ 64 * wval ws" for w :: u64
  by simp

lemma WideAdd_loop_length: "length (WideAdd_loop ws vs c) = length ws"
  by (induction ws vs c rule: WideAdd_loop.induct) (auto simp: Let_def)

lemma WideSub_loop_length: "length (WideSub_loop ws vs c) = length ws"
  by (induction ws vs c rule: WideSub_loop.induct) (auto simp: Let_def)

lemma WideAdd_loop_value:
  "length ws = length vs \<Longrightarrow>
     wval (WideAdd_loop ws vs c) = (wval ws + wval vs + of_bool c) mod 2 ^ (64 * length ws)"
proof (induction ws vs c rule: WideAdd_loop.induct)
  case (1 w ws v vs c)
  define s where "s = w + (v + (if c then 1 else 0))"
  define c' where "c' = (if c then s \<le> v else s < v)"
  have s: "unat s + 2 ^ 64 * of_bool c' = unat w + unat v + of_bool c"
    unfolding s_def c'_def by (rule unat_add_carry_in)
  have "wval (w # ws) + wval (v # vs) + of_bool c = unat s + 2 ^ 64 * (wval ws + wval vs + of_bool c')"
    using s unfolding wval_cons64 add_mult_distrib2 by linarith
  then have "(wval (w # ws) + wval (v # vs) + of_bool c) mod 2 ^ (64 * length (w # ws))
      = unat s + 2 ^ 64 * ((wval ws + wval vs + of_bool c') mod 2 ^ (64 * length ws))"
    using mod_block[OF unat_less_u64] by (simp only: list.size pow_block One_nat_def add_0_right add_Suc_right)
  moreover have "wval (WideAdd_loop (w # ws) (v # vs) c) = unat s + 2 ^ 64 * wval (WideAdd_loop ws vs c')"
    by (simp add: Let_def s_def c'_def)
  moreover have "wval (WideAdd_loop ws vs c') = (wval ws + wval vs + of_bool c') mod 2 ^ (64 * length ws)"
    using 1 by (simp add: s_def c'_def)
  ultimately show ?case by simp
qed auto

lemma WideSub_loop_value:
  "length ws = length vs \<Longrightarrow>
     (wval (WideSub_loop ws vs b) + wval vs + of_bool b) mod 2 ^ (64 * length ws) = wval ws"
proof (induction ws vs b rule: WideSub_loop.induct)
  case (1 w ws v vs b)
  define s where "s = w - (v + (if b then 1 else 0))"
  define b' where "b' = (if b then s \<ge> w else s > w)"
  have s: "unat s + unat v + of_bool b = unat w + 2 ^ 64 * of_bool b'"
    unfolding s_def b'_def by (rule unat_sub_borrow_in)
  define R where "R = wval (WideSub_loop ws vs b')"
  have "wval (WideSub_loop (w # ws) (v # vs) b) = unat s + 2 ^ 64 * R"
    by (simp add: Let_def s_def b'_def R_def)
  then have "wval (WideSub_loop (w # ws) (v # vs) b) + wval (v # vs) + of_bool b
      = unat w + 2 ^ 64 * (R + wval vs + of_bool b')"
    using s unfolding wval_cons64 add_mult_distrib2 by linarith
  then have "(wval (WideSub_loop (w # ws) (v # vs) b) + wval (v # vs) + of_bool b) mod 2 ^ (64 * length (w # ws))
      = unat w + 2 ^ 64 * ((R + wval vs + of_bool b') mod 2 ^ (64 * length ws))"
    using mod_block[OF unat_less_u64] by (simp only: list.size pow_block One_nat_def add_0_right add_Suc_right)
  moreover have "(R + wval vs + of_bool b') mod 2 ^ (64 * length ws) = wval ws"
    using 1 by (simp add: s_def b'_def R_def)
  ultimately show ?case by simp
qed auto

lemma carry_loop_length: "length (carry_loop ws c) = length ws"
  by (induction ws c rule: carry_loop.induct) (auto split: prod.splits)

lemma carry_loop_value:
  "c \<le> 1 \<Longrightarrow> wval (carry_loop ws c) = (wval ws + c) mod 2 ^ (64 * length ws)" for ws :: "u64 list"
proof (induction ws c rule: carry_loop.induct)
  case (2 w ws c)
  show ?case
  proof (cases "c = 1")
    case True
    obtain w' c' where ac: "AddCarry w (of_nat c) = (w', c')" by force
    have s: "unat w' + 2 ^ 64 * c' = unat w + c" "c' \<le> 1"
      using AddCarry_eq[OF ac] True by auto
    then have "wval (w # ws) + c = unat w' + 2 ^ 64 * (wval ws + c')" by simp
    then have "(wval (w # ws) + c) mod 2 ^ (64 * length (w # ws))
        = unat w' + 2 ^ 64 * ((wval ws + c') mod 2 ^ (64 * length ws))"
      using mod_block[OF unat_less_u64] by (simp only: list.size pow_block One_nat_def add_0_right add_Suc_right)
    then show ?thesis using 2(1)[OF True ac[symmetric] refl s(2)] True ac by simp
  next
    case False
    with 2(2) have "c = 0" by simp
    then show ?thesis using wval_bound[of "w # ws"] by simp
  qed
qed simp

lemma WideAdd_word_length: "length (WideAdd_word ws x) = length ws"
  by (cases ws) (auto simp: carry_loop_length split: prod.splits)

lemma WideAdd_word_value: "wval (WideAdd_word ws x) = (wval ws + unat x) mod 2 ^ (64 * length ws)"
proof (cases ws)
  case (Cons w vs)
  obtain w' c where ac: "AddCarry w x = (w', c)" by force
  have s: "unat w' + 2 ^ 64 * c = unat w + unat x" "c \<le> 1"
    using AddCarry_eq[OF ac] by auto
  then have "wval (w # vs) + unat x = unat w' + 2 ^ 64 * (wval vs + c)" by simp
  then have "(wval (w # vs) + unat x) mod 2 ^ (64 * length (w # vs))
      = unat w' + 2 ^ 64 * ((wval vs + c) mod 2 ^ (64 * length vs))"
    using mod_block[OF unat_less_u64] by (simp only: list.size pow_block One_nat_def add_0_right add_Suc_right)
  then show ?thesis using ac Cons carry_loop_value[OF s(2), of vs] by simp
qed simp

lemma unat_not: "unat (NOT w) + unat w + 1 = 2 ^ LENGTH('a)" for w :: "'a::len word"
proof -
  have "NOT w + w = - 1" by (simp add: not_eq_complement)
  moreover have "unat (- 1 :: 'a word) = 2 ^ LENGTH('a) - 1"
    by (simp add: unsigned_minus_1_eq_mask mask_eq_exp_minus_1)
  moreover have "\<not> (- 1 :: 'a word) < w" by (metis leD word_order.extremum)
  ultimately have "unat (NOT w) + unat w = 2 ^ LENGTH('a) - 1"
    using unat_add_carry[of "NOT w" w] by simp
  then show ?thesis by (metis Suc_pred' add.commute plus_1_eq_Suc zero_less_numeral zero_less_power)
qed

lemma WideNot_words_value: "wval (WideNot_words ws) + wval ws + 1 = 2 ^ (64 * length ws)"
proof (induction ws)
  case (Cons w ws)
  have "wval (WideNot_words (w # ws)) = unat (NOT w) + 2 ^ 64 * wval (WideNot_words ws)"
    by (simp add: WideNot_words_def)
  then have "wval (WideNot_words (w # ws)) + wval (w # ws) + 1
      = 2 ^ 64 * (wval (WideNot_words ws) + wval ws + 1)"
    using unat_not[of w] unfolding wval_cons64 add_mult_distrib2 by simp
  then show ?case using Cons by (simp only: list.size pow_block One_nat_def add_0_right add_Suc_right)
qed (simp add: WideNot_words_def)

lemma WideNeg_words_value: "(wval (WideNeg_words ws) + wval ws) mod 2 ^ (64 * length ws) = 0"
proof -
  have "wval (WideNeg_words ws) = (wval (WideNot_words ws) + 1) mod 2 ^ (64 * length ws)"
    by (simp add: WideNeg_words_def WideAdd_word_value) (simp add: WideNot_words_def)
  then have "(wval (WideNeg_words ws) + wval ws) mod 2 ^ (64 * length ws)
      = (wval (WideNot_words ws) + wval ws + 1) mod 2 ^ (64 * length ws)"
    by (simp add: mod_simps add.commute add.left_commute)
  then show ?thesis by (simp only: WideNot_words_value) simp
qed

lemma WideNeg_words_length: "length (WideNeg_words ws) = length ws"
  by (simp add: WideNeg_words_def WideAdd_word_length WideNot_words_def)

section \<open>Multiplication\<close>

lemma unat_less_32: "unat w < 2 ^ 32" for w :: u32
  by (rule unat_less_u32)

lemma unat_ucast_32_64: "unat (ucast w :: u64) = unat w" for w :: u32
  by (simp add: unsigned_ucast_eq take_bit_nat_eq_self_iff order_less_le_trans[OF unat_less_u32])

lemma GetLoHi_value: "unat x = unat (lo (GetLoHi x)) + 2 ^ 32 * unat (hi (GetLoHi x))"
proof -
  have "unat (lo (GetLoHi x)) = unat x mod 2 ^ 32"
    by (simp add: GetLoHi_def unsigned_ucast_eq take_bit_eq_mod)
  moreover have "unat x div 2 ^ 32 < 2 ^ 32"
    using unat_less_u64[of x] by (simp add: div_less_iff_less_mult)
  then have "unat (hi (GetLoHi x)) = unat x div 2 ^ 32"
    using take_bit_nat_eq_self_iff[of 32 "unat x div 2 ^ 32"] drop_bit_eq_div[of 32 "unat x"]
    by (simp add: GetLoHi_def unsigned_ucast_eq unat_drop_bit_eq)
  ultimately show ?thesis by simp
qed

lemma CombineLoHi_value: "unat (CombineLoHi h) = unat (lo h) + 2 ^ 32 * unat (hi h)"
proof -
  have b: "unat (hi h) * 2 ^ 32 + unat (lo h) < 2 ^ 64"
    using unat_less_32[of "hi h"] unat_less_32[of "lo h"] by simp
  have "unat (push_bit 32 (ucast (hi h) :: u64)) = unat (hi h) * 2 ^ 32"
    using b take_bit_nat_eq_self_iff[of 64 "unat (hi h) * 2 ^ 32"] push_bit_eq_mult[of 32 "unat (hi h)"]
    by (simp add: unsigned_push_bit_eq unat_ucast_32_64)
  then show ?thesis
    using b by (simp add: CombineLoHi_def unat_word_ariths unat_ucast_32_64 take_bit_nat_eq_self_iff)
qed

lemma mul_halves_value: "unat (ucast a * ucast b :: u64) = unat a * unat b" for a b :: u32
proof -
  have "unat a * unat b \<le> (2 ^ 32 - 1) * (2 ^ 32 - 1)"
    using unat_less_32[of a] unat_less_32[of b] by (intro mult_le_mono) simp_all
  then show ?thesis by (simp add: unat_word_ariths unat_ucast_32_64 take_bit_nat_eq_self_iff)
qed

lemma halves_product:
  fixes a0 a1 b0 b1 B :: nat
  shows "(a0 + B * a1) * (b0 + B * b1) = a0 * b0 + B * (a0 * b1 + a1 * b0) + B * B * (a1 * b1)"
  by (simp add: algebra_simps)

lemma MulOverflow_value:
  assumes "MulOverflow src0 src1 = (ov, res)"
  shows "unat res + 2 ^ 64 * unat ov =
    (unat (lo src0) + 2 ^ 32 * unat (hi src0)) * (unat (lo src1) + 2 ^ 32 * unat (hi src1))"
proof -
  define p00 where "p00 = GetLoHi (ucast (lo src0) * ucast (lo src1))"
  define p01 where "p01 = GetLoHi (ucast (lo src0) * ucast (hi src1))"
  define p10 where "p10 = GetLoHi (ucast (hi src0) * ucast (lo src1))"
  define p11 where "p11 = GetLoHi (ucast (hi src0) * ucast (hi src1))"
  obtain h1 c1 where a1: "AddCarry (hi p00) (lo p01) = (h1, c1)" by force
  obtain h2 c2 where a2: "AddCarry h1 (lo p10) = (h2, c2)" by force
  obtain o1 c3 where a3: "AddCarry (of_nat (c1 + c2)) (hi p01) = (o1, c3)" by force
  obtain o2 c4 where a4: "AddCarry o1 (hi p10) = (o2, c4)" by force
  obtain o3 c5 where a5: "AddCarry o2 (lo p11) = (o3, c5)" by force
  have ov: "ov = CombineLoHi \<lparr>lo = o3, hi = hi p11 + of_nat (c3 + c4 + c5)\<rparr>"
    and res: "res = CombineLoHi \<lparr>lo = lo p00, hi = h2\<rparr>"
    using assms a1 a2 a3 a4 a5 by (simp_all add: MulOverflow_def Let_def p00_def p01_def p10_def p11_def)
  have P: "unat (lo p00) + 2 ^ 32 * unat (hi p00) = unat (lo src0) * unat (lo src1)"
    "unat (lo p01) + 2 ^ 32 * unat (hi p01) = unat (lo src0) * unat (hi src1)"
    "unat (lo p10) + 2 ^ 32 * unat (hi p10) = unat (hi src0) * unat (lo src1)"
    "unat (lo p11) + 2 ^ 32 * unat (hi p11) = unat (hi src0) * unat (hi src1)"
    unfolding p00_def p01_def p10_def p11_def using GetLoHi_value mul_halves_value by metis+
  note A = AddCarry_eq[OF a1] AddCarry_eq[OF a2] AddCarry_eq[OF a3] AddCarry_eq[OF a4] AddCarry_eq[OF a5]
  have c12: "unat (of_nat (c1 + c2) :: u32) = c1 + c2" by (rule u32_of_nat_unat) (use A in simp)
  define T where "T = (unat (lo src0) + 2 ^ 32 * unat (hi src0)) * (unat (lo src1) + 2 ^ 32 * unat (hi src1))"
  define C where "C = c3 + c4 + c5"
  have T: "T = unat (lo p00) + 2 ^ 32 * unat h2 + 2 ^ 64 * unat o3 + 2 ^ 96 * (unat (hi p11) + C)"
    unfolding T_def halves_product P[symmetric] using A c12 by (simp add: C_def)
  have "T \<le> (2 ^ 64 - 1) * (2 ^ 64 - 1)"
    unfolding T_def using unat_less_32[of "lo src0"] unat_less_32[of "hi src0"]
      unat_less_32[of "lo src1"] unat_less_32[of "hi src1"]
    by (intro mult_le_mono) simp_all
  then have "unat (hi p11) + C < 2 ^ 32" using T by simp
  then have "unat (hi p11 + of_nat C) = unat (hi p11) + C"
    using u32_of_nat_unat[of C] by (simp add: unat_word_ariths take_bit_nat_eq_self_iff)
  then have "unat res + 2 ^ 64 * unat ov = T"
    unfolding ov res C_def[symmetric] CombineLoHi_value T by simp
  then show ?thesis by (simp add: T_def)
qed

lemma MulOverflow_words:
  "MulOverflow (GetLoHi x) (GetLoHi y) = (ov, res) \<Longrightarrow> unat res + 2 ^ 64 * unat ov = unat x * unat y"
  using MulOverflow_value GetLoHi_value by metis

lemma base64_Suc: "base64 (Suc n) = 2 ^ 64 * base64 n"
  by (simp only: base64_def pow_block)

lemma base64_add: "base64 (m + n) = base64 m * base64 n"
  by (simp add: base64_def power_add add_mult_distrib2)

lemma wval_sum: "wval ws = (\<Sum>i < length ws. base64 i * unat (ws ! i))" for ws :: "u64 list"
proof (induction ws)
  case (Cons w ws)
  have "(\<Sum>i < length (w # ws). base64 i * unat ((w # ws) ! i))
      = base64 0 * unat w + (\<Sum>i < length ws. base64 (Suc i) * unat (ws ! i))"
    by (simp only: list.size add_0_right add_Suc_right One_nat_def sum.lessThan_Suc_shift) simp
  also have "(\<Sum>i < length ws. base64 (Suc i) * unat (ws ! i)) = 2 ^ 64 * wval ws"
    unfolding Cons sum_distrib_left base64_Suc by (simp only: mult.assoc)
  finally show ?case by (simp add: base64_def)
qed simp

lemma wval_update:
  "k < length ws \<Longrightarrow> wval (ws[k := w]) + base64 k * unat (ws ! k) = wval ws + base64 k * unat w"
  for ws :: "u64 list"
proof (induction ws arbitrary: k)
  case (Cons v ws)
  show ?case
  proof (cases k)
    case (Suc j)
    then have "wval (ws[j := w]) + base64 j * unat (ws ! j) = wval ws + base64 j * unat w"
      using Cons by simp
    then have "2 ^ 64 * (wval (ws[j := w]) + base64 j * unat (ws ! j)) = 2 ^ 64 * (wval ws + base64 j * unat w)"
      by simp
    then show ?thesis using Suc by (simp only: list_update_code nth_Cons_Suc wval_cons64 base64_Suc add_mult_distrib2 mult.assoc)
  qed (simp add: base64_def)
qed simp

lemma mul_carry_loop_length: "length (mul_carry_loop dst j n c) = length dst"
  by (induction dst j n c rule: mul_carry_loop.induct) (auto split: prod.splits)

lemma carry_at:
  fixes dst :: "u64 list"
  assumes "k < length dst" "unat w + 2 ^ 64 * c = unat (dst ! k) + x"
  shows "wval (dst[k := w]) + base64 (Suc k) * c = wval dst + base64 k * x"
proof -
  have "base64 k * (unat w + 2 ^ 64 * c) = base64 k * (unat (dst ! k) + x)" using assms(2) by simp
  then have "base64 k * unat w + base64 (Suc k) * c = base64 k * unat (dst ! k) + base64 k * x"
    by (simp only: add_mult_distrib2 base64_Suc mult.left_commute mult.commute mult.assoc)
  then show ?thesis using wval_update[OF assms(1), of w] by linarith
qed

lemma mul_carry_loop_value:
  "j + n = length dst \<Longrightarrow> c < 2 ^ 64 \<Longrightarrow>
     \<exists>q. wval (mul_carry_loop dst j n c) + base64 (length dst) * q = wval dst + base64 j * c"
proof (induction dst j n c rule: mul_carry_loop.induct)
  case (1 dst j c)
  then show ?case by auto
next
  case (2 dst j n c)
  show ?case
  proof (cases "c = 0")
    case False
    obtain w c' where ac: "AddCarry (dst ! j) (of_nat c) = (w, c')" by force
    have s: "unat w + 2 ^ 64 * c' = unat (dst ! j) + c" "c' \<le> 1"
      using AddCarry_eq[OF ac] u64_of_nat_unat[OF 2(3)] by auto
    have upd: "wval (dst[j := w]) + base64 (Suc j) * c' = wval dst + base64 j * c"
      by (rule carry_at) (use 2(2) s(1) in auto)
    obtain q where "wval (mul_carry_loop (dst[j := w]) (Suc j) n c') + base64 (length dst) * q
        = wval (dst[j := w]) + base64 (Suc j) * c'"
      using 2(1)[OF False ac[symmetric] refl] 2(2) s(2) by auto
    then show ?thesis using upd ac False by auto
  qed (auto intro: exI[of _ 0])
qed

lemma MulPart_step_length: "length (MulPart_step dst s m k) = length dst"
  by (auto simp: MulPart_step_def Let_def mul_carry_loop_length split: prod.splits)

lemma MulPart_step_value:
  assumes "k < length dst"
  shows "\<exists>q. wval (MulPart_step dst s m k) + base64 (length dst) * q = wval dst + base64 k * (unat s * unat m)"
proof -
  obtain ov res where mo: "MulOverflow (GetLoHi s) (GetLoHi m) = (ov, res)" by force
  obtain w c where a0: "AddCarry (dst ! k) res = (w, c)" by force
  define d where "d = dst[k := w]"
  have m: "unat res + 2 ^ 64 * unat ov = unat s * unat m" by (rule MulOverflow_words[OF mo])
  have e0: "wval d + base64 (Suc k) * c = wval dst + base64 k * unat res"
    unfolding d_def by (rule carry_at[OF assms]) (use AddCarry_eq[OF a0] in simp)
  have tot: "wval dst + base64 k * (unat s * unat m) = wval d + base64 (Suc k) * (c + unat ov)"
    using e0 unfolding m[symmetric] by (simp add: add_mult_distrib2 base64_Suc mult.assoc mult.left_commute)
  show ?thesis
  proof (cases "k + 1 < length dst")
    case True
    obtain w1 c1 where a1: "AddCarry (d ! (k + 1)) (of_nat c) = (w1, c1)" by force
    obtain w2 c2 where a2: "AddCarry w1 ov = (w2, c2)" by force
    have "unat (of_nat c :: u64) = c" by (rule u64_of_nat_unat) (use AddCarry_eq[OF a0] in simp)
    then have "unat w2 + 2 ^ 64 * (c1 + c2) = unat (d ! (k + 1)) + (c + unat ov)"
      using AddCarry_eq[OF a1] AddCarry_eq[OF a2] by simp
    then have e1: "wval (d[k + 1 := w2]) + base64 (Suc (k + 1)) * (c1 + c2) = wval d + base64 (k + 1) * (c + unat ov)"
      by (intro carry_at) (use True in \<open>simp_all add: d_def\<close>)
    have "c1 + c2 < 2 ^ 64" using AddCarry_eq[OF a1] AddCarry_eq[OF a2] by simp
    moreover have "k + 2 + (length dst - (k + 2)) = length (d[k + 1 := w2])" using True by (simp add: d_def)
    ultimately obtain q where "wval (mul_carry_loop (d[k + 1 := w2]) (k + 2) (length dst - (k + 2)) (c1 + c2))
        + base64 (length dst) * q = wval (d[k + 1 := w2]) + base64 (k + 2) * (c1 + c2)"
      using mul_carry_loop_value[of "k + 2" "length dst - (k + 2)" "d[k + 1 := w2]" "c1 + c2"]
      by (metis d_def length_list_update)
    moreover have "MulPart_step dst s m k = mul_carry_loop (d[k + 1 := w2]) (k + 2) (length dst - (k + 2)) (c1 + c2)"
      using mo a0 a1 a2 True by (simp add: MulPart_step_def Let_def d_def)
    ultimately show ?thesis using e1 tot by auto
  next
    case False
    then have "length dst = Suc k" using assms by simp
    moreover have "MulPart_step dst s m k = d"
      using mo a0 False by (simp add: MulPart_step_def Let_def d_def)
    ultimately show ?thesis using tot by auto
  qed
qed

lemma fold_length: "(\<And>i xs. length (f i xs) = length xs) \<Longrightarrow> length (fold f is xs) = length xs"
  by (induction "is" arbitrary: xs) auto

lemma MulPart_length: "length (MulPart dst src m p) = length dst"
  unfolding MulPart_def by (intro fold_length MulPart_step_length)

lemma MulPart_prefix_value:
  assumes "p + n \<le> length dst"
  shows "\<exists>q. wval (fold (\<lambda>i dst. MulPart_step dst (src ! i) m (p + i)) [0..<n] dst) + base64 (length dst) * q
    = wval dst + (\<Sum>i < n. base64 (p + i) * (unat (src ! i) * unat m))"
  using assms
proof (induction n)
  case (Suc n)
  let ?d = "fold (\<lambda>i dst. MulPart_step dst (src ! i) m (p + i)) [0..<n] dst"
  have len: "length ?d = length dst" by (intro fold_length MulPart_step_length)
  obtain q where q: "wval ?d + base64 (length dst) * q
      = wval dst + (\<Sum>i < n. base64 (p + i) * (unat (src ! i) * unat m))"
    using Suc by auto
  obtain r where r: "wval (MulPart_step ?d (src ! n) m (p + n)) + base64 (length dst) * r
      = wval ?d + base64 (p + n) * (unat (src ! n) * unat m)"
    using MulPart_step_value[of "p + n" ?d "src ! n" m] Suc.prems len by auto
  have "wval (MulPart_step ?d (src ! n) m (p + n)) + base64 (length dst) * (q + r)
      = wval dst + (\<Sum>i < Suc n. base64 (p + i) * (unat (src ! i) * unat m))"
    using q r by (simp add: add_mult_distrib2)
  then show ?case by auto
qed (auto intro: exI[of _ 0])

lemma mod_eqI: "a + M * q = b \<Longrightarrow> a mod M = b mod M" for a b M q :: nat
  by (metis mod_mult_self2)

lemma MulPart_value:
  assumes "length src = length dst" "p \<le> length dst"
  shows "wval (MulPart dst src m p) mod base64 (length dst)
    = (wval dst + base64 p * (wval src * unat m)) mod base64 (length dst)"
proof -
  let ?n = "length dst - p"
  let ?t = "\<lambda>i. base64 (p + i) * (unat (src ! i) * unat m)"
  have "{..<length dst} = {..<?n} \<union> {?n..<length dst}" by auto
  then have "(\<Sum>i < length dst. ?t i) = (\<Sum>i < ?n. ?t i) + (\<Sum>i = ?n..<length dst. ?t i)"
    using sum.union_disjoint[of "{..<?n}" "{?n..<length dst}" ?t] by (simp add: ivl_disj_int)
  moreover have "(\<Sum>i < length dst. ?t i) = base64 p * (wval src * unat m)"
    by (simp add: wval_sum assms(1) sum_distrib_left sum_distrib_right base64_add mult.assoc)
  moreover have "base64 (length dst) dvd (\<Sum>i = ?n..<length dst. ?t i)"
  proof (rule dvd_sum)
    fix i assume "i \<in> {?n..<length dst}"
    then have "p + i = length dst + (p + i - length dst)" by auto
    then show "base64 (length dst) dvd ?t i" by (metis base64_add dvd_mult2 dvd_triv_left)
  qed
  then obtain z where "(\<Sum>i = ?n..<length dst. ?t i) = base64 (length dst) * z" by (rule dvdE)
  ultimately have total: "(wval dst + (\<Sum>i < ?n. ?t i)) + base64 (length dst) * z
      = wval dst + base64 p * (wval src * unat m)" by simp
  obtain q where "wval (MulPart dst src m p) + base64 (length dst) * q = wval dst + (\<Sum>i < ?n. ?t i)"
    using MulPart_prefix_value[of p ?n dst src m] assms(2) by (auto simp: MulPart_def)
  from mod_eqI[OF this] mod_eqI[OF total] show ?thesis by simp
qed

lemma WideMul_words_length: "length (WideMul_words src0 src1) = length src0"
  unfolding WideMul_words_def Let_def
  by (subst fold_length) (auto simp: MulPart_length)

lemma WideMul_words_value:
  assumes "length src1 = length src0"
  shows "wval (WideMul_words src0 src1) = (wval src0 * wval src1) mod 2 ^ (64 * length src0)"
proof -
  let ?N = "length src0"
  let ?d = "\<lambda>n. fold (\<lambda>i dst. MulPart dst src0 (src1 ! i) i) [0..<n] (replicate ?N 0)"
  have len: "length (?d n) = ?N" for n by (subst fold_length) (auto simp: MulPart_length)
  have "wval (?d n) mod base64 ?N = (\<Sum>i < n. base64 i * (wval src0 * unat (src1 ! i))) mod base64 ?N"
    if "n \<le> ?N" for n
    using that
  proof (induction n)
    case 0
    have "wval (replicate k (0 :: u64)) = 0" for k by (induction k) simp_all
    then show ?case by simp
  next
    case (Suc n)
    have "wval (?d (Suc n)) mod base64 ?N
        = (wval (?d n) + base64 n * (wval src0 * unat (src1 ! n))) mod base64 ?N"
      using MulPart_value[of src0 "?d n" n "src1 ! n"] Suc.prems len by simp
    also have "\<dots> = ((\<Sum>i < n. base64 i * (wval src0 * unat (src1 ! i))) + base64 n * (wval src0 * unat (src1 ! n))) mod base64 ?N"
      by (rule mod_add_cong) (use Suc in simp_all)
    finally show ?case by simp
  qed
  from this[of ?N] have "wval (WideMul_words src0 src1) mod base64 ?N = (wval src0 * wval src1) mod base64 ?N"
    by (simp add: WideMul_words_def Let_def wval_sum[of src1] assms sum_distrib_left mult.left_commute)
  then show ?thesis
    using wval_bound[of "WideMul_words src0 src1"] by (simp add: base64_def WideMul_words_length)
qed

section \<open>Comparison\<close>

lemma compare_loop_value:
  fixes lhs rhs :: "u64 list"
  assumes "n \<le> length lhs" "n \<le> length rhs"
  shows "compare_loop lhs rhs n =
    (if wval (take n lhs) < wval (take n rhs) then - 1 else if wval (take n lhs) > wval (take n rhs) then 1 else 0)"
  using assms
proof (induction n)
  case (Suc n)
  have snoc: "wval (take (Suc n) xs) = wval (take n xs) + base64 n * unat (xs ! n)" if "n < length xs" for xs :: "u64 list"
    using that by (simp add: wval_sum)
  have bound: "wval (take n xs) < base64 n" if "n < length xs" for xs :: "u64 list"
    using wval_bound[of "take n xs"] that by (simp add: base64_def min_absorb2)
  have gt: "wval (take (Suc n) xs) < wval (take (Suc n) ys)"
    if "n < length xs" "n < length ys" "unat (xs ! n) < unat (ys ! n)" for xs ys :: "u64 list"
  proof -
    have "base64 n * (unat (xs ! n) + 1) \<le> base64 n * unat (ys ! n)" using that(3) by (intro mult_le_mono2) simp
    then show ?thesis using snoc[OF that(1)] snoc[OF that(2)] bound[OF that(1)] by (simp add: add_mult_distrib2)
  qed
  have n: "n < length lhs" "n < length rhs" using Suc.prems by simp_all
  consider "lhs ! n < rhs ! n" | "lhs ! n > rhs ! n" | "lhs ! n = rhs ! n" by (rule linorder_cases)
  then show ?case
  proof cases
    case 3
    then show ?thesis using Suc n by (simp add: snoc)
  qed (use gt[of lhs rhs] gt[of rhs lhs] n in \<open>auto simp: word_less_nat_alt\<close>)
qed simp

section \<open>Bits of an array\<close>

lemma bit_block:
  fixes a b :: nat
  assumes "a < 2 ^ n"
  shows "bit (a + 2 ^ n * b) i \<longleftrightarrow> (if i < n then bit a i else bit b (i - n))"
proof (cases "i < n")
  case True
  have "take_bit n (a + 2 ^ n * b) = a" using assms by (simp add: take_bit_eq_mod)
  then show ?thesis using True by (metis bit_take_bit_iff)
next
  case False
  have "drop_bit n (a + 2 ^ n * b) = b" using assms by (simp add: drop_bit_eq_div)
  then show ?thesis using False by (metis bit_drop_bit_eq comp_apply le_add_diff_inverse not_less)
qed

lemma bit_wval: "bit (wval ws) i \<longleftrightarrow> words_bit ws i" for ws :: "u64 list"
proof (induction ws arbitrary: i)
  case (Cons w ws)
  have "bit (wval (w # ws)) i \<longleftrightarrow> (if i < 64 then bit (unat w) i else bit (wval ws) (i - 64))"
    unfolding wval_cons64 by (rule bit_block[OF unat_less_u64])
  then show ?case by (simp add: Cons words_bit_Cons bit_unsigned_iff)
qed (simp add: words_bit_def)

lemma wval_map2_bits:
  fixes ws vs :: "u64 list" and f :: "u64 \<Rightarrow> u64 \<Rightarrow> u64"
  assumes "length ws = length vs"
    and "\<And>a b j. j < 64 \<Longrightarrow> bit (f a b) j \<longleftrightarrow> P (bit a j) (bit b j)" "\<not> P False False"
    and "\<And>m n j. bit (g m n) j \<longleftrightarrow> P (bit m j) (bit n j)"
  shows "wval (map2 f ws vs) = (g (wval ws) (wval vs) :: nat)"
  by (rule bit_eqI) (simp add: bit_wval words_bit_map2[of ws vs f P] assms)

lemma WideBitwise_value:
  assumes "length ws = length vs"
  shows "wval (WideAnd_words ws vs) = wval ws AND wval vs"
    and "wval (WideOr_words ws vs) = wval ws OR wval vs"
    and "wval (WideXor_words ws vs) = wval ws XOR wval vs"
  unfolding WideAnd_words_def WideOr_words_def WideXor_words_def
  by (rule wval_map2_bits[where P = "\<lambda>a b. a \<and> b"] wval_map2_bits[where P = "\<lambda>a b. a \<or> b"]
      wval_map2_bits[where P = "\<lambda>a b. a \<noteq> b"]; simp add: assms bit_simps)+

end
