(* ===== verification/Int_Val.thy ===== *)
theory Int_Val
  imports Int_Val_Wide Prim_Type "HOL-Library.Signed_Division"
begin

text \<open>
  The arbitrary-width integers of the constant folder and the optimisations, the class \<open>IntVal\<close> of
  \<^verbatim>\<open>src/src/mapleall/maple_util/include/mpl_int_val.h\<close> and the members it has in
  \<^verbatim>\<open>src/src/mapleall/maple_util/src/mpl_int_val.cpp\<close>.

  A value is its width, its signedness and the union \<open>u\<close>: one word when the width is at most 64, an
  owned array otherwise. Widths and counts are numbers; the narrowing of the \<open>uint8\<close> and \<open>uint16\<close>
  variables is written out. Every member function that contains an \<open>ASSERT\<close>, a \<open>CHECK_FATAL\<close>, a shift
  or an access to the union returns an option: \<open>None\<close> is a failed assertion, a shift by 64 or more,
  the inactive member of the union, or an access outside an array. An \<open>int64\<close> is an integer, its
  conversion to \<open>uint64\<close> being \<^term>\<open>word_of_int\<close>. The pointer size of the target, on which the
  width of a primitive type may depend, is the argument \<open>ps\<close>.
\<close>

unbundle bit_operations_syntax

section \<open>Data, storage and truncation\<close>

datatype storage = Value u64 | PValue "u64 list"

record IntVal =
  iv_width :: nat
  iv_sign :: bool
  iv_u :: storage

definition kWordBitSize :: nat where
  "kWordBitSize = 64"

definition kAllOnes :: u64 where
  "kAllOnes = - 1"

definition u_value :: "IntVal \<Rightarrow> u64 option" where
  "u_value v = (case iv_u v of Value x \<Rightarrow> Some x | PValue ws \<Rightarrow> None)"

definition u_pValue :: "IntVal \<Rightarrow> u64 list option" where
  "u_pValue v = (case iv_u v of Value x \<Rightarrow> None | PValue ws \<Rightarrow> Some ws)"

definition word_at :: "u64 list \<Rightarrow> nat \<Rightarrow> u64 option" where
  "word_at ws i = (if i < length ws then Some (ws ! i) else None)"

definition GetNumWords :: "nat \<Rightarrow> nat" where
  "GetNumWords bitWidth = (bitWidth + kWordBitSize - 1) div kWordBitSize mod 2 ^ 8"

definition WordNumber :: "nat \<Rightarrow> nat" where
  "WordNumber bitPos = bitPos div kWordBitSize"

definition BitNumber :: "nat \<Rightarrow> nat" where
  "BitNumber bitPos = bitPos mod kWordBitSize"

definition IsOneWord :: "IntVal \<Rightarrow> bool" where
  "IsOneWord v \<longleftrightarrow> iv_width v \<le> kWordBitSize"

definition Iv_default :: IntVal where
  "Iv_default = \<lparr>iv_width = 0, iv_sign = False, iv_u = Value 0\<rparr>"

definition WideInit_val :: "u64 \<Rightarrow> IntVal \<Rightarrow> IntVal option" where
  "WideInit_val val v =
     (let numWords = GetNumWords (iv_width v);
          filler = (if iv_sign v \<and> sint val < 0 then - 1 else 0)
      in do {
        iv_assert (numWords \<noteq> 0);
        Some (v\<lparr>iv_u := PValue (val # replicate (numWords - 1) filler)\<rparr>)
      })"

definition WideInit_ptr :: "u64 list \<Rightarrow> IntVal \<Rightarrow> IntVal option" where
  "WideInit_ptr ws v =
     (let numWords = GetNumWords (iv_width v)
      in do {
        iv_assert (numWords \<le> length ws);
        Some (v\<lparr>iv_u := PValue (take numWords ws)\<rparr>)
      })"

definition Init_val :: "u64 \<Rightarrow> IntVal \<Rightarrow> IntVal option" where
  "Init_val val v = (if IsOneWord v then Some (v\<lparr>iv_u := Value val\<rparr>) else WideInit_val val v)"

definition Init_ptr :: "u64 list \<Rightarrow> IntVal \<Rightarrow> IntVal option" where
  "Init_ptr ws v =
     (if IsOneWord v then do { w \<leftarrow> word_at ws 0; Some (v\<lparr>iv_u := Value w\<rparr>) } else WideInit_ptr ws v)"

definition Init_storage :: "IntVal \<Rightarrow> IntVal \<Rightarrow> IntVal option" where
  "Init_storage src v =
     (if \<not> IsOneWord src then do { ws \<leftarrow> u_pValue src; Init_ptr ws v }
      else do { x \<leftarrow> u_value src; Init_val x v })"

text \<open>\<open>TruncInPlace\<close> with its default argument 0 truncates to the width of the value; the wide branch
  takes the width only when an argument is given, as the source does.\<close>

definition TruncInPlace :: "nat \<Rightarrow> IntVal \<Rightarrow> IntVal option" where
  "TruncInPlace bitWidth v = do {
     iv_assert (bitWidth \<le> iv_width v \<or> bitWidth = 0);
     iv_assert (bitWidth = 0 \<or> iv_width v = 0 \<or> GetNumWords (iv_width v) = GetNumWords bitWidth);
     v \<leftarrow> (if IsOneWord v
           then do {
             let truncWidth = (if bitWidth \<noteq> 0 then bitWidth else iv_width v);
             m \<leftarrow> shr_word kAllOnes (kWordBitSize - truncWidth);
             x \<leftarrow> u_value v;
             Some (v\<lparr>iv_u := Value (x AND m)\<rparr>)
           }
           else do {
             let truncWidth = (if bitWidth = 0 then bitWidth else iv_width v);
             let lastWord = GetNumWords (iv_width v) - 1;
             ws \<leftarrow> u_pValue v;
             w \<leftarrow> word_at ws lastWord;
             m \<leftarrow> shr_word kAllOnes (truncWidth mod kWordBitSize);
             Some (v\<lparr>iv_u := PValue (ws[lastWord := w AND m])\<rparr>)
           });
     Some (if bitWidth \<noteq> 0 then v\<lparr>iv_width := bitWidth\<rparr> else v)
   }"

section \<open>Construction and assignment\<close>

definition Iv_of_val :: "u64 \<Rightarrow> nat \<Rightarrow> bool \<Rightarrow> IntVal option" where
  "Iv_of_val val bitWidth isSigned = do {
     v \<leftarrow> Init_val val \<lparr>iv_width = bitWidth, iv_sign = isSigned, iv_u = Value 0\<rparr>;
     TruncInPlace 0 v
   }"

definition Iv_of_ptr :: "u64 list \<Rightarrow> nat \<Rightarrow> bool \<Rightarrow> IntVal option" where
  "Iv_of_ptr ws bitWidth isSigned = do {
     v \<leftarrow> Init_ptr ws \<lparr>iv_width = bitWidth, iv_sign = isSigned, iv_u = Value 0\<rparr>;
     TruncInPlace 0 v
   }"

definition Iv_of_val_type :: "nat \<Rightarrow> u64 \<Rightarrow> PrimType \<Rightarrow> IntVal option" where
  "Iv_of_val_type ps val t = do {
     v \<leftarrow> Iv_of_val val (GetPrimTypeActualBitSize ps t) (IsSignedInteger t);
     iv_assert (IsPrimitiveInteger t \<or> IsPrimitiveVectorInteger t);
     Some v
   }"

definition Iv_of_iv :: "IntVal \<Rightarrow> nat \<Rightarrow> bool \<Rightarrow> IntVal option" where
  "Iv_of_iv val bitWidth isSigned = do {
     v \<leftarrow> Init_storage val \<lparr>iv_width = bitWidth, iv_sign = isSigned, iv_u = Value 0\<rparr>;
     TruncInPlace 0 v
   }"

definition Iv_of_iv_type :: "nat \<Rightarrow> IntVal \<Rightarrow> PrimType \<Rightarrow> IntVal option" where
  "Iv_of_iv_type ps val t = do {
     iv_assert (IsPrimitiveInteger t);
     v \<leftarrow> Init_storage val
       \<lparr>iv_width = GetPrimTypeActualBitSize ps t, iv_sign = IsSignedInteger t, iv_u = Value 0\<rparr>;
     TruncInPlace 0 v
   }"

definition Iv_resign :: "IntVal \<Rightarrow> bool \<Rightarrow> IntVal option" where
  "Iv_resign val isSigned =
     Init_storage val \<lparr>iv_width = iv_width val, iv_sign = isSigned, iv_u = Value 0\<rparr>"

definition Iv_copy :: "IntVal \<Rightarrow> IntVal option" where
  "Iv_copy val = do {
     v \<leftarrow> Init_storage val \<lparr>iv_width = iv_width val, iv_sign = iv_sign val, iv_u = Value 0\<rparr>;
     TruncInPlace 0 v
   }"

text \<open>The move operations return the new value and what is left of the source.\<close>

definition Iv_move :: "IntVal \<Rightarrow> IntVal \<times> IntVal" where
  "Iv_move val = (val, val\<lparr>iv_width := 0\<rparr>)"

definition Assign :: "IntVal \<Rightarrow> IntVal \<Rightarrow> IntVal option" where
  "Assign v other = Init_storage other (v\<lparr>iv_width := iv_width other, iv_sign := iv_sign other\<rparr>)"

definition Iv_copy_assign :: "bool \<Rightarrow> IntVal \<Rightarrow> IntVal \<Rightarrow> IntVal option" where
  "Iv_copy_assign self v other =
     (if self then Some v
      else do {
        (if iv_width v = 0 then Some ()
         else iv_assert (iv_width v = iv_width other \<and> iv_sign v = iv_sign other));
        Assign v other
      })"

definition Iv_move_assign :: "bool \<Rightarrow> IntVal \<Rightarrow> IntVal \<Rightarrow> (IntVal \<times> IntVal) option" where
  "Iv_move_assign self v other =
     (if self then Some (v, v)
      else do {
        v \<leftarrow> (if iv_width v = 0 then Some (v\<lparr>iv_width := iv_width other, iv_sign := iv_sign other\<rparr>)
              else do { iv_assert (iv_width v = iv_width other \<and> iv_sign v = iv_sign other); Some v });
        Some (v\<lparr>iv_u := iv_u other\<rparr>, other\<lparr>iv_width := 0\<rparr>)
      })"

definition Iv_assign_val :: "u64 \<Rightarrow> IntVal \<Rightarrow> IntVal option" where
  "Iv_assign_val other v = do {
     iv_assert (iv_width v \<noteq> 0);
     v \<leftarrow> Init_val other v;
     TruncInPlace 0 v
   }"

section \<open>Bits\<close>

definition GetBit :: "nat \<Rightarrow> IntVal \<Rightarrow> bool option" where
  "GetBit b v = do {
     iv_assert (b < iv_width v);
     if IsOneWord v then do {
       x \<leftarrow> u_value v;
       m \<leftarrow> shl_word 1 b;
       Some (x AND m \<noteq> 0)
     } else do {
       ws \<leftarrow> u_pValue v;
       w \<leftarrow> word_at ws ((GetNumWords (b + 1) - 1) mod 2 ^ 8);
       m \<leftarrow> shl_word 1 (b mod kWordBitSize);
       Some (w AND m \<noteq> 0)
     }
   }"

definition GetSignBit :: "IntVal \<Rightarrow> bool option" where
  "GetSignBit v = GetBit (nat ((int (iv_width v) - 1) mod 2 ^ 16)) v"

definition SetBit :: "nat \<Rightarrow> IntVal \<Rightarrow> IntVal option" where
  "SetBit b v = do {
     iv_assert (b < iv_width v);
     m \<leftarrow> shl_word 1 (b mod kWordBitSize);
     if IsOneWord v then do {
       x \<leftarrow> u_value v;
       Some (v\<lparr>iv_u := Value (x OR m)\<rparr>)
     } else do {
       ws \<leftarrow> u_pValue v;
       let i = GetNumWords (b + 1) - 1;
       w \<leftarrow> word_at ws i;
       Some (v\<lparr>iv_u := PValue (ws[i := w OR m])\<rparr>)
     }
   }"

definition SetSignBit :: "IntVal \<Rightarrow> IntVal option" where
  "SetSignBit v = SetBit (nat ((int (iv_width v) - 1) mod 2 ^ 16)) v"

definition ClearBit :: "nat \<Rightarrow> IntVal \<Rightarrow> IntVal option" where
  "ClearBit b v = do {
     iv_assert (b < iv_width v);
     m \<leftarrow> shl_word 1 (b mod kWordBitSize);
     if IsOneWord v then do {
       x \<leftarrow> u_value v;
       Some (v\<lparr>iv_u := Value (x AND NOT m)\<rparr>)
     } else do {
       ws \<leftarrow> u_pValue v;
       let i = WordNumber b;
       w \<leftarrow> word_at ws i;
       Some (v\<lparr>iv_u := PValue (ws[i := w AND NOT m])\<rparr>)
     }
   }"

definition WideSetBits :: "nat \<Rightarrow> nat \<Rightarrow> IntVal \<Rightarrow> IntVal option" where
  "WideSetBits low high v = do {
     let lWord = WordNumber low;
     let hWord = WordNumber high;
     ws \<leftarrow> u_pValue v;
     lMask \<leftarrow> shl_word kAllOnes (BitNumber low);
     (lMask, ws) \<leftarrow>
       (if BitNumber high \<noteq> 0 then do {
          hMask \<leftarrow> shr_word kAllOnes (kWordBitSize - BitNumber high);
          if lWord = hWord then Some (lMask AND hMask, ws)
          else do { w \<leftarrow> word_at ws hWord; Some (lMask, ws[hWord := w OR hMask]) }
        } else Some (lMask, ws));
     w \<leftarrow> word_at ws lWord;
     let ws = ws[lWord := w OR lMask];
     iv_assert (hWord \<le> length ws);
     Some (v\<lparr>iv_u := PValue (fold (\<lambda>i ws. ws[i := kAllOnes]) [lWord + 1..<hWord] ws)\<rparr>)
   }"

definition SetBits :: "nat \<Rightarrow> nat \<Rightarrow> IntVal \<Rightarrow> IntVal option" where
  "SetBits low high v = do {
     iv_assert (high \<le> iv_width v);
     iv_assert (low \<le> iv_width v);
     iv_assert (low \<le> high);
     if low = high then Some v
     else if low < kWordBitSize \<and> high \<le> kWordBitSize then do {
       m \<leftarrow> shr_word kAllOnes (kWordBitSize - (high - low));
       m \<leftarrow> shl_word m low;
       if IsOneWord v then do { x \<leftarrow> u_value v; Some (v\<lparr>iv_u := Value (x OR m)\<rparr>) }
       else do { ws \<leftarrow> u_pValue v; w \<leftarrow> word_at ws 0; Some (v\<lparr>iv_u := PValue (ws[0 := w OR m])\<rparr>) }
     }
     else WideSetBits low high v
   }"

section \<open>Counting\<close>

fun clo_loop :: "u64 list \<Rightarrow> nat \<Rightarrow> nat \<Rightarrow> nat" where
  "clo_loop ws 0 count = count + word_CountLeadingOnes (ws ! 0)"
| "clo_loop ws (Suc i) count =
     (let ones = word_CountLeadingOnes (ws ! Suc i); count = count + ones
      in if ones \<noteq> 0 then clo_loop ws i count else count)"

definition CountLeadingOnes :: "IntVal \<Rightarrow> nat option" where
  "CountLeadingOnes v = do {
     let startPos = iv_width v mod kWordBitSize;
     m \<leftarrow> (if startPos \<noteq> 0 then shl_word kAllOnes (kWordBitSize - startPos) else Some 0);
     if IsOneWord v then do {
       x \<leftarrow> u_value v;
       Some (word_CountLeadingOnes (x OR m) - startPos)
     } else do {
       ws \<leftarrow> u_pValue v;
       let i = GetNumWords (iv_width v) - 1;
       w \<leftarrow> word_at ws i;
       let ones = word_CountLeadingOnes (w OR m) - startPos;
       if ones = 0 then Some 0 else Some (clo_loop ws (i - 1) ones mod 2 ^ 16)
     }
   }"

definition CountTrallingOnes :: "IntVal \<Rightarrow> nat option" where
  "CountTrallingOnes v =
     (if IsOneWord v then do { x \<leftarrow> u_value v; Some (word_CountTrallingOnes x) }
      else do {
        ws \<leftarrow> u_pValue v;
        let i = length (takeWhile (\<lambda>w. w = kAllOnes) ws);
        let count = kWordBitSize * i + (if i < length ws then word_CountTrallingOnes (ws ! i) else 0);
        Some (min (count mod 2 ^ 16) (iv_width v))
      })"

fun clz_loop :: "u64 list \<Rightarrow> nat \<Rightarrow> nat \<Rightarrow> nat" where
  "clz_loop ws 0 count = count"
| "clz_loop ws (Suc i) count =
     (let zeros = word_CountLeadingZeros (ws ! i); count = count + zeros
      in if zeros \<noteq> kWordBitSize then count else clz_loop ws i count)"

definition CountLeadingZeros :: "IntVal \<Rightarrow> nat option" where
  "CountLeadingZeros v = do {
     let n = GetNumWords (iv_width v);
     let emptyBits = kWordBitSize * n - iv_width v;
     if IsOneWord v then do {
       x \<leftarrow> u_value v;
       Some (word_CountLeadingZeros x - emptyBits)
     } else do {
       ws \<leftarrow> u_pValue v;
       iv_assert (n \<le> length ws);
       let count = clz_loop ws n 0;
       iv_assert (count \<ge> emptyBits);
       Some (count - emptyBits)
     }
   }"

definition CountTrallingZeros :: "IntVal \<Rightarrow> nat option" where
  "CountTrallingZeros v =
     (if IsOneWord v then do { x \<leftarrow> u_value v; Some (word_CountTrallingZeros x) }
      else do {
        ws \<leftarrow> u_pValue v;
        let i = length (takeWhile (\<lambda>w. w = 0) ws);
        let count = kWordBitSize * i + (if i < length ws then word_CountTrallingZeros (ws ! i) else 0);
        Some (min (count mod 2 ^ 16) (iv_width v))
      })"

definition CountSignificantBits :: "IntVal \<Rightarrow> nat option" where
  "CountSignificantBits v = do {
     let minSignificantSize = (if iv_sign v then 2 else 1);
     n \<leftarrow> (if iv_sign v then do {
             s \<leftarrow> GetSignBit v;
             k \<leftarrow> (if s then CountLeadingOnes v else CountLeadingZeros v);
             Some (if k \<noteq> 0 then k - 1 else k)
           } else CountLeadingZeros v);
     iv_assert (iv_width v \<ge> n);
     Some (max (iv_width v - n) minSignificantSize)
   }"

definition popcount :: "u64 \<Rightarrow> nat" where
  "popcount w = length (filter (bit w) [0..<64])"

definition CountPopulation :: "IntVal \<Rightarrow> nat option" where
  "CountPopulation v =
     (if IsOneWord v then do { x \<leftarrow> u_value v; Some (popcount x) }
      else do { ws \<leftarrow> u_pValue v; Some (sum_list (map popcount ws) mod 2 ^ 16) })"

definition IsOneSignificantWord :: "IntVal \<Rightarrow> bool option" where
  "IsOneSignificantWord v =
     (if IsOneWord v then Some True
      else do { n \<leftarrow> CountSignificantBits v; Some (n \<le> kWordBitSize) })"

section \<open>Reading the value\<close>

definition GetRawData :: "IntVal \<Rightarrow> u64 list option" where
  "GetRawData v = (if IsOneWord v then do { x \<leftarrow> u_value v; Some [x] } else u_pValue v)"

definition low_word :: "IntVal \<Rightarrow> u64 option" where
  "low_word v = (if IsOneWord v then u_value v else do { ws \<leftarrow> u_pValue v; word_at ws 0 })"

definition GetZXTValue :: "nat \<Rightarrow> IntVal \<Rightarrow> u64 option" where
  "GetZXTValue sz v = do {
     one \<leftarrow> IsOneSignificantWord v;
     iv_assert one;
     value \<leftarrow> low_word v;
     iv_assert (kWordBitSize \<ge> sz);
     if sz \<noteq> 0 then do {
       y \<leftarrow> shl_word value (kWordBitSize - sz);
       shr_word y (kWordBitSize - sz)
     } else Some value
   }"

definition GetSXTValue :: "nat \<Rightarrow> IntVal \<Rightarrow> int option" where
  "GetSXTValue sz v = do {
     one \<leftarrow> IsOneSignificantWord v;
     iv_assert one;
     value \<leftarrow> low_word v;
     let bitWidth = (if sz \<noteq> 0 then sz else iv_width v mod 2 ^ 8);
     iv_assert (sz \<le> iv_width v);
     let shift = nat ((int kWordBitSize - int bitWidth) mod 2 ^ 8);
     value \<leftarrow> shl_word value shift;
     leadingOnes \<leftarrow> shl_word kAllOnes (if bitWidth < kWordBitSize then bitWidth else kWordBitSize - 1);
     if bitWidth \<noteq> 0 then do {
       s \<leftarrow> GetBit (bitWidth - 1) v;
       y \<leftarrow> shr_word value shift;
       Some (sint (if s then y OR leadingOnes else y))
     } else Some 0
   }"

definition GetExtValue :: "nat \<Rightarrow> IntVal \<Rightarrow> int option" where
  "GetExtValue sz v =
     (if iv_sign v then GetSXTValue sz v else do { x \<leftarrow> GetZXTValue sz v; Some (sint x) })"

definition AreAllBitsOne :: "IntVal \<Rightarrow> bool option" where
  "AreAllBitsOne v =
     (if IsOneWord v then do {
        x \<leftarrow> u_value v;
        m \<leftarrow> shr_word kAllOnes (kWordBitSize - iv_width v);
        Some (x = m)
      } else do { n \<leftarrow> CountTrallingOnes v; Some (n = iv_width v) })"

definition AreAllBitsZeros :: "IntVal \<Rightarrow> bool option" where
  "AreAllBitsZeros v =
     (if IsOneWord v then do { x \<leftarrow> u_value v; Some (x = 0) }
      else do { n \<leftarrow> CountTrallingZeros v; Some (n = iv_width v) })"

definition IsPowerOf2 :: "IntVal \<Rightarrow> bool option" where
  "IsPowerOf2 v =
     (if IsOneWord v then do { x \<leftarrow> u_value v; Some (x \<noteq> 0 \<and> x AND (x - 1) = 0) }
      else do { n \<leftarrow> CountPopulation v; Some (n = 1) })"

text \<open>\<open>uint64(1) << (width - 1)\<close>, undefined at width 0.\<close>

definition sign_mask :: "nat \<Rightarrow> u64 option" where
  "sign_mask w = (if w = 0 then None else shl_word 1 (w - 1))"

definition WideIsMaxValue :: "IntVal \<Rightarrow> bool option" where
  "WideIsMaxValue v = do {
     iv_assert (\<not> IsOneWord v);
     if iv_sign v then do {
       s \<leftarrow> GetSignBit v;
       n \<leftarrow> CountTrallingOnes v;
       Some (\<not> s \<and> n = iv_width v - 1)
     } else AreAllBitsOne v
   }"

definition WideIsMinValue :: "IntVal \<Rightarrow> bool option" where
  "WideIsMinValue v = do {
     iv_assert (\<not> IsOneWord v);
     if iv_sign v then do {
       s \<leftarrow> GetSignBit v;
       n \<leftarrow> CountTrallingZeros v;
       Some (s \<and> n = iv_width v - 1)
     } else AreAllBitsZeros v
   }"

definition IsMaxValue :: "IntVal \<Rightarrow> bool option" where
  "IsMaxValue v =
     (if IsOneWord v
      then if iv_sign v then do { x \<leftarrow> u_value v; m \<leftarrow> sign_mask (iv_width v); Some (x = m - 1) }
           else AreAllBitsOne v
      else WideIsMaxValue v)"

definition IsMinValue :: "IntVal \<Rightarrow> bool option" where
  "IsMinValue v =
     (if IsOneWord v
      then if iv_sign v then do { x \<leftarrow> u_value v; m \<leftarrow> sign_mask (iv_width v); Some (x = m) }
           else do { x \<leftarrow> u_value v; Some (x = 0) }
      else WideIsMinValue v)"

definition WideSetMaxValue :: "IntVal \<Rightarrow> IntVal option" where
  "WideSetMaxValue v = do {
     iv_assert (\<not> IsOneWord v);
     ws \<leftarrow> u_pValue v;
     let n = GetNumWords (iv_width v);
     iv_assert (0 < n \<and> n \<le> length ws);
     let ws = replicate n kAllOnes @ drop n ws;
     ws \<leftarrow> (if iv_sign v then do {
              m \<leftarrow> shr_word kAllOnes (iv_width v mod kWordBitSize + 1);
              Some (ws[n - 1 := m])
            } else Some ws);
     TruncInPlace 0 (v\<lparr>iv_u := PValue ws\<rparr>)
   }"

text \<open>The shift of \<open>WideSetMinValue\<close> is a C++ remainder, negative for widths above 63, narrowed to
  \<open>uint8\<close>.\<close>

definition WideSetMinValue :: "IntVal \<Rightarrow> IntVal option" where
  "WideSetMinValue v = do {
     iv_assert (\<not> IsOneWord v);
     ws \<leftarrow> u_pValue v;
     let n = GetNumWords (iv_width v);
     iv_assert (0 < n \<and> n \<le> length ws);
     let ws = replicate n 0 @ drop n ws;
     ws \<leftarrow> (if iv_sign v then do {
              let d = int kWordBitSize - (int (iv_width v) + 1);
              let rem = sgn d * (\<bar>d\<bar> mod int kWordBitSize);
              m \<leftarrow> shl_word 1 (nat (rem mod 2 ^ 8));
              Some (ws[n - 1 := m])
            } else Some ws);
     TruncInPlace 0 (v\<lparr>iv_u := PValue ws\<rparr>)
   }"

definition SetMaxValue :: "bool \<Rightarrow> nat \<Rightarrow> IntVal \<Rightarrow> IntVal option" where
  "SetMaxValue isSigned bitWidth v = do {
     iv_assert (IsOneWord v \<or> GetNumWords (iv_width v) = GetNumWords bitWidth);
     let v = v\<lparr>iv_sign := isSigned, iv_width := bitWidth\<rparr>;
     if IsOneWord v then do {
       x \<leftarrow> (if isSigned then do { m \<leftarrow> sign_mask bitWidth; Some (m - 1) }
             else shr_word kAllOnes (kWordBitSize - bitWidth));
       Some (v\<lparr>iv_u := Value x\<rparr>)
     } else WideSetMaxValue v
   }"

definition SetMinValue :: "bool \<Rightarrow> nat \<Rightarrow> IntVal \<Rightarrow> IntVal option" where
  "SetMinValue isSigned bitWidth v = do {
     iv_assert (IsOneWord v \<or> GetNumWords (iv_width v) = GetNumWords bitWidth);
     let v = v\<lparr>iv_sign := isSigned, iv_width := bitWidth\<rparr>;
     if IsOneWord v then do {
       x \<leftarrow> (if isSigned then sign_mask bitWidth else Some 0);
       Some (v\<lparr>iv_u := Value x\<rparr>)
     } else WideSetMinValue v
   }"

section \<open>Truncation and extension\<close>

definition Trunc :: "nat \<Rightarrow> bool \<Rightarrow> IntVal \<Rightarrow> IntVal option" where
  "Trunc newWidth isSigned v =
     (if IsOneWord v then do { x \<leftarrow> u_value v; Iv_of_val x newWidth isSigned }
      else do { ws \<leftarrow> u_pValue v; Iv_of_ptr ws newWidth isSigned })"

definition ExtendToWideInt :: "nat \<Rightarrow> bool \<Rightarrow> IntVal \<Rightarrow> IntVal option" where
  "ExtendToWideInt newWidth isSigned v = do {
     iv_assert (newWidth > iv_width v);
     let oldNumWords = GetNumWords (iv_width v);
     let newNumWords = GetNumWords newWidth;
     let numExtendBits = (newWidth - iv_width v) mod kWordBitSize;
     ws \<leftarrow> GetRawData v;
     s \<leftarrow> (if iv_sign v then GetSignBit v else Some False);
     let ws = take oldNumWords ws;
     iv_assert (0 < oldNumWords \<and> length ws = oldNumWords \<and> oldNumWords \<le> newNumWords);
     ws \<leftarrow> (if numExtendBits \<noteq> 0 \<and> s then do {
              m \<leftarrow> shl_word kAllOnes (kWordBitSize - numExtendBits);
              Some (ws[oldNumWords - 1 := ws ! (oldNumWords - 1) OR m])
            } else Some ws);
     let filler = (if s then kAllOnes else 0);
     Iv_of_ptr (ws @ replicate (newNumWords - oldNumWords) filler) newWidth isSigned
   }"

definition Extend :: "nat \<Rightarrow> bool \<Rightarrow> IntVal \<Rightarrow> IntVal option" where
  "Extend newWidth isSigned v = do {
     iv_assert (newWidth > iv_width v);
     if IsOneWord v \<and> newWidth \<le> kWordBitSize
     then do { x \<leftarrow> GetExtValue 0 v; Iv_of_val (word_of_int x) newWidth isSigned }
     else ExtendToWideInt newWidth isSigned v
   }"

definition TruncOrExtend :: "nat \<Rightarrow> bool \<Rightarrow> IntVal \<Rightarrow> IntVal option" where
  "TruncOrExtend newWidth isSigned v =
     (if newWidth \<le> iv_width v then Trunc newWidth isSigned v else Extend newWidth isSigned v)"

definition Trunc_type :: "nat \<Rightarrow> PrimType \<Rightarrow> IntVal \<Rightarrow> IntVal option" where
  "Trunc_type ps t v = Trunc (GetPrimTypeActualBitSize ps t) (IsSignedInteger t) v"

definition Extend_type :: "nat \<Rightarrow> PrimType \<Rightarrow> IntVal \<Rightarrow> IntVal option" where
  "Extend_type ps t v = Extend (GetPrimTypeActualBitSize ps t) (IsSignedInteger t) v"

definition TruncOrExtend_type :: "nat \<Rightarrow> PrimType \<Rightarrow> IntVal \<Rightarrow> IntVal option" where
  "TruncOrExtend_type ps t v = TruncOrExtend (GetPrimTypeActualBitSize ps t) (IsSignedInteger t) v"

text \<open>\<open>__builtin_bswap\<close> of the low \<open>k\<close> bytes.\<close>

definition bswap :: "nat \<Rightarrow> u64 \<Rightarrow> u64" where
  "bswap k w = fold (\<lambda>i r. r OR push_bit (8 * (k - 1 - i)) (take_bit 8 (drop_bit (8 * i) w))) [0..<k] 0"

definition ByteSwap :: "IntVal \<Rightarrow> IntVal option" where
  "ByteSwap v =
     (if iv_width v = 16 then do { x \<leftarrow> u_value v; Iv_of_val (bswap 2 x) (iv_width v) (iv_sign v) }
      else if iv_width v = 32 then do { x \<leftarrow> u_value v; Iv_of_val (bswap 4 x) (iv_width v) (iv_sign v) }
      else if iv_width v = 64 then do { x \<leftarrow> u_value v; Iv_of_val (bswap 8 x) (iv_width v) (iv_sign v) }
      else do {
        iv_assert (iv_width v mod 64 = 0);
        res \<leftarrow> Iv_of_val 0 (iv_width v) (iv_sign v);
        ws \<leftarrow> u_pValue v;
        Some (res\<lparr>iv_u := PValue (map (bswap 8) (rev ws))\<rparr>)
      })"
section \<open>Comparison\<close>

definition same_type :: "IntVal \<Rightarrow> IntVal \<Rightarrow> bool" where
  "same_type a b \<longleftrightarrow> iv_width a = iv_width b \<and> iv_sign a = iv_sign b"

definition IsSubsetOf :: "IntVal \<Rightarrow> IntVal \<Rightarrow> bool option" where
  "IsSubsetOf v rhs = do {
     iv_assert (same_type v rhs);
     if IsOneWord v then do { x \<leftarrow> u_value v; y \<leftarrow> u_value rhs; Some (x AND NOT y = 0) }
     else do { xs \<leftarrow> u_pValue v; ys \<leftarrow> u_pValue rhs; Some (WideIsSubsetOf_words xs ys) }
   }"

definition Iv_eq :: "IntVal \<Rightarrow> IntVal \<Rightarrow> bool option" where
  "Iv_eq v rhs = do {
     iv_assert (same_type v rhs);
     if IsOneWord v then do { x \<leftarrow> u_value v; y \<leftarrow> u_value rhs; Some (x = y) }
     else do { xs \<leftarrow> u_pValue v; ys \<leftarrow> u_pValue rhs; Some (xs = ys) }
   }"

definition Iv_eq_int :: "IntVal \<Rightarrow> int \<Rightarrow> bool option" where
  "Iv_eq_int v val = do {
     one \<leftarrow> IsOneSignificantWord v;
     if one then do { x \<leftarrow> GetExtValue 0 v; Some (x = val) }
     else do { w \<leftarrow> Iv_of_val (word_of_int val) (iv_width v) (iv_sign v); Iv_eq v w }
   }"

definition Iv_neq :: "IntVal \<Rightarrow> IntVal \<Rightarrow> bool option" where
  "Iv_neq v rhs = map_option Not (Iv_eq v rhs)"

definition Iv_neq_int :: "IntVal \<Rightarrow> int \<Rightarrow> bool option" where
  "Iv_neq_int v val = map_option Not (Iv_eq_int v val)"

definition WideCompare :: "IntVal \<Rightarrow> IntVal \<Rightarrow> int option" where
  "WideCompare lhs rhs = do {
     iv_assert (\<not> IsOneWord lhs \<and> \<not> IsOneWord rhs);
     iv_assert (same_type lhs rhs);
     ws \<leftarrow> u_pValue lhs;
     vs \<leftarrow> u_pValue rhs;
     if iv_sign lhs then do {
       lhsSign \<leftarrow> GetSignBit lhs;
       rhsSign \<leftarrow> GetSignBit rhs;
       if lhsSign \<noteq> rhsSign then Some (if lhsSign then - 1 else 1)
       else BitwiseCompare ws vs (iv_width lhs)
     } else BitwiseCompare ws vs (iv_width lhs)
   }"

definition Iv_less :: "IntVal \<Rightarrow> IntVal \<Rightarrow> bool option" where
  "Iv_less v rhs = do {
     iv_assert (same_type v rhs);
     if IsOneWord v then
       if iv_sign v then do { x \<leftarrow> GetSXTValue 0 v; y \<leftarrow> GetSXTValue 0 rhs; Some (x < y) }
       else do { x \<leftarrow> u_value v; y \<leftarrow> u_value rhs; Some (x < y) }
     else do { c \<leftarrow> WideCompare v rhs; Some (c < 0) }
   }"

definition Iv_greater :: "IntVal \<Rightarrow> IntVal \<Rightarrow> bool option" where
  "Iv_greater v rhs = do {
     iv_assert (same_type v rhs);
     if IsOneWord v then
       if iv_sign v then do { x \<leftarrow> GetSXTValue 0 v; y \<leftarrow> GetSXTValue 0 rhs; Some (x > y) }
       else do { x \<leftarrow> u_value v; y \<leftarrow> u_value rhs; Some (x > y) }
     else do { c \<leftarrow> WideCompare v rhs; Some (c > 0) }
   }"

definition Iv_le :: "IntVal \<Rightarrow> IntVal \<Rightarrow> bool option" where
  "Iv_le v rhs = map_option Not (Iv_greater v rhs)"

definition Iv_ge :: "IntVal \<Rightarrow> IntVal \<Rightarrow> bool option" where
  "Iv_ge v rhs = map_option Not (Iv_less v rhs)"

section \<open>Arithmetic\<close>

text \<open>The wide operators copy this value and update the array of the copy in place.\<close>

definition wide_unop :: "(u64 list \<Rightarrow> u64 list) \<Rightarrow> IntVal \<Rightarrow> IntVal option" where
  "wide_unop f v = do {
     iv_assert (\<not> IsOneWord v);
     res \<leftarrow> Iv_copy v;
     ws \<leftarrow> u_pValue res;
     Some (res\<lparr>iv_u := PValue (f ws)\<rparr>)
   }"

definition wide_binop :: "(u64 list \<Rightarrow> u64 list \<Rightarrow> u64 list) \<Rightarrow> IntVal \<Rightarrow> IntVal \<Rightarrow> IntVal option" where
  "wide_binop f v rhs = do {
     iv_assert (\<not> IsOneWord v);
     iv_assert (same_type v rhs);
     res \<leftarrow> Iv_copy v;
     ws \<leftarrow> u_pValue res;
     vs \<leftarrow> u_pValue rhs;
     iv_assert (length ws \<le> length vs);
     Some (res\<lparr>iv_u := PValue (f ws vs)\<rparr>)
   }"

definition one_word_binop :: "(u64 \<Rightarrow> u64 \<Rightarrow> u64) \<Rightarrow> IntVal \<Rightarrow> IntVal \<Rightarrow> IntVal option" where
  "one_word_binop f v rhs = do {
     x \<leftarrow> u_value v;
     y \<leftarrow> u_value rhs;
     Iv_of_val (f x y) (iv_width v) (iv_sign v)
   }"

definition Iv_plus :: "IntVal \<Rightarrow> IntVal \<Rightarrow> IntVal option" where
  "Iv_plus v rhs = do {
     iv_assert (same_type v rhs);
     if IsOneWord v then one_word_binop (\<lambda>x y. x + y) v rhs
     else wide_binop (\<lambda>ws vs. WideAdd_loop ws vs False) v rhs
   }"

definition Iv_minus :: "IntVal \<Rightarrow> IntVal \<Rightarrow> IntVal option" where
  "Iv_minus v rhs = do {
     iv_assert (same_type v rhs);
     if IsOneWord v then one_word_binop (\<lambda>x y. x - y) v rhs
     else wide_binop (\<lambda>ws vs. WideSub_loop ws vs False) v rhs
   }"

definition WideMul :: "IntVal \<Rightarrow> IntVal \<Rightarrow> IntVal option" where
  "WideMul v rhs = do {
     iv_assert (\<not> IsOneWord v);
     iv_assert (same_type v rhs);
     src0 \<leftarrow> u_pValue v;
     src1 \<leftarrow> u_pValue rhs;
     iv_assert (length src0 \<le> length src1);
     Iv_of_ptr (WideMul_words src0 src1) (iv_width v) (iv_sign v)
   }"

definition Iv_times :: "IntVal \<Rightarrow> IntVal \<Rightarrow> IntVal option" where
  "Iv_times v rhs = do {
     iv_assert (same_type v rhs);
     if IsOneWord v then one_word_binop (\<lambda>x y. x * y) v rhs else WideMul v rhs
   }"

definition Iv_incr :: "IntVal \<Rightarrow> IntVal option" where
  "Iv_incr v = do {
     v \<leftarrow> (if IsOneWord v then do { x \<leftarrow> u_value v; Some (v\<lparr>iv_u := Value (x + 1)\<rparr>) }
           else do { ws \<leftarrow> u_pValue v; Some (v\<lparr>iv_u := PValue (WideAdd_word ws 1)\<rparr>) });
     TruncInPlace 0 v
   }"

definition Iv_post_incr :: "IntVal \<Rightarrow> (IntVal \<times> IntVal) option" where
  "Iv_post_incr v = do { tmp \<leftarrow> Iv_copy v; v \<leftarrow> Iv_incr v; Some (tmp, v) }"

definition Iv_decr :: "IntVal \<Rightarrow> IntVal option" where
  "Iv_decr v = do {
     v \<leftarrow> (if IsOneWord v then do { x \<leftarrow> u_value v; Some (v\<lparr>iv_u := Value (x - 1)\<rparr>) }
           else do { ws \<leftarrow> u_pValue v; Some (v\<lparr>iv_u := PValue (WideSub_word ws 1)\<rparr>) });
     TruncInPlace 0 v
   }"

definition Iv_post_decr :: "IntVal \<Rightarrow> (IntVal \<times> IntVal) option" where
  "Iv_post_decr v = do { tmp \<leftarrow> Iv_copy v; v \<leftarrow> Iv_decr v; Some (tmp, v) }"

definition Iv_and :: "IntVal \<Rightarrow> IntVal \<Rightarrow> IntVal option" where
  "Iv_and v rhs = do {
     iv_assert (same_type v rhs);
     if IsOneWord v then one_word_binop (\<lambda>x y. x AND y) v rhs else wide_binop WideAnd_words v rhs
   }"

definition Iv_or :: "IntVal \<Rightarrow> IntVal \<Rightarrow> IntVal option" where
  "Iv_or v rhs = do {
     iv_assert (same_type v rhs);
     if IsOneWord v then one_word_binop (\<lambda>x y. x OR y) v rhs else wide_binop WideOr_words v rhs
   }"

definition Iv_xor :: "IntVal \<Rightarrow> IntVal \<Rightarrow> IntVal option" where
  "Iv_xor v rhs = do {
     iv_assert (same_type v rhs);
     if IsOneWord v then one_word_binop (\<lambda>x y. x XOR y) v rhs else wide_binop WideXor_words v rhs
   }"

definition Iv_not :: "IntVal \<Rightarrow> IntVal option" where
  "Iv_not v =
     (if IsOneWord v then do { x \<leftarrow> u_value v; Iv_of_val (NOT x) (iv_width v) (iv_sign v) }
      else wide_unop WideNot_words v)"

definition Iv_neg :: "IntVal \<Rightarrow> IntVal option" where
  "Iv_neg v =
     (if IsOneWord v then do { x \<leftarrow> u_value v; Iv_of_val (NOT x + 1) (iv_width v) (iv_sign v) }
      else wide_unop WideNeg_words v)"

definition Iv_Abs :: "IntVal \<Rightarrow> IntVal option" where
  "Iv_Abs v =
     (if \<not> iv_sign v then Iv_copy v
      else do {
        ret \<leftarrow> Iv_resign v False;
        s \<leftarrow> GetSignBit v;
        if s then Iv_neg ret else Iv_copy ret
      })"

section \<open>Shifts\<close>

definition wide_shift :: "(u64 list \<Rightarrow> nat \<Rightarrow> u64 list option) \<Rightarrow> IntVal \<Rightarrow> nat \<Rightarrow> IntVal option" where
  "wide_shift f v bits = do {
     iv_assert (\<not> IsOneWord v);
     iv_assert (bits \<le> iv_width v);
     ws \<leftarrow> u_pValue v;
     ws' \<leftarrow> f ws (bits mod 2 ^ 16);
     Some (v\<lparr>iv_u := PValue ws'\<rparr>)
   }"

definition WideShl :: "IntVal \<Rightarrow> nat \<Rightarrow> IntVal option" where
  "WideShl v bits = do { res \<leftarrow> Iv_copy v; wide_shift ShiftLeft res bits }"

definition WideAShrInPlace :: "IntVal \<Rightarrow> nat \<Rightarrow> IntVal option" where
  "WideAShrInPlace v bits = do {
     s \<leftarrow> (if iv_sign v then GetSignBit v else Some False);
     wide_shift (\<lambda>ws n. ShiftRight ws n s) v bits
   }"

definition WideAShr :: "IntVal \<Rightarrow> nat \<Rightarrow> IntVal option" where
  "WideAShr v bits = do { res \<leftarrow> Iv_copy v; WideAShrInPlace res bits }"

definition WideLShr :: "IntVal \<Rightarrow> nat \<Rightarrow> IntVal option" where
  "WideLShr v bits = do { res \<leftarrow> Iv_copy v; wide_shift (\<lambda>ws n. ShiftRight ws n False) res bits }"

definition Iv_shl :: "IntVal \<Rightarrow> nat \<Rightarrow> IntVal option" where
  "Iv_shl v bits = do {
     iv_assert (bits \<le> iv_width v);
     if IsOneWord v then do {
       x \<leftarrow> u_value v;
       y \<leftarrow> shl_word x bits;
       Iv_of_val y (iv_width v) (iv_sign v)
     } else WideShl v bits
   }"

definition Iv_shl_iv :: "IntVal \<Rightarrow> IntVal \<Rightarrow> IntVal option" where
  "Iv_shl_iv v bits = do {
     s \<leftarrow> GetSignBit bits;
     iv_assert (\<not> s);
     one \<leftarrow> IsOneSignificantWord bits;
     iv_assert one;
     k \<leftarrow> low_word bits;
     Iv_shl v (unat k)
   }"

text \<open>\<open>>>\<close> on \<open>int64\<close> is the arithmetic shift.\<close>

definition Iv_shr :: "IntVal \<Rightarrow> nat \<Rightarrow> IntVal option" where
  "Iv_shr v bits = do {
     iv_assert (bits \<le> iv_width v);
     if IsOneWord v then do {
       y \<leftarrow> (if iv_sign v then do {
               x \<leftarrow> GetSXTValue 0 v;
               iv_assert (bits < kWordBitSize);
               Some (word_of_int (drop_bit bits x))
             } else do { x \<leftarrow> u_value v; shr_word x bits });
       Iv_of_val y (iv_width v) (iv_sign v)
     } else WideAShr v bits
   }"

definition Iv_shr_iv :: "IntVal \<Rightarrow> IntVal \<Rightarrow> IntVal option" where
  "Iv_shr_iv v bits = do {
     one \<leftarrow> IsOneSignificantWord bits;
     iv_assert one;
     k \<leftarrow> low_word bits;
     Iv_shr v (unat k)
   }"

definition Iv_Shl :: "nat \<Rightarrow> IntVal \<Rightarrow> nat \<Rightarrow> PrimType \<Rightarrow> IntVal option" where
  "Iv_Shl ps v shift t = do { w \<leftarrow> TruncOrExtend_type ps t v; Iv_shl w shift }"

definition Iv_Shl_iv :: "nat \<Rightarrow> IntVal \<Rightarrow> IntVal \<Rightarrow> PrimType \<Rightarrow> IntVal option" where
  "Iv_Shl_iv ps v shift t = do { k \<leftarrow> u_value shift; Iv_Shl ps v (unat k) t }"

definition LShr_type :: "nat \<Rightarrow> IntVal \<Rightarrow> nat \<Rightarrow> PrimType \<Rightarrow> IntVal option" where
  "LShr_type ps v shift t =
     (if IsOneWord v then do {
        ret \<leftarrow> TruncOrExtend_type ps t v;
        iv_assert (shift \<le> iv_width ret);
        x \<leftarrow> u_value ret;
        y \<leftarrow> shr_word x shift;
        Some (ret\<lparr>iv_u := Value y\<rparr>)
      } else do { w \<leftarrow> TruncOrExtend_type ps t v; WideLShr w shift })"

definition LShr_type_iv :: "nat \<Rightarrow> IntVal \<Rightarrow> IntVal \<Rightarrow> PrimType \<Rightarrow> IntVal option" where
  "LShr_type_iv ps v shift t = do {
     one \<leftarrow> IsOneSignificantWord shift;
     iv_assert one;
     k \<leftarrow> low_word shift;
     LShr_type ps v (unat k) t
   }"

definition Iv_LShr :: "IntVal \<Rightarrow> nat \<Rightarrow> IntVal option" where
  "Iv_LShr v shift = do {
     iv_assert (shift \<le> iv_width v);
     if IsOneWord v then do {
       x \<leftarrow> u_value v;
       y \<leftarrow> shr_word x shift;
       Iv_of_val y (iv_width v) (iv_sign v)
     } else WideLShr v shift
   }"

definition AShr_type :: "nat \<Rightarrow> IntVal \<Rightarrow> nat \<Rightarrow> PrimType \<Rightarrow> IntVal option" where
  "AShr_type ps v shift t = do {
     ret \<leftarrow> TruncOrExtend_type ps t v;
     iv_assert (shift \<le> iv_width ret);
     ret \<leftarrow> (if IsOneWord v then do {
               x \<leftarrow> GetSXTValue 0 ret;
               w \<leftarrow> Iv_of_val_type ps (word_of_int x) PTY_i64;
               y \<leftarrow> Iv_shr w shift;
               z \<leftarrow> GetExtValue 0 y;
               _ \<leftarrow> u_value ret;
               Some (ret\<lparr>iv_u := Value (word_of_int z)\<rparr>)
             } else WideAShrInPlace ret shift);
     TruncInPlace 0 ret
   }"

definition AShr_type_iv :: "nat \<Rightarrow> IntVal \<Rightarrow> IntVal \<Rightarrow> PrimType \<Rightarrow> IntVal option" where
  "AShr_type_iv ps v shift t = do {
     one \<leftarrow> IsOneSignificantWord shift;
     iv_assert one;
     k \<leftarrow> low_word shift;
     AShr_type ps v (unat k) t
   }"

section \<open>Division\<close>

definition WideUnsignedDivRem :: "IntVal \<Rightarrow> IntVal \<Rightarrow> (IntVal \<times> IntVal) option" where
  "WideUnsignedDivRem delimer divisor = do {
     iv_assert (same_type delimer divisor);
     iv_assert (\<not> iv_sign delimer \<and> \<not> IsOneWord delimer);
     a \<leftarrow> IsOneSignificantWord delimer;
     b \<leftarrow> IsOneSignificantWord divisor;
     if a \<and> b then do {
       x \<leftarrow> low_word delimer;
       y \<leftarrow> low_word divisor;
       iv_assert (y \<noteq> 0);
       q \<leftarrow> Iv_of_val (x div y) (iv_width divisor) False;
       r \<leftarrow> Iv_of_val (x mod y) (iv_width divisor) False;
       Some (q, r)
     } else do {
       divisorBits \<leftarrow> CountSignificantBits divisor;
       delimerBits \<leftarrow> CountSignificantBits delimer;
       ws \<leftarrow> u_pValue delimer;
       vs \<leftarrow> u_pValue divisor;
       (quotient, remainder) \<leftarrow> WideUnsignedDivRem_words ws vs delimerBits divisorBits;
       q \<leftarrow> Iv_of_ptr quotient (iv_width delimer) (iv_sign delimer);
       r \<leftarrow> Iv_of_ptr remainder (iv_width delimer) (iv_sign delimer);
       Some (q, r)
     }
   }"

definition negative :: "IntVal \<Rightarrow> bool option" where
  "negative v = (if iv_sign v then GetSignBit v else Some False)"

definition WideDivRem :: "IntVal \<Rightarrow> IntVal \<Rightarrow> (IntVal \<times> IntVal) option" where
  "WideDivRem v rhs = do {
     iv_assert (\<not> IsOneWord v);
     iv_assert (same_type v rhs);
     isDivizorNeg \<leftarrow> negative rhs;
     divisor \<leftarrow> Iv_Abs rhs;
     isDelimerNeg \<leftarrow> negative v;
     delimer \<leftarrow> Iv_Abs v;
     let isResultNeg = (isDivizorNeg \<noteq> isDelimerNeg);
     lt \<leftarrow> Iv_less delimer divisor;
     if lt then do {
       z \<leftarrow> Iv_of_val 0 (iv_width v) (iv_sign v);
       r \<leftarrow> Iv_copy v;
       Some (z, r)
     } else do {
       eq \<leftarrow> Iv_eq delimer divisor;
       if eq then do {
         q \<leftarrow> Iv_of_val (if isResultNeg then kAllOnes else 1) (iv_width v) (iv_sign v);
         r \<leftarrow> Iv_of_val 0 (iv_width v) (iv_sign v);
         Some (q, r)
       } else do {
         (uq, ur) \<leftarrow> WideUnsignedDivRem delimer divisor;
         q \<leftarrow> Iv_resign uq (iv_sign v);
         q \<leftarrow> (if isResultNeg then Iv_neg q else Some q);
         r \<leftarrow> Iv_resign ur (iv_sign v);
         r \<leftarrow> (if isDelimerNeg then Iv_neg r else Some r);
         Some (q, r)
       }
     }
   }"

definition div_guard :: "IntVal \<Rightarrow> IntVal \<Rightarrow> unit option" where
  "div_guard v divisor = do {
     iv_assert (same_type v divisor);
     z \<leftarrow> AreAllBitsZeros divisor;
     iv_assert (\<not> z);
     if iv_sign v then do {
       mn \<leftarrow> IsMinValue v;
       if mn then do { ones \<leftarrow> AreAllBitsOne divisor; iv_assert (\<not> ones) } else Some ()
     } else Some ()
   }"

definition magnitude :: "IntVal \<Rightarrow> u64 option" where
  "magnitude v = do {
     neg \<leftarrow> negative v;
     if neg then do { m \<leftarrow> Iv_neg v; u_value m } else u_value v
   }"

definition Iv_div :: "IntVal \<Rightarrow> IntVal \<Rightarrow> IntVal option" where
  "Iv_div v divisor = do {
     div_guard v divisor;
     if IsOneWord v then do {
       isNeg \<leftarrow> negative v;
       isDivisorNeg \<leftarrow> negative divisor;
       dividendVal \<leftarrow> magnitude v;
       divisorVal \<leftarrow> magnitude divisor;
       q \<leftarrow> Iv_of_val (dividendVal div divisorVal) (iv_width v) (iv_sign v);
       if isNeg \<noteq> isDivisorNeg then Iv_neg q else Some q
     } else do { (q, r) \<leftarrow> WideDivRem v divisor; Iv_copy q }
   }"

definition Iv_mod :: "IntVal \<Rightarrow> IntVal \<Rightarrow> IntVal option" where
  "Iv_mod v divisor = do {
     div_guard v divisor;
     if IsOneWord v then do {
       isNeg \<leftarrow> negative v;
       dividendVal \<leftarrow> magnitude v;
       divisorVal \<leftarrow> magnitude divisor;
       r \<leftarrow> Iv_of_val (dividendVal mod divisorVal) (iv_width v) (iv_sign v);
       if isNeg then Iv_neg r else Some r
     } else do { (q, r) \<leftarrow> WideDivRem v divisor; Iv_copy r }
   }"
section \<open>Operations in terms of a primitive type or a new width\<close>

definition in_type :: "(IntVal \<Rightarrow> IntVal \<Rightarrow> 'r option) \<Rightarrow> nat \<Rightarrow> IntVal \<Rightarrow> IntVal \<Rightarrow> PrimType \<Rightarrow> 'r option" where
  "in_type f ps v w t = do {
     a \<leftarrow> TruncOrExtend_type ps t v;
     b \<leftarrow> TruncOrExtend_type ps t w;
     f a b
   }"

definition in_width :: "(IntVal \<Rightarrow> IntVal \<Rightarrow> 'r option) \<Rightarrow> IntVal \<Rightarrow> IntVal \<Rightarrow> nat \<Rightarrow> bool \<Rightarrow> 'r option" where
  "in_width f v w bitWidth isSigned = do {
     a \<leftarrow> TruncOrExtend bitWidth isSigned v;
     b \<leftarrow> TruncOrExtend bitWidth isSigned w;
     f a b
   }"

definition Iv_Equal :: "nat \<Rightarrow> IntVal \<Rightarrow> IntVal \<Rightarrow> PrimType \<Rightarrow> bool option" where
  "Iv_Equal = in_type Iv_eq"

definition Iv_Less :: "nat \<Rightarrow> IntVal \<Rightarrow> IntVal \<Rightarrow> PrimType \<Rightarrow> bool option" where
  "Iv_Less = in_type Iv_less"

definition Iv_Greater :: "nat \<Rightarrow> IntVal \<Rightarrow> IntVal \<Rightarrow> PrimType \<Rightarrow> bool option" where
  "Iv_Greater = in_type Iv_greater"

definition Iv_Add :: "nat \<Rightarrow> IntVal \<Rightarrow> IntVal \<Rightarrow> PrimType \<Rightarrow> IntVal option" where
  "Iv_Add = in_type Iv_plus"

definition Iv_Sub :: "nat \<Rightarrow> IntVal \<Rightarrow> IntVal \<Rightarrow> PrimType \<Rightarrow> IntVal option" where
  "Iv_Sub = in_type Iv_minus"

definition Iv_Mul :: "nat \<Rightarrow> IntVal \<Rightarrow> IntVal \<Rightarrow> PrimType \<Rightarrow> IntVal option" where
  "Iv_Mul = in_type Iv_times"

definition Iv_Div :: "nat \<Rightarrow> IntVal \<Rightarrow> IntVal \<Rightarrow> PrimType \<Rightarrow> IntVal option" where
  "Iv_Div = in_type Iv_div"

definition Iv_SDiv :: "IntVal \<Rightarrow> IntVal \<Rightarrow> nat \<Rightarrow> IntVal option" where
  "Iv_SDiv v divisor bitWidth = in_width Iv_div v divisor bitWidth True"

definition Iv_UDiv :: "IntVal \<Rightarrow> IntVal \<Rightarrow> nat \<Rightarrow> IntVal option" where
  "Iv_UDiv v divisor bitWidth = in_width Iv_div v divisor bitWidth False"

definition Iv_Rem :: "nat \<Rightarrow> IntVal \<Rightarrow> IntVal \<Rightarrow> PrimType \<Rightarrow> IntVal option" where
  "Iv_Rem = in_type Iv_mod"

definition Iv_SRem :: "IntVal \<Rightarrow> IntVal \<Rightarrow> nat \<Rightarrow> IntVal option" where
  "Iv_SRem v divisor bitWidth = in_width Iv_mod v divisor bitWidth True"

definition Iv_URem :: "IntVal \<Rightarrow> IntVal \<Rightarrow> nat \<Rightarrow> IntVal option" where
  "Iv_URem v divisor bitWidth = in_width Iv_mod v divisor bitWidth False"

definition Iv_And :: "nat \<Rightarrow> IntVal \<Rightarrow> IntVal \<Rightarrow> PrimType \<Rightarrow> IntVal option" where
  "Iv_And = in_type Iv_and"

definition Iv_Or :: "nat \<Rightarrow> IntVal \<Rightarrow> IntVal \<Rightarrow> PrimType \<Rightarrow> IntVal option" where
  "Iv_Or = in_type Iv_or"

definition Iv_Xor :: "nat \<Rightarrow> IntVal \<Rightarrow> IntVal \<Rightarrow> PrimType \<Rightarrow> IntVal option" where
  "Iv_Xor = in_type Iv_xor"

definition Iv_Min :: "IntVal \<Rightarrow> IntVal \<Rightarrow> IntVal option" where
  "Iv_Min a b = do { lt \<leftarrow> Iv_less a b; if lt then Iv_copy a else Iv_copy b }"

definition Iv_Min_type :: "nat \<Rightarrow> IntVal \<Rightarrow> IntVal \<Rightarrow> PrimType \<Rightarrow> IntVal option" where
  "Iv_Min_type ps a b t = do {
     lt \<leftarrow> Iv_Less ps a b t;
     if lt then Iv_of_iv_type ps a t else Iv_of_iv_type ps b t
   }"

definition Iv_Max :: "IntVal \<Rightarrow> IntVal \<Rightarrow> IntVal option" where
  "Iv_Max a b = do { m \<leftarrow> Iv_Min a b; eq \<leftarrow> Iv_eq m a; if eq then Iv_copy b else Iv_copy a }"

definition Iv_Max_type :: "nat \<Rightarrow> IntVal \<Rightarrow> IntVal \<Rightarrow> PrimType \<Rightarrow> IntVal option" where
  "Iv_Max_type ps a b t = do {
     m \<leftarrow> Iv_Min_type ps a b t;
     eq \<leftarrow> Iv_eq m a;
     if eq then Iv_copy b else Iv_copy a
   }"

text \<open>The operators with a \<open>uint64\<close> on one side convert it to the type of the other side.\<close>

definition like :: "u64 \<Rightarrow> IntVal \<Rightarrow> IntVal option" where
  "like x v = Iv_of_val x (iv_width v) (iv_sign v)"

definition Iv_plus_u64 :: "IntVal \<Rightarrow> u64 \<Rightarrow> IntVal option" where
  "Iv_plus_u64 v x = do { w \<leftarrow> like x v; Iv_plus v w }"

definition u64_plus_iv :: "u64 \<Rightarrow> IntVal \<Rightarrow> IntVal option" where
  "u64_plus_iv x v = Iv_plus_u64 v x"

definition Iv_minus_u64 :: "IntVal \<Rightarrow> u64 \<Rightarrow> IntVal option" where
  "Iv_minus_u64 v x = do { w \<leftarrow> like x v; Iv_minus v w }"

definition u64_minus_iv :: "u64 \<Rightarrow> IntVal \<Rightarrow> IntVal option" where
  "u64_minus_iv x v = do { w \<leftarrow> like x v; Iv_minus w v }"

definition Iv_times_u64 :: "IntVal \<Rightarrow> u64 \<Rightarrow> IntVal option" where
  "Iv_times_u64 v x = do { w \<leftarrow> like x v; Iv_times v w }"

definition u64_times_iv :: "u64 \<Rightarrow> IntVal \<Rightarrow> IntVal option" where
  "u64_times_iv x v = Iv_times_u64 v x"

definition Iv_div_u64 :: "IntVal \<Rightarrow> u64 \<Rightarrow> IntVal option" where
  "Iv_div_u64 v x = do { w \<leftarrow> like x v; Iv_div v w }"

definition u64_div_iv :: "u64 \<Rightarrow> IntVal \<Rightarrow> IntVal option" where
  "u64_div_iv x v = do { w \<leftarrow> like x v; Iv_div w v }"

definition Iv_mod_u64 :: "IntVal \<Rightarrow> u64 \<Rightarrow> IntVal option" where
  "Iv_mod_u64 v x = do { w \<leftarrow> like x v; Iv_mod v w }"

definition u64_mod_iv :: "u64 \<Rightarrow> IntVal \<Rightarrow> IntVal option" where
  "u64_mod_iv x v = do { w \<leftarrow> like x v; Iv_mod w v }"

definition Iv_and_u64 :: "IntVal \<Rightarrow> u64 \<Rightarrow> IntVal option" where
  "Iv_and_u64 v x = do { w \<leftarrow> like x v; Iv_and v w }"

definition u64_and_iv :: "u64 \<Rightarrow> IntVal \<Rightarrow> IntVal option" where
  "u64_and_iv x v = Iv_and_u64 v x"

section \<open>The number a value stands for\<close>

text \<open>\<open>iv_bits\<close> is the number made of the stored bits, \<open>iv_num\<close> the integer they mean under the
  signedness. A value is well formed when its storage fits its width; the widths are those at most
  64 and the multiples of 64 up to 255 words.\<close>

definition iv_bits :: "IntVal \<Rightarrow> nat" where
  "iv_bits v = (case iv_u v of Value x \<Rightarrow> unat x | PValue ws \<Rightarrow> wval ws)"

definition iv_num :: "IntVal \<Rightarrow> int" where
  "iv_num v = (if iv_sign v \<and> 2 ^ iv_width v \<le> 2 * iv_bits v then int (iv_bits v) - 2 ^ iv_width v else int (iv_bits v))"

definition iv_ok :: "IntVal \<Rightarrow> bool" where
  "iv_ok v \<longleftrightarrow> 0 < iv_width v \<and>
     (if iv_width v \<le> 64 then (\<exists>x. iv_u v = Value x) \<and> iv_bits v < 2 ^ iv_width v
      else iv_width v mod 64 = 0 \<and> iv_width v \<le> 255 * 64 \<and>
        (\<exists>ws. iv_u v = PValue ws \<and> length ws = iv_width v div 64))"

definition iv_result :: "IntVal option \<Rightarrow> IntVal \<Rightarrow> int \<Rightarrow> bool" where
  "iv_result r v z \<longleftrightarrow>
     (\<exists>v'. r = Some v' \<and> iv_ok v' \<and> same_type v' v \<and> int (iv_bits v') = z mod 2 ^ iv_width v)"

text \<open>A target type: at most 64 bits, or a multiple of 64 up to 255 words.\<close>

definition target_ok :: "nat \<Rightarrow> bool" where
  "target_ok w \<longleftrightarrow> 0 < w \<and> (w \<le> 64 \<or> w mod 64 = 0 \<and> w \<le> 255 * 64)"

definition iv_converts :: "IntVal option \<Rightarrow> nat \<Rightarrow> bool \<Rightarrow> int \<Rightarrow> bool" where
  "iv_converts r w s z \<longleftrightarrow>
     (\<exists>v. r = Some v \<and> iv_ok v \<and> iv_width v = w \<and> iv_sign v = s \<and> int (iv_bits v) = z mod 2 ^ w)"

section \<open>Well-formed values\<close>

lemmas iv_bind = iv_assert_def Let_def kWordBitSize_def kAllOnes_def

lemma iv_ok_cases [consumes 1, case_names one wide]:
  assumes "iv_ok v"
  obtains w s x where "v = \<lparr>iv_width = w, iv_sign = s, iv_u = Value x\<rparr>"
      "0 < w" "w \<le> 64" "unat x < 2 ^ w"
  | s ws where "v = \<lparr>iv_width = 64 * length ws, iv_sign = s, iv_u = PValue ws\<rparr>"
      "length ws \<le> 255" "1 < length ws"
proof (cases "iv_width v \<le> 64")
  case True
  with assms obtain x where "iv_u v = Value x" by (auto simp: iv_ok_def)
  with True assms that(1)[of "iv_width v" "iv_sign v" x] show ?thesis
    by (auto simp: iv_ok_def iv_bits_def)
next
  case False
  with assms obtain ws where ws: "iv_u v = PValue ws" "length ws = iv_width v div 64"
    and w: "iv_width v mod 64 = 0" "iv_width v \<le> 255 * 64" by (auto simp: iv_ok_def)
  then have "64 * length ws = iv_width v" by auto
  with False ws w that(2)[of ws "iv_sign v"] show ?thesis by auto
qed

lemma iv_ok_one: "0 < w \<Longrightarrow> w \<le> 64 \<Longrightarrow> unat x < 2 ^ w \<Longrightarrow> iv_ok \<lparr>iv_width = w, iv_sign = s, iv_u = Value x\<rparr>"
  by (simp add: iv_ok_def iv_bits_def)

lemma iv_ok_wide:
  "length ws \<le> 255 \<Longrightarrow> 1 < length ws \<Longrightarrow> iv_ok \<lparr>iv_width = 64 * length ws, iv_sign = s, iv_u = PValue ws\<rparr>"
  by (auto simp: iv_ok_def)

lemma iv_bits_bound: "iv_ok v \<Longrightarrow> iv_bits v < 2 ^ iv_width v"
  by (erule iv_ok_cases) (use wval_bound[where 'a = 64] in \<open>auto simp: iv_bits_def\<close>)

lemma iv_bits_num: "iv_ok v \<Longrightarrow> int (iv_bits v) = iv_num v mod 2 ^ iv_width v"
proof -
  assume "iv_ok v"
  then have "int (iv_bits v) < 2 ^ iv_width v" using iv_bits_bound[of v] by simp
  then show ?thesis by (simp add: iv_num_def)
qed

lemma iv_num_range:
  assumes "iv_ok v"
  shows "iv_sign v \<Longrightarrow> - (2 ^ (iv_width v - 1)) \<le> iv_num v \<and> iv_num v < 2 ^ (iv_width v - 1)"
    and "\<not> iv_sign v \<Longrightarrow> 0 \<le> iv_num v \<and> iv_num v < 2 ^ iv_width v"
proof -
  obtain n where n: "iv_width v = Suc n" using assms by (cases "iv_width v") (auto simp: iv_ok_def)
  have "int (iv_bits v) < 2 ^ iv_width v" using iv_bits_bound[OF assms] by simp
  then show "iv_sign v \<Longrightarrow> - (2 ^ (iv_width v - 1)) \<le> iv_num v \<and> iv_num v < 2 ^ (iv_width v - 1)"
    "\<not> iv_sign v \<Longrightarrow> 0 \<le> iv_num v \<and> iv_num v < 2 ^ iv_width v"
    using n by (auto simp: iv_num_def)
qed

text \<open>A number in the range of the type is determined by its residue.\<close>

lemma iv_num_eqI:
  assumes "iv_ok v" "int (iv_bits v) = z mod 2 ^ iv_width v"
    "if iv_sign v then - (2 ^ (iv_width v - 1)) \<le> z \<and> z < 2 ^ (iv_width v - 1) else 0 \<le> z \<and> z < 2 ^ iv_width v"
  shows "iv_num v = z"
proof -
  obtain n where n: "iv_width v = Suc n" using assms(1) by (cases "iv_width v") (auto simp: iv_ok_def)
  have "2 ^ iv_width v dvd iv_num v - z"
    using assms(2) iv_bits_num[OF assms(1)] by (simp add: mod_eq_dvd_iff)
  moreover have "\<bar>iv_num v - z\<bar> < 2 ^ iv_width v"
    using iv_num_range[OF assms(1)] assms(3) n by (cases "iv_sign v") auto
  ultimately show ?thesis using dvd_imp_le_int[of "iv_num v - z" "2 ^ iv_width v"] by (cases "iv_num v = z") auto
qed

lemma drop_bit_ones: "w \<le> 64 \<Longrightarrow> drop_bit (64 - w) (- 1 :: u64) = mask w"
  by (rule bit_word_eqI) (auto simp: bit_simps)

lemma TruncInPlace_one:
  assumes "0 < w" "w \<le> 64"
  shows "TruncInPlace 0 \<lparr>iv_width = w, iv_sign = s, iv_u = Value x\<rparr> =
    Some \<lparr>iv_width = w, iv_sign = s, iv_u = Value (take_bit w x)\<rparr>"
  using assms drop_bit_ones[of w]
  by (simp add: TruncInPlace_def iv_bind IsOneWord_def u_value_def shr_word_def take_bit_eq_mask)

lemma Iv_of_val_one:
  assumes "0 < w" "w \<le> 64"
  shows "Iv_of_val x w s = Some \<lparr>iv_width = w, iv_sign = s, iv_u = Value (take_bit w x)\<rparr>"
  using assms by (simp add: Iv_of_val_def Init_val_def IsOneWord_def iv_bind TruncInPlace_one)

lemma take_bit_word_uint: "int (unat (take_bit w x)) = uint x mod 2 ^ w" for x :: u64
  by (simp add: unsigned_take_bit_eq) (simp add: take_bit_eq_mod zmod_int)

lemma unat_take_bit_bound: "unat (take_bit w x) < 2 ^ w" for x :: u64
  by (simp add: unsigned_take_bit_eq)

lemma GetNumWords_wide: "n \<le> 255 \<Longrightarrow> GetNumWords (64 * n) = n"
proof -
  assume "n \<le> 255"
  have "64 * n + 64 - 1 = 63 + n * 64" by simp
  then have "(64 * n + 64 - 1) div 64 = n" by (simp only: div_mult_self2)
  then show ?thesis using \<open>n \<le> 255\<close> by (simp add: GetNumWords_def kWordBitSize_def)
qed

lemma and_mask_64: "x AND mask 64 = x" for x :: u64
  by (rule bit_word_eqI) (simp add: bit_simps)

lemma take_bit_word_self: "unat x < 2 ^ w \<Longrightarrow> take_bit w x = x" for x :: u64
  by (simp add: word_unat_eq_iff unsigned_take_bit_eq take_bit_nat_eq_self_iff)

lemma TruncInPlace_wide:
  assumes "length ws \<le> 255" "1 < length ws"
  shows "TruncInPlace 0 \<lparr>iv_width = 64 * length ws, iv_sign = s, iv_u = PValue ws\<rparr> =
    Some \<lparr>iv_width = 64 * length ws, iv_sign = s, iv_u = PValue ws\<rparr>"
  using assms
  by (auto simp: TruncInPlace_def iv_bind IsOneWord_def u_pValue_def shr_word_def GetNumWords_wide word_at_def and_mask_64)

lemma Iv_of_ptr_wide:
  assumes "n \<le> 255" "1 < n" "n \<le> length ws"
  shows "Iv_of_ptr ws (64 * n) s = Some \<lparr>iv_width = 64 * n, iv_sign = s, iv_u = PValue (take n ws)\<rparr>"
  using assms TruncInPlace_wide[of "take n ws" s]
  by (simp add: Iv_of_ptr_def Init_ptr_def WideInit_ptr_def IsOneWord_def iv_bind GetNumWords_wide min_absorb2)

lemma Iv_copy_ok: "iv_ok v \<Longrightarrow> Iv_copy v = Some v"
proof (induction rule: iv_ok_cases)
  case (one w s x)
  have "take_bit w x = x" using one(4) by (rule take_bit_word_self)
  then show ?case using one
    by (simp add: Iv_copy_def Init_storage_def Init_val_def IsOneWord_def iv_bind u_value_def TruncInPlace_one)
next
  case (wide s ws)
  then show ?case
    by (simp add: Iv_copy_def Init_storage_def Init_ptr_def WideInit_ptr_def IsOneWord_def iv_bind u_pValue_def
        GetNumWords_wide TruncInPlace_wide)
qed

section \<open>Arithmetic is modular\<close>

lemma same_type_one:
  assumes "iv_ok b" "same_type a b" "iv_width a \<le> 64"
  obtains y where "b = \<lparr>iv_width = iv_width a, iv_sign = iv_sign a, iv_u = Value y\<rparr>" "unat y < 2 ^ iv_width a"
  using assms by (cases rule: iv_ok_cases) (auto simp: same_type_def)

lemma same_type_wide:
  assumes "iv_ok b" "same_type a b" "iv_width a = 64 * n" "1 < n"
  obtains vs where "b = \<lparr>iv_width = 64 * n, iv_sign = iv_sign a, iv_u = PValue vs\<rparr>" "length vs = n"
  using assms by (cases rule: iv_ok_cases) (auto simp: same_type_def)

lemma iv_result_one:
  assumes "r = Some \<lparr>iv_width = w, iv_sign = s, iv_u = Value (take_bit w x)\<rparr>"
    and "iv_width v = w" "iv_sign v = s" "0 < w" "w \<le> 64" "uint x mod 2 ^ w = z mod 2 ^ w"
  shows "iv_result r v z"
  unfolding iv_result_def using assms
  by (auto simp: iv_ok_one unat_take_bit_bound same_type_def iv_bits_def take_bit_word_uint simp del: of_nat_unat)

lemma iv_result_wide:
  assumes "r = Some \<lparr>iv_width = 64 * length ws, iv_sign = s, iv_u = PValue ws\<rparr>"
    and "iv_width v = 64 * length ws" "iv_sign v = s" "1 < length ws" "length ws \<le> 255"
    and "int (wval ws) = z mod 2 ^ iv_width v"
  shows "iv_result r v z"
  unfolding iv_result_def using assms by (auto simp: iv_ok_wide same_type_def iv_bits_def)

lemma uint_mod_pow: "w \<le> 64 \<Longrightarrow> uint (word_of_int k :: u64) mod 2 ^ w = k mod 2 ^ w"
  by (simp add: unsigned_of_int take_bit_take_bit min_absorb1 flip: take_bit_eq_mod)

text \<open>A binary operation that acts on both representations like \<open>f\<close> on the residues is modular.\<close>

lemma iv_binop_result:
  fixes F :: "int \<Rightarrow> int \<Rightarrow> int"
  assumes ok: "iv_ok a" "iv_ok b" "same_type a b"
    and one: "\<And>x y w s. 0 < w \<Longrightarrow> w \<le> 64 \<Longrightarrow>
        op \<lparr>iv_width = w, iv_sign = s, iv_u = Value x\<rparr> \<lparr>iv_width = w, iv_sign = s, iv_u = Value y\<rparr>
        = Some \<lparr>iv_width = w, iv_sign = s, iv_u = Value (take_bit w (f x y))\<rparr>"
    and f: "\<And>x y w. w \<le> 64 \<Longrightarrow> uint (f x y) mod 2 ^ w = F (uint x) (uint y) mod 2 ^ w"
    and wide: "\<And>ws vs s. 1 < length ws \<Longrightarrow> length ws \<le> 255 \<Longrightarrow> length vs = length ws \<Longrightarrow>
        op \<lparr>iv_width = 64 * length ws, iv_sign = s, iv_u = PValue ws\<rparr> \<lparr>iv_width = 64 * length ws, iv_sign = s, iv_u = PValue vs\<rparr>
        = Some \<lparr>iv_width = 64 * length ws, iv_sign = s, iv_u = PValue (g ws vs)\<rparr>"
    and g: "\<And>ws vs. length vs = length ws \<Longrightarrow> length (g ws vs) = length ws \<and>
        int (wval (g ws vs)) = F (int (wval ws)) (int (wval vs)) mod 2 ^ (64 * length ws)"
    and F: "\<And>i j k l m. i mod 2 ^ m = k mod 2 ^ m \<Longrightarrow> j mod 2 ^ m = l mod 2 ^ m \<Longrightarrow> F i j mod 2 ^ m = F k l mod 2 ^ m"
  shows "iv_result (op a b) a (F (iv_num a) (iv_num b))"
  using ok(1)
proof (cases rule: iv_ok_cases)
  case (one w s x)
  obtain y where b: "b = \<lparr>iv_width = w, iv_sign = s, iv_u = Value y\<rparr>"
    using same_type_one[OF ok(2,3)] one by auto
  have nums: "uint x mod 2 ^ w = iv_num a mod 2 ^ w" "uint y mod 2 ^ w = iv_num b mod 2 ^ w"
    using iv_bits_num[OF ok(1)] iv_bits_num[OF ok(2)] one b by (auto simp: iv_bits_def)
  show ?thesis
    by (rule iv_result_one[where w = w and s = s and x = "f x y"])
      (use one b assms(4)[of w s x y] f[of w x y] F[OF nums] in auto)
next
  case (wide s ws)
  obtain vs where b: "b = \<lparr>iv_width = 64 * length ws, iv_sign = s, iv_u = PValue vs\<rparr>" "length vs = length ws"
    using same_type_wide[OF ok(2,3)] wide by auto
  have nums: "int (wval ws) mod 2 ^ (64 * length ws) = iv_num a mod 2 ^ (64 * length ws)"
      "int (wval vs) mod 2 ^ (64 * length ws) = iv_num b mod 2 ^ (64 * length ws)"
    using iv_bits_num[OF ok(1)] iv_bits_num[OF ok(2)] wide b by (auto simp: iv_bits_def)
  show ?thesis
    by (rule iv_result_wide[where ws = "g ws vs" and s = s])
      (use wide b assms(6)[of ws vs s] g[of vs ws] F[OF nums] in auto)
qed

lemma iv_unop_result:
  fixes F :: "int \<Rightarrow> int"
  assumes ok: "iv_ok a"
    and one: "\<And>x w s. 0 < w \<Longrightarrow> w \<le> 64 \<Longrightarrow> op \<lparr>iv_width = w, iv_sign = s, iv_u = Value x\<rparr>
        = Some \<lparr>iv_width = w, iv_sign = s, iv_u = Value (take_bit w (f x))\<rparr>"
    and f: "\<And>x w. w \<le> 64 \<Longrightarrow> uint (f x) mod 2 ^ w = F (uint x) mod 2 ^ w"
    and wide: "\<And>ws s. 1 < length ws \<Longrightarrow> length ws \<le> 255 \<Longrightarrow>
        op \<lparr>iv_width = 64 * length ws, iv_sign = s, iv_u = PValue ws\<rparr>
        = Some \<lparr>iv_width = 64 * length ws, iv_sign = s, iv_u = PValue (g ws)\<rparr>"
    and g: "\<And>ws. length (g ws) = length ws \<and> int (wval (g ws)) = F (int (wval ws)) mod 2 ^ (64 * length ws)"
    and F: "\<And>i k m. i mod 2 ^ m = k mod 2 ^ m \<Longrightarrow> F i mod 2 ^ m = F k mod 2 ^ m"
  shows "iv_result (op a) a (F (iv_num a))"
  using ok
proof (cases rule: iv_ok_cases)
  case (one w s x)
  have num: "uint x mod 2 ^ w = iv_num a mod 2 ^ w"
    using iv_bits_num[OF ok] one by (auto simp: iv_bits_def)
  show ?thesis
    by (rule iv_result_one[where w = w and s = s and x = "f x"])
      (use one assms(2)[of w s x] f[of w x] F[OF num] in auto)
next
  case (wide s ws)
  have num: "int (wval ws) mod 2 ^ (64 * length ws) = iv_num a mod 2 ^ (64 * length ws)"
    using iv_bits_num[OF ok] wide by (auto simp: iv_bits_def)
  show ?thesis
    by (rule iv_result_wide[where ws = "g ws" and s = s])
      (use wide assms(4)[of ws s] g[of ws] F[OF num] in auto)
qed

lemmas iv_ops = iv_bind IsOneWord_def same_type_def u_value_def u_pValue_def one_word_binop_def wide_binop_def
  wide_unop_def Iv_of_val_one Iv_copy_ok iv_ok_wide

lemma Iv_plus_result: "iv_ok a \<Longrightarrow> iv_ok b \<Longrightarrow> same_type a b \<Longrightarrow> iv_result (Iv_plus a b) a (iv_num a + iv_num b)"
proof (rule iv_binop_result[where f = "\<lambda>x y. x + y" and g = "\<lambda>ws vs. WideAdd_loop ws vs False" and F = "\<lambda>i j. i + j"])
  show "uint (x + y) mod 2 ^ w = (uint x + uint y) mod 2 ^ w" if "w \<le> 64" for x y :: u64 and w
    using uint_mod_pow[OF that, of "uint x + uint y"] by simp
  show "length (WideAdd_loop ws vs False) = length ws \<and>
      int (wval (WideAdd_loop ws vs False)) = (int (wval ws) + int (wval vs)) mod 2 ^ (64 * length ws)"
    if "length vs = length ws" for ws vs
    using WideAdd_loop_value[of ws vs False] that by (simp add: WideAdd_loop_length zmod_int)
qed (auto simp: Iv_plus_def iv_ops intro: mod_add_cong)

lemma int_wval_bound: "int (wval ws) < 2 ^ (64 * length ws)" for ws :: "u64 list"
proof -
  have "wval ws < 2 ^ (64 * length ws)" using wval_bound[of ws] by simp
  then have "int (wval ws) < int (2 ^ (64 * length ws))" by (simp only: of_nat_less_iff)
  then show ?thesis by simp
qed

lemma Iv_minus_result: "iv_ok a \<Longrightarrow> iv_ok b \<Longrightarrow> same_type a b \<Longrightarrow> iv_result (Iv_minus a b) a (iv_num a - iv_num b)"
proof (rule iv_binop_result[where f = "\<lambda>x y. x - y" and g = "\<lambda>ws vs. WideSub_loop ws vs False" and F = "\<lambda>i j. i - j"])
  show "uint (x - y) mod 2 ^ w = (uint x - uint y) mod 2 ^ w" if "w \<le> 64" for x y :: u64 and w
    using uint_mod_pow[OF that, of "uint x - uint y"] by simp
  show "length (WideSub_loop ws vs False) = length ws \<and>
      int (wval (WideSub_loop ws vs False)) = (int (wval ws) - int (wval vs)) mod 2 ^ (64 * length ws)"
    if len: "length vs = length ws" for ws vs
  proof -
    let ?M = "2 ^ (64 * length ws) :: int" and ?R = "int (wval (WideSub_loop ws vs False))"
    have "(?R + int (wval vs)) mod ?M = int (wval ws)"
      using arg_cong[OF WideSub_loop_value[OF len[symmetric]], of int False] by (simp add: zmod_int)
    then have "(int (wval ws) - int (wval vs)) mod ?M = ?R mod ?M"
      by (metis add_diff_cancel_right' mod_diff_left_eq)
    moreover have "?R < ?M"
      using int_wval_bound[of "WideSub_loop ws vs False"] by (simp add: WideSub_loop_length)
    ultimately show ?thesis by (simp add: WideSub_loop_length)
  qed
qed (auto simp: Iv_minus_def iv_ops intro: mod_diff_cong)

lemma Iv_times_result: "iv_ok a \<Longrightarrow> iv_ok b \<Longrightarrow> same_type a b \<Longrightarrow> iv_result (Iv_times a b) a (iv_num a * iv_num b)"
proof (rule iv_binop_result[where f = "\<lambda>x y. x * y" and g = WideMul_words and F = "\<lambda>i j. i * j"])
  show "uint (x * y) mod 2 ^ w = (uint x * uint y) mod 2 ^ w" if "w \<le> 64" for x y :: u64 and w
    using uint_mod_pow[OF that, of "uint x * uint y"] by simp
  show "length (WideMul_words ws vs) = length ws \<and>
      int (wval (WideMul_words ws vs)) = (int (wval ws) * int (wval vs)) mod 2 ^ (64 * length ws)"
    if "length vs = length ws" for ws vs
    using that by (simp add: WideMul_words_value WideMul_words_length zmod_int)
  show "Iv_times \<lparr>iv_width = 64 * length ws, iv_sign = s, iv_u = PValue ws\<rparr> \<lparr>iv_width = 64 * length ws, iv_sign = s, iv_u = PValue vs\<rparr>
      = Some \<lparr>iv_width = 64 * length ws, iv_sign = s, iv_u = PValue (WideMul_words ws vs)\<rparr>"
    if "1 < length ws" "length ws \<le> 255" "length vs = length ws" for ws vs s
    using that Iv_of_ptr_wide[of "length ws" "WideMul_words ws vs" s]
    by (simp add: Iv_times_def WideMul_def iv_ops WideMul_words_length)
qed (auto simp: Iv_times_def iv_ops intro: mod_mult_cong)

lemma Iv_neg_result: "iv_ok a \<Longrightarrow> iv_result (Iv_neg a) a (- iv_num a)"
proof (rule iv_unop_result[where f = "\<lambda>x. NOT x + 1" and g = WideNeg_words and F = "\<lambda>i. - i"])
  show "uint (NOT x + 1) mod 2 ^ w = (- uint x) mod 2 ^ w" if "w \<le> 64" for x :: u64 and w
    using uint_mod_pow[OF that, of "- uint x"] by (simp add: not_eq_complement)
  show "length (WideNeg_words ws) = length ws \<and>
      int (wval (WideNeg_words ws)) = (- int (wval ws)) mod 2 ^ (64 * length ws)" for ws
  proof -
    let ?M = "2 ^ (64 * length ws) :: int" and ?R = "int (wval (WideNeg_words ws))"
    have "(?R + int (wval ws)) mod ?M = 0"
      using arg_cong[OF WideNeg_words_value, of int ws] by (simp add: zmod_int)
    then have "(- int (wval ws)) mod ?M = ?R mod ?M"
      by (metis add_diff_cancel_right' diff_0 mod_0 mod_diff_left_eq)
    moreover have "?R < ?M"
      using int_wval_bound[of "WideNeg_words ws"] by (simp add: WideNeg_words_length)
    ultimately show ?thesis by (simp add: WideNeg_words_length)
  qed
  show "(- i) mod 2 ^ m = (- k) mod 2 ^ m" if "i mod 2 ^ m = k mod 2 ^ m" for i k :: int and m
    using that by (metis mod_minus_eq)
qed (auto simp: Iv_neg_def iv_ops)

lemma Iv_not_result: "iv_ok a \<Longrightarrow> iv_result (Iv_not a) a (NOT (iv_num a))"
proof (rule iv_unop_result[where f = "\<lambda>x. NOT x" and g = WideNot_words and F = "\<lambda>i. NOT i"])
  show "uint (NOT x) mod 2 ^ w = (NOT (uint x)) mod 2 ^ w" if "w \<le> 64" for x :: u64 and w
    using uint_mod_pow[OF that, of "NOT (uint x)"] by (simp add: not_eq_complement)
  show "length (WideNot_words ws) = length ws \<and>
      int (wval (WideNot_words ws)) = (NOT (int (wval ws))) mod 2 ^ (64 * length ws)" for ws
  proof -
    have "int (wval (WideNot_words ws)) = 2 ^ (64 * length ws) + (- int (wval ws) - 1)"
      using arg_cong[OF WideNot_words_value, of int ws] by simp
    moreover have "int (wval (WideNot_words ws)) < 2 ^ (64 * length ws)"
      using int_wval_bound[of "WideNot_words ws"] by (simp add: WideNot_words_def)
    ultimately show ?thesis
      by (metis WideNot_words_def length_map mod_add_self1 mod_pos_pos_trivial not_eq_complement of_nat_0_le_iff)
  qed
  show "(NOT i) mod 2 ^ m = (NOT k) mod 2 ^ m" if "i mod 2 ^ m = k mod 2 ^ m" for i k :: int and m
    unfolding not_eq_complement using that by (intro mod_diff_cong) (metis mod_minus_eq, simp)
qed (auto simp: Iv_not_def iv_ops)

lemma int_wval_mod: "int (wval ws) = z \<Longrightarrow> int (wval ws) = z mod 2 ^ (64 * length ws)" for ws :: "u64 list"
  using int_wval_bound[of ws] by simp

lemma Iv_and_result: "iv_ok a \<Longrightarrow> iv_ok b \<Longrightarrow> same_type a b \<Longrightarrow> iv_result (Iv_and a b) a (iv_num a AND iv_num b)"
proof (rule iv_binop_result[where f = "\<lambda>x y. x AND y" and g = WideAnd_words and F = "\<lambda>i j. i AND j"])
  show "length (WideAnd_words ws vs) = length ws \<and>
      int (wval (WideAnd_words ws vs)) = (int (wval ws) AND int (wval vs)) mod 2 ^ (64 * length ws)"
    if "length vs = length ws" for ws vs
    using that int_wval_mod[of "WideAnd_words ws vs"]
    by (simp add: WideBitwise_value of_nat_and_eq) (simp add: WideAnd_words_def)
  show "(i AND j) mod 2 ^ m = (k AND l) mod 2 ^ m" if "i mod 2 ^ m = k mod 2 ^ m" "j mod 2 ^ m = l mod 2 ^ m"
    for i j k l :: int and m
    using that by (simp flip: take_bit_eq_mod)
qed (auto simp: Iv_and_def iv_ops unsigned_and_eq)

lemma Iv_or_result: "iv_ok a \<Longrightarrow> iv_ok b \<Longrightarrow> same_type a b \<Longrightarrow> iv_result (Iv_or a b) a (iv_num a OR iv_num b)"
proof (rule iv_binop_result[where f = "\<lambda>x y. x OR y" and g = WideOr_words and F = "\<lambda>i j. i OR j"])
  show "length (WideOr_words ws vs) = length ws \<and>
      int (wval (WideOr_words ws vs)) = (int (wval ws) OR int (wval vs)) mod 2 ^ (64 * length ws)"
    if "length vs = length ws" for ws vs
    using that int_wval_mod[of "WideOr_words ws vs"]
    by (simp add: WideBitwise_value of_nat_or_eq) (simp add: WideOr_words_def)
  show "(i OR j) mod 2 ^ m = (k OR l) mod 2 ^ m" if "i mod 2 ^ m = k mod 2 ^ m" "j mod 2 ^ m = l mod 2 ^ m"
    for i j k l :: int and m
    using that by (simp flip: take_bit_eq_mod)
qed (auto simp: Iv_or_def iv_ops unsigned_or_eq)

lemma Iv_xor_result: "iv_ok a \<Longrightarrow> iv_ok b \<Longrightarrow> same_type a b \<Longrightarrow> iv_result (Iv_xor a b) a (iv_num a XOR iv_num b)"
proof (rule iv_binop_result[where f = "\<lambda>x y. x XOR y" and g = WideXor_words and F = "\<lambda>i j. i XOR j"])
  show "length (WideXor_words ws vs) = length ws \<and>
      int (wval (WideXor_words ws vs)) = (int (wval ws) XOR int (wval vs)) mod 2 ^ (64 * length ws)"
    if "length vs = length ws" for ws vs
    using that int_wval_mod[of "WideXor_words ws vs"]
    by (simp add: WideBitwise_value of_nat_xor_eq) (simp add: WideXor_words_def)
  show "(i XOR j) mod 2 ^ m = (k XOR l) mod 2 ^ m" if "i mod 2 ^ m = k mod 2 ^ m" "j mod 2 ^ m = l mod 2 ^ m"
    for i j k l :: int and m
    using that by (simp flip: take_bit_eq_mod)
qed (auto simp: Iv_xor_def iv_ops unsigned_xor_eq)

lemma Iv_incr_result: "iv_ok a \<Longrightarrow> iv_result (Iv_incr a) a (iv_num a + 1)"
proof (rule iv_unop_result[where f = "\<lambda>x. x + 1" and g = "\<lambda>ws. WideAdd_word ws 1" and F = "\<lambda>i. i + 1"])
  show "uint (x + 1) mod 2 ^ w = (uint x + 1) mod 2 ^ w" if "w \<le> 64" for x :: u64 and w
    using uint_mod_pow[OF that, of "uint x + 1"] by simp
  show "length (WideAdd_word ws 1) = length ws \<and>
      int (wval (WideAdd_word ws 1)) = (int (wval ws) + 1) mod 2 ^ (64 * length ws)" for ws
    by (simp add: WideAdd_word_length WideAdd_word_value zmod_int add.commute)
  show "Iv_incr \<lparr>iv_width = 64 * length ws, iv_sign = s, iv_u = PValue ws\<rparr>
      = Some \<lparr>iv_width = 64 * length ws, iv_sign = s, iv_u = PValue (WideAdd_word ws 1)\<rparr>"
    if "1 < length ws" "length ws \<le> 255" for ws s
    using that TruncInPlace_wide[of "WideAdd_word ws 1" s]
    by (simp add: Iv_incr_def iv_ops WideAdd_word_length)
qed (auto simp: Iv_incr_def iv_ops TruncInPlace_one intro: mod_add_cong)

section \<open>Reading and comparing values\<close>

lemma bit_top_iff:
  fixes x :: u64
  assumes "0 < w" "w \<le> 64" "unat x < 2 ^ w"
  shows "bit x (w - 1) \<longleftrightarrow> 2 ^ w \<le> 2 * unat x"
proof -
  obtain n where w: "w = Suc n" using assms(1) by (cases w) auto
  have "bit x n \<longleftrightarrow> bit (unat x) n" using assms(2) w by (simp add: bit_unsigned_iff)
  also have "\<dots> \<longleftrightarrow> odd (unat x div 2 ^ n)" by (simp add: bit_iff_odd)
  also have "\<dots> \<longleftrightarrow> 2 ^ n \<le> unat x"
  proof (cases "2 ^ n \<le> unat x")
    case True
    then have "unat x div 2 ^ n = 1" using assms(3) w by (intro div_nat_eqI) simp_all
    then show ?thesis using True by simp
  qed simp
  finally show ?thesis using w by simp
qed

lemma GetBit_one:
  assumes "b < w" "w \<le> 64"
  shows "GetBit b \<lparr>iv_width = w, iv_sign = s, iv_u = Value x\<rparr> = Some (bit x b)"
  using assms by (simp add: GetBit_def iv_bind IsOneWord_def u_value_def shl_word_def and_exp_eq_0)

lemma GetSignBit_one:
  assumes "0 < w" "w \<le> 64" "unat x < 2 ^ w"
  shows "GetSignBit \<lparr>iv_width = w, iv_sign = s, iv_u = Value x\<rparr> = Some (2 ^ w \<le> 2 * unat x)"
proof -
  have "nat ((int w - 1) mod 2 ^ 16) = w - 1" using assms(1,2) by (simp add: nat_diff_distrib)
  then show ?thesis using assms bit_top_iff[OF assms] by (simp add: GetSignBit_def GetBit_one)
qed

lemma shift_up_down:
  fixes x :: u64
  assumes "w \<le> 64" "unat x < 2 ^ w"
  shows "drop_bit (64 - w) (push_bit (64 - w) x) = x"
proof (rule bit_word_eqI)
  fix n assume "n < LENGTH(64)"
  have "\<not> bit x n" if "w \<le> n"
    using take_bit_word_self[OF assms(2)] that by (metis bit_take_bit_iff leD)
  then show "bit (drop_bit (64 - w) (push_bit (64 - w) x)) n = bit x n"
    using assms(1) \<open>n < LENGTH(64)\<close> by (cases "w \<le> n") (auto simp: bit_simps)
qed

text \<open>The word \<open>GetSXTValue\<close> makes of a negative value is the value minus \<open>2 ^ w\<close>.\<close>

lemma sign_extended_word:
  fixes x :: u64
  assumes "0 < w" "w \<le> 64" "unat x < 2 ^ w" "2 ^ w \<le> 2 * unat x"
  shows "x OR push_bit (if w < 64 then w else 63) (- 1) = word_of_int (int (unat x) - 2 ^ w)"
proof (rule bit_word_eqI)
  fix n assume n: "n < LENGTH(64)"
  have top: "bit x (w - 1)" using bit_top_iff[OF assms(1,2,3)] assms(4) by simp
  have hi: "\<not> bit x i" if "w \<le> i" for i
    using take_bit_word_self[OF assms(3)] that by (metis bit_take_bit_iff leD)
  have "int (unat x) - 2 ^ w = int (unat x) OR NOT (mask w)"
  proof -
    have "int (unat x) AND NOT (mask w) = 0"
      by (rule bit_eqI) (use hi not_le in \<open>auto simp: bit_simps\<close>)
    then have "int (unat x) OR NOT (mask w) = int (unat x) + NOT (mask w)"
      by (rule disjunctive_add_eq_or[symmetric])
    then show ?thesis by (simp add: not_eq_complement mask_eq_exp_minus_1)
  qed
  then have "bit (word_of_int (int (unat x) - 2 ^ w) :: u64) n \<longleftrightarrow> bit x n \<or> w \<le> n"
    using n by (simp only:) (auto simp: bit_simps)
  moreover have "bit (x OR push_bit (if w < 64 then w else 63) (- 1)) n \<longleftrightarrow> bit x n \<or> w \<le> n"
  proof (cases "w < 64")
    case False
    then have "w = 64" "bit x 63" using assms(2) top by auto
    moreover have "n = 63 \<or> n < 63" using n by auto
    ultimately show ?thesis by (auto simp: bit_simps)
  qed (use n in \<open>simp add: bit_simps not_less\<close>)
  ultimately show "bit (x OR push_bit (if w < 64 then w else 63) (- 1)) n \<longleftrightarrow> bit (word_of_int (int (unat x) - 2 ^ w) :: u64) n"
    by simp
qed

lemma sint_of_small: "- (2 ^ 63) \<le> k \<Longrightarrow> k < 2 ^ 63 \<Longrightarrow> sint (word_of_int k :: u64) = k"
  by (simp add: signed_of_int signed_take_bit_int_eq_self)

lemma GetSXTValue_one:
  assumes "0 < w" "w \<le> 64" "unat x < 2 ^ w"
  shows "GetSXTValue 0 \<lparr>iv_width = w, iv_sign = s, iv_u = Value x\<rparr> =
    Some (if 2 ^ w \<le> 2 * unat x then int (unat x) - 2 ^ w else int (unat x))"
proof -
  obtain n where w: "w = Suc n" using assms(1) by (cases w) auto
  have pow: "(2::int) ^ w \<le> 2 ^ 64" using assms(2) by (intro power_increasing) auto
  have x: "int (unat x) < 2 ^ w" using assms(3) by (simp flip: of_nat_less_iff[where 'a = int])
  have shift: "nat ((64 - int w) mod 256) = 64 - w" using assms(1,2) by (simp add: nat_diff_distrib)
  have "sint (if 2 ^ w \<le> 2 * unat x then x OR push_bit (if w < 64 then w else 63) (- 1) else x)
      = (if 2 ^ w \<le> 2 * unat x then int (unat x) - 2 ^ w else int (unat x))"
  proof (cases "2 ^ w \<le> 2 * unat x")
    case True
    then have "(2::int) ^ w \<le> 2 * int (unat x)" by (simp flip: of_nat_le_iff[where 'a = int])
    with True x pow show ?thesis
      using sint_of_small[of "int (unat x) - 2 ^ w"] sign_extended_word[OF assms True] by simp
  next
    case False
    then have "int (2 * unat x) < int (2 ^ w)" by (simp only: of_nat_less_iff not_le)
    moreover have "- (2 ^ 63) \<le> int (unat x)" by (rule order_trans[of _ 0]) simp_all
    ultimately show ?thesis using False pow sint_of_small[of "int (unat x)"] by simp
  qed
  moreover have "GetSXTValue 0 \<lparr>iv_width = w, iv_sign = s, iv_u = Value x\<rparr> =
      Some (sint (if bit x (w - 1) then x OR push_bit (if w < 64 then w else 63) (- 1) else x))"
    using assms(1,2) shift_up_down[OF assms(2,3)] shift
    by (cases "w < 64") (simp_all add: GetSXTValue_def IsOneSignificantWord_def iv_bind IsOneWord_def low_word_def
        u_value_def shl_word_def shr_word_def GetBit_one)
  ultimately show ?thesis by (simp only: bit_top_iff[OF assms])
qed

lemma int_less_pow: "n < 2 ^ w \<Longrightarrow> int n < 2 ^ w"
  by (metis of_nat_less_iff of_nat_numeral of_nat_power)

lemma iv_num_one:
  "iv_num \<lparr>iv_width = w, iv_sign = s, iv_u = Value x\<rparr>
     = (if s \<and> 2 ^ w \<le> 2 * unat x then int (unat x) - 2 ^ w else int (unat x))"
  by (simp add: iv_num_def iv_bits_def)

lemma iv_num_inj: "iv_ok a \<Longrightarrow> iv_ok b \<Longrightarrow> same_type a b \<Longrightarrow> iv_num a = iv_num b \<longleftrightarrow> iv_bits a = iv_bits b"
  using iv_bits_num[of a] iv_bits_num[of b] by (auto simp: same_type_def iv_num_def)

lemma wval_inj: "length ws = length vs \<Longrightarrow> wval ws = wval vs \<longleftrightarrow> ws = vs" for ws vs :: "u64 list"
  using words_bit_ext[of ws vs] bit_wval by metis

lemma Iv_eq_num: "iv_ok a \<Longrightarrow> iv_ok b \<Longrightarrow> same_type a b \<Longrightarrow> Iv_eq a b = Some (iv_num a = iv_num b)"
proof -
  assume ok: "iv_ok a" "iv_ok b" "same_type a b"
  from ok(1) show ?thesis
  proof (cases rule: iv_ok_cases)
    case (one w s x)
    obtain y where b: "b = \<lparr>iv_width = w, iv_sign = s, iv_u = Value y\<rparr>"
      using same_type_one[OF ok(2,3)] one by auto
    then have "iv_num a = iv_num b \<longleftrightarrow> x = y" using iv_num_inj[OF ok] one by (simp add: iv_bits_def word_unat_eq_iff)
    then show ?thesis using one b by (simp add: Iv_eq_def iv_ops)
  next
    case (wide s ws)
    obtain vs where b: "b = \<lparr>iv_width = 64 * length ws, iv_sign = s, iv_u = PValue vs\<rparr>" "length vs = length ws"
      using same_type_wide[OF ok(2,3)] wide by auto
    then have "iv_num a = iv_num b \<longleftrightarrow> ws = vs"
      using iv_num_inj[OF ok] wide wval_inj[of ws vs] by (simp add: iv_bits_def)
    then show ?thesis using wide b by (simp add: Iv_eq_def iv_ops)
  qed
qed

lemma Iv_compare_one:
  assumes "iv_ok a" "iv_ok b" "same_type a b" "iv_width a \<le> 64"
  shows "Iv_less a b = Some (iv_num a < iv_num b)" and "Iv_greater a b = Some (iv_num a > iv_num b)"
proof -
  obtain w s x where a: "a = \<lparr>iv_width = w, iv_sign = s, iv_u = Value x\<rparr>" "0 < w" "w \<le> 64" "unat x < 2 ^ w"
    using assms(1,4) by (cases rule: iv_ok_cases) auto
  obtain y where b: "b = \<lparr>iv_width = w, iv_sign = s, iv_u = Value y\<rparr>" "unat y < 2 ^ w"
    using same_type_one[OF assms(2,3,4)] a by auto
  show "Iv_less a b = Some (iv_num a < iv_num b)"
    using a b by (cases s) (simp_all add: Iv_less_def iv_ops GetSXTValue_one iv_num_one word_less_def)
  show "Iv_greater a b = Some (iv_num a > iv_num b)"
    using a b by (cases s) (simp_all add: Iv_greater_def iv_ops GetSXTValue_one iv_num_one word_less_def)
qed

text \<open>The comparison of two wide values of a width that is a multiple of 64 shifts by 64.\<close>

lemma BitwiseCompare_multiple: "1 < n \<Longrightarrow> BitwiseCompare ws vs (64 * n) = None" for ws vs :: "u64 list"
  by (simp add: BitwiseCompare_def iv_assert_def shr_word_def)

lemma Iv_less_wide_unsigned:
  assumes "iv_ok a" "iv_ok b" "same_type a b" "iv_width a > 64" "\<not> iv_sign a"
  shows "Iv_less a b = None"
proof -
  obtain s ws where a: "a = \<lparr>iv_width = 64 * length ws, iv_sign = s, iv_u = PValue ws\<rparr>" "1 < length ws"
    using assms(1,4) by (cases rule: iv_ok_cases) auto
  obtain vs where "b = \<lparr>iv_width = 64 * length ws, iv_sign = s, iv_u = PValue vs\<rparr>"
    using same_type_wide[OF assms(2,3)] a by auto
  with a assms(5) BitwiseCompare_multiple[of "length ws" ws vs] show ?thesis
    by (auto simp: Iv_less_def WideCompare_def iv_ops)
qed

section \<open>Division\<close>

lemma iv_result_num:
  assumes "iv_result r a z" "iv_ok a"
    and "if iv_sign a then - (2 ^ (iv_width a - 1)) \<le> z \<and> z < 2 ^ (iv_width a - 1) else 0 \<le> z \<and> z < 2 ^ iv_width a"
  shows "\<exists>v. r = Some v \<and> iv_ok v \<and> same_type v a \<and> iv_num v = z"
  using assms iv_num_eqI unfolding iv_result_def same_type_def by metis

lemma negative_num:
  assumes "iv_ok v" "iv_width v \<le> 64"
  shows "negative v = Some (iv_num v < 0)"
  using assms(1)
proof (cases rule: iv_ok_cases)
  case (one w s x)
  have "int (unat x) < 2 ^ w" by (rule int_less_pow) fact
  with one show ?thesis by (simp add: negative_def GetSignBit_one iv_num_one)
qed (use assms in auto)

lemma magnitude_num:
  assumes "iv_ok v" "iv_width v \<le> 64"
  shows "\<exists>m. magnitude v = Some m \<and> uint m = \<bar>iv_num v\<bar>"
  using assms(1)
proof (cases rule: iv_ok_cases)
  case (one w s x)
  show ?thesis
  proof (cases "iv_num v < 0")
    case True
    then have s: "s" using one by (auto simp: iv_num_one split: if_splits)
    have "iv_result (Iv_neg v) v (- iv_num v)" by (rule Iv_neg_result[OF assms(1)])
    then have "uint (take_bit w (NOT x + 1)) = (- iv_num v) mod 2 ^ w"
      using one by (simp add: iv_result_def Iv_neg_def iv_ops iv_bits_def)
    moreover have "- iv_num v < 2 ^ w"
    proof -
      obtain n where "w = Suc n" using one by (cases w) auto
      then show ?thesis using iv_num_range(1)[OF assms(1)] one(1) s zero_less_power[of "2::int" n] by auto
    qed
    ultimately have "uint (take_bit w (NOT x + 1)) = \<bar>iv_num v\<bar>" using True by simp
    then show ?thesis
      using one True negative_num[OF assms] by (simp add: magnitude_def Iv_neg_def iv_ops)
  next
    case False
    then have "uint x = \<bar>iv_num v\<bar>" using one by (auto simp: iv_num_one split: if_splits)
      (metis of_nat_less_iff of_nat_numeral of_nat_power of_nat_unat)
    then show ?thesis using one False negative_num[OF assms] by (simp add: magnitude_def u_value_def)
  qed
qed (use assms in auto)

lemma same_num_one:
  assumes "iv_ok a" "iv_width a \<le> 64"
  obtains w s x where "a = \<lparr>iv_width = w, iv_sign = s, iv_u = Value x\<rparr>" "0 < w" "w \<le> 64" "unat x < 2 ^ w"
  using assms by (cases rule: iv_ok_cases) auto

lemma zero_num:
  assumes "iv_ok v" "iv_width v \<le> 64"
  shows "AreAllBitsZeros v = Some (iv_num v = 0)"
proof -
  obtain w s x where v: "v = \<lparr>iv_width = w, iv_sign = s, iv_u = Value x\<rparr>" "0 < w" "w \<le> 64" "unat x < 2 ^ w"
    using assms by (rule same_num_one)
  have "iv_num v = 0 \<longleftrightarrow> x = 0"
    using int_less_pow[OF v(4)] v(1) by (auto simp: iv_num_one uint_0_iff)
  then show ?thesis using v(1,3) by (simp add: AreAllBitsZeros_def iv_ops)
qed

lemma min_num:
  assumes "iv_ok v" "iv_width v \<le> 64" "iv_sign v"
  shows "IsMinValue v = Some (iv_num v = - (2 ^ (iv_width v - 1)))"
proof -
  obtain w s x where v: "v = \<lparr>iv_width = w, iv_sign = s, iv_u = Value x\<rparr>" "0 < w" "w \<le> 64" "unat x < 2 ^ w"
    using assms(1,2) by (rule same_num_one)
  obtain n where w: "w = Suc n" using v(2) by (cases w) auto
  have "2 ^ n < (2 ^ 64 :: nat)" using v(3) w by (intro power_strict_increasing) auto
  then have e: "unat (2 ^ n :: u64) = 2 ^ n" using u64_of_nat_unat[of "2 ^ n"] by simp
  have "iv_num v = - (2 ^ n) \<longleftrightarrow> unat x = 2 ^ n"
  proof -
    have "int (unat x) = 2 ^ n \<longleftrightarrow> unat x = 2 ^ n" by (metis of_nat_eq_iff of_nat_numeral of_nat_power)
    then show ?thesis using v(1) w assms(3) int_less_pow[OF v(4)] zero_less_power[of "2::int" n]
      by (auto simp: iv_num_one simp del: of_nat_unat)
  qed
  also have "\<dots> \<longleftrightarrow> x = 2 ^ n" using e by (metis word_unat_eq_iff)
  finally show ?thesis using v w assms(3) by (simp add: IsMinValue_def iv_ops sign_mask_def shl_word_def)
qed

lemma ones_num:
  assumes "iv_ok v" "iv_width v \<le> 64" "iv_sign v"
  shows "AreAllBitsOne v = Some (iv_num v = - 1)"
proof -
  obtain w s x where v: "v = \<lparr>iv_width = w, iv_sign = s, iv_u = Value x\<rparr>" "0 < w" "w \<le> 64" "unat x < 2 ^ w"
    using assms(1,2) by (rule same_num_one)
  obtain n where w: "w = Suc n" using v(2) by (cases w) auto
  have "unat (mask w :: u64) = mask w"
    by (rule bit_eqI) (use v(3) in \<open>auto simp: bit_unsigned_iff bit_mask_iff\<close>)
  then have m: "int (unat (mask w :: u64)) = 2 ^ w - 1" by (simp add: of_nat_mask_eq mask_eq_exp_minus_1 del: of_nat_unat)
  have "iv_num v = - 1 \<longleftrightarrow> int (unat x) = 2 ^ w - 1"
  proof (cases "2 ^ n \<le> unat x")
    case False
    then have "int (unat x) < 2 ^ n" by (intro int_less_pow) simp
    moreover have "(1::int) \<le> 2 ^ n" by simp
    ultimately have "int (unat x) \<noteq> 2 ^ w - 1" unfolding w power_Suc by linarith
    moreover have "iv_num v = int (unat x)" using False v(1) w by (simp add: iv_num_one)
    moreover have "int (unat x) \<noteq> - 1" by linarith
    ultimately show ?thesis by (simp only: simp_thms)
  qed (use v(1) w assms(3) in \<open>auto simp: iv_num_one simp del: of_nat_unat\<close>)
  also have "\<dots> \<longleftrightarrow> x = mask w" unfolding m[symmetric] of_nat_eq_iff by (rule word_unat_eq_iff[symmetric])
  finally show ?thesis using v drop_bit_ones[OF v(3)] by (simp add: AreAllBitsOne_def iv_ops shr_word_def)
qed

lemma div_guard_ok:
  assumes "iv_ok a" "iv_ok b" "same_type a b" "iv_width a \<le> 64"
  shows "div_guard a b = (if iv_num b \<noteq> 0 \<and> \<not> (iv_sign a \<and> iv_num a = - (2 ^ (iv_width a - 1)) \<and> iv_num b = - 1)
    then Some () else None)"
proof -
  have b: "iv_width b \<le> 64" "iv_sign b = iv_sign a" using assms(3,4) by (auto simp: same_type_def)
  show ?thesis
    using assms zero_num[OF assms(2) b(1)] min_num[OF assms(1,4)] ones_num[OF assms(2) b(1)] b(2)
    by (cases "iv_sign a") (auto simp: div_guard_def iv_assert_def)
qed

lemma iv_of_word_result:
  assumes "iv_ok a" "iv_width a \<le> 64" "uint x mod 2 ^ iv_width a = z mod 2 ^ iv_width a"
  shows "iv_result (Iv_of_val x (iv_width a) (iv_sign a)) a z"
proof -
  have "0 < iv_width a" using assms(1) by (simp add: iv_ok_def)
  then show ?thesis using assms by (intro iv_result_one[where x = x]) (simp_all add: Iv_of_val_one)
qed

lemma iv_result_neg:
  assumes "iv_result r a z" "iv_ok a"
  shows "iv_result (Option.bind r Iv_neg) a (- z)"
proof -
  obtain v where v: "r = Some v" "iv_ok v" "same_type v a" "int (iv_bits v) = z mod 2 ^ iv_width a"
    using assms(1) by (auto simp: iv_result_def)
  have "iv_result (Iv_neg v) v (- iv_num v)" by (rule Iv_neg_result[OF v(2)])
  moreover have "(- iv_num v) mod 2 ^ iv_width v = (- z) mod 2 ^ iv_width a"
    using iv_bits_num[OF v(2)] v(3,4) by (metis mod_minus_eq same_type_def)
  ultimately show ?thesis using v by (auto simp: iv_result_def same_type_def)
qed

lemma abs_sdiv_bound:
  fixes a b :: int
  assumes "b \<noteq> 0"
  shows "\<bar>a\<bar> div \<bar>b\<bar> \<le> \<bar>a\<bar>" "0 \<le> \<bar>a\<bar> div \<bar>b\<bar>" "\<bar>a\<bar> mod \<bar>b\<bar> \<le> \<bar>a\<bar>" "0 \<le> \<bar>a\<bar> mod \<bar>b\<bar>"
proof -
  have "\<bar>a\<bar> div \<bar>b\<bar> \<le> \<bar>a\<bar> div 1" using assms by (intro zdiv_mono2) auto
  then show "\<bar>a\<bar> div \<bar>b\<bar> \<le> \<bar>a\<bar>" by simp
qed (use assms in \<open>simp_all add: pos_imp_zdiv_nonneg_iff zmod_le_nonneg_dividend\<close>)

lemma Iv_div_result:
  assumes "iv_ok a" "iv_ok b" "same_type a b" "iv_width a \<le> 64" "iv_num b \<noteq> 0"
    "\<not> (iv_sign a \<and> iv_num a = - (2 ^ (iv_width a - 1)) \<and> iv_num b = - 1)"
  shows "iv_result (Iv_div a b) a (iv_num a sdiv iv_num b)"
proof -
  have b: "iv_width b \<le> 64" using assms(3,4) by (auto simp: same_type_def)
  obtain m where m: "magnitude a = Some m" "uint m = \<bar>iv_num a\<bar>" using magnitude_num[OF assms(1,4)] by auto
  obtain d where d: "magnitude b = Some d" "uint d = \<bar>iv_num b\<bar>" using magnitude_num[OF assms(2) b] by auto
  have q: "iv_result (Iv_of_val (m div d) (iv_width a) (iv_sign a)) a (\<bar>iv_num a\<bar> div \<bar>iv_num b\<bar>)"
    by (rule iv_of_word_result) (use assms m d in \<open>simp_all add: uint_div\<close>)
  have eq: "Iv_div a b = (if (iv_num a < 0) \<noteq> (iv_num b < 0)
      then Option.bind (Iv_of_val (m div d) (iv_width a) (iv_sign a)) Iv_neg
      else Iv_of_val (m div d) (iv_width a) (iv_sign a))"
    using assms m d negative_num[OF assms(1,4)] negative_num[OF assms(2) b] div_guard_ok[OF assms(1-4)]
    by (auto simp: Iv_div_def IsOneWord_def kWordBitSize_def)
  have "iv_num a sdiv iv_num b = (if (iv_num a < 0) \<noteq> (iv_num b < 0)
      then - (\<bar>iv_num a\<bar> div \<bar>iv_num b\<bar>) else \<bar>iv_num a\<bar> div \<bar>iv_num b\<bar>)"
    using assms(5) by (auto simp: signed_divide_int_def sgn_if)
  then show ?thesis using eq q iv_result_neg[OF q assms(1)] by simp
qed

lemma Iv_mod_result:
  assumes "iv_ok a" "iv_ok b" "same_type a b" "iv_width a \<le> 64" "iv_num b \<noteq> 0"
    "\<not> (iv_sign a \<and> iv_num a = - (2 ^ (iv_width a - 1)) \<and> iv_num b = - 1)"
  shows "iv_result (Iv_mod a b) a (iv_num a smod iv_num b)"
proof -
  have b: "iv_width b \<le> 64" using assms(3,4) by (auto simp: same_type_def)
  obtain m where m: "magnitude a = Some m" "uint m = \<bar>iv_num a\<bar>" using magnitude_num[OF assms(1,4)] by auto
  obtain d where d: "magnitude b = Some d" "uint d = \<bar>iv_num b\<bar>" using magnitude_num[OF assms(2) b] by auto
  have q: "iv_result (Iv_of_val (m mod d) (iv_width a) (iv_sign a)) a (\<bar>iv_num a\<bar> mod \<bar>iv_num b\<bar>)"
    by (rule iv_of_word_result) (use assms m d in \<open>simp_all add: uint_mod\<close>)
  have eq: "Iv_mod a b = (if iv_num a < 0
      then Option.bind (Iv_of_val (m mod d) (iv_width a) (iv_sign a)) Iv_neg
      else Iv_of_val (m mod d) (iv_width a) (iv_sign a))"
    using assms m d negative_num[OF assms(1,4)] div_guard_ok[OF assms(1-4)]
    by (auto simp: Iv_mod_def IsOneWord_def kWordBitSize_def)
  have "iv_num a smod iv_num b = (if iv_num a < 0
      then - (\<bar>iv_num a\<bar> mod \<bar>iv_num b\<bar>) else \<bar>iv_num a\<bar> mod \<bar>iv_num b\<bar>)"
    by (auto simp: signed_modulo_int_def sgn_if)
  then show ?thesis using eq q iv_result_neg[OF q assms(1)] by (cases "iv_num a < 0") (simp_all only: if_True if_False)
qed

text \<open>The quotient and the remainder are representable.\<close>

lemma sdiv_smod_range:
  assumes "iv_ok a" "iv_ok b" "same_type a b" "iv_num b \<noteq> 0"
    "\<not> (iv_sign a \<and> iv_num a = - (2 ^ (iv_width a - 1)) \<and> iv_num b = - 1)"
  defines "inr z \<equiv> if iv_sign a then - (2 ^ (iv_width a - 1)) \<le> z \<and> z < 2 ^ (iv_width a - 1) else 0 \<le> z \<and> z < 2 ^ iv_width a"
  shows "inr (iv_num a sdiv iv_num b)" and "inr (iv_num a smod iv_num b)"
proof -
  let ?a = "iv_num a" and ?b = "iv_num b"
  note bounds = abs_sdiv_bound[OF assms(4), of ?a]
  have less: "\<bar>?a\<bar> div \<bar>?b\<bar> < \<bar>?a\<bar>" if "\<bar>?b\<bar> \<noteq> 1" "?a \<noteq> 0"
    using that assms(4) by (intro int_div_less_self) auto
  show "inr (?a sdiv ?b)"
  proof (cases "iv_sign a")
    case True
    have r: "- (2 ^ (iv_width a - 1)) \<le> ?a" "?a < 2 ^ (iv_width a - 1)" using iv_num_range(1)[OF assms(1) True] by auto
    have "?a sdiv ?b < 2 ^ (iv_width a - 1)"
    proof (cases "?a = - (2 ^ (iv_width a - 1))")
      case False
      then show ?thesis using r bounds(1,2) assms(4) by (auto simp: signed_divide_int_def sgn_if)
    next
      case min: True
      with assms(5) True have "?b \<noteq> - 1" by simp
      then show ?thesis using min less bounds(2) assms(4) zero_less_power[of "2::int" "iv_width a - 1"]
        by (cases "?b = 1") (auto simp: signed_divide_int_def sgn_if)
    qed
    moreover have "- (2 ^ (iv_width a - 1)) \<le> ?a sdiv ?b"
      using r bounds(1,2) by (auto simp: signed_divide_int_def sgn_if)
    ultimately show ?thesis using True by (simp add: inr_def)
  next
    case False
    then show ?thesis using iv_num_range(2)[OF assms(1)] iv_num_range(2)[OF assms(2)] assms(3,4) bounds
      by (auto simp: inr_def signed_divide_int_def sgn_if same_type_def)
  qed
  show "inr (?a smod ?b)"
    using iv_num_range[OF assms(1)] bounds
    by (cases "iv_sign a") (auto simp: inr_def signed_modulo_int_def sgn_if)
qed

section \<open>Truncation and extension\<close>

lemma wval_append: "wval (xs @ ys) = wval xs + base64 (length xs) * wval ys" for xs :: "u64 list"
proof (induction xs)
  case (Cons w xs)
  have "wval ((w # xs) @ ys) = unat w + 2 ^ 64 * (wval xs + base64 (length xs) * wval ys)"
    using Cons by simp
  also have "\<dots> = wval (w # xs) + base64 (Suc (length xs)) * wval ys"
    unfolding wval_cons64 base64_Suc add_mult_distrib2 by (simp only: mult.assoc add.assoc)
  finally show ?case by simp
qed (simp add: base64_def)

lemma wval_take: "n \<le> length ws \<Longrightarrow> wval (take n ws) = wval ws mod 2 ^ (64 * n)" for ws :: "u64 list"
proof -
  assume "n \<le> length ws"
  then have "wval ws = wval (take n ws) + base64 n * wval (drop n ws)"
    using wval_append[of "take n ws" "drop n ws"] by (simp add: min_absorb2)
  moreover have "wval (take n ws) < 2 ^ (64 * n)"
    using wval_bound[of "take n ws"] \<open>n \<le> length ws\<close> by (simp add: min_absorb2)
  ultimately show ?thesis by (simp add: base64_def)
qed

lemma wval_fill: "int (wval (replicate k (if s then - 1 else 0 :: u64))) = (if s then 2 ^ (64 * k) - 1 else 0)"
proof (induction k)
  case (Suc k)
  have "uint (- 1 :: u64) = 2 ^ 64 - 1" by (simp add: unsigned_minus_1_eq_mask mask_eq_exp_minus_1)
  with Suc show ?case by (simp add: power_add)
qed simp

lemma iv_num_mod_less:
  assumes "iv_ok v" "m \<le> iv_width v"
  shows "int (iv_bits v) mod 2 ^ m = iv_num v mod 2 ^ m"
  unfolding iv_bits_num[OF assms(1)] by (rule mod_mod_cancel) (simp add: assms(2) le_imp_power_dvd)

lemma target_wide:
  assumes "target_ok w" "64 < w"
  obtains n where "w = 64 * n" "1 < n" "n \<le> 255"
  using assms that[of "w div 64"] by (auto simp: target_ok_def)

lemma converts_one:
  assumes "0 < w" "w \<le> 64" "uint x mod 2 ^ w = z mod 2 ^ w"
  shows "iv_converts (Iv_of_val x w s) w s z"
  unfolding iv_converts_def Iv_of_val_one[OF assms(1,2)] using assms
  by (auto simp: iv_ok_one unat_take_bit_bound iv_bits_def take_bit_word_uint simp del: of_nat_unat)

lemma converts_wide:
  assumes "1 < n" "n \<le> 255" "n \<le> length ws" "int (wval (take n ws)) = z mod 2 ^ (64 * n)"
  shows "iv_converts (Iv_of_ptr ws (64 * n) s) (64 * n) s z"
proof -
  have "length (take n ws) = n" using assms(3) by simp
  then have "iv_ok \<lparr>iv_width = 64 * n, iv_sign = s, iv_u = PValue (take n ws)\<rparr>"
    using iv_ok_wide[of "take n ws" s] assms(1,2) by simp
  then show ?thesis using Iv_of_ptr_wide[OF assms(2,1,3)] assms(4) by (simp add: iv_converts_def iv_bits_def)
qed

lemma Trunc_converts:
  assumes "iv_ok v" "target_ok w" "w \<le> iv_width v"
  shows "iv_converts (Trunc w s v) w s (iv_num v)"
  using assms(1)
proof (cases rule: iv_ok_cases)
  case (one w0 s0 x)
  then have "w \<le> 64" "0 < w" "uint x mod 2 ^ w = iv_num v mod 2 ^ w"
    using assms iv_num_mod_less[OF assms(1,3)] by (auto simp: target_ok_def iv_bits_def)
  then show ?thesis using one converts_one[of w x "iv_num v" s] by (simp add: Trunc_def iv_ops)
next
  case (wide s0 ws)
  have num: "int (wval ws) mod 2 ^ w = iv_num v mod 2 ^ w"
    using iv_num_mod_less[OF assms(1,3)] wide by (simp add: iv_bits_def)
  show ?thesis
  proof (cases "w \<le> 64")
    case True
    obtain x ws' where ws: "ws = x # ws'" using wide by (cases ws) auto
    have "(2::nat) ^ w dvd 2 ^ 64" using True by (rule le_imp_power_dvd)
    then have "wval ws mod 2 ^ w = unat x mod 2 ^ w" unfolding ws wval_cons64
      by (metis dvd_mult2 mod_add_right_eq mod_0_imp_dvd dvd_imp_mod_0 add.right_neutral)
    then have "uint x mod 2 ^ w = int (wval ws) mod 2 ^ w"
      by (metis of_nat_numeral of_nat_power of_nat_unat zmod_int)
    then have "iv_converts (Iv_of_val x w s) w s (iv_num v)"
      using True assms(2) num by (intro converts_one) (auto simp: target_ok_def)
    moreover have "Iv_of_ptr ws w s = Iv_of_val x w s"
      using True ws by (simp add: Iv_of_ptr_def Iv_of_val_def Init_ptr_def Init_val_def iv_ops word_at_def)
    ultimately show ?thesis using wide by (simp add: Trunc_def iv_ops)
  next
    case False
    then obtain n where n: "w = 64 * n" "1 < n" "n \<le> 255" using target_wide[OF assms(2)] by auto
    then have le: "n \<le> length ws" using assms(3) wide by simp
    then have "int (wval (take n ws)) = iv_num v mod 2 ^ (64 * n)"
      using num n by (simp add: wval_take zmod_int)
    then show ?thesis using converts_wide[OF n(2,3) le, of "iv_num v" s] wide n by (simp add: Trunc_def iv_ops)
  qed
qed

lemma Extend_one_word:
  assumes "iv_ok v" "w \<le> 64" "iv_width v < w"
  shows "iv_converts (Extend w s v) w s (iv_num v)"
proof -
  obtain w0 s0 x where v: "v = \<lparr>iv_width = w0, iv_sign = s0, iv_u = Value x\<rparr>" "0 < w0" "w0 \<le> 64" "unat x < 2 ^ w0"
    using same_num_one[OF assms(1)] assms(2,3) by auto
  have ext: "\<exists>k. GetExtValue 0 v = Some k \<and> (word_of_int k :: u64) = word_of_int (iv_num v)"
    using v by (cases s0)
      (simp_all add: GetExtValue_def GetSXTValue_one GetZXTValue_def IsOneSignificantWord_def low_word_def iv_ops iv_num_one)
  moreover have "iv_converts (Iv_of_val (word_of_int (iv_num v)) w s) w s (iv_num v)"
    using assms v uint_mod_pow[OF assms(2)] by (intro converts_one) auto
  ultimately show ?thesis using v assms by (auto simp: Extend_def iv_ops)
qed

lemma GetNumWords_one: "0 < w \<Longrightarrow> w \<le> 64 \<Longrightarrow> GetNumWords w = 1"
  by (simp add: GetNumWords_def kWordBitSize_def div_nat_eqI)

lemma GetSignBit_wide:
  assumes "length ws \<le> 255" "1 < length ws"
  shows "GetSignBit \<lparr>iv_width = 64 * length ws, iv_sign = s, iv_u = PValue ws\<rparr>
    = Some (2 ^ (64 * length ws) \<le> 2 * wval ws)"
proof -
  let ?n = "length ws"
  obtain k where k: "64 * ?n = Suc k" using assms(2) by (cases "64 * ?n") auto
  have idx: "nat ((int (64 * ?n) - 1) mod 2 ^ 16) = k" using k assms(1) by (simp add: nat_diff_distrib)
  have kd: "k div 64 = ?n - 1" "k mod 64 = 63"
  proof -
    have "k = 63 + (?n - 1) * 64" using k assms(2) by simp
    then show "k div 64 = ?n - 1" "k mod 64 = 63" by simp_all
  qed
  have "words_bit ws k \<longleftrightarrow> 2 ^ k \<le> wval ws"
  proof -
    have "wval ws < 2 ^ Suc k" using wval_bound[of ws] k by simp
    then have "wval ws div 2 ^ k = (if 2 ^ k \<le> wval ws then 1 else 0)" by (auto intro!: div_nat_eqI)
    then show ?thesis unfolding bit_wval[symmetric] by (simp add: bit_iff_odd)
  qed
  moreover have "words_bit ws k \<longleftrightarrow> bit (ws ! (?n - 1)) 63"
    using kd assms(2) by (auto simp: words_bit_def)
  moreover have "GetBit k \<lparr>iv_width = 64 * ?n, iv_sign = s, iv_u = PValue ws\<rparr> = Some (bit (ws ! (?n - 1)) 63)"
    using k kd assms GetNumWords_wide[OF assms(1)] and_exp_eq_0[of 63 "ws ! (?n - 1)"]
    by (auto simp: GetBit_def iv_ops word_at_def shl_word_def)
  ultimately show ?thesis unfolding GetSignBit_def using idx k by simp
qed

lemma ExtendToWideInt_one:
  assumes "v = \<lparr>iv_width = w0, iv_sign = s0, iv_u = Value x\<rparr>" "0 < w0" "w0 \<le> 64" "unat x < 2 ^ w0" "1 < n" "n \<le> 255"
  shows "ExtendToWideInt (64 * n) s v =
    Iv_of_ptr (word_of_int (iv_num v) # replicate (n - 1) (if iv_num v < 0 then - 1 else 0)) (64 * n) s"
proof -
  have neg: "(if s0 then GetSignBit v else Some False) = Some (iv_num v < 0)"
    using assms(1-4) int_less_pow[OF assms(4)] by (simp add: GetSignBit_one iv_num_one)
  have ext: "(64 * n - w0) mod 64 = (64 - w0) mod 64"
  proof -
    have "64 * n - w0 = (64 - w0) + 64 * (n - 1)" using assms(3,5) by (cases n) auto
    then show ?thesis by simp
  qed
  show ?thesis
  proof (cases "iv_num v < 0 \<and> w0 < 64")
    case True
    then have s0: "s0" "2 ^ w0 \<le> 2 * unat x" using assms(1) by (auto simp: iv_num_one split: if_splits)
    then have "x OR push_bit w0 (- 1) = word_of_int (iv_num v)"
      using sign_extended_word[OF assms(2-4)] True assms(1) by (simp add: iv_num_one)
    moreover have "GetSignBit v = Some True" using neg s0 True by simp
    ultimately show ?thesis using True ext assms s0(1)
      by (auto simp: ExtendToWideInt_def iv_ops GetNumWords_one GetNumWords_wide GetRawData_def shl_word_def)
  next
    case False
    have "word_of_int (iv_num v) = x"
    proof (cases "w0 = 64")
      case True
      have "(2 ^ 64 :: u64) = 0" by simp
      then show ?thesis using True assms(1) by (simp add: iv_num_one)
    next
      case False
      with \<open>\<not> (iv_num v < 0 \<and> w0 < 64)\<close> assms(1,3) int_less_pow[OF assms(4)] show ?thesis by (auto simp: iv_num_one)
    qed
    then show ?thesis using False neg ext assms
      by (auto simp: ExtendToWideInt_def iv_ops GetNumWords_one GetNumWords_wide GetRawData_def)
  qed
qed

lemma wide_num_neg: "iv_ok \<lparr>iv_width = 64 * length ws, iv_sign = s0, iv_u = PValue ws\<rparr> \<Longrightarrow>
    iv_num \<lparr>iv_width = 64 * length ws, iv_sign = s0, iv_u = PValue ws\<rparr> < 0 \<longleftrightarrow> s0 \<and> 2 ^ (64 * length ws) \<le> 2 * wval ws"
  using int_wval_bound[of ws] by (auto simp: iv_num_def iv_bits_def)

lemma ExtendToWideInt_wide:
  assumes "v = \<lparr>iv_width = 64 * length ws, iv_sign = s0, iv_u = PValue ws\<rparr>" "iv_ok v"
    "1 < length ws" "length ws < n" "n \<le> 255"
  shows "ExtendToWideInt (64 * n) s v =
    Iv_of_ptr (ws @ replicate (n - length ws) (if iv_num v < 0 then - 1 else 0)) (64 * n) s"
proof -
  have len: "length ws \<le> 255" "64 * n - 64 * length ws = 64 * (n - length ws)" using assms by auto
  have "(if s0 then GetSignBit v else Some False) = Some (iv_num v < 0)"
    using assms len by (simp add: GetSignBit_wide wide_num_neg)
  then show ?thesis using assms(1,3-5) len
    by (auto simp: ExtendToWideInt_def iv_ops GetNumWords_wide GetRawData_def)
qed

lemma extended_value:
  fixes n m :: nat and B z :: int
  assumes "m \<le> n" "z < 0 \<Longrightarrow> B = z + 2 ^ (64 * m)" "\<not> z < 0 \<Longrightarrow> B = z" "0 \<le> B" "B < 2 ^ (64 * m)"
  shows "B + 2 ^ (64 * m) * (if z < 0 then 2 ^ (64 * (n - m)) - 1 else 0) = z mod 2 ^ (64 * n)"
proof -
  have p: "(2::int) ^ (64 * m) * 2 ^ (64 * (n - m)) = 2 ^ (64 * n)"
    using assms(1) by (simp flip: power_add add_mult_distrib2)
  have le: "(2::int) ^ (64 * m) \<le> 2 ^ (64 * n)" using assms(1) by (intro power_increasing) auto
  show ?thesis
  proof (cases "z < 0")
    case True
    then have "B + 2 ^ (64 * m) * (2 ^ (64 * (n - m)) - 1) = z + 2 ^ (64 * n)"
      using assms(2) p by (simp add: right_diff_distrib)
    moreover have "(z + 2 ^ (64 * n)) mod 2 ^ (64 * n) = z + 2 ^ (64 * n)"
    proof (rule mod_pos_pos_trivial)
      show "0 \<le> z + 2 ^ (64 * n)" using assms(2)[OF True] assms(4) le by linarith
    qed (use True in simp)
    ultimately show ?thesis using True by simp
  next
    case False
    have "z < 2 ^ (64 * n)" using assms(3)[OF False] assms(5) le by linarith
    then have "z mod 2 ^ (64 * n) = z" using False by (intro mod_pos_pos_trivial) simp_all
    then show ?thesis using False assms(3) by simp
  qed
qed

lemma Extend_wide:
  assumes "iv_ok v" "1 < n" "n \<le> 255" "iv_width v < 64 * n"
  shows "iv_converts (Extend (64 * n) s v) (64 * n) s (iv_num v)"
  using assms(1)
proof (cases rule: iv_ok_cases)
  case (one w0 s0 x)
  let ?z = "iv_num v"
  let ?ws = "(word_of_int ?z :: u64) # replicate (n - 1) (if ?z < 0 then - 1 else 0)"
  have r: "- (2 ^ 63) \<le> ?z" "?z < 2 ^ 64"
  proof -
    have "(2::int) ^ (w0 - 1) \<le> 2 ^ 63" "(2::int) ^ w0 \<le> 2 ^ 64" "(2::int) ^ (w0 - 1) \<le> 2 ^ 64"
      by (rule power_increasing; use one in simp)+
    then show "- (2 ^ 63) \<le> ?z" "?z < 2 ^ 64"
      using iv_num_range[OF assms(1)] one(1) by (cases s0; auto)+
  qed
  have "int (unat (word_of_int ?z :: u64)) + 2 ^ (64 * 1) * (if ?z < 0 then 2 ^ (64 * (n - 1)) - 1 else 0) = ?z mod 2 ^ (64 * n)"
  proof (rule extended_value)
    show "int (unat (word_of_int ?z :: u64)) = ?z + 2 ^ (64 * 1)" if "?z < 0"
    proof -
      have "?z mod 2 ^ 64 = (?z + 2 ^ 64) mod 2 ^ 64" by simp
      also have "\<dots> = ?z + 2 ^ 64" using r that by (intro mod_pos_pos_trivial) auto
      finally show ?thesis by (simp add: unsigned_of_int take_bit_eq_mod)
    qed
    show "int (unat (word_of_int ?z :: u64)) = ?z" if "\<not> ?z < 0"
      using r that by (simp add: unsigned_of_int take_bit_eq_mod)
    show "int (unat (word_of_int ?z :: u64)) < 2 ^ (64 * 1)"
      using int_less_pow[OF unat_less_u64[of "word_of_int ?z"]] by (simp only: mult_1_right)
  qed (use assms(2) in auto)
  moreover have "int (wval (replicate (n - 1) (if ?z < 0 then - 1 else 0 :: u64))) = (if ?z < 0 then 2 ^ (64 * (n - 1)) - 1 else 0)"
    by (rule wval_fill)
  ultimately have val: "int (wval ?ws) = ?z mod 2 ^ (64 * n)" by simp
  have "iv_converts (Iv_of_ptr ?ws (64 * n) s) (64 * n) s ?z"
    using assms(2,3) val by (intro converts_wide) auto
  then show ?thesis using one assms ExtendToWideInt_one[OF one assms(2,3)] by (auto simp: Extend_def iv_ops)
next
  case (wide s0 ws)
  let ?z = "iv_num v"
  let ?ws = "ws @ replicate (n - length ws) (if ?z < 0 then - 1 else 0 :: u64)"
  have less: "length ws < n" using assms(4) wide by simp
  have "int (wval ws) + 2 ^ (64 * length ws) * (if ?z < 0 then 2 ^ (64 * (n - length ws)) - 1 else 0) = ?z mod 2 ^ (64 * n)"
  proof (rule extended_value)
    have z: "?z = (if s0 \<and> 2 ^ (64 * length ws) \<le> 2 * wval ws then int (wval ws) - 2 ^ (64 * length ws) else int (wval ws))"
      using wide(1) by (simp add: iv_num_def iv_bits_def)
    show "int (wval ws) = ?z + 2 ^ (64 * length ws)" if "?z < 0"
      using that unfolding z by (simp split: if_splits)
    show "int (wval ws) = ?z" if "\<not> ?z < 0"
      using that int_wval_bound[of ws] unfolding z by (simp split: if_splits)
    show "int (wval ws) < 2 ^ (64 * length ws)" by (rule int_wval_bound)
  qed (use less in simp_all)
  then have val: "int (wval ?ws) = ?z mod 2 ^ (64 * n)"
    by (simp add: wval_append base64_def wval_fill)
  have "iv_converts (Iv_of_ptr ?ws (64 * n) s) (64 * n) s ?z"
    using assms(2,3) less val by (intro converts_wide) auto
  then show ?thesis using wide less assms ExtendToWideInt_wide[OF wide(1) assms(1) wide(3) less assms(3)]
    by (auto simp: Extend_def iv_ops)
qed

lemma TruncOrExtend_converts:
  assumes "iv_ok v" "target_ok w"
  shows "iv_converts (TruncOrExtend w s v) w s (iv_num v)"
proof (cases "w \<le> iv_width v")
  case True
  then show ?thesis using Trunc_converts[OF assms] by (simp add: TruncOrExtend_def)
next
  case False
  show ?thesis
  proof (cases "w \<le> 64")
    case True
    then show ?thesis using False Extend_one_word[OF assms(1)] by (simp add: TruncOrExtend_def)
  next
    case wide: False
    then obtain n where "w = 64 * n" "1 < n" "n \<le> 255" using target_wide[OF assms(2)] by auto
    then show ?thesis using False Extend_wide[OF assms(1)] by (simp add: TruncOrExtend_def)
  qed
qed

section \<open>Properties of the integers\<close>

lemma wide_dec_two_words: "WideSub_word [a, b] 1 = WideSub_loop [a, b] [1, 0] False"
  by (simp add: Let_def)

text \<open>The order of wide values: by their signs where these differ, word by word otherwise.\<close>

lemma Iv_compare_wide_signs:
  assumes "iv_ok a" "iv_ok b" "same_type a b" "iv_width a > 64" "iv_sign a" "iv_num a < 0 \<longleftrightarrow> \<not> iv_num b < 0"
  shows "Iv_less a b = Some (iv_num a < iv_num b)" and "Iv_greater a b = Some (iv_num a > iv_num b)"
proof -
  obtain ws where a: "a = \<lparr>iv_width = 64 * length ws, iv_sign = True, iv_u = PValue ws\<rparr>" "1 < length ws" "length ws \<le> 255"
    using assms(1,4,5) by (cases rule: iv_ok_cases) auto
  obtain vs where b: "b = \<lparr>iv_width = 64 * length ws, iv_sign = True, iv_u = PValue vs\<rparr>" "length vs = length ws"
    using same_type_wide[OF assms(2,3)] a by auto
  have s: "GetSignBit a = Some (iv_num a < 0)" "GetSignBit b = Some (iv_num b < 0)"
    using GetSignBit_wide[of ws True] GetSignBit_wide[of vs True] wide_num_neg[of ws True] wide_num_neg[of vs True] assms(1,2) a b by auto
  have c: "WideCompare a b = Some (if iv_num a < 0 then - 1 else 1)"
    using a b s assms(3,6) by (auto simp: WideCompare_def iv_ops)
  show "Iv_less a b = Some (iv_num a < iv_num b)" "Iv_greater a b = Some (iv_num a > iv_num b)"
    using c assms(3,4,6) by (auto simp: Iv_less_def Iv_greater_def iv_assert_def IsOneWord_def kWordBitSize_def)
qed

lemma compare_words_numeric:
  assumes "iv_ok a" "iv_ok b" "same_type a b" "iv_u a = PValue ws" "iv_u b = PValue vs" "iv_sign a \<Longrightarrow> iv_num a < 0 \<longleftrightarrow> iv_num b < 0"
  shows "compare_loop ws vs (length ws) = sgn (iv_num a - iv_num b)"
proof -
  have a: "a = \<lparr>iv_width = 64 * length ws, iv_sign = iv_sign a, iv_u = PValue ws\<rparr>" "1 < length ws"
    using assms(1,4) by (cases rule: iv_ok_cases; simp)+
  have w: "iv_width a = 64 * length ws" by (subst a(1)) simp
  obtain us where "b = \<lparr>iv_width = 64 * length ws, iv_sign = iv_sign a, iv_u = PValue us\<rparr>" "length us = length ws"
    using same_type_wide[OF assms(2,3) w a(2)] by blast
  then have b: "b = \<lparr>iv_width = 64 * length ws, iv_sign = iv_sign a, iv_u = PValue vs\<rparr>" "length vs = length ws"
    using assms(5) by (metis IntVal.select_convs(3) storage.inject(2))+
  have "iv_num a < 0 \<longleftrightarrow> iv_sign a \<and> 2 ^ (64 * length ws) \<le> 2 * wval ws" "iv_num b < 0 \<longleftrightarrow> iv_sign a \<and> 2 ^ (64 * length ws) \<le> 2 * wval vs"
    using wide_num_neg[of ws "iv_sign a"] wide_num_neg[of vs "iv_sign a"] a(1) b assms(1,2) by auto
  then have "iv_num a - iv_num b = int (wval ws) - int (wval vs)"
    using assms(4,5,6) a(1) b by (auto simp: iv_num_def iv_bits_def)
  then show ?thesis using compare_loop_value[of "length ws" ws vs] b(2) by auto
qed

text \<open>C24: Arithmetic on two values of one type is arithmetic modulo \<open>2 ^ width\<close> on the integers they
  stand for: \<open>+\<close>, \<open>-\<close>, \<open>*\<close>, the bitwise operators, negation, complement and increment return a
  well-formed value of the same type whose bits are the residue of the exact result, for widths up to
  64 and for the wide representation in words.\<close>

theorem iv_arithmetic_modular:
  assumes "iv_ok a" "iv_ok b" "same_type a b"
  shows "iv_result (Iv_plus a b) a (iv_num a + iv_num b) \<and>
         iv_result (Iv_minus a b) a (iv_num a - iv_num b) \<and>
         iv_result (Iv_times a b) a (iv_num a * iv_num b) \<and>
         iv_result (Iv_and a b) a (iv_num a AND iv_num b) \<and>
         iv_result (Iv_or a b) a (iv_num a OR iv_num b) \<and>
         iv_result (Iv_xor a b) a (iv_num a XOR iv_num b) \<and>
         iv_result (Iv_neg a) a (- iv_num a) \<and>
         iv_result (Iv_not a) a (NOT (iv_num a)) \<and>
         iv_result (Iv_incr a) a (iv_num a + 1)"
  using assms by (simp add: Iv_plus_result Iv_minus_result Iv_times_result Iv_and_result Iv_or_result
      Iv_xor_result Iv_neg_result Iv_not_result Iv_incr_result)

theorem iv_arithmetic_modular_witness:
  "iv_result (Iv_times \<lparr>iv_width = 128, iv_sign = True, iv_u = PValue [- 1, - 1]\<rparr>
       \<lparr>iv_width = 128, iv_sign = True, iv_u = PValue [5, 0]\<rparr>)
     \<lparr>iv_width = 128, iv_sign = True, iv_u = PValue [- 1, - 1]\<rparr> (- 5)"
proof -
  let ?a = "\<lparr>iv_width = 128, iv_sign = True, iv_u = PValue [- 1, - 1]\<rparr>"
  let ?b = "\<lparr>iv_width = 128, iv_sign = True, iv_u = PValue [5, 0]\<rparr>"
  have "iv_ok ?a" "iv_ok ?b" "same_type ?a ?b" by (simp_all add: iv_ok_def same_type_def)
  moreover have "iv_num ?a = - 1" "iv_num ?b = 5"
    by (simp_all add: iv_num_def iv_bits_def unsigned_minus_1_eq_mask mask_eq_exp_minus_1)
  ultimately show ?thesis using iv_arithmetic_modular[of ?a ?b] by simp
qed

text \<open>C25: Conversion keeps the integer modulo the new width: \<open>TruncOrExtend\<close> of a value of at most 64 bits or of whole words of
  64 bits, to any width up to 64 or of whole words, returns a well-formed value of the new width and sign whose bits are
  the residue of the old integer, so a sign extension keeps a negative number.\<close>

theorem iv_trunc_or_extend:
  assumes "iv_ok v" "target_ok w"
  shows "\<exists>r. TruncOrExtend w s v = Some r \<and> iv_ok r \<and> iv_width r = w \<and> iv_sign r = s \<and>
    int (iv_bits r) = iv_num v mod 2 ^ w"
  using TruncOrExtend_converts[OF assms, of s] by (simp add: iv_converts_def)

theorem iv_trunc_or_extend_witness:
  "\<exists>r. TruncOrExtend 128 True \<lparr>iv_width = 8, iv_sign = True, iv_u = Value 255\<rparr> = Some r \<and> int (iv_bits r) = 2 ^ 128 - 1"
  using iv_trunc_or_extend[of "\<lparr>iv_width = 8, iv_sign = True, iv_u = Value 255\<rparr>" 128 True]
  by (auto simp: iv_ok_def target_ok_def iv_num_def iv_bits_def)

text \<open>C26: Division of values of at most 64 bits truncates toward zero: exactly when the divisor is not
  zero and the quotient is representable, \<open>/\<close> and \<open>%\<close> return the truncated quotient and the remainder
  with the sign of the dividend.\<close>

theorem iv_division_truncates:
  assumes "iv_ok a" "iv_ok b" "same_type a b" "iv_width a \<le> 64"
  shows "if iv_num b = 0 \<or> (iv_sign a \<and> iv_num a = - (2 ^ (iv_width a - 1)) \<and> iv_num b = - 1)
         then Iv_div a b = None \<and> Iv_mod a b = None
         else \<exists>q r. Iv_div a b = Some q \<and> Iv_mod a b = Some r \<and> iv_num q = iv_num a sdiv iv_num b \<and>
           iv_num r = iv_num a smod iv_num b \<and> iv_num a = iv_num q * iv_num b + iv_num r"
proof (cases "iv_num b = 0 \<or> (iv_sign a \<and> iv_num a = - (2 ^ (iv_width a - 1)) \<and> iv_num b = - 1)")
  case True
  then show ?thesis using div_guard_ok[OF assms] by (auto simp: Iv_div_def Iv_mod_def)
next
  case False
  then have nz: "iv_num b \<noteq> 0"
    and ov: "\<not> (iv_sign a \<and> iv_num a = - (2 ^ (iv_width a - 1)) \<and> iv_num b = - 1)" by auto
  obtain q where "Iv_div a b = Some q" "iv_num q = iv_num a sdiv iv_num b"
    using iv_result_num[OF Iv_div_result[OF assms nz ov] assms(1) sdiv_smod_range(1)[OF assms(1-3) nz ov]] by auto
  moreover obtain r where "Iv_mod a b = Some r" "iv_num r = iv_num a smod iv_num b"
    using iv_result_num[OF Iv_mod_result[OF assms nz ov] assms(1) sdiv_smod_range(2)[OF assms(1-3) nz ov]] by auto
  ultimately show ?thesis using False by (simp add: sdiv_mult_smod_eq)
qed

theorem iv_division_truncates_witness:
  "\<exists>q. Iv_div \<lparr>iv_width = 8, iv_sign = True, iv_u = Value 249\<rparr> \<lparr>iv_width = 8, iv_sign = True, iv_u = Value 2\<rparr> = Some q
     \<and> iv_num q = - 3"
proof -
  let ?a = "\<lparr>iv_width = 8, iv_sign = True, iv_u = Value 249\<rparr>" and ?b = "\<lparr>iv_width = 8, iv_sign = True, iv_u = Value 2\<rparr>"
  have "iv_ok ?a" "iv_ok ?b" "same_type ?a ?b" by (simp_all add: iv_ok_def same_type_def iv_bits_def)
  moreover have "iv_num ?a = - 7" "iv_num ?b = 2" by (simp_all add: iv_num_def iv_bits_def)
  ultimately show ?thesis
    using iv_division_truncates[of ?a ?b] by (auto simp: signed_divide_int_def)
qed



section \<open>Behaviour outside the well-formed widths\<close>

text \<open>A decrement that borrows across more than two words subtracts one from each further word whose
  new value is not 0.\<close>

lemma wide_decrement_borrows_wrongly: "WideSub_word [0, 5, 7] 1 = [- 1, 4, 6]"
  by code_simp

text \<open>The leading ones of an 8-bit value of all ones are counted as 0.\<close>

lemma leading_ones_of_small_width:
  "CountLeadingOnes \<lparr>iv_width = 8, iv_sign = True, iv_u = Value 255\<rparr> = Some 0"
  by code_simp

text \<open>The default value cannot be copied without a shift by 64.\<close>

lemma copy_of_default_undefined: "Iv_copy Iv_default = None"
  by code_simp

end
