(* ===== verification/Constant_Fold.thy ===== *)
theory Constant_Fold
  imports Int_Val
begin

text \<open>
  The constant folder of expressions, the class \<open>ConstantFold\<close> of
  \<^verbatim>\<open>src/src/mapleall/mpl2mpl/src/constantfold.cpp\<close>: the evaluation of operators on integer constants
  and the rewriting of expression trees.

  A fold returns a pair of a node and a constant still to be added to it; \<open>PairToExpr\<close> makes a node of
  the pair. Nodes are values here, so a fold that reuses a node and one that makes an equal node are
  the same; the one test of addresses that decides a result (in \<open>FoldTernary\<close>) is an argument. Constants
  are integers: the branches for floating constants, the nodes that address memory (\<open>iread\<close>,
  \<open>iaddrof\<close>, \<open>array\<close>, \<open>gcmallocjarray\<close>) and the statements are not part of this theory. \<open>None\<close> is a
  failed assertion, or the operations of theory \<open>Int_Val\<close> being undefined. The pointer size of the
  target is \<open>ps\<close>.
\<close>

unbundle bit_operations_syntax

section \<open>Nodes\<close>

datatype (plugins only: code) Opcode =
  OP_abs | OP_bnot | OP_lnot | OP_neg | OP_recip | OP_sqrt | OP_ceil | OP_floor | OP_round | OP_trunc |
  OP_cvt | OP_retype | OP_sext | OP_zext | OP_extractbits | OP_add | OP_sub | OP_mul | OP_div | OP_rem |
  OP_ashr | OP_lshr | OP_shl | OP_max | OP_min | OP_band | OP_bior | OP_bxor | OP_cand | OP_cior | OP_land |
  OP_lior | OP_eq | OP_ne | OP_ge | OP_gt | OP_le | OP_lt | OP_cmp | OP_depositbits | OP_select | OP_dread |
  OP_regread | OP_constval | OP_sizeoftype

record MIRIntConst =
  mc_type :: PrimType
  mc_value :: IntVal

text \<open>\<open>Dread\<close> names a symbol and a field of it, \<open>Regread\<close> a pseudo register; they stand for the nodes
  that folding does not enter. The argument type of \<open>Sizeoftype\<close> is present when it is a scalar.\<close>

datatype node =
    Dread PrimType nat nat
  | Regread PrimType nat
  | Constval PrimType MIRIntConst
  | Sizeoftype PrimType "PrimType option"
  | Unary Opcode PrimType node
  | TypeCvt Opcode PrimType PrimType node
  | Retype PrimType PrimType node
  | Extractbits Opcode PrimType nat nat node
  | Binary Opcode PrimType node node
  | Compare Opcode PrimType PrimType node node
  | Depositbits PrimType nat nat node node
  | Ternary Opcode PrimType node node node

fun GetPrimType :: "node \<Rightarrow> PrimType" where
  "GetPrimType (Dread t _ _) = t"
| "GetPrimType (Regread t _) = t"
| "GetPrimType (Constval t _) = t"
| "GetPrimType (Sizeoftype t _) = t"
| "GetPrimType (Unary _ t _) = t"
| "GetPrimType (TypeCvt _ t _ _) = t"
| "GetPrimType (Retype t _ _) = t"
| "GetPrimType (Extractbits _ t _ _ _) = t"
| "GetPrimType (Binary _ t _ _) = t"
| "GetPrimType (Compare _ t _ _ _) = t"
| "GetPrimType (Depositbits t _ _ _ _) = t"
| "GetPrimType (Ternary _ t _ _ _) = t"

fun GetOpCode :: "node \<Rightarrow> Opcode" where
  "GetOpCode (Dread _ _ _) = OP_dread"
| "GetOpCode (Regread _ _) = OP_regread"
| "GetOpCode (Constval _ _) = OP_constval"
| "GetOpCode (Sizeoftype _ _) = OP_sizeoftype"
| "GetOpCode (Unary opc _ _) = opc"
| "GetOpCode (TypeCvt opc _ _ _) = opc"
| "GetOpCode (Retype _ _ _) = OP_retype"
| "GetOpCode (Extractbits opc _ _ _ _) = opc"
| "GetOpCode (Binary opc _ _ _) = opc"
| "GetOpCode (Compare opc _ _ _ _) = opc"
| "GetOpCode (Depositbits _ _ _ _ _) = OP_depositbits"
| "GetOpCode (Ternary opc _ _ _ _) = opc"

fun const_of :: "node \<Rightarrow> MIRIntConst option" where
  "const_of (Constval _ c) = Some c"
| "const_of _ = None"

type_synonym fold_pair = "node \<times> IntVal option"

type_synonym symbol_types = "nat \<Rightarrow> nat \<Rightarrow> (PrimType \<times> nat) option"

definition andm :: "bool \<Rightarrow> bool option \<Rightarrow> bool option" where
  "andm b m = (if b then m else Some False)"

text \<open>A chain of \<open>else if\<close>: a condition is evaluated only when those before it are false.\<close>

primrec else_if :: "(bool option \<times> 'a option) list \<Rightarrow> 'a option \<Rightarrow> 'a option" where
  "else_if [] d = d"
| "else_if (x # xs) d = (case fst x of None \<Rightarrow> None | Some b \<Rightarrow> if b then snd x else else_if xs d)"

section \<open>Integer constants\<close>

definition GetOrCreateIntConst :: "nat \<Rightarrow> u64 \<Rightarrow> PrimType \<Rightarrow> MIRIntConst option" where
  "GetOrCreateIntConst ps val t = do {
     v \<leftarrow> Iv_of_val_type ps val t;
     Some \<lparr>mc_type = t, mc_value = v\<rparr>
   }"

definition CreateIntConst :: "nat \<Rightarrow> u64 \<Rightarrow> PrimType \<Rightarrow> node option" where
  "CreateIntConst ps val t = map_option (Constval t) (GetOrCreateIntConst ps val t)"

definition mc_IsZero :: "MIRIntConst \<Rightarrow> bool option" where
  "mc_IsZero c = Iv_eq_int (mc_value c) 0"

text \<open>The end of the folding functions: \<open>SetValue\<close>, called for \<open>dyni32\<close>, is a \<open>CHECK_FATAL\<close>.\<close>

definition make_const :: "nat \<Rightarrow> u64 \<Rightarrow> PrimType \<Rightarrow> MIRIntConst option" where
  "make_const ps r t = (if t = PTY_dyni32 then None else GetOrCreateIntConst ps r t)"

definition FoldIntConstComparisonMIRConst ::
  "nat \<Rightarrow> Opcode \<Rightarrow> PrimType \<Rightarrow> PrimType \<Rightarrow> MIRIntConst \<Rightarrow> MIRIntConst \<Rightarrow> MIRIntConst option" where
  "FoldIntConstComparisonMIRConst ps opcode resultType opndType c0 c1 = do {
     greater \<leftarrow> Iv_Greater ps (mc_value c0) (mc_value c1) opndType;
     equal \<leftarrow> Iv_Equal ps (mc_value c0) (mc_value c1) opndType;
     less \<leftarrow> Iv_Less ps (mc_value c0) (mc_value c1) opndType;
     result \<leftarrow>
       (case opcode of
          OP_eq \<Rightarrow> Some (if equal then 1 else 0)
        | OP_ge \<Rightarrow> Some (if greater \<or> equal then 1 else 0)
        | OP_gt \<Rightarrow> Some (if greater then 1 else 0)
        | OP_le \<Rightarrow> Some (if less \<or> equal then 1 else 0)
        | OP_lt \<Rightarrow> Some (if less then 1 else 0)
        | OP_ne \<Rightarrow> Some (if \<not> equal then 1 else 0)
        | OP_cmp \<Rightarrow> Some (if greater then 1 else if equal then 0 else if less then - 1 else 0)
        | _ \<Rightarrow> None);
     make_const ps result resultType
   }"

definition bool_word :: "bool \<Rightarrow> u64" where
  "bool_word b = (if b then 1 else 0)"

definition FoldIntConstBinaryMIRConst ::
  "nat \<Rightarrow> Opcode \<Rightarrow> PrimType \<Rightarrow> MIRIntConst \<Rightarrow> MIRIntConst \<Rightarrow> MIRIntConst option" where
  "FoldIntConstBinaryMIRConst ps opcode t c0 c1 = do {
     let v0 = mc_value c0;
     let v1 = mc_value c1;
     let shift = (do { k \<leftarrow> GetZXTValue 0 v1; Some (unat k mod GetAlignedPrimTypeBitSize ps t) });
     let truth = (\<lambda>f. do { a \<leftarrow> GetExtValue 0 v0; b \<leftarrow> GetExtValue 0 v1;
                          Iv_of_val_type ps (bool_word (f (a \<noteq> 0) (b \<noteq> 0))) t });
     _ \<leftarrow> Iv_of_val_type ps 0 t;
     result \<leftarrow>
       (case opcode of
          OP_add \<Rightarrow> Iv_Add ps v0 v1 t
        | OP_sub \<Rightarrow> Iv_Sub ps v0 v1 t
        | OP_mul \<Rightarrow> Iv_Mul ps v0 v1 t
        | OP_div \<Rightarrow> Iv_Div ps v0 v1 t
        | OP_rem \<Rightarrow> Iv_Rem ps v0 v1 t
        | OP_ashr \<Rightarrow> do { k \<leftarrow> shift; AShr_type ps v0 k t }
        | OP_lshr \<Rightarrow> do { k \<leftarrow> shift; LShr_type ps v0 k t }
        | OP_shl \<Rightarrow> do { k \<leftarrow> shift; Iv_Shl ps v0 k t }
        | OP_max \<Rightarrow> Iv_Max_type ps v0 v1 t
        | OP_min \<Rightarrow> Iv_Min_type ps v0 v1 t
        | OP_band \<Rightarrow> Iv_And ps v0 v1 t
        | OP_bior \<Rightarrow> Iv_Or ps v0 v1 t
        | OP_bxor \<Rightarrow> Iv_Xor ps v0 v1 t
        | OP_cand \<Rightarrow> truth (\<and>)
        | OP_land \<Rightarrow> truth (\<and>)
        | OP_cior \<Rightarrow> truth (\<or>)
        | OP_lior \<Rightarrow> truth (\<or>)
        | _ \<Rightarrow> None);
     x \<leftarrow> GetExtValue 0 result;
     make_const ps (word_of_int x) t
   }"

definition FoldIntConstUnaryMIRConst :: "nat \<Rightarrow> Opcode \<Rightarrow> PrimType \<Rightarrow> MIRIntConst \<Rightarrow> MIRIntConst option" where
  "FoldIntConstUnaryMIRConst ps opcode t c = do {
     v \<leftarrow> TruncOrExtend_type ps t (mc_value c);
     result \<leftarrow>
       (case opcode of
          OP_abs \<Rightarrow> do {
            neg \<leftarrow> andm (IsSignedInteger (mc_type c)) (GetSignBit v);
            if neg then Iv_neg v else Some v
          }
        | OP_bnot \<Rightarrow> Iv_not v
        | OP_lnot \<Rightarrow> do { z \<leftarrow> Iv_eq_int v 0; Iv_of_val_type ps (bool_word z) t }
        | OP_neg \<Rightarrow> Iv_neg v
        | _ \<Rightarrow> None);
     x \<leftarrow> GetExtValue 0 result;
     make_const ps (word_of_int x) t
   }"

definition FoldSignExtendMIRConst :: "nat \<Rightarrow> Opcode \<Rightarrow> PrimType \<Rightarrow> nat \<Rightarrow> IntVal \<Rightarrow> MIRIntConst option" where
  "FoldSignExtendMIRConst ps opcode t sz v = do {
     r \<leftarrow> (if opcode = OP_sext then map_option word_of_int (GetSXTValue sz v) else GetZXTValue sz v);
     GetOrCreateIntConst ps r t
   }"

text \<open>The conversion between integer types. The outer option is a failed assertion, the inner one the
  null pointer of a conversion that is not folded; conversions from or to floating types are outside
  the model.\<close>

definition FoldTypeCvtMIRConst :: "nat \<Rightarrow> MIRIntConst \<Rightarrow> PrimType \<Rightarrow> PrimType \<Rightarrow> MIRIntConst option option" where
  "FoldTypeCvtMIRConst ps c fromType toType =
     (if IsPrimitiveDynType fromType \<or> IsPrimitiveDynType toType \<or>
         IsPrimitiveVector fromType \<or> IsPrimitiveVector toType then Some None
      else if fromType = PTY_f128 \<or> toType = PTY_f128 then Some None
      else if IsPrimitiveInteger fromType \<and> IsPrimitiveInteger toType then
        let fromSize = (if fromType = PTY_u1 then 1 else GetPrimTypeBitSize ps fromType);
            toSize = (if toType = PTY_u1 then 1 else GetPrimTypeBitSize ps toType)
        in if toSize > fromSize then do {
             v \<leftarrow> TruncOrExtend_type ps fromType (mc_value c);
             map_option Some (FoldSignExtendMIRConst ps (if IsSignedInteger fromType then OP_sext else OP_zext)
               toType (fromSize mod 2 ^ 8) v)
           } else do {
             x \<leftarrow> GetExtValue 0 (mc_value c);
             map_option Some (GetOrCreateIntConst ps (word_of_int x) toType)
           }
      else None)"

definition IsDivSafe :: "MIRIntConst \<Rightarrow> MIRIntConst \<Rightarrow> PrimType \<Rightarrow> bool option" where
  "IsDivSafe dividend divisor t = do {
     z \<leftarrow> Iv_eq_int (mc_value divisor) 0;
     if IsUnsignedInteger t then Some (\<not> z)
     else andm (\<not> z) (do {
       m \<leftarrow> IsMinValue (mc_value dividend);
       if \<not> m then Some True else map_option Not (AreAllBitsOne (mc_value divisor))
     })
   }"

text \<open>\<open>cstA\<close> and \<open>cstB\<close> are of type \<open>int64\<close>.\<close>

definition IntegerOpIsOverflow :: "nat \<Rightarrow> Opcode \<Rightarrow> PrimType \<Rightarrow> int \<Rightarrow> int \<Rightarrow> bool option" where
  "IntegerOpIsOverflow ps op t cstA cstB =
     (let a = word_of_int cstA :: u64; b = word_of_int cstB :: u64; n = GetPrimTypeBitSize ps t - 1 in
      case op of
        OP_add \<Rightarrow>
          (if IsUnsignedInteger t then Some (a + b < a)
           else do { r \<leftarrow> shr_word (a + b) n; x \<leftarrow> shr_word a n; y \<leftarrow> shr_word b n; Some (r \<noteq> x \<and> r \<noteq> y) })
      | OP_sub \<Rightarrow>
          (if IsUnsignedInteger t then Some (cstA < cstB)
           else do { x \<leftarrow> shr_word a n; y \<leftarrow> shr_word b n; r \<leftarrow> shr_word (a - b) n; Some (x \<noteq> y \<and> r \<noteq> x) })
      | _ \<Rightarrow> Some False)"

section \<open>Constant operands\<close>

text \<open>\<open>FoldConstBinary\<close>, \<open>FoldConstUnary\<close> and \<open>FoldConstComparison\<close> with the functions that wrap the
  constant in a node; their floating branches are outside the model.\<close>

definition FoldConstBinary :: "nat \<Rightarrow> Opcode \<Rightarrow> PrimType \<Rightarrow> MIRIntConst \<Rightarrow> MIRIntConst \<Rightarrow> node option" where
  "FoldConstBinary ps opcode t c0 c1 =
     (if IsPrimitiveInteger t \<or> IsPrimitiveDynInteger t
      then map_option (Constval t) (FoldIntConstBinaryMIRConst ps opcode t c0 c1) else None)"

definition FoldConstUnary :: "nat \<Rightarrow> Opcode \<Rightarrow> PrimType \<Rightarrow> MIRIntConst \<Rightarrow> node option" where
  "FoldConstUnary ps opcode t c =
     (if IsPrimitiveInteger t \<or> IsPrimitiveDynInteger t
      then map_option (Constval t) (FoldIntConstUnaryMIRConst ps opcode t c) else None)"

definition FoldConstComparison ::
  "nat \<Rightarrow> Opcode \<Rightarrow> PrimType \<Rightarrow> PrimType \<Rightarrow> MIRIntConst \<Rightarrow> MIRIntConst \<Rightarrow> node option" where
  "FoldConstComparison ps opcode t opndType c0 c1 =
     (if IsPrimitiveInteger opndType \<or> IsPrimitiveDynInteger opndType
      then map_option (Constval t) (FoldIntConstComparisonMIRConst ps opcode t opndType c0 c1) else None)"

definition FoldConstComparisonReverse :: "Opcode \<Rightarrow> PrimType \<Rightarrow> PrimType \<Rightarrow> node \<Rightarrow> node \<Rightarrow> node option" where
  "FoldConstComparisonReverse opcode t opndType l r =
     (case opcode of
        OP_gt \<Rightarrow> Some (Compare OP_lt t opndType r l)
      | OP_lt \<Rightarrow> Some (Compare OP_gt t opndType r l)
      | OP_ge \<Rightarrow> Some (Compare OP_le t opndType r l)
      | OP_le \<Rightarrow> Some (Compare OP_ge t opndType r l)
      | OP_eq \<Rightarrow> Some (Compare OP_eq t opndType r l)
      | OP_ne \<Rightarrow> Some (Compare OP_ne t opndType r l)
      | _ \<Rightarrow> None)"

definition FoldTypeCvt_const :: "nat \<Rightarrow> MIRIntConst \<Rightarrow> PrimType \<Rightarrow> PrimType \<Rightarrow> node option option" where
  "FoldTypeCvt_const ps c fromType toType =
     map_option (map_option (\<lambda>r. Constval (mc_type r) r)) (FoldTypeCvtMIRConst ps c fromType toType)"

definition FoldSignExtend :: "nat \<Rightarrow> Opcode \<Rightarrow> PrimType \<Rightarrow> nat \<Rightarrow> MIRIntConst \<Rightarrow> node option" where
  "FoldSignExtend ps opcode t sz c = do {
     v \<leftarrow> TruncOrExtend sz (opcode = OP_sext) (mc_value c);
     r \<leftarrow> FoldSignExtendMIRConst ps opcode t sz v;
     Some (Constval (mc_type r) r)
   }"

section \<open>The constant part of a pair\<close>

text \<open>A fold returns a node and a constant to be added to it. The constants are added in the widest
  signed type.\<close>

definition AddSub :: "nat \<Rightarrow> IntVal option \<Rightarrow> IntVal option \<Rightarrow> bool \<Rightarrow> IntVal option option" where
  "AddSub ps v1 v2 isAdd =
     (case (v1, v2) of
        (None, None) \<Rightarrow> Some None
      | (Some a, Some b) \<Rightarrow> map_option Some (if isAdd then Iv_Add ps a b PTY_i64 else Iv_Sub ps a b PTY_i64)
      | (Some a, None) \<Rightarrow> map_option Some (TruncOrExtend_type ps PTY_i64 a)
      | (None, Some b) \<Rightarrow>
          (if isAdd then map_option Some (TruncOrExtend_type ps PTY_i64 b)
           else do { c \<leftarrow> TruncOrExtend_type ps PTY_i64 b; map_option Some (Iv_neg c) }))"

definition opt_plus :: "nat \<Rightarrow> IntVal option \<Rightarrow> IntVal option \<Rightarrow> IntVal option option" where
  "opt_plus ps v1 v2 = AddSub ps v1 v2 True"

definition opt_minus :: "nat \<Rightarrow> IntVal option \<Rightarrow> IntVal option \<Rightarrow> IntVal option option" where
  "opt_minus ps v1 v2 = AddSub ps v1 v2 False"

definition opt_times :: "nat \<Rightarrow> IntVal option \<Rightarrow> IntVal option \<Rightarrow> IntVal option option" where
  "opt_times ps v1 v2 =
     (case (v1, v2) of
        (None, None) \<Rightarrow> Some None
      | (Some a, Some b) \<Rightarrow> map_option Some (Iv_Mul ps a b PTY_i64)
      | _ \<Rightarrow> map_option Some (Iv_of_val_type ps 0 PTY_i64))"

definition opt_is_zero :: "IntVal option \<Rightarrow> bool option" where
  "opt_is_zero s = (case s of None \<Rightarrow> Some True | Some v \<Rightarrow> Iv_eq_int v 0)"

text \<open>The node of a pair as an expression of the result type.\<close>

definition plus_positive :: "nat \<Rightarrow> PrimType \<Rightarrow> IntVal \<Rightarrow> bool option" where
  "plus_positive ps t v = do {
     neg \<leftarrow> GetSignBit v;
     pos \<leftarrow> andm (\<not> neg) (map_option (\<lambda>x. x > 0) (GetSXTValue (GetPrimTypeBitSize ps t mod 2 ^ 8) v));
     if pos then Some True
     else do {
       w \<leftarrow> TruncOrExtend_type ps t v;
       m \<leftarrow> IsMinValue w;
       if m then Some True else map_option (\<lambda>x. x = - (2 ^ 63)) (GetSXTValue 0 v)
     }
   }"

definition add_const :: "nat \<Rightarrow> PrimType \<Rightarrow> node \<Rightarrow> IntVal \<Rightarrow> node option" where
  "add_const ps t e v = do {
     pos \<leftarrow> plus_positive ps t v;
     if pos then do {
       x \<leftarrow> GetExtValue 0 v;
       c \<leftarrow> CreateIntConst ps (word_of_int x) t;
       Some (Binary OP_add t e c)
     } else do {
       w \<leftarrow> Iv_neg v;
       x \<leftarrow> GetExtValue 0 w;
       c \<leftarrow> CreateIntConst ps (word_of_int x) t;
       Some (Binary OP_sub t e c)
     }
   }"

fun neg_opnd :: "node \<Rightarrow> node option" where
  "neg_opnd (Unary opc _ r) = (if opc = OP_neg then Some r else None)"
| "neg_opnd _ = None"

definition PairToExpr :: "nat \<Rightarrow> PrimType \<Rightarrow> fold_pair \<Rightarrow> node option" where
  "PairToExpr ps t p =
     (case snd p of
        None \<Rightarrow> Some (fst p)
      | Some v \<Rightarrow> do {
          zero \<leftarrow> Iv_eq_int v 0;
          neg \<leftarrow> GetSignBit v;
          (if zero then Some (fst p)
           else case neg_opnd (fst p) of
             Some r \<Rightarrow>
               (if \<not> neg then do {
                  x \<leftarrow> GetExtValue 0 v;
                  c \<leftarrow> CreateIntConst ps (word_of_int x) t;
                  Some (Binary OP_sub t c r)
                } else add_const ps t (fst p) v)
           | None \<Rightarrow> add_const ps t (fst p) v)
        })"

section \<open>Folding of nodes\<close>

text \<open>The functions take the recursive call \<open>rec\<close> as an argument; \<open>DispatchFold\<close> below closes the
  recursion. \<open>NewUnaryNode\<close> and \<open>NewBinaryNode\<close> reuse the old node when nothing changed, which is
  the same node as a value. A tree is negated by dropping or adding a \<open>neg\<close>.\<close>

fun NegateTree :: "node \<Rightarrow> node option" where
  "NegateTree (Unary opc t a) = Some (if opc = OP_neg then a else Unary OP_neg t (Unary opc t a))"
| "NegateTree (Constval t c) = do { v \<leftarrow> Iv_neg (mc_value c); Some (Constval t (c\<lparr>mc_value := v\<rparr>)) }"
| "NegateTree e = Some (Unary OP_neg (GetPrimType e) e)"

fun SetPrimType :: "PrimType \<Rightarrow> node \<Rightarrow> node" where
  "SetPrimType t (Unary opc _ a) = Unary opc t a"
| "SetPrimType t e = e"

definition FoldSizeoftype :: "nat \<Rightarrow> PrimType \<Rightarrow> PrimType option \<Rightarrow> fold_pair option" where
  "FoldSizeoftype ps t arg =
     (case arg of
        Some a \<Rightarrow> do { c \<leftarrow> GetOrCreateIntConst ps (of_nat (GetPrimTypeSize ps a)) t; Some (Constval t c, None) }
      | None \<Rightarrow> Some (Sizeoftype t arg, None))"

definition FoldRetype ::
  "nat \<Rightarrow> (node \<Rightarrow> fold_pair option) \<Rightarrow> PrimType \<Rightarrow> PrimType \<Rightarrow> node \<Rightarrow> fold_pair option" where
  "FoldRetype ps rec t f a = do {
     p \<leftarrow> rec a;
     e \<leftarrow> PairToExpr ps (GetPrimType a) p;
     Some (Retype t f e, None)
   }"

definition FoldUnary ::
  "nat \<Rightarrow> (node \<Rightarrow> fold_pair option) \<Rightarrow> Opcode \<Rightarrow> PrimType \<Rightarrow> node \<Rightarrow> fold_pair option" where
  "FoldUnary ps rec opc t a = do {
     p \<leftarrow> rec a;
     (case const_of (fst p) of
        Some c \<Rightarrow> do { e \<leftarrow> FoldConstUnary ps opc t c; Some (e, None) }
      | None \<Rightarrow>
          (if IsPrimitiveInteger t \<and> opc = OP_neg \<and> GetPrimType (fst p) \<noteq> PTY_u1 then do {
             result \<leftarrow> NegateTree (fst p);
             let newPtyp = GetPrimType result;
             (if GetOpCode result = OP_neg \<and> newPtyp \<noteq> t \<and> GetPrimTypeSize ps newPtyp \<noteq> GetPrimTypeSize ps t then do {
                e \<leftarrow> PairToExpr ps (GetPrimType a) p;
                Some (Unary opc t e, None)
              } else do {
                sum \<leftarrow> (case snd p of None \<Rightarrow> Some None | Some v \<Rightarrow> map_option Some (Iv_neg v));
                Some (if GetOpCode result = OP_neg \<and> newPtyp \<noteq> t then SetPrimType t result else result, sum)
              })
           } else do {
             e \<leftarrow> PairToExpr ps (GetPrimType a) p;
             Some (Unary opc t e, None)
           }))
   }"

definition FoldTypeCvt ::
  "nat \<Rightarrow> (node \<Rightarrow> fold_pair option) \<Rightarrow> Opcode \<Rightarrow> PrimType \<Rightarrow> PrimType \<Rightarrow> node \<Rightarrow> fold_pair option" where
  "FoldTypeCvt ps rec opc destPtyp fromPtyp a = do {
     p \<leftarrow> rec a;
     let rebuild = (do { e \<leftarrow> PairToExpr ps (GetPrimType a) p; Some (TypeCvt opc destPtyp fromPtyp e, None) });
     (case const_of (fst p) of
        Some c \<Rightarrow> do {
          r \<leftarrow> (if opc = OP_cvt then FoldTypeCvt_const ps c fromPtyp destPtyp else None);
          (case r of Some e \<Rightarrow> Some (e, None) | None \<Rightarrow> rebuild)
        }
      | None \<Rightarrow>
          (if opc = OP_cvt \<and> GetPrimTypeSize ps fromPtyp = GetPrimTypeSize ps destPtyp \<and>
              (IsPossible64BitAddress fromPtyp \<and> IsPossible64BitAddress destPtyp \<or>
               IsPossible32BitAddress fromPtyp \<and> IsPossible32BitAddress destPtyp \<or>
               IsPrimitivePureScalar ps fromPtyp \<and> IsPrimitivePureScalar ps destPtyp)
           then (case snd p of
                   None \<Rightarrow> Some p
                 | Some v \<Rightarrow> do { w \<leftarrow> Iv_of_iv_type ps v destPtyp; Some (fst p, Some w) })
           else rebuild))
   }"

definition Cf_IsPowerOf2 :: "u64 \<Rightarrow> bool" where
  "Cf_IsPowerOf2 num \<longleftrightarrow> num \<noteq> 0 \<and> NOT (num - 1) AND num = num"

definition ContiguousBitsOf1 :: "u64 \<Rightarrow> bool" where
  "ContiguousBitsOf1 x \<longleftrightarrow> x \<noteq> 0 \<and> NOT x AND (x + 1) = x + 1"

fun is_extract :: "node \<Rightarrow> (nat \<times> nat \<times> node) option" where
  "is_extract (Extractbits opc t off sz a) =
     (if opc = OP_extractbits \<or> opc = OP_sext \<or> opc = OP_zext then Some (off, sz, a) else None)"
| "is_extract _ = None"

text \<open>The operand of a redundant extraction is a variable of the extracted type, or an extraction of
  fewer bits that is zero extended. \<open>syms\<close> gives the primitive type and the size in bytes of the
  variable or field a \<open>Dread\<close> names, if the field exists.\<close>

fun ExtractbitsRedundant :: "nat \<Rightarrow> symbol_types \<Rightarrow> Opcode \<Rightarrow> PrimType \<Rightarrow> nat \<Rightarrow> node \<Rightarrow> bool" where
  "ExtractbitsRedundant ps syms opc t sz (Dread _ st fld) \<longleftrightarrow>
     GetPrimTypeSize ps t \<noteq> 8 \<and>
     (case syms st fld of None \<Rightarrow> False | Some (ty, bytes) \<Rightarrow> IsPrimitiveInteger ty \<and> bytes * 8 = sz \<and> ty = t)"
| "ExtractbitsRedundant ps syms opc t sz (Extractbits opc' t' _ sz' _) \<longleftrightarrow>
     GetPrimTypeSize ps t \<noteq> 8 \<and> opc' = OP_extractbits \<and> sz > sz' \<and> opc = OP_zext \<and> t = t' \<and> IsUnsignedInteger t'"
| "ExtractbitsRedundant ps syms opc t sz _ \<longleftrightarrow> False"

definition FoldExtractbits ::
  "nat \<Rightarrow> symbol_types \<Rightarrow> (node \<Rightarrow> fold_pair option) \<Rightarrow> Opcode \<Rightarrow> PrimType \<Rightarrow> nat \<Rightarrow> nat \<Rightarrow> node \<Rightarrow> fold_pair option" where
  "FoldExtractbits ps syms rec opc t off sz a = do {
     p \<leftarrow> rec a;
     (case (const_of (fst p), opc = OP_sext \<or> opc = OP_zext) of
        (Some c, True) \<Rightarrow> do { e \<leftarrow> FoldSignExtend ps opc t sz c; Some (e, None) }
      | _ \<Rightarrow> do {
          e \<leftarrow> PairToExpr ps (GetPrimType a) p;
          let opnd = (case is_extract e of
                        Some (off', sz', b) \<Rightarrow> if off = off' \<and> sz = sz' then b else e
                      | None \<Rightarrow> e);
          Some (if off = 0 \<and> sz \<ge> 8 \<and> Cf_IsPowerOf2 (of_nat sz) \<and> ExtractbitsRedundant ps syms opc t sz opnd
                then opnd else Extractbits opc t off sz opnd, None)
        })
   }"

definition FoldDepositbits ::
  "nat \<Rightarrow> (node \<Rightarrow> fold_pair option) \<Rightarrow> PrimType \<Rightarrow> nat \<Rightarrow> nat \<Rightarrow> node \<Rightarrow> node \<Rightarrow> fold_pair option" where
  "FoldDepositbits ps rec t off sz a b = do {
     lp \<leftarrow> rec a;
     rp \<leftarrow> rec b;
     (case (const_of (fst lp), const_of (fst rp)) of
        (Some c0, Some c1) \<Rightarrow> do {
          m0 \<leftarrow> shl_word (1 :: u64) (sz + off);
          m1 \<leftarrow> shl_word (1 :: u64) off;
          let op0Mask = NOT ((m0 - 1) XOR (m1 - 1));
          x \<leftarrow> GetExtValue 0 (mc_value c0);
          y \<leftarrow> GetExtValue 0 (mc_value c1);
          z \<leftarrow> shl_word (word_of_int y :: u64) off;
          c \<leftarrow> GetOrCreateIntConst ps ((word_of_int x AND op0Mask) OR (z AND (m0 - 1))) t;
          Some (Constval t c, None)
        }
      | _ \<Rightarrow> do {
          l \<leftarrow> PairToExpr ps (GetPrimType a) lp;
          r \<leftarrow> PairToExpr ps (GetPrimType b) rp;
          Some (Depositbits t off sz l r, None)
        })
   }"

section \<open>Comparisons and selections\<close>

fun cmp_operands :: "node \<Rightarrow> (PrimType \<times> node \<times> node) option" where
  "cmp_operands (Compare opc _ ot a b) = (if opc = OP_cmp then Some (ot, a, b) else None)"
| "cmp_operands _ = None"

text \<open>The loop over conversions below a comparison with 0.\<close>

fun u1_below_cvt :: "node \<Rightarrow> node option" where
  "u1_below_cvt (TypeCvt opc t f a) =
     (if t = PTY_u1 then Some (TypeCvt opc t f a) else if opc = OP_cvt then u1_below_cvt a else None)"
| "u1_below_cvt e = (if GetPrimType e = PTY_u1 then Some e else None)"

fun SetOpCode :: "Opcode \<Rightarrow> node \<Rightarrow> node" where
  "SetOpCode opc (Compare _ t ot a b) = Compare opc t ot a b"
| "SetOpCode opc e = e"

definition SimplifyDoubleConstvalCompare ::
  "Opcode \<Rightarrow> PrimType \<Rightarrow> node \<Rightarrow> MIRIntConst \<Rightarrow> PrimType \<times> node \<times> node \<Rightarrow> bool \<Rightarrow> node option" where
  "SimplifyDoubleConstvalCompare opc t whole c operands swap = do {
     z \<leftarrow> mc_IsZero c;
     Some (case operands of (ot, a, b) \<Rightarrow>
       if \<not> z then whole else if swap then Compare opc t ot b a else Compare opc t ot a b)
   }"

definition SimplifyDoubleCompare :: "Opcode \<Rightarrow> PrimType \<Rightarrow> PrimType \<Rightarrow> node \<Rightarrow> node \<Rightarrow> node option" where
  "SimplifyDoubleCompare opc t ot l r =
     (let whole = Compare opc t ot l r; flag = (GetOpCode l = OP_ne \<or> GetOpCode l = OP_eq) in
      if opc \<in> {OP_ne, OP_eq, OP_gt, OP_lt} \<and> cmp_operands l \<noteq> None \<and> const_of r \<noteq> None
      then SimplifyDoubleConstvalCompare opc t whole (the (const_of r)) (the (cmp_operands l)) False
      else if opc \<in> {OP_ne, OP_eq, OP_gt, OP_lt} \<and> cmp_operands r \<noteq> None \<and> const_of l \<noteq> None
      then SimplifyDoubleConstvalCompare opc t whole (the (const_of l)) (the (cmp_operands r)) (opc \<in> {OP_gt, OP_lt})
      else (case const_of r of
        Some c \<Rightarrow>
          (if opc = OP_ne then do {
             z \<leftarrow> mc_IsZero c;
             Some (if \<not> z then whole else if flag then l
                   else case u1_below_cvt l of Some e \<Rightarrow> e | None \<Rightarrow> whole)
           } else if opc = OP_eq then do {
             z \<leftarrow> mc_IsZero c;
             Some (if z \<and> flag then SetOpCode (if GetOpCode l = OP_ne then OP_eq else OP_ne) l else whole)
           } else Some whole)
      | None \<Rightarrow> Some whole))"

definition FoldCompare ::
  "nat \<Rightarrow> (node \<Rightarrow> fold_pair option) \<Rightarrow> Opcode \<Rightarrow> PrimType \<Rightarrow> PrimType \<Rightarrow> node \<Rightarrow> node \<Rightarrow> fold_pair option" where
  "FoldCompare ps rec opc t ot a b = do {
     lp \<leftarrow> rec a;
     rp \<leftarrow> rec b;
     (if ot = PTY_f128 \<or> t = PTY_f128 then Some (Compare opc t ot a b, None)
      else case (const_of (fst lp), const_of (fst rp)) of
        (Some c0, Some c1) \<Rightarrow>
          (if \<not> IsPrimitiveDynType ot
           then do { e \<leftarrow> FoldConstComparison ps opc t ot c0 c1; Some (e, None) }
           else do {
             l \<leftarrow> PairToExpr ps (GetPrimType a) lp;
             r \<leftarrow> PairToExpr ps (GetPrimType b) rp;
             e \<leftarrow> SimplifyDoubleCompare opc t ot l r;
             Some (e, None)
           })
      | (c0, c1) \<Rightarrow>
          (if c0 \<noteq> None \<and> c1 = None \<and> opc \<noteq> OP_cmp then do {
             r \<leftarrow> PairToExpr ps (GetPrimType b) rp;
             e \<leftarrow> FoldConstComparisonReverse opc t ot (fst lp) r;
             Some (e, None)
           } else do {
             l \<leftarrow> PairToExpr ps (GetPrimType a) lp;
             r \<leftarrow> PairToExpr ps (GetPrimType b) rp;
             e \<leftarrow> SimplifyDoubleCompare opc t ot l r;
             Some (e, None)
           }))
   }"

text \<open>The two constants of a selection are compared with 1.0 and 0.0 after a conversion to \<open>double\<close>,
  which is exact there. A selection with a constant condition is resolved only when no operand
  changed; \<open>same\<close> is the comparison of the address of a folded operand with that of the original.\<close>

definition FoldTernary ::
  "nat \<Rightarrow> (node \<Rightarrow> node \<Rightarrow> bool) \<Rightarrow> (node \<Rightarrow> fold_pair option) \<Rightarrow> Opcode \<Rightarrow> PrimType \<Rightarrow> node \<Rightarrow> node \<Rightarrow>
   node \<Rightarrow> fold_pair option" where
  "FoldTernary ps same rec opc t a b c = do {
     p0 \<leftarrow> rec a;
     p1 \<leftarrow> rec b;
     p2 \<leftarrow> rec c;
     let t0 = GetPrimType a;
     let t1 = GetPrimType b;
     let t2 = GetPrimType c;
     let foldedPrimType = (if IsPrimitiveInteger t1 then t1 else t2);
     let rebuild = (do { e0 \<leftarrow> PairToExpr ps t0 p0; e1 \<leftarrow> PairToExpr ps t1 p1; e2 \<leftarrow> PairToExpr ps t2 p2;
                         Some (Ternary opc t e0 e1 e2, None) });
     (if opc \<noteq> OP_select then rebuild
      else case const_of (fst p0) of
        Some c0 \<Rightarrow> do {
          z \<leftarrow> mc_IsZero c0;
          e0 \<leftarrow> PairToExpr ps t0 p0;
          e1 \<leftarrow> PairToExpr ps t1 p1;
          e2 \<leftarrow> PairToExpr ps t2 p2;
          Some (if \<not> same e0 a \<or> \<not> same e1 b \<or> \<not> same e2 c then Ternary opc t e0 e1 e2
                else if \<not> z then e1 else e2, None)
        }
      | None \<Rightarrow>
          (case (const_of (fst p1), const_of (fst p2)) of
             (Some c1, Some c2) \<Rightarrow> do {
               x1 \<leftarrow> GetExtValue 0 (mc_value c1);
               x2 \<leftarrow> GetExtValue 0 (mc_value c2);
               (if x1 = 1 \<and> x2 = 0 then do {
                  e \<leftarrow> PairToExpr ps (if IsPrimitiveInteger foldedPrimType then foldedPrimType else t0) p0;
                  Some (if IsPrimitiveInteger foldedPrimType then e else TypeCvt OP_cvt foldedPrimType t0 e, None)
                } else if x1 = 0 \<and> x2 = 1 then do {
                  e0 \<leftarrow> PairToExpr ps t0 p0;
                  zero \<leftarrow> CreateIntConst ps 0 t0;
                  q \<leftarrow> rec (Compare OP_eq t0 t0 e0 zero);
                  e \<leftarrow> PairToExpr ps (if IsPrimitiveInteger foldedPrimType then foldedPrimType else t0) q;
                  Some (if IsPrimitiveInteger foldedPrimType then e else TypeCvt OP_cvt foldedPrimType t0 e, None)
                } else rebuild)
             }
           | _ \<Rightarrow> rebuild))
   }"

section \<open>Binary operators\<close>

text \<open>The number of significant bits, counted by shifting.\<close>

function count_bits :: "u64 \<Rightarrow> nat \<Rightarrow> nat" where
  "count_bits ucst bsize =
     (let u = drop_bit 1 ucst in if u \<noteq> 0 then count_bits u (bsize + 1) else bsize + 1)"
  by pat_completeness auto

termination
proof (relation "measure (\<lambda>(x, _). unat x)")
  show "((u, bsize + 1), (ucst, bsize)) \<in> measure (\<lambda>(x, _). unat x)"
    if "u = drop_bit 1 ucst" "u \<noteq> 0" for ucst u :: u64 and bsize
  proof -
    have "unat u = unat ucst div 2" by (simp only: that(1) unat_drop_bit_eq) (simp add: drop_bit_Suc)
    moreover have "0 < unat u" using that by (simp add: unat_gt_0)
    ultimately show ?thesis by simp
  qed
qed simp

definition cvt_if_needed :: "PrimType \<Rightarrow> node \<Rightarrow> node" where
  "cvt_if_needed t e = (if IsNoCvtNeeded (GetPrimType e) t then e else TypeCvt OP_cvt t (GetPrimType e) e)"

definition widen_i32 :: "nat \<Rightarrow> PrimType \<Rightarrow> node \<Rightarrow> node" where
  "widen_i32 ps t e =
     (if GetPrimTypeSize ps t > GetPrimTypeSize ps (GetPrimType e) then TypeCvt OP_cvt t PTY_i32 e else e)"

definition compare_with_zero :: "nat \<Rightarrow> PrimType \<Rightarrow> node \<Rightarrow> fold_pair option" where
  "compare_with_zero ps t e = do {
     zero \<leftarrow> CreateIntConst ps 0 (GetPrimType e);
     Some (Compare OP_ne t (GetPrimType e) e zero, None)
   }"

definition int_const_pair :: "nat \<Rightarrow> u64 \<Rightarrow> PrimType \<Rightarrow> fold_pair option" where
  "int_const_pair ps val t = map_option (\<lambda>e. (e, None)) (CreateIntConst ps val t)"

text \<open>The constant operand on the left, before the conversion of the result type.\<close>

definition FoldBinary_lconst ::
  "nat \<Rightarrow> Opcode \<Rightarrow> PrimType \<Rightarrow> PrimType \<Rightarrow> node \<Rightarrow> MIRIntConst \<Rightarrow> fold_pair \<Rightarrow> fold_pair option" where
  "FoldBinary_lconst ps opc t rPrimType l mcst rp =
     (let cstTyp = mc_type mcst; cst = mc_value mcst; r = fst rp; second = snd rp;
          rebuild = (do { e \<leftarrow> PairToExpr ps rPrimType rp; Some (Binary opc t l e, None) }) in
      else_if
       [(Some (opc = OP_add), do {
           ovf \<leftarrow> (case second of
                     None \<Rightarrow> Some False
                   | Some s \<Rightarrow> andm (IsSignedInteger cstTyp) (do {
                       x \<leftarrow> GetExtValue 0 cst;
                       y \<leftarrow> GetExtValue 0 s;
                       IntegerOpIsOverflow ps OP_add cstTyp x y
                     }));
           (if ovf then rebuild else do { sum \<leftarrow> opt_plus ps (Some cst) second; Some (r, sum) })
         }),
        (Some (opc = OP_sub \<and> GetPrimType r \<noteq> PTY_u1), do {
           sum \<leftarrow> opt_minus ps (Some cst) second;
           e \<leftarrow> NegateTree (if GetPrimTypeSize ps rPrimType < GetPrimTypeSize ps t then TypeCvt OP_cvt t rPrimType r else r);
           Some (e, sum)
         }),
        (andm (opc \<in> {OP_mul, OP_div, OP_rem, OP_ashr, OP_lshr, OP_shl, OP_band, OP_cand, OP_land}) (Iv_eq_int cst 0),
         int_const_pair ps 0 cstTyp),
        (andm (opc = OP_mul) (Iv_eq_int cst 1), Some (r, second)),
        (andm (opc = OP_bior) (Iv_eq_int cst (- 1)), int_const_pair ps (- 1) cstTyp),
        (andm (opc = OP_mul \<and> second \<noteq> None) (map_option Not (opt_is_zero second)), do {
           sum \<leftarrow> opt_times ps (Some cst) second;
           Some (Binary OP_mul t l (widen_i32 ps t r), sum)
         }),
        (Some (opc = OP_lior \<or> opc = OP_cior), do {
           z \<leftarrow> Iv_eq_int cst 0;
           (if \<not> z then int_const_pair ps 1 cstTyp else compare_with_zero ps t r)
         }),
        (andm (opc = OP_cand \<or> opc = OP_land) (map_option Not (Iv_eq_int cst 0)), compare_with_zero ps t r),
        (andm (opc = OP_bior \<or> opc = OP_bxor) (Iv_eq_int cst 0), Some (r, second))]
       rebuild)"

text \<open>\<open>(X >> c) & (2^n - 1)\<close> is an extraction of bits.\<close>

fun shr_operands :: "node \<Rightarrow> (node \<times> MIRIntConst) option" where
  "shr_operands (Binary opc _ x y) =
     (if opc = OP_ashr \<or> opc = OP_lshr then map_option (Pair x) (const_of y) else None)"
| "shr_operands _ = None"

definition shr_and_mask :: "nat \<Rightarrow> PrimType \<Rightarrow> IntVal \<Rightarrow> node \<Rightarrow> node option option" where
  "shr_and_mask ps t cst l =
     (case shr_operands l of
        None \<Rightarrow> Some None
      | Some (x, sc) \<Rightarrow> do {
          shrAmt \<leftarrow> GetExtValue 0 (mc_value sc);
          ucst \<leftarrow> GetZXTValue 0 cst;
          let bsize = count_bits ucst 0;
          let bits = GetPrimTypeSize ps t * 8;
          Some (if shrAmt + int bsize \<le> int bits \<and> unat (word_of_int shrAmt :: u64) < bits
                then Some (Extractbits OP_extractbits (GetUnsignedPrimType t) (nat shrAmt mod 2 ^ 8) bsize x) else None)
        })"

fun mul_operands :: "node \<Rightarrow> (node \<times> node) option" where
  "mul_operands (Binary opc _ x y) = (if opc = OP_mul then Some (x, y) else None)"
| "mul_operands _ = None"

fun cvt_operand :: "node \<Rightarrow> node option" where
  "cvt_operand (TypeCvt opc _ _ a) = (if opc = OP_cvt then Some a else None)"
| "cvt_operand _ = None"

definition same_int :: "IntVal \<Rightarrow> IntVal \<Rightarrow> bool option" where
  "same_int a b = andm (iv_width a = iv_width b \<and> iv_sign a = iv_sign b)
     (do { x \<leftarrow> GetExtValue 0 a; y \<leftarrow> GetExtValue 0 b; Some (x = y) })"

text \<open>\<open>X * Y / Y\<close> is \<open>X\<close>: the operand of the product that remains.\<close>

definition mul_div_operand :: "IntVal \<Rightarrow> node \<Rightarrow> node \<Rightarrow> node option option" where
  "mul_div_operand cst x y =
     (if \<not> (IsSignedInteger (GetPrimType x) \<and> IsSignedInteger (GetPrimType y)) then Some None
      else case (const_of x, const_of y) of
        (None, Some yc) \<Rightarrow> map_option (\<lambda>b. if b then Some x else None) (same_int (mc_value yc) cst)
      | (Some xc, None) \<Rightarrow> map_option (\<lambda>b. if b then Some y else None) (same_int (mc_value xc) cst)
      | _ \<Rightarrow> Some None)"

definition kMaxOffset :: int where
  "kMaxOffset = 2147483647 - 8"

text \<open>The constant operand on the right, before the conversion of the result type.\<close>

definition FoldBinary_rconst ::
  "nat \<Rightarrow> (node \<Rightarrow> fold_pair option) \<Rightarrow> Opcode \<Rightarrow> PrimType \<Rightarrow> PrimType \<Rightarrow> PrimType \<Rightarrow> fold_pair \<Rightarrow> fold_pair \<Rightarrow>
   MIRIntConst \<Rightarrow> fold_pair option" where
  "FoldBinary_rconst ps rec opc t lPrimType rPrimType lp rp mcst =
     (let cstTyp = mc_type mcst; cst = mc_value mcst; l = fst lp; second = snd lp; r = fst rp;
          rebuild = (do { e \<leftarrow> PairToExpr ps lPrimType lp; Some (Binary opc t e r, None) });
          rebuild2 = (do { e \<leftarrow> PairToExpr ps lPrimType lp; e' \<leftarrow> PairToExpr ps rPrimType rp; Some (Binary opc t e e', None) }) in
      else_if
       [(Some (opc = OP_add), do {
           ovf \<leftarrow> (case second of
                     None \<Rightarrow> Some False
                   | Some s \<Rightarrow> do {
                       x \<leftarrow> GetExtValue 0 s;
                       y \<leftarrow> GetExtValue 0 cst;
                       IntegerOpIsOverflow ps opc cstTyp x y
                     });
           (if ovf then rebuild2 else do { sum \<leftarrow> opt_plus ps second (Some cst); Some (l, sum) })
         }),
        (andm (opc = OP_sub) (if iv_sign cst then map_option Not (IsMinValue cst) else Some True), do {
           sum \<leftarrow> opt_minus ps second (Some cst);
           Some (l, sum)
         }),
        (andm (opc \<in> {OP_mul, OP_band, OP_cand, OP_land}) (Iv_eq_int cst 0), int_const_pair ps 0 cstTyp),
        (andm (opc = OP_mul \<or> opc = OP_div) (Iv_eq_int cst 1), Some (l, second)),
        (Some (opc = OP_div \<and> second = None \<and> mul_operands l \<noteq> None \<and>
               IsSignedInteger t \<and> IsSignedInteger lPrimType \<and> IsSignedInteger rPrimType),
         do {
           e \<leftarrow> (case mul_operands l of Some (x, y) \<Rightarrow> mul_div_operand cst x y | None \<Rightarrow> Some None);
           (case e of Some e \<Rightarrow> Some (e, None) | None \<Rightarrow> rebuild)
         }),
        (andm (opc = OP_mul) (case second of
           None \<Rightarrow> Some False
         | Some s \<Rightarrow> do { z \<leftarrow> Iv_eq_int s 0; andm (\<not> z) (map_option (\<lambda>x. x > - kMaxOffset) (GetSXTValue 0 s)) }),
         do {
           sum \<leftarrow> opt_times ps second (Some cst);
           m \<leftarrow> Iv_eq_int cst (- 1);
           (case (m, neg_opnd (widen_i32 ps t l)) of
              (True, Some x) \<Rightarrow> Some (x, sum)
            | _ \<Rightarrow> Some (Binary OP_mul t (widen_i32 ps t l) r, sum))
         }),
        (andm (opc = OP_band) (Iv_eq_int cst (- 1)), Some (l, second)),
        (andm (opc = OP_band) (do {
           z \<leftarrow> GetZXTValue 0 cst;
           andm (ContiguousBitsOf1 z) (opt_is_zero second)
         }),
         do {
           x \<leftarrow> shr_and_mask ps t cst l;
           (case x of Some e \<Rightarrow> Some (e, None) | None \<Rightarrow> rebuild)
         }),
        (andm (opc = OP_bior) (Iv_eq_int cst (- 1)), int_const_pair ps (- 1) cstTyp),
        (Some (opc = OP_lior \<or> opc = OP_cior), do {
           z \<leftarrow> Iv_eq_int cst 0;
           neg \<leftarrow> GetSignBit cst;
           (if z then Some (l, second) else if \<not> neg then int_const_pair ps 1 cstTyp else rebuild)
         }),
        (andm (opc \<in> {OP_ashr, OP_lshr, OP_shl, OP_bior, OP_bxor}) (Iv_eq_int cst 0), Some (l, second)),
        (andm (opc = OP_bxor \<and> t \<noteq> PTY_u1) (Iv_eq_int cst 1), do {
           z \<leftarrow> opt_is_zero second;
           (case cvt_operand l of
              Some base \<Rightarrow>
                (if z \<and> GetPrimType base = PTY_u1 then do {
                   one \<leftarrow> CreateIntConst ps 1 PTY_u1;
                   p \<leftarrow> rec base;
                   e \<leftarrow> PairToExpr ps PTY_u1 p;
                   Some (TypeCvt OP_cvt t PTY_u1 (Binary opc PTY_u1 e one), None)
                 } else rebuild2)
            | None \<Rightarrow> rebuild2)
         }),
        (andm (opc = OP_rem) (Iv_eq_int cst 1), int_const_pair ps 0 cstTyp)]
       rebuild)"

definition FoldBinary ::
  "nat \<Rightarrow> (node \<Rightarrow> fold_pair option) \<Rightarrow> Opcode \<Rightarrow> PrimType \<Rightarrow> node \<Rightarrow> node \<Rightarrow> fold_pair option" where
  "FoldBinary ps rec opc t a b =
     (let lt = GetPrimType a; rt = GetPrimType b; isInt = IsPrimitiveInteger t;
          convert = map_option (\<lambda>(e, s). (cvt_if_needed t e, s :: IntVal option)) in
      if lt = PTY_f128 \<or> rt = PTY_f128 \<or> t = PTY_f128 then Some (Binary opc t a b, None)
      else do {
        lp \<leftarrow> rec a;
        rp \<leftarrow> rec b;
        let rebuild = (do { l \<leftarrow> PairToExpr ps lt lp; r \<leftarrow> PairToExpr ps rt rp; Some (Binary opc t l r, None) });
        (case (const_of (fst lp), const_of (fst rp)) of
           (Some lc, Some rc) \<Rightarrow> do {
             unsafe \<leftarrow> andm ((opc = OP_div \<or> opc = OP_rem) \<and> isInt) (map_option Not (IsDivSafe lc rc t));
             (if unsafe then Some (Binary opc t (fst lp) (fst rp), None)
              else do { e \<leftarrow> FoldConstBinary ps opc t lc rc; Some (e, None) })
           }
         | (Some lc, None) \<Rightarrow> if isInt then convert (FoldBinary_lconst ps opc t rt (fst lp) lc rp) else rebuild
         | (None, Some rc) \<Rightarrow> if isInt then convert (FoldBinary_rconst ps rec opc t lt rt lp rp rc) else rebuild
         | (None, None) \<Rightarrow>
             (if isInt \<and> opc = OP_add then do {
                sum \<leftarrow> opt_plus ps (snd lp) (snd rp);
                Some (Binary opc t (fst lp) (fst rp), sum)
              } else if isInt \<and> opc = OP_sub then
                (if GetOpCode b = OP_sub \<and> GetOpCode (fst rp) = OP_neg then Some (Binary opc t a b, None)
                 else do {
                   sum \<leftarrow> opt_minus ps (snd lp) (snd rp);
                   Some (Binary opc t (fst lp) (fst rp), sum)
                 })
              else rebuild))
      })"

section \<open>The recursion\<close>

text \<open>The recursion also folds nodes made by folding, so it is given a bound on its depth; running out
  of it is \<open>None\<close>.\<close>

fun DispatchFold ::
  "nat \<Rightarrow> symbol_types \<Rightarrow> (node \<Rightarrow> node \<Rightarrow> bool) \<Rightarrow> nat \<Rightarrow> node \<Rightarrow> fold_pair option" where
  "DispatchFold ps syms same 0 e = None"
| "DispatchFold ps syms same (Suc k) e =
     (let rec = DispatchFold ps syms same k in
      case e of
        Sizeoftype t arg \<Rightarrow> FoldSizeoftype ps t arg
      | Unary opc t a \<Rightarrow>
          (if opc \<in> {OP_abs, OP_bnot, OP_lnot, OP_neg, OP_recip, OP_sqrt} then FoldUnary ps rec opc t a else Some (e, None))
      | TypeCvt opc t f a \<Rightarrow>
          (if opc \<in> {OP_ceil, OP_floor, OP_round, OP_trunc, OP_cvt} then FoldTypeCvt ps rec opc t f a else Some (e, None))
      | Retype t f a \<Rightarrow> FoldRetype ps rec t f a
      | Extractbits opc t off sz a \<Rightarrow>
          (if opc \<in> {OP_sext, OP_zext, OP_extractbits} then FoldExtractbits ps syms rec opc t off sz a else Some (e, None))
      | Binary opc t a b \<Rightarrow>
          (if opc \<in> {OP_add, OP_ashr, OP_band, OP_bior, OP_bxor, OP_cand, OP_cior, OP_div, OP_land, OP_lior, OP_lshr,
                      OP_max, OP_min, OP_mul, OP_rem, OP_shl, OP_sub}
           then FoldBinary ps rec opc t a b else Some (e, None))
      | Compare opc t ot a b \<Rightarrow>
          (if opc \<in> {OP_eq, OP_ne, OP_ge, OP_gt, OP_le, OP_lt, OP_cmp} then FoldCompare ps rec opc t ot a b
           else Some (e, None))
      | Depositbits t off sz a b \<Rightarrow> FoldDepositbits ps rec t off sz a b
      | Ternary opc t a b c \<Rightarrow> (if opc = OP_select then FoldTernary ps same rec opc t a b c else Some (e, None))
      | _ \<Rightarrow> Some (e, None))"

text \<open>\<open>Fold\<close> returns the null pointer when the node is unchanged; here it returns the node itself.\<close>

definition Fold :: "nat \<Rightarrow> symbol_types \<Rightarrow> (node \<Rightarrow> node \<Rightarrow> bool) \<Rightarrow> nat \<Rightarrow> node \<Rightarrow> node option" where
  "Fold ps syms same k e = do { p \<leftarrow> DispatchFold ps syms same k e; PairToExpr ps (GetPrimType e) p }"

end
