(* ===== verification/Constant_Fold_Sem.thy ===== *)
theory Constant_Fold_Sem
  imports Constant_Fold
begin

text \<open>
  The meaning of the expressions that the constant folder rewrites, and the facts on \<open>IntVal\<close> and on the
  primitive types that its correctness needs: residues of integers in a type, the operations of
  \<open>IntVal\<close> with a type as operations on residues, an evaluator, and the well-typed expressions.
\<close>

unbundle bit_operations_syntax

section \<open>Types and residues\<close>

definition bits :: "nat \<Rightarrow> PrimType \<Rightarrow> nat" where
  "bits ps t = GetPrimTypeActualBitSize ps t"

definition ity :: "nat \<Rightarrow> PrimType \<Rightarrow> bool" where
  "ity ps t \<longleftrightarrow> (ps = 4 \<or> ps = 8) \<and> IsPrimitiveInteger t \<and> bits ps t \<le> 64"

definition wrap :: "nat \<Rightarrow> PrimType \<Rightarrow> int \<Rightarrow> int" where
  "wrap ps t z = (if IsSignedInteger t then signed_take_bit (bits ps t - 1) z else take_bit (bits ps t) z)"

lemmas prim_eval = prim_class_defs GetPrimTypeSize_def GetPrimTypeBitSize_def PTProperty_def IsPrimitiveDynType_def IsPrimitiveVector_def
  GetAlignedPrimTypeBitSize_def GetPrimTypeActualBitSize_def IsPrimitiveUnsigned_def IsPrimitiveDynInteger_def

lemma ity_cases:
  assumes "ity ps t"
  shows "t \<in> {PTY_i8, PTY_i16, PTY_i32, PTY_i64, PTY_u8, PTY_u16, PTY_u32, PTY_u64, PTY_u1, PTY_ptr, PTY_ref, PTY_a32, PTY_a64}"
  using assms unfolding ity_def bits_def by (cases t) (simp_all add: prim_eval)

lemma ity_ps: "ity ps t \<Longrightarrow> ps = 4 \<or> ps = 8"
  by (simp add: ity_def)

lemma ity_bits: "ity ps t \<Longrightarrow> 0 < bits ps t \<and> bits ps t \<le> 64 \<and> (t \<noteq> PTY_u1 \<longrightarrow> 8 \<le> bits ps t)"
  using ity_cases[of ps t] ity_ps[of ps t] by (auto simp: bits_def prim_eval)

lemma ity_size: "ity ps t \<Longrightarrow> GetPrimTypeSize ps t = (if t = PTY_u1 then 1 else bits ps t div 8)"
  using ity_cases[of ps t] ity_ps[of ps t] by (auto simp: bits_def prim_eval)

lemma ity_bit_size: "ity ps t \<Longrightarrow> GetPrimTypeBitSize ps t = (if t = PTY_u1 then 8 else bits ps t)"
  using ity_cases[of ps t] ity_ps[of ps t] by (auto simp: bits_def prim_eval)

lemma ity_size_eq: "ity ps t \<Longrightarrow> ity ps t' \<Longrightarrow> t \<noteq> PTY_u1 \<Longrightarrow> t' \<noteq> PTY_u1 \<Longrightarrow>
    GetPrimTypeSize ps t = GetPrimTypeSize ps t' \<longleftrightarrow> bits ps t = bits ps t'"
  using ity_bit_size[of ps t] ity_bit_size[of ps t'] by (auto simp: GetPrimTypeBitSize_def)

lemma ity_classes:
  assumes "ity ps t"
  shows "IsPrimitiveInteger t" "\<not> IsPrimitiveDynType t" "\<not> IsPrimitiveVector t" "t \<noteq> PTY_f128" "t \<noteq> PTY_dyni32"
    "IsUnsignedInteger t \<longleftrightarrow> \<not> IsSignedInteger t"
  using ity_cases[OF assms] by (auto simp: prim_eval)

lemma u1_unsigned: "\<not> IsSignedInteger PTY_u1"
  by (simp add: prim_eval)

lemma bits_u1: "bits ps PTY_u1 = 1"
  by (simp add: bits_def GetPrimTypeActualBitSize_def)

lemma i64_type: "bits ps PTY_i64 = 64" "IsSignedInteger PTY_i64"
  by (simp_all add: bits_def prim_eval)

lemma ity_i64: "ity ps t \<Longrightarrow> ity ps PTY_i64"
  by (auto simp: ity_def bits_def prim_eval)

lemma ity_u1: "ity ps t \<Longrightarrow> ity ps PTY_u1"
  by (auto simp: ity_def bits_def prim_eval)

lemma ity_i32: "ity ps t \<Longrightarrow> ity ps PTY_i32"
  by (auto simp: ity_def bits_def prim_eval)

lemma wrap_eq_iff: "ity ps t \<Longrightarrow> wrap ps t x = wrap ps t y \<longleftrightarrow> take_bit (bits ps t) x = take_bit (bits ps t) y"
  using ity_bits[of ps t] by (auto simp: wrap_def signed_take_bit_eq_iff_take_bit_eq)

lemma take_bit_wrap: "ity ps t \<Longrightarrow> n \<le> bits ps t \<Longrightarrow> take_bit n (wrap ps t x) = take_bit n x"
  by (cases "bits ps t") (auto simp: wrap_def take_bit_signed_take_bit)

lemma wrap_wrap: "ity ps t \<Longrightarrow> wrap ps t (wrap ps t x) = wrap ps t x"
  by (simp add: wrap_eq_iff take_bit_wrap)

lemma wrap_congI: "ity ps t \<Longrightarrow> take_bit n x = take_bit n y \<Longrightarrow> bits ps t \<le> n \<Longrightarrow> wrap ps t x = wrap ps t y"
  by (metis min_def take_bit_take_bit wrap_eq_iff)

lemma wrap_add: "ity ps t \<Longrightarrow> wrap ps t (wrap ps t x + y) = wrap ps t (x + y)" "ity ps t \<Longrightarrow> wrap ps t (x + wrap ps t y) = wrap ps t (x + y)"
  by (metis order_refl take_bit_add take_bit_wrap wrap_eq_iff)+

lemma wrap_diff: "ity ps t \<Longrightarrow> wrap ps t (wrap ps t x - y) = wrap ps t (x - y)" "ity ps t \<Longrightarrow> wrap ps t (x - wrap ps t y) = wrap ps t (x - y)"
  by (metis order_refl take_bit_diff take_bit_wrap wrap_eq_iff)+

lemma wrap_mult: "ity ps t \<Longrightarrow> wrap ps t (wrap ps t x * y) = wrap ps t (x * y)" "ity ps t \<Longrightarrow> wrap ps t (x * wrap ps t y) = wrap ps t (x * y)"
  by (metis order_refl take_bit_mult take_bit_wrap wrap_eq_iff)+

lemma wrap_minus: "ity ps t \<Longrightarrow> wrap ps t (- wrap ps t x) = wrap ps t (- x)"
  by (metis order_refl take_bit_minus take_bit_wrap wrap_eq_iff)

lemma wrap_not: "ity ps t \<Longrightarrow> wrap ps t (NOT (wrap ps t x)) = wrap ps t (NOT x)"
  by (metis order_refl take_bit_not_take_bit take_bit_wrap wrap_eq_iff)

lemmas wrap_arith = wrap_add wrap_diff wrap_mult wrap_minus wrap_not wrap_wrap

lemma wrap_range: "ity ps t \<Longrightarrow> wrap ps t x = x \<longleftrightarrow>
    (if IsSignedInteger t then - (2 ^ (bits ps t - 1)) \<le> x \<and> x < 2 ^ (bits ps t - 1) else 0 \<le> x \<and> x < 2 ^ bits ps t)"
  by (auto simp: wrap_def signed_take_bit_int_eq_self_iff take_bit_int_eq_self_iff)

lemma wrap_small: "ity ps t \<Longrightarrow> 0 \<le> x \<Longrightarrow> x < 2 ^ (bits ps t - 1) \<Longrightarrow> wrap ps t x = x"
proof -
  assume a: "ity ps t" "0 \<le> x" "x < 2 ^ (bits ps t - 1)"
  have "(2 :: int) ^ (bits ps t - 1) \<le> 2 ^ bits ps t" by (rule power_increasing) auto
  then have "x < 2 ^ bits ps t" using a(3) by linarith
  moreover have "- (2 ^ (bits ps t - 1)) \<le> x" using a(2) by (smt (verit) zero_less_power)
  ultimately show ?thesis using a by (simp add: wrap_range)
qed

lemma wrap_bool: "ity ps t \<Longrightarrow> x = 0 \<or> x = 1 \<Longrightarrow> wrap ps t x = x"
proof (cases "t = PTY_u1")
  case True
  then show "ity ps t \<Longrightarrow> x = 0 \<or> x = 1 \<Longrightarrow> wrap ps t x = x" by (auto simp: wrap_def u1_unsigned bits_u1)
next
  case False
  then show "ity ps t \<Longrightarrow> x = 0 \<or> x = 1 \<Longrightarrow> wrap ps t x = x"
    using ity_bits[of ps t] power_increasing[of 1 "bits ps t - 1" "2 :: int"] by (intro wrap_small) auto
qed

section \<open>Integer values of a type\<close>

definition typed :: "nat \<Rightarrow> PrimType \<Rightarrow> IntVal \<Rightarrow> bool" where
  "typed ps t v \<longleftrightarrow> iv_ok v \<and> iv_width v = bits ps t \<and> iv_sign v = IsSignedInteger t"

definition iv64 :: "IntVal \<Rightarrow> bool" where
  "iv64 v \<longleftrightarrow> iv_ok v \<and> iv_width v \<le> 64"

text \<open>\<open>r\<close> is a value of type \<open>t\<close> that stands for \<open>z\<close> modulo the width.\<close>

definition gives :: "nat \<Rightarrow> PrimType \<Rightarrow> IntVal option \<Rightarrow> int \<Rightarrow> bool" where
  "gives ps t r z \<longleftrightarrow> (\<exists>v. r = Some v \<and> typed ps t v \<and> iv_num v = wrap ps t z)"

lemma wrap_mod: "ity ps t \<Longrightarrow> wrap ps t z mod 2 ^ bits ps t = z mod 2 ^ bits ps t"
  using take_bit_wrap[of ps t "bits ps t" z] by (simp add: take_bit_eq_mod)

lemma wrap_in_range:
  assumes "ity ps t"
  shows "if IsSignedInteger t then - (2 ^ (bits ps t - 1)) \<le> wrap ps t z \<and> wrap ps t z < 2 ^ (bits ps t - 1)
    else 0 \<le> wrap ps t z \<and> wrap ps t z < 2 ^ bits ps t"
  using wrap_range[OF assms, of "wrap ps t z"] wrap_wrap[OF assms] by simp

lemma typed_iv64: "ity ps t \<Longrightarrow> typed ps t v \<Longrightarrow> iv64 v"
  by (simp add: typed_def iv64_def ity_def)

lemma typed_num: "ity ps t \<Longrightarrow> typed ps t v \<Longrightarrow> wrap ps t (iv_num v) = iv_num v"
  using iv_num_range[of v] by (auto simp: wrap_range typed_def)

lemma gives_num:
  assumes "ity ps t" "typed ps t v" "int (iv_bits v) = z mod 2 ^ bits ps t"
  shows "iv_num v = wrap ps t z"
  using assms wrap_in_range[OF assms(1), of z] wrap_mod[OF assms(1), of z]
  by (intro iv_num_eqI) (auto simp: typed_def)

lemma iv_result_gives: "ity ps t \<Longrightarrow> iv_result r v z \<Longrightarrow> typed ps t v \<Longrightarrow> gives ps t r z"
  using gives_num by (fastforce simp: iv_result_def gives_def typed_def same_type_def)

lemma iv_converts_gives: "ity ps t \<Longrightarrow> iv_converts r (bits ps t) (IsSignedInteger t) z \<Longrightarrow> gives ps t r z"
  using gives_num by (fastforce simp: iv_converts_def gives_def typed_def)

lemma TruncOrExtend_gives: "ity ps t \<Longrightarrow> iv64 v \<Longrightarrow> gives ps t (TruncOrExtend_type ps t v) (iv_num v)"
  using TruncOrExtend_converts[of v "bits ps t" "IsSignedInteger t"] ity_bits[of ps t]
  by (intro iv_converts_gives) (auto simp: TruncOrExtend_type_def bits_def iv64_def target_ok_def)

lemma in_type_gives:
  assumes "ity ps t" "iv64 a" "iv64 b"
    and "\<And>x y. typed ps t x \<Longrightarrow> typed ps t y \<Longrightarrow> iv_num x = wrap ps t (iv_num a) \<Longrightarrow> iv_num y = wrap ps t (iv_num b) \<Longrightarrow>
      gives ps t (f x y) z"
  shows "gives ps t (in_type f ps a b t) z"
  using TruncOrExtend_gives[OF assms(1,2)] TruncOrExtend_gives[OF assms(1,3)] assms(4)
  by (auto simp: gives_def in_type_def)

lemma typed_same: "typed ps t a \<Longrightarrow> typed ps t b \<Longrightarrow> same_type a b"
  by (simp add: typed_def same_type_def)

lemma typed_ok: "typed ps t v \<Longrightarrow> iv_ok v"
  by (simp add: typed_def)

lemma gives_wrap: "ity ps t \<Longrightarrow> gives ps t r z \<Longrightarrow> wrap ps t z = wrap ps t z' \<Longrightarrow> gives ps t r z'"
  by (simp add: gives_def)

lemma wrap_band: "ity ps t \<Longrightarrow> wrap ps t (wrap ps t x AND wrap ps t y) = wrap ps t (x AND y)"
  by (simp add: wrap_eq_iff take_bit_and take_bit_wrap)

lemma wrap_bior: "ity ps t \<Longrightarrow> wrap ps t (wrap ps t x OR wrap ps t y) = wrap ps t (x OR y)"
  by (simp add: wrap_eq_iff take_bit_or take_bit_wrap)

lemma wrap_bxor: "ity ps t \<Longrightarrow> wrap ps t (wrap ps t x XOR wrap ps t y) = wrap ps t (x XOR y)"
  by (simp add: wrap_eq_iff take_bit_xor take_bit_wrap)

lemmas wrap_bitwise = wrap_band wrap_bior wrap_bxor

lemma Iv_ring_gives:
  assumes "ity ps t" "iv64 a" "iv64 b"
  shows "gives ps t (Iv_Add ps a b t) (iv_num a + iv_num b)"
    "gives ps t (Iv_Sub ps a b t) (iv_num a - iv_num b)"
    "gives ps t (Iv_Mul ps a b t) (iv_num a * iv_num b)"
    "gives ps t (Iv_And ps a b t) (iv_num a AND iv_num b)"
    "gives ps t (Iv_Or ps a b t) (iv_num a OR iv_num b)"
    "gives ps t (Iv_Xor ps a b t) (iv_num a XOR iv_num b)"
proof -
  have R: "gives ps t (in_type f ps a b t) (g (iv_num a) (iv_num b))"
    if "\<And>x y. iv_ok x \<Longrightarrow> iv_ok y \<Longrightarrow> same_type x y \<Longrightarrow> iv_result (f x y) x (g (iv_num x) (iv_num y))"
      and "\<And>x y. wrap ps t (g (wrap ps t x) (wrap ps t y)) = wrap ps t (g x y)" for f g
  proof (rule in_type_gives[OF assms])
    fix x y assume "typed ps t x" "typed ps t y" and n: "iv_num x = wrap ps t (iv_num a)" "iv_num y = wrap ps t (iv_num b)"
    then have "iv_result (f x y) x (g (iv_num x) (iv_num y))"
      using that(1)[of x y] typed_ok typed_same by blast
    then have "gives ps t (f x y) (g (iv_num x) (iv_num y))"
      using \<open>typed ps t x\<close> by (rule iv_result_gives[OF assms(1)])
    then show "gives ps t (f x y) (g (iv_num a) (iv_num b))"
      using that(2) n by (auto intro: gives_wrap[OF assms(1)])
  qed
  show "gives ps t (Iv_Add ps a b t) (iv_num a + iv_num b)"
    unfolding Iv_Add_def by (rule R[where g = "(+)"]) (simp_all add: Iv_plus_result wrap_arith[OF assms(1)])
  show "gives ps t (Iv_Sub ps a b t) (iv_num a - iv_num b)"
    unfolding Iv_Sub_def by (rule R[where g = "(-)"]) (simp_all add: Iv_minus_result wrap_arith[OF assms(1)])
  show "gives ps t (Iv_Mul ps a b t) (iv_num a * iv_num b)"
    unfolding Iv_Mul_def by (rule R[where g = "(*)"]) (simp_all add: Iv_times_result wrap_arith[OF assms(1)])
  show "gives ps t (Iv_And ps a b t) (iv_num a AND iv_num b)"
    unfolding Iv_And_def by (rule R[where g = "(AND)"]) (simp_all add: Iv_and_result wrap_bitwise[OF assms(1)])
  show "gives ps t (Iv_Or ps a b t) (iv_num a OR iv_num b)"
    unfolding Iv_Or_def by (rule R[where g = "(OR)"]) (simp_all add: Iv_or_result wrap_bitwise[OF assms(1)])
  show "gives ps t (Iv_Xor ps a b t) (iv_num a XOR iv_num b)"
    unfolding Iv_Xor_def by (rule R[where g = "(XOR)"]) (simp_all add: Iv_xor_result wrap_bitwise[OF assms(1)])
qed

lemma Iv_unary_gives:
  assumes "ity ps t" "typed ps t v"
  shows "gives ps t (Iv_neg v) (- iv_num v)" "gives ps t (Iv_not v) (NOT (iv_num v))"
  using assms by (auto intro!: iv_result_gives Iv_neg_result Iv_not_result intro: typed_ok)

lemma Iv_of_val_gives: "ity ps t \<Longrightarrow> gives ps t (Iv_of_val_type ps w t) (uint w)"
proof -
  assume t: "ity ps t"
  let ?v = "\<lparr>iv_width = bits ps t, iv_sign = IsSignedInteger t, iv_u = Value (take_bit (bits ps t) w)\<rparr>"
  have "Iv_of_val_type ps w t = Some ?v"
    using ity_bits[OF t] ity_classes(1)[OF t] by (simp add: Iv_of_val_type_def Iv_of_val_one bits_def[symmetric] iv_assert_def)
  moreover have "typed ps t ?v"
    using ity_bits[OF t] unat_take_bit_bound[of "bits ps t" w] by (simp add: typed_def iv_ok_one)
  moreover have "int (iv_bits ?v) = uint w mod 2 ^ bits ps t" by (simp only: iv_bits_def IntVal.simps storage.case take_bit_word_uint)
  ultimately show ?thesis using gives_num[OF t] by (auto simp: gives_def)
qed

lemma Iv_of_int_gives: "ity ps t \<Longrightarrow> gives ps t (Iv_of_val_type ps (word_of_int x) t) x"
proof -
  assume t: "ity ps t"
  have "take_bit 64 (uint (word_of_int x :: u64)) = take_bit 64 x" by (simp add: unsigned_of_int)
  then have "wrap ps t (uint (word_of_int x :: u64)) = wrap ps t x"
    using ity_bits[OF t] by (intro wrap_congI[OF t]) auto
  then show ?thesis using Iv_of_val_gives[OF t, of "word_of_int x"] by (auto intro: gives_wrap[OF t])
qed

section \<open>Reading the value\<close>

lemma one_word_cases:
  assumes "iv64 v"
  obtains w s x where "v = \<lparr>iv_width = w, iv_sign = s, iv_u = Value x\<rparr>" "0 < w" "w \<le> 64" "unat x < 2 ^ w"
  using assms unfolding iv64_def by (metis same_num_one)

lemma GetZXTValue_0: "iv64 v \<Longrightarrow> \<exists>x. GetZXTValue 0 v = Some x \<and> unat x = iv_bits v"
  by (erule one_word_cases)
    (simp add: GetZXTValue_def IsOneSignificantWord_def IsOneWord_def low_word_def u_value_def iv_bind iv_bits_def)

lemma GetSXTValue_0: "iv64 v \<Longrightarrow> GetSXTValue 0 v = Some (signed_take_bit (iv_width v - 1) (iv_num v))"
proof (erule one_word_cases)
  fix w s x assume v: "v = \<lparr>iv_width = w, iv_sign = s, iv_u = Value x\<rparr>" "0 < w" "w \<le> 64" "unat x < 2 ^ w"
  obtain n where n: "w = Suc n" using v(2) by (cases w) auto
  let ?z = "if 2 ^ w \<le> 2 * unat x then int (unat x) - 2 ^ w else int (unat x)"
  have r: "- (2 ^ n) \<le> ?z" "?z < 2 ^ n"
    using int_less_pow[OF v(4)] n by (auto simp del: of_nat_unat)
  have "take_bit (Suc n) (iv_num v) = take_bit (Suc n) ?z"
    using v(1) n by (simp add: iv_num_one take_bit_eq_mod del: of_nat_unat)
  then have "signed_take_bit n (iv_num v) = signed_take_bit n ?z" by (simp only: signed_take_bit_eq_iff_take_bit_eq)
  also have "\<dots> = ?z" using r by (simp only: signed_take_bit_int_eq_self)
  finally show ?thesis using v n by (simp add: GetSXTValue_one)
qed

lemma signed_64_range: "- (2 ^ 63) \<le> k \<Longrightarrow> k < 2 ^ 63 \<Longrightarrow> signed_take_bit 63 k = (k :: int)"
  by (rule signed_take_bit_int_eq_self) simp_all

lemma sint_signed_take_bit: "sint (x :: u64) = signed_take_bit 63 (uint x)"
  by (simp add: sint_uint)

lemma GetExtValue_0: "iv64 v \<Longrightarrow> GetExtValue 0 v = Some (signed_take_bit 63 (iv_num v))"
proof (cases "iv_sign v")
  assume v: "iv64 v"
  then have w: "iv_ok v" "iv_width v \<le> 64" "0 < iv_width v" by (auto simp: iv64_def iv_ok_def)
  {
    case True
    then have r: "- (2 ^ (iv_width v - 1)) \<le> iv_num v" "iv_num v < 2 ^ (iv_width v - 1)" using iv_num_range(1)[OF w(1)] by auto
    moreover have "(2 :: int) ^ (iv_width v - 1) \<le> 2 ^ 63" using w by (intro power_increasing) auto
    ultimately have "signed_take_bit 63 (iv_num v) = iv_num v" by (intro signed_64_range) linarith+
    moreover have "signed_take_bit (iv_width v - 1) (iv_num v) = iv_num v" using r by (rule signed_take_bit_int_eq_self)
    ultimately show ?thesis using True GetSXTValue_0[OF v] by (simp add: GetExtValue_def)
  next
    case False
    obtain x where x: "GetZXTValue 0 v = Some x" "unat x = iv_bits v" using GetZXTValue_0[OF v] by blast
    have "iv_num v = int (unat x)" using False x(2) by (simp add: iv_num_def)
    then show ?thesis using False x(1) by (simp add: GetExtValue_def sint_signed_take_bit)
  }
qed

lemma word_of_Ext: "word_of_int (signed_take_bit 63 z) = (word_of_int z :: u64)"
  by (simp add: word_of_int_eq_iff take_bit_signed_take_bit)

lemma Iv_eq_int_iff: "iv64 v \<Longrightarrow> Iv_eq_int v c = Some (signed_take_bit 63 (iv_num v) = c)"
proof -
  assume v: "iv64 v"
  then have "IsOneSignificantWord v = Some True"
    by (simp add: iv64_def IsOneSignificantWord_def IsOneWord_def kWordBitSize_def)
  then show ?thesis using GetExtValue_0[OF v] by (simp add: Iv_eq_int_def)
qed

lemma iv64_num: "iv64 v \<Longrightarrow> - (2 ^ 63) \<le> iv_num v \<and> iv_num v < 2 ^ 64"
proof -
  assume "iv64 v"
  then have w: "iv_ok v" "iv_width v \<le> 64" by (auto simp: iv64_def)
  have "(2 :: int) ^ (iv_width v - 1) \<le> 2 ^ 63" "(2 :: int) ^ iv_width v \<le> 2 ^ 64"
    by (rule power_increasing; use w in simp)+
  then show ?thesis using iv_num_range[OF w(1)] by (cases "iv_sign v") auto
qed

lemma signed_64_eq:
  fixes x c :: int
  assumes "- (2 ^ 63) \<le> x" "x < 2 ^ 64" "0 \<le> c" "c < 2 ^ 63"
  shows "signed_take_bit 63 x = c \<longleftrightarrow> x = c"
proof -
  have "signed_take_bit 63 x = c \<longleftrightarrow> take_bit 64 x = c"
    using signed_take_bit_eq_iff_take_bit_eq[of 63 x c] signed_64_range[of c] take_bit_int_eq_self[of c 64] assms by auto
  also have "\<dots> \<longleftrightarrow> x = c"
  proof (cases "0 \<le> x")
    case True
    then show ?thesis using assms(2) by (simp add: take_bit_int_eq_self)
  next
    case False
    then have "take_bit 64 x = x + 2 ^ 64"
      using assms(1) by (simp add: take_bit_eq_mod) (smt (verit) mod_add_self2 mod_pos_pos_trivial)
    then show ?thesis using False assms by auto
  qed
  finally show ?thesis .
qed

lemma Iv_eq_const:
  assumes "iv64 v"
  shows "Iv_eq_int v 0 = Some (iv_num v = 0)" "Iv_eq_int v 1 = Some (iv_num v = 1)"
  using assms iv64_num[OF assms] by (simp_all add: Iv_eq_int_iff signed_64_eq)

lemma Iv_eq_minus_one:
  assumes "iv64 v" "Iv_eq_int v (- 1) = Some True"
  shows "take_bit 64 (iv_num v) = take_bit 64 (- 1)"
  using assms signed_take_bit_eq_iff_take_bit_eq[of 63 "iv_num v" "- 1"] by (simp add: Iv_eq_int_iff)

lemma GetSignBit_defined: "iv64 v \<Longrightarrow> \<exists>b. GetSignBit v = Some b"
  by (erule one_word_cases) (simp add: GetSignBit_one)

lemma IsMinValue_defined: "iv64 v \<Longrightarrow> \<exists>b. IsMinValue v = Some b"
  by (erule one_word_cases) (auto simp: IsMinValue_def IsOneWord_def u_value_def sign_mask_def shl_word_def kWordBitSize_def)

lemma AreAllBitsOne_defined: "iv64 v \<Longrightarrow> \<exists>b. AreAllBitsOne v = Some b"
  by (erule one_word_cases) (simp add: AreAllBitsOne_def IsOneWord_def u_value_def iv_bind shr_word_def)

lemma GetSXTValue_defined: "iv64 v \<Longrightarrow> n \<le> iv_width v \<Longrightarrow> \<exists>x. GetSXTValue n v = Some x"
proof (cases "n = 0")
  case False
  assume "iv64 v" "n \<le> iv_width v"
  then show ?thesis
  proof (elim one_word_cases)
    fix w s x assume v: "v = \<lparr>iv_width = w, iv_sign = s, iv_u = Value x\<rparr>" "0 < w" "w \<le> 64" "n \<le> iv_width v"
    have "nat ((64 - int n) mod 256) = 64 - n" using v False by (simp add: nat_diff_distrib)
    then show ?thesis using v False
      by (simp add: GetSXTValue_def IsOneSignificantWord_def IsOneWord_def iv_bind low_word_def u_value_def shl_word_def
          shr_word_def GetBit_one)
  qed
qed (simp add: GetSXTValue_0)

lemma GetSXTValue_width:
  assumes "iv64 v" "n = iv_width v"
  shows "GetSXTValue n v = GetSXTValue 0 v"
  using assms by (elim one_word_cases) (simp add: GetSXTValue_def)

lemma GetZXTValue_width:
  assumes "iv64 v" "n = iv_width v"
  shows "GetZXTValue n v = GetZXTValue 0 v"
proof -
  obtain w s x where v: "v = \<lparr>iv_width = w, iv_sign = s, iv_u = Value x\<rparr>" "0 < w" "w \<le> 64" "unat x < 2 ^ w"
    using assms(1) by (rule one_word_cases)
  then have "drop_bit (64 - w) (push_bit (64 - w) x) = x" by (intro shift_up_down)
  then show ?thesis using v assms(2)
    by (simp add: GetZXTValue_def IsOneSignificantWord_def IsOneWord_def iv_bind low_word_def u_value_def shl_word_def shr_word_def)
qed

lemma IntegerOpIsOverflow_defined: "ity ps t \<Longrightarrow> \<exists>b. IntegerOpIsOverflow ps op t x y = Some b"
  using ity_bit_size[of ps t] ity_bits[of ps t]
  by (cases op) (auto simp: IntegerOpIsOverflow_def shr_word_def Let_def)

section \<open>Division, shifts and comparison in a type\<close>

lemma in_type_eq:
  assumes "ity ps t" "iv64 a" "iv64 b"
  obtains x y where "typed ps t x" "typed ps t y" "iv_num x = wrap ps t (iv_num a)" "iv_num y = wrap ps t (iv_num b)"
    "TruncOrExtend_type ps t a = Some x" "TruncOrExtend_type ps t b = Some y" "iv_ok x" "iv_ok y" "same_type x y" "iv_width x \<le> 64"
  using TruncOrExtend_gives[OF assms(1,2)] TruncOrExtend_gives[OF assms(1,3)] ity_bits[OF assms(1)]
  by (auto simp: gives_def typed_def same_type_def)

lemma Iv_compare_type:
  assumes "ity ps t" "iv64 a" "iv64 b"
  shows "Iv_Equal ps a b t = Some (wrap ps t (iv_num a) = wrap ps t (iv_num b))"
    "Iv_Less ps a b t = Some (wrap ps t (iv_num a) < wrap ps t (iv_num b))"
    "Iv_Greater ps a b t = Some (wrap ps t (iv_num a) > wrap ps t (iv_num b))"
  using assms by (rule in_type_eq; simp add: Iv_Equal_def Iv_Less_def Iv_Greater_def in_type_def Iv_eq_num Iv_compare_one)+

lemma Iv_div_type:
  assumes "ity ps t" "iv64 a" "iv64 b" "wrap ps t (iv_num b) \<noteq> 0"
    and "\<not> (IsSignedInteger t \<and> wrap ps t (iv_num a) = - (2 ^ (bits ps t - 1)) \<and> wrap ps t (iv_num b) = - 1)"
  shows "gives ps t (Iv_Div ps a b t) (wrap ps t (iv_num a) sdiv wrap ps t (iv_num b))"
    and "gives ps t (Iv_Rem ps a b t) (wrap ps t (iv_num a) smod wrap ps t (iv_num b))"
proof -
  obtain x y where xy: "typed ps t x" "typed ps t y" "iv_num x = wrap ps t (iv_num a)" "iv_num y = wrap ps t (iv_num b)"
    "TruncOrExtend_type ps t a = Some x" "TruncOrExtend_type ps t b = Some y" "iv_ok x" "iv_ok y" "same_type x y" "iv_width x \<le> 64"
    using assms(1-3) by (rule in_type_eq)
  have ov: "\<not> (iv_sign x \<and> iv_num x = - (2 ^ (iv_width x - 1)) \<and> iv_num y = - 1)"
    using assms(5) xy(1,3,4) by (auto simp: typed_def)
  have nz: "iv_num y \<noteq> 0" using assms(4) xy(4) by simp
  show "gives ps t (Iv_Div ps a b t) (wrap ps t (iv_num a) sdiv wrap ps t (iv_num b))"
    using iv_result_gives[OF assms(1) Iv_div_result[OF xy(7-10) nz ov] xy(1)] xy(3-6) by (simp add: Iv_Div_def in_type_def)
  show "gives ps t (Iv_Rem ps a b t) (wrap ps t (iv_num a) smod wrap ps t (iv_num b))"
    using iv_result_gives[OF assms(1) Iv_mod_result[OF xy(7-10) nz ov] xy(1)] xy(3-6) by (simp add: Iv_Rem_def in_type_def)
qed

lemma typed_one_word:
  assumes "ity ps t" "typed ps t v"
  obtains x where "v = \<lparr>iv_width = bits ps t, iv_sign = IsSignedInteger t, iv_u = Value x\<rparr>" "unat x < 2 ^ bits ps t"
    "uint x = take_bit (bits ps t) (iv_num v)"
proof -
  obtain w s x where v: "v = \<lparr>iv_width = w, iv_sign = s, iv_u = Value x\<rparr>" "unat x < 2 ^ w"
    using one_word_cases[OF typed_iv64[OF assms]] by metis
  have "iv_bits v = unat x" "iv_width v = w" using v(1) by (simp_all add: iv_bits_def)
  then have "int (unat x) = iv_num v mod 2 ^ w" using iv_bits_num[OF typed_ok[OF assms(2)]] by metis
  then have "uint x = take_bit w (iv_num v)" by (simp add: take_bit_eq_mod)
  moreover have "w = bits ps t" "s = IsSignedInteger t" using assms(2) v(1) by (auto simp: typed_def)
  ultimately show thesis using v that[of x] by blast
qed

text \<open>The bits of a value converted to a type.\<close>

lemma typed_bit:
  assumes "ity ps t" "typed ps t v" "iv_num v = wrap ps t z" "v = \<lparr>iv_width = w, iv_sign = s, iv_u = Value x\<rparr>"
  shows "bit x i \<longleftrightarrow> i < bits ps t \<and> bit z i"
proof -
  have "uint x = take_bit (bits ps t) z"
    using assms(2-4) typed_one_word[OF assms(1,2)] take_bit_wrap[OF assms(1), of "bits ps t" z] by force
  then have "bit (uint x) i \<longleftrightarrow> i < bits ps t \<and> bit z i" by (simp add: bit_take_bit_iff)
  then show ?thesis using bit_imp_le_length[of x i] by (auto simp: bit_uint_iff)
qed

lemma gives_word:
  assumes "ity ps t" "take_bit (bits ps t) (uint x) = take_bit (bits ps t) z"
  shows "gives ps t (Some \<lparr>iv_width = bits ps t, iv_sign = IsSignedInteger t, iv_u = Value (take_bit (bits ps t) x)\<rparr>) z"
proof -
  let ?v = "\<lparr>iv_width = bits ps t, iv_sign = IsSignedInteger t, iv_u = Value (take_bit (bits ps t) x)\<rparr>"
  have "typed ps t ?v"
    using ity_bits[OF assms(1)] unat_take_bit_bound[of "bits ps t" x] by (simp add: typed_def iv_ok_one)
  moreover have "int (iv_bits ?v) = z mod 2 ^ bits ps t"
    using assms(2)[unfolded take_bit_eq_mod] by (simp only: iv_bits_def IntVal.simps storage.case take_bit_word_uint)
  ultimately show ?thesis using gives_num[OF assms(1)] by (auto simp: gives_def)
qed

lemma Iv_of_val_width:
  "ity ps t \<Longrightarrow> Iv_of_val x (bits ps t) s = Some \<lparr>iv_width = bits ps t, iv_sign = s, iv_u = Value (take_bit (bits ps t) x)\<rparr>"
  using ity_bits[of ps t] by (intro Iv_of_val_one) auto

lemma Iv_Shl_gives:
  assumes "ity ps t" "iv64 a" "k < bits ps t"
  shows "gives ps t (Iv_Shl ps a k t) (push_bit k (iv_num a))"
proof -
  obtain v where v: "TruncOrExtend_type ps t a = Some v" "typed ps t v" "iv_num v = wrap ps t (iv_num a)"
    using TruncOrExtend_gives[OF assms(1,2)] by (auto simp: gives_def)
  obtain x where x: "v = \<lparr>iv_width = bits ps t, iv_sign = IsSignedInteger t, iv_u = Value x\<rparr>"
      "uint x = take_bit (bits ps t) (iv_num v)" using typed_one_word[OF assms(1) v(2)] by metis
  have b: "bits ps t \<le> 64" "0 < bits ps t" using ity_bits[OF assms(1)] by auto
  have "take_bit (bits ps t) (uint (push_bit k x)) = take_bit (bits ps t) (push_bit k (iv_num a))"
    by (rule bit_eqI) (use b in \<open>auto simp: bit_simps typed_bit[OF assms(1) v(2,3) x(1)]\<close>)
  then show ?thesis using gives_word[OF assms(1)] v(1) x(1) assms(3) b
    by (simp add: Iv_Shl_def Iv_shl_def IsOneWord_def iv_bind u_value_def shl_word_def Iv_of_val_width[OF assms(1)])
qed

lemma LShr_gives:
  assumes "ity ps t" "iv64 a" "k < bits ps t"
  shows "gives ps t (LShr_type ps a k t) (drop_bit k (take_bit (bits ps t) (iv_num a)))"
proof -
  obtain v where v: "TruncOrExtend_type ps t a = Some v" "typed ps t v" "iv_num v = wrap ps t (iv_num a)"
    using TruncOrExtend_gives[OF assms(1,2)] by (auto simp: gives_def)
  obtain x where x: "v = \<lparr>iv_width = bits ps t, iv_sign = IsSignedInteger t, iv_u = Value x\<rparr>"
    using typed_one_word[OF assms(1) v(2)] by metis
  have b: "bits ps t \<le> 64" "0 < bits ps t" using ity_bits[OF assms(1)] by auto
  have "take_bit (bits ps t) (uint (drop_bit k x)) = take_bit (bits ps t) (drop_bit k (take_bit (bits ps t) (iv_num a)))"
    by (rule bit_eqI) (use b in \<open>auto simp: bit_simps typed_bit[OF assms(1) v(2,3) x]\<close>)
  moreover have "take_bit (bits ps t) (drop_bit k x) = drop_bit k x"
    by (rule bit_word_eqI) (use b in \<open>auto simp: bit_simps typed_bit[OF assms(1) v(2,3) x]\<close>)
  ultimately have "gives ps t (Some (v\<lparr>iv_u := Value (drop_bit k x)\<rparr>)) (drop_bit k (take_bit (bits ps t) (iv_num a)))"
    using gives_word[OF assms(1), of "drop_bit k x"] x by simp
  moreover have "IsOneWord a" using assms(2) by (simp add: iv64_def IsOneWord_def kWordBitSize_def)
  ultimately show ?thesis using v(1) x assms(3) b
    by (simp add: LShr_type_def iv_bind u_value_def shr_word_def)
qed

lemma AShr_gives:
  assumes "ity ps t" "iv64 a" "k < bits ps t"
  shows "gives ps t (AShr_type ps a k t) (drop_bit k (signed_take_bit (bits ps t - 1) (iv_num a)))"
proof -
  obtain v where v: "TruncOrExtend_type ps t a = Some v" "typed ps t v" "iv_num v = wrap ps t (iv_num a)"
    using TruncOrExtend_gives[OF assms(1,2)] by (auto simp: gives_def)
  obtain x where x: "v = \<lparr>iv_width = bits ps t, iv_sign = IsSignedInteger t, iv_u = Value x\<rparr>"
    using typed_one_word[OF assms(1) v(2)] by metis
  have b: "bits ps t \<le> 64" "0 < bits ps t" using ity_bits[OF assms(1)] by auto
  let ?z = "signed_take_bit (bits ps t - 1) (iv_num a)"
  have "take_bit (Suc (bits ps t - 1)) (iv_num v) = take_bit (Suc (bits ps t - 1)) (iv_num a)"
    using v(3) take_bit_wrap[OF assms(1), of "bits ps t" "iv_num a"] b by simp
  then have "signed_take_bit (bits ps t - 1) (iv_num v) = ?z" by (simp only: signed_take_bit_eq_iff_take_bit_eq)
  then have z: "GetSXTValue 0 v = Some ?z"
    using GetSXTValue_0[OF typed_iv64[OF assms(1) v(2)]] v(2) by (simp add: typed_def)
  have r: "- (2 ^ 63) \<le> ?z" "?z < 2 ^ 63"
  proof -
    have "(2 :: int) ^ (bits ps t - 1) \<le> 2 ^ 63" using b by (intro power_increasing) auto
    moreover have "- (2 ^ (bits ps t - 1)) \<le> ?z" "?z < 2 ^ (bits ps t - 1)"
      by (rule signed_take_bit_int_greater_eq_minus_exp signed_take_bit_int_less_exp)+
    ultimately show "- (2 ^ 63) \<le> ?z" "?z < 2 ^ 63" by linarith+
  qed
  have i64: "ity ps PTY_i64" by (rule ity_i64[OF assms(1)])
  obtain w where w: "Iv_of_val_type ps (word_of_int ?z) PTY_i64 = Some w" "typed ps PTY_i64 w" "iv_num w = ?z"
    using Iv_of_int_gives[OF i64, of ?z] signed_64_range[OF r] by (auto simp: gives_def wrap_def i64_type)
  have "GetSXTValue 0 w = Some ?z"
    using GetSXTValue_0[OF typed_iv64[OF i64 w(2)]] w(2,3) signed_64_range[OF r] by (simp add: typed_def i64_type)
  then have "Iv_shr w k = Iv_of_val (word_of_int (drop_bit k ?z)) 64 True"
    using w(2) assms(3) b by (simp add: Iv_shr_def typed_def i64_type iv_bind IsOneWord_def)
  then obtain y where y: "Iv_shr w k = Some y" "y = \<lparr>iv_width = 64, iv_sign = True, iv_u = Value (word_of_int (drop_bit k ?z))\<rparr>"
    using Iv_of_val_one[of 64 "word_of_int (drop_bit k ?z)" True] take_bit_length_eq[of "word_of_int (drop_bit k ?z) :: u64"] by simp
  have "unat (word_of_int (drop_bit k ?z) :: u64) < 2 ^ 64" by (rule unat_less_u64)
  then have "iv64 y" using y(2) iv_ok_one[of 64 "word_of_int (drop_bit k ?z)" True] by (simp add: iv64_def)
  then obtain q where q: "GetExtValue 0 y = Some q" "take_bit 64 q = take_bit 64 (iv_num y)"
    using GetExtValue_0[of y] by (simp add: take_bit_signed_take_bit)
  have "take_bit 64 (iv_num y) = take_bit 64 (drop_bit k ?z)"
    using y(2) iv_bits_num[of y] \<open>iv64 y\<close> by (simp add: iv64_def iv_bits_def take_bit_eq_mod unsigned_of_int)
  then have "take_bit (bits ps t) (uint (word_of_int q :: u64)) = take_bit (bits ps t) (drop_bit k ?z)"
    using q(2) b by (simp add: unsigned_of_int)
  then show ?thesis
    using gives_word[OF assms(1), of "word_of_int q"] v(1) x z w(1) y(1) q(1) assms(2,3) b TruncInPlace_one[of "bits ps t"]
    by (simp add: AShr_type_def iv_bind u_value_def IsOneWord_def iv64_def)
qed

lemma Iv_of_iv_gives:
  assumes "ity ps t" "iv64 v" "bits ps t \<le> iv_width v"
  shows "gives ps t (Iv_of_iv_type ps v t) (iv_num v)"
proof -
  obtain w s x where v: "v = \<lparr>iv_width = w, iv_sign = s, iv_u = Value x\<rparr>" "0 < w" "w \<le> 64" "unat x < 2 ^ w"
    using assms(2) by (rule one_word_cases)
  have b: "bits ps t \<le> 64" "0 < bits ps t" "bits ps t \<le> w" using ity_bits[OF assms(1)] assms(3) v(1) by auto
  have "uint x = take_bit w (iv_num v)" using iv_bits_num[of v] assms(2) v(1) by (simp add: iv64_def iv_bits_def take_bit_eq_mod)
  then have "take_bit (bits ps t) (uint x) = take_bit (bits ps t) (iv_num v)" using b by (simp add: min_def)
  then show ?thesis
    using gives_word[OF assms(1), of x] v b TruncInPlace_one[of "bits ps t"] ity_classes(1)[OF assms(1)]
    by (simp add: Iv_of_iv_type_def Init_storage_def Init_val_def IsOneWord_def iv_bind u_value_def bits_def[symmetric])
qed

section \<open>The meaning of an expression\<close>

text \<open>A store gives the variables (symbol and field) and the pseudo registers their values. The value of
  an expression is an integer in the range of its type; operands are read in the type of the
  operation, results are reduced to the type of the node. A division by zero, the division of the
  least signed value by \<open>-1\<close> and a shift by the width or more have no value, nor has an expression with
  such an operand.\<close>

type_synonym store = "(nat \<times> nat) + nat \<Rightarrow> int"

definition truth :: "bool \<Rightarrow> int" where
  "truth b = (if b then 1 else 0)"

definition eval_unary :: "nat \<Rightarrow> Opcode \<Rightarrow> PrimType \<Rightarrow> int \<Rightarrow> int option" where
  "eval_unary ps opc t x =
     (case opc of
        OP_neg \<Rightarrow> Some (wrap ps t (- x))
      | OP_bnot \<Rightarrow> Some (wrap ps t (NOT x))
      | OP_lnot \<Rightarrow> Some (truth (x = 0))
      | OP_abs \<Rightarrow> Some (wrap ps t (if IsSignedInteger t then \<bar>wrap ps t x\<bar> else x))
      | _ \<Rightarrow> None)"

definition eval_shift :: "nat \<Rightarrow> PrimType \<Rightarrow> int \<Rightarrow> (nat \<Rightarrow> int) \<Rightarrow> int option" where
  "eval_shift ps t y f = (if 0 \<le> y \<and> y < int (bits ps t) then Some (wrap ps t (f (nat y))) else None)"

definition eval_binary :: "nat \<Rightarrow> Opcode \<Rightarrow> PrimType \<Rightarrow> int \<Rightarrow> int \<Rightarrow> int option" where
  "eval_binary ps opc t x y =
     (let a = wrap ps t x; b = wrap ps t y;
          undefined_div = (b = 0 \<or> IsSignedInteger t \<and> a = - (2 ^ (bits ps t - 1)) \<and> b = - 1) in
      case opc of
        OP_add \<Rightarrow> Some (wrap ps t (a + b))
      | OP_sub \<Rightarrow> Some (wrap ps t (a - b))
      | OP_mul \<Rightarrow> Some (wrap ps t (a * b))
      | OP_div \<Rightarrow> if undefined_div then None else Some (wrap ps t (a sdiv b))
      | OP_rem \<Rightarrow> if undefined_div then None else Some (wrap ps t (a smod b))
      | OP_ashr \<Rightarrow> eval_shift ps t y (\<lambda>k. drop_bit k (signed_take_bit (bits ps t - 1) a))
      | OP_lshr \<Rightarrow> eval_shift ps t y (\<lambda>k. drop_bit k (take_bit (bits ps t) a))
      | OP_shl \<Rightarrow> eval_shift ps t y (\<lambda>k. push_bit k a)
      | OP_max \<Rightarrow> Some (max a b)
      | OP_min \<Rightarrow> Some (min a b)
      | OP_band \<Rightarrow> Some (wrap ps t (a AND b))
      | OP_bior \<Rightarrow> Some (wrap ps t (a OR b))
      | OP_bxor \<Rightarrow> Some (wrap ps t (a XOR b))
      | OP_cand \<Rightarrow> Some (truth (x \<noteq> 0 \<and> y \<noteq> 0))
      | OP_land \<Rightarrow> Some (truth (x \<noteq> 0 \<and> y \<noteq> 0))
      | OP_cior \<Rightarrow> Some (truth (x \<noteq> 0 \<or> y \<noteq> 0))
      | OP_lior \<Rightarrow> Some (truth (x \<noteq> 0 \<or> y \<noteq> 0))
      | _ \<Rightarrow> None)"

definition eval_compare :: "nat \<Rightarrow> Opcode \<Rightarrow> PrimType \<Rightarrow> PrimType \<Rightarrow> int \<Rightarrow> int \<Rightarrow> int option" where
  "eval_compare ps opc t ot x y =
     (let a = wrap ps ot x; b = wrap ps ot y in
      case opc of
        OP_eq \<Rightarrow> Some (truth (a = b))
      | OP_ne \<Rightarrow> Some (truth (a \<noteq> b))
      | OP_lt \<Rightarrow> Some (truth (a < b))
      | OP_le \<Rightarrow> Some (truth (a \<le> b))
      | OP_gt \<Rightarrow> Some (truth (a > b))
      | OP_ge \<Rightarrow> Some (truth (a \<ge> b))
      | OP_cmp \<Rightarrow> Some (wrap ps t (if a > b then 1 else if a = b then 0 else - 1))
      | _ \<Rightarrow> None)"

definition extract_value :: "Opcode \<Rightarrow> PrimType \<Rightarrow> nat \<Rightarrow> nat \<Rightarrow> int \<Rightarrow> int" where
  "extract_value opc t off sz x =
     (if opc = OP_sext \<or> opc = OP_extractbits \<and> IsSignedInteger t then signed_take_bit (sz - 1) (drop_bit off x)
      else take_bit sz (drop_bit off x))"

definition deposit_value :: "nat \<Rightarrow> nat \<Rightarrow> int \<Rightarrow> int \<Rightarrow> int" where
  "deposit_value off sz x y =
     (let m = push_bit off (mask sz) in (x AND NOT m) OR (push_bit off y AND m))"

fun eval :: "nat \<Rightarrow> symbol_types \<Rightarrow> store \<Rightarrow> node \<Rightarrow> int option" where
  "eval ps syms \<sigma> (Dread t st fld) =
     Some (wrap ps t (case syms st fld of Some (ty, _) \<Rightarrow> wrap ps ty (\<sigma> (Inl (st, fld))) | None \<Rightarrow> \<sigma> (Inl (st, fld))))"
| "eval ps syms \<sigma> (Regread t r) = Some (wrap ps t (\<sigma> (Inr r)))"
| "eval ps syms \<sigma> (Constval t c) = Some (wrap ps t (iv_num (mc_value c)))"
| "eval ps syms \<sigma> (Sizeoftype t arg) = map_option (\<lambda>a. wrap ps t (int (GetPrimTypeSize ps a))) arg"
| "eval ps syms \<sigma> (Unary opc t a) = do { x \<leftarrow> eval ps syms \<sigma> a; eval_unary ps opc t x }"
| "eval ps syms \<sigma> (TypeCvt opc t f a) = do {
     x \<leftarrow> eval ps syms \<sigma> a;
     (if opc = OP_cvt then Some (wrap ps t (wrap ps f x)) else None)
   }"
| "eval ps syms \<sigma> (Retype t f a) = do { x \<leftarrow> eval ps syms \<sigma> a; Some (wrap ps t x) }"
| "eval ps syms \<sigma> (Extractbits opc t off sz a) = do {
     x \<leftarrow> eval ps syms \<sigma> a;
     Some (wrap ps t (extract_value opc t off sz x))
   }"
| "eval ps syms \<sigma> (Binary opc t a b) = do {
     x \<leftarrow> eval ps syms \<sigma> a; y \<leftarrow> eval ps syms \<sigma> b; eval_binary ps opc t x y }"
| "eval ps syms \<sigma> (Compare opc t ot a b) = do {
     x \<leftarrow> eval ps syms \<sigma> a; y \<leftarrow> eval ps syms \<sigma> b; eval_compare ps opc t ot x y }"
| "eval ps syms \<sigma> (Depositbits t off sz a b) = do {
     x \<leftarrow> eval ps syms \<sigma> a; y \<leftarrow> eval ps syms \<sigma> b; Some (wrap ps t (deposit_value off sz x y)) }"
| "eval ps syms \<sigma> (Ternary opc t c a b) = do {
     z \<leftarrow> eval ps syms \<sigma> c; x \<leftarrow> eval ps syms \<sigma> a; y \<leftarrow> eval ps syms \<sigma> b;
     (if opc = OP_select then Some (wrap ps t (if z \<noteq> 0 then x else y)) else None)
   }"

section \<open>Well-typed expressions\<close>

text \<open>A truth value is of type \<open>u1\<close> or \<open>i32\<close>. An operand fits an operation when it has the width of its
  type or is a truth value. Binary operators work on values of a register, of 32 or 64 bits, apart from
  \<open>bxor\<close> of truth values. Left out are the operators and shapes on which folding is not exact
  (signed division, the logical connectives, the three-way comparison, extraction at an offset), and the
  operators \<open>abs\<close>, \<open>max\<close> and \<open>min\<close>.\<close>

fun boolv :: "node \<Rightarrow> bool" where
  "boolv (Compare opc t ot a b) \<longleftrightarrow> t = PTY_u1 \<or> opc \<noteq> OP_cmp"
| "boolv (Constval t c) \<longleftrightarrow> t = PTY_u1 \<or> t = PTY_i32 \<and> iv_num (mc_value c) \<in> {0, 1}"
| "boolv e \<longleftrightarrow> GetPrimType e = PTY_u1"

definition fits :: "nat \<Rightarrow> PrimType \<Rightarrow> node \<Rightarrow> bool" where
  "fits ps t a \<longleftrightarrow> t \<noteq> PTY_u1 \<and> bits ps (GetPrimType a) = bits ps t \<or> boolv a"

fun noshr :: "node \<Rightarrow> bool" where
  "noshr (Binary opc t a b) \<longleftrightarrow> opc \<noteq> OP_ashr \<and> opc \<noteq> OP_lshr \<and> noshr a \<and> noshr b"
| "noshr (Unary opc t a) \<longleftrightarrow> noshr a"
| "noshr (TypeCvt opc t f a) \<longleftrightarrow> noshr a"
| "noshr (Retype t f a) \<longleftrightarrow> noshr a"
| "noshr (Extractbits opc t off sz a) \<longleftrightarrow> noshr a"
| "noshr (Compare opc t ot a b) \<longleftrightarrow> noshr a \<and> noshr b"
| "noshr (Depositbits t off sz a b) \<longleftrightarrow> noshr a \<and> noshr b"
| "noshr (Ternary opc t a b c) \<longleftrightarrow> noshr a \<and> noshr b \<and> noshr c"
| "noshr e \<longleftrightarrow> True"

definition wt_binary :: "nat \<Rightarrow> Opcode \<Rightarrow> PrimType \<Rightarrow> node \<Rightarrow> node \<Rightarrow> bool" where
  "wt_binary ps opc t a b \<longleftrightarrow>
     ity ps t \<and>
     (if t = PTY_u1 then opc = OP_bxor \<and> boolv a \<and> boolv b
      else 32 \<le> bits ps t \<and> fits ps t a \<and>
        (opc \<in> {OP_ashr, OP_lshr, OP_shl} \<or>
         fits ps t b \<and> (opc \<in> {OP_add, OP_sub, OP_mul, OP_rem, OP_bior, OP_bxor} \<or>
           opc = OP_div \<and> \<not> IsSignedInteger t \<or> opc = OP_band \<and> noshr a \<and> noshr b)))"

fun wt :: "nat \<Rightarrow> node \<Rightarrow> bool" where
  "wt ps (Dread t st fld) \<longleftrightarrow> ity ps t"
| "wt ps (Regread t r) \<longleftrightarrow> ity ps t"
| "wt ps (Constval t c) \<longleftrightarrow> ity ps t \<and> mc_type c = t \<and> typed ps t (mc_value c)"
| "wt ps (Sizeoftype t arg) \<longleftrightarrow> ity ps t"
| "wt ps (Unary opc t a) \<longleftrightarrow>
     wt ps a \<and> ity ps t \<and> fits ps t a \<and> (opc = OP_lnot \<or> t \<noteq> PTY_u1 \<and> (opc = OP_neg \<or> opc = OP_bnot))"
| "wt ps (TypeCvt opc t f a) \<longleftrightarrow> wt ps a \<and> opc = OP_cvt \<and> ity ps t \<and> (t = PTY_u1 \<longrightarrow> boolv a) \<and> ity ps f \<and> fits ps f a"
| "wt ps (Retype t f a) \<longleftrightarrow> wt ps a \<and> ity ps t \<and> t \<noteq> PTY_u1 \<and> fits ps t a"
| "wt ps (Extractbits opc t off sz a) \<longleftrightarrow>
     wt ps a \<and> ity ps t \<and> t \<noteq> PTY_u1 \<and> fits ps t a \<and> (opc = OP_sext \<or> opc = OP_zext \<or> opc = OP_extractbits) \<and>
     off = 0 \<and> 0 < sz \<and> sz \<le> bits ps t"
| "wt ps (Binary opc t a b) \<longleftrightarrow> wt ps a \<and> wt ps b \<and> wt_binary ps opc t a b"
| "wt ps (Compare opc t ot a b) \<longleftrightarrow>
     wt ps a \<and> wt ps b \<and> ity ps ot \<and> fits ps ot a \<and> fits ps ot b \<and>
     opc \<in> {OP_eq, OP_ne, OP_lt, OP_le, OP_gt, OP_ge} \<and> t \<in> {PTY_u1, PTY_i32}"
| "wt ps (Depositbits t off sz a b) \<longleftrightarrow>
     wt ps a \<and> wt ps b \<and> ity ps t \<and> t \<noteq> PTY_u1 \<and> fits ps t a \<and> fits ps t b \<and> off + sz \<le> bits ps t \<and> off + sz < 64"
| "wt ps (Ternary opc t c a b) \<longleftrightarrow>
     wt ps a \<and> wt ps b \<and> wt ps c \<and> ity ps t \<and> opc = OP_select \<and> boolv c \<and> fits ps t a \<and> fits ps t b"

text \<open>The weight of an expression does not grow when it is folded.\<close>

fun weight :: "node \<Rightarrow> nat" where
  "weight (Unary opc t a) = weight a"
| "weight (TypeCvt opc t f a) = weight a"
| "weight (Retype t f a) = weight a"
| "weight (Extractbits opc t off sz a) = weight a"
| "weight (Binary opc t a b) = weight a + weight b + 1"
| "weight (Compare opc t ot a b) = weight a + weight b + 1"
| "weight (Depositbits t off sz a b) = weight a + weight b + 1"
| "weight (Ternary opc t a b c) = weight a + weight b + weight c + 1"
| "weight e = 1"

fun nonconst :: "node \<Rightarrow> bool" where
  "nonconst (Constval t c) \<longleftrightarrow> False"
| "nonconst (Unary opc t a) \<longleftrightarrow> (opc = OP_neg \<longrightarrow> nonconst a)"
| "nonconst e \<longleftrightarrow> True"

section \<open>Basic facts\<close>

lemma truth_bool: "truth b = 0 \<or> truth b = 1" "truth b = 0 \<longleftrightarrow> \<not> b" "truth b = 1 \<longleftrightarrow> b"
  by (auto simp: truth_def)

lemma wt_ity: "wt ps e \<Longrightarrow> (ps = 4 \<or> ps = 8) \<Longrightarrow> ity ps (GetPrimType e)"
  by (cases e) (auto simp: wt_binary_def ity_def bits_def prim_eval)

lemma wt_ps: "wt ps e \<Longrightarrow> ps = 4 \<or> ps = 8"
  by (induction e) (auto simp: wt_binary_def dest: ity_ps)

lemma wt_type: "wt ps e \<Longrightarrow> ity ps (GetPrimType e)"
  using wt_ity wt_ps by blast

lemma wrap_max_min: "ity ps t \<Longrightarrow> wrap ps t (max (wrap ps t x) (wrap ps t y)) = max (wrap ps t x) (wrap ps t y)"
  "ity ps t \<Longrightarrow> wrap ps t (min (wrap ps t x) (wrap ps t y)) = min (wrap ps t x) (wrap ps t y)"
  by (simp_all add: max_def min_def wrap_wrap)

lemma wrap_truth: "ity ps t \<Longrightarrow> wrap ps t (truth b) = truth b"
  by (simp add: wrap_bool truth_bool)

lemma eval_binary_range:
  assumes "ity ps t" "eval_binary ps opc t x y = Some v"
  shows "wrap ps t v = v"
  using assms
  by (cases opc) (auto simp: eval_binary_def eval_shift_def Let_def wrap_wrap wrap_truth wrap_max_min split: if_splits)

lemma eval_range:
  assumes "wt ps e" "eval ps syms \<sigma> e = Some v"
  shows "wrap ps (GetPrimType e) v = v"
  using assms wt_type[OF assms(1)]
  by (cases e) (auto simp: wrap_wrap wrap_truth eval_unary_def eval_compare_def Let_def eval_binary_range
      split: Option.bind_splits if_splits)

lemma eval_bool:
  assumes "wt ps e" "boolv e" "eval ps syms \<sigma> e = Some v"
  shows "v = 0 \<or> v = 1"
proof (cases "GetPrimType e = PTY_u1")
  case True
  then have "0 \<le> v" "v < 2" using eval_range[OF assms(1,3)] wt_type[OF assms(1)]
    by (auto simp: wrap_range u1_unsigned bits_u1)
  then show ?thesis by auto
next
  case False
  then show ?thesis using assms wt_type[OF assms(1)]
    by (cases e) (auto simp: eval_compare_def truth_def wrap_bool Let_def split: Option.bind_splits if_splits)
qed

lemma boolv_type: "wt ps e \<Longrightarrow> boolv e \<Longrightarrow> GetPrimType e = PTY_u1 \<or> GetPrimType e = PTY_i32"
  by (cases e) auto

lemma boolv_u1: "GetPrimType e = PTY_u1 \<Longrightarrow> boolv e"
  by (cases e) auto

lemma fits_self: "fits ps (GetPrimType e) e"
  using boolv_u1 by (auto simp: fits_def)

lemma fits_bool: "boolv e \<Longrightarrow> fits ps t e"
  by (simp add: fits_def)

lemma fits_u1: "fits ps PTY_u1 e \<longleftrightarrow> boolv e"
  by (simp add: fits_def)

lemma fits_trans: "fits ps t a \<Longrightarrow> fits ps (GetPrimType a) e \<Longrightarrow> (boolv a \<Longrightarrow> boolv e) \<Longrightarrow> fits ps t e"
  by (auto simp: fits_def)


end
