(* ===== verification/Constant_Fold_Pair.thy ===== *)
theory Constant_Fold_Pair
  imports Constant_Fold_Sem
begin

text \<open>
  The pairs that the constant folder returns: a node and a constant still to be added to it. \<open>represents\<close> says
  that a pair stands for the value of a node, \<open>stands_for\<close> that a node can stand for an operand; \<open>PairToExpr\<close>
  leads from the one to the other. The last part is the folding of operators on constants.
\<close>

unbundle bit_operations_syntax

section \<open>What a pair represents\<close>

definition sval :: "IntVal option \<Rightarrow> int" where
  "sval s = (case s of None \<Rightarrow> 0 | Some v \<Rightarrow> iv_num v)"

definition sum_ok :: "nat \<Rightarrow> PrimType \<Rightarrow> IntVal option \<Rightarrow> bool" where
  "sum_ok ps t s \<longleftrightarrow> (case s of None \<Rightarrow> True | Some v \<Rightarrow> 32 \<le> bits ps t \<and> iv64 v \<and> bits ps t \<le> iv_width v)"

definition rep ::
  "nat \<Rightarrow> symbol_types \<Rightarrow> store \<Rightarrow> PrimType \<Rightarrow> bool \<Rightarrow> int \<Rightarrow> nat \<Rightarrow> bool \<Rightarrow> node \<Rightarrow> IntVal option \<Rightarrow> bool" where
  "rep ps syms \<sigma> t bv v w n e s \<longleftrightarrow>
     wt ps e \<and> fits ps t e \<and> (bv \<longrightarrow> boolv e \<and> s = None) \<and> sum_ok ps t s \<and>
     (nonconst e \<or> const_of e \<noteq> None \<and> s = None) \<and> weight e + (if s = None then 0 else 2) \<le> w \<and> (n \<longrightarrow> noshr e) \<and>
     (\<exists>v'. eval ps syms \<sigma> e = Some v' \<and> take_bit (bits ps t) (v' + sval s) = take_bit (bits ps t) v)"

text \<open>A pair that stands for the value of a node.\<close>

definition represents :: "nat \<Rightarrow> symbol_types \<Rightarrow> store \<Rightarrow> node \<Rightarrow> fold_pair \<Rightarrow> bool" where
  "represents ps syms \<sigma> e p \<longleftrightarrow>
     (\<exists>v. eval ps syms \<sigma> e = Some v \<and>
       rep ps syms \<sigma> (GetPrimType e) (boolv e) v (weight e) (noshr e) (fst p) (snd p))"

lemma sval_simps [simp]: "sval None = 0" "sval (Some v) = iv_num v"
  by (simp_all add: sval_def)

lemma sum_ok_simps [simp]: "sum_ok ps t None" "sum_ok ps t (Some v) \<longleftrightarrow> 32 \<le> bits ps t \<and> iv64 v \<and> bits ps t \<le> iv_width v"
  by (simp_all add: sum_ok_def)

lemma const_of_eq: "const_of e = Some c \<longleftrightarrow> (\<exists>t. e = Constval t c)"
  by (cases e) auto

lemma nonconst_const: "const_of e = None \<Longrightarrow> nonconst e \<or> const_of e \<noteq> None \<and> s = None \<Longrightarrow> nonconst e"
  by simp

lemma CreateIntConst_gives:
  assumes "ity ps t"
  shows "\<exists>c. CreateIntConst ps (word_of_int x) t = Some (Constval t c) \<and> mc_type c = t \<and> typed ps t (mc_value c) \<and>
    iv_num (mc_value c) = wrap ps t x"
  using Iv_of_int_gives[OF assms, of x] by (auto simp: CreateIntConst_def GetOrCreateIntConst_def gives_def)

lemma wide_not_u1: "32 \<le> bits ps t \<Longrightarrow> t \<noteq> PTY_u1"
  using bits_u1[of ps] by auto

lemma plus_positive_defined:
  assumes "ity ps t" "t \<noteq> PTY_u1" "iv64 v" "bits ps t \<le> iv_width v"
  shows "\<exists>b. plus_positive ps t v = Some b"
proof -
  obtain n where n: "GetSignBit v = Some n" using GetSignBit_defined[OF assms(3)] by blast
  have b: "GetPrimTypeBitSize ps t mod 2 ^ 8 \<le> iv_width v"
    using ity_bit_size[OF assms(1)] assms(2,4) ity_bits[OF assms(1)] by simp
  obtain x where x: "GetSXTValue (GetPrimTypeBitSize ps t mod 2 ^ 8) v = Some x"
    using GetSXTValue_defined[OF assms(3) b] by blast
  obtain y where y: "TruncOrExtend_type ps t v = Some y" "typed ps t y"
    using TruncOrExtend_gives[OF assms(1,3)] by (auto simp: gives_def)
  obtain m where m: "IsMinValue y = Some m" using IsMinValue_defined[OF typed_iv64[OF assms(1) y(2)]] by blast
  show ?thesis using n x y(1) m GetSXTValue_0[OF assms(3)] by (cases n) (auto simp: plus_positive_def andm_def)
qed

lemma neg_opnd_eq: "neg_opnd e = Some r \<longleftrightarrow> (\<exists>t. e = Unary OP_neg t r)"
  by (cases e) auto

lemma take_bit_cong_add: "take_bit n x = take_bit n y \<Longrightarrow> take_bit n (x + z) = take_bit n (y + z)" for x y z :: int
  by (metis take_bit_add)

lemma take_bit_cong_diff: "take_bit n x = take_bit n y \<Longrightarrow> take_bit n (z - x) = take_bit n (z - y)" for x y z :: int
  by (metis take_bit_diff)

text \<open>The forms that end in a constant.\<close>

lemma sum_forms:
  assumes "ity ps t" "32 \<le> bits ps t" "wt ps e" "fits ps t e" "eval ps syms \<sigma> e = Some v" "wt ps (Constval t c)"
  shows "wt ps (Binary OP_add t e (Constval t c))" "wt ps (Binary OP_sub t e (Constval t c))" "wt ps (Binary OP_sub t (Constval t c) e)"
    "eval ps syms \<sigma> (Binary OP_add t e (Constval t c)) = Some (wrap ps t (v + iv_num (mc_value c)))"
    "eval ps syms \<sigma> (Binary OP_sub t e (Constval t c)) = Some (wrap ps t (v - iv_num (mc_value c)))"
    "eval ps syms \<sigma> (Binary OP_sub t (Constval t c) e) = Some (wrap ps t (iv_num (mc_value c) - v))"
  using assms fits_self[of ps "Constval t c"] wide_not_u1[OF assms(2)]
  by (simp_all add: wt_binary_def eval_binary_def Let_def wrap_arith[OF assms(1)])

lemma rep_binary_const:
  assumes "rep ps syms \<sigma> t bv v w n e (Some s)" "ity ps t"
    and "x = Binary opc t a b" "wt ps x" "eval ps syms \<sigma> x = Some (wrap ps t z)" "weight x \<le> w" "n \<longrightarrow> noshr x"
    and "\<And>v'. eval ps syms \<sigma> e = Some v' \<Longrightarrow> take_bit (bits ps t) z = take_bit (bits ps t) (v' + iv_num s)"
  shows "rep ps syms \<sigma> t bv v w n x None"
  using assms(1,2,4-8) fits_self[of ps x] unfolding assms(3) rep_def
  by (auto simp: take_bit_wrap[OF assms(2)])

lemma add_const_rep:
  assumes "rep ps syms \<sigma> t bv v w n e (Some s)" "ity ps t"
  shows "\<exists>x. add_const ps t e s = Some x \<and> rep ps syms \<sigma> t bv v w n x None"
proof -
  have s: "32 \<le> bits ps t" "iv64 s" "bits ps t \<le> iv_width s" and e: "wt ps e" "fits ps t e"
    and W: "weight e + 2 \<le> w" "n \<longrightarrow> noshr e" using assms(1) by (auto simp: rep_def)
  obtain v' where v': "eval ps syms \<sigma> e = Some v'" using assms(1) by (auto simp: rep_def)
  obtain pos where pos: "plus_positive ps t s = Some pos" using plus_positive_defined[OF assms(2) wide_not_u1[OF s(1)] s(2,3)] by blast
  show ?thesis
  proof (cases pos)
    case True
    obtain c where c: "CreateIntConst ps (word_of_int (signed_take_bit 63 (iv_num s))) t = Some (Constval t c)"
        "wt ps (Constval t c)" "iv_num (mc_value c) = wrap ps t (iv_num s)"
      using CreateIntConst_gives[OF assms(2), of "iv_num s"] assms(2) by (auto simp: word_of_Ext)
    note F = sum_forms[OF assms(2) s(1) e v' c(2)]
    have "rep ps syms \<sigma> t bv v w n (Binary OP_add t e (Constval t c)) None"
      by (rule rep_binary_const[OF assms refl F(1) F(4)])
        (use W v' c(3) in \<open>auto simp: take_bit_wrap[OF assms(2)] intro: take_bit_cong_add simp: add.commute[of v']\<close>)
    then show ?thesis using pos True c(1) GetExtValue_0[OF s(2)] by (simp add: add_const_def)
  next
    case False
    obtain y where y: "Iv_neg s = Some y" "iv64 y" "take_bit (iv_width s) (iv_num y) = take_bit (iv_width s) (- iv_num s)"
      using Iv_neg_result[of s] s(2) iv_bits_num by (fastforce simp: iv_result_def iv64_def same_type_def take_bit_eq_mod)
    obtain c where c: "CreateIntConst ps (word_of_int (signed_take_bit 63 (iv_num y))) t = Some (Constval t c)"
        "wt ps (Constval t c)" "iv_num (mc_value c) = wrap ps t (iv_num y)"
      using CreateIntConst_gives[OF assms(2), of "iv_num y"] assms(2) by (auto simp: word_of_Ext)
    note F = sum_forms[OF assms(2) s(1) e v' c(2)]
    have "take_bit (bits ps t) (iv_num y) = take_bit (bits ps t) (- iv_num s)"
      using y(3) s(3) by (metis min_def take_bit_take_bit)
    then have "take_bit (bits ps t) (v' - iv_num (mc_value c)) = take_bit (bits ps t) (v' - (- iv_num s))"
      using c(3) by (intro take_bit_cong_diff) (simp add: take_bit_wrap[OF assms(2)])
    then have "rep ps syms \<sigma> t bv v w n (Binary OP_sub t e (Constval t c)) None"
      by (intro rep_binary_const[OF assms refl F(2) F(5)]) (use W v' in auto)
    then show ?thesis using pos False c(1) y(1) GetExtValue_0[OF y(2)] by (simp add: add_const_def)
  qed
qed

lemma PairToExpr_rep:
  assumes "rep ps syms \<sigma> t bv v w n e s" "ity ps t"
  shows "\<exists>x. PairToExpr ps t (e, s) = Some x \<and> rep ps syms \<sigma> t bv v w n x None"
proof (cases s)
  case None
  then show ?thesis using assms by (simp add: PairToExpr_def)
next
  case (Some u)
  have u: "32 \<le> bits ps t" "iv64 u" "bits ps t \<le> iv_width u" and e: "wt ps e" "fits ps t e"
    and W: "weight e + 2 \<le> w" "n \<longrightarrow> noshr e" using assms(1) Some by (auto simp: rep_def)
  obtain g where g: "GetSignBit u = Some g" using GetSignBit_defined[OF u(2)] by blast
  show ?thesis
  proof (cases "iv_num u = 0")
    case True
    then have "rep ps syms \<sigma> t bv v w n e None" using assms(1) Some by (auto simp: rep_def)
    then show ?thesis using True Some g by (simp add: PairToExpr_def Iv_eq_const[OF u(2)])
  next
    case nz: False
    show ?thesis
    proof (cases "neg_opnd e = None \<or> g")
      case True
      then show ?thesis using nz Some g add_const_rep[of ps syms \<sigma> t bv v w n e u] assms
        by (auto simp: PairToExpr_def Iv_eq_const[OF u(2)] split: option.split)
    next
      case False
      then obtain r t' where r: "e = Unary OP_neg t' r" "\<not> g" by (auto simp: neg_opnd_eq)
      have rt: "wt ps r" "ity ps t'" "t' \<noteq> PTY_u1" "fits ps t' r" using e(1) r(1) by auto
      then have b: "bits ps t' = bits ps t" using e(2) r(1) by (auto simp: fits_def)
      then have rf: "fits ps t r" using rt wide_not_u1[OF u(1)] by (auto simp: fits_def)
      obtain v' where v': "eval ps syms \<sigma> r = Some v'" "eval ps syms \<sigma> e = Some (wrap ps t' (- v'))"
        using assms(1) r(1) by (auto simp: rep_def eval_unary_def split: Option.bind_splits)
      obtain c where c: "CreateIntConst ps (word_of_int (signed_take_bit 63 (iv_num u))) t = Some (Constval t c)"
          "wt ps (Constval t c)" "iv_num (mc_value c) = wrap ps t (iv_num u)"
        using CreateIntConst_gives[OF assms(2), of "iv_num u"] assms(2) by (auto simp: word_of_Ext)
      note F = sum_forms[OF assms(2) u(1) rt(1) rf v'(1) c(2)]
      have "take_bit (bits ps t) (iv_num (mc_value c) - v') = take_bit (bits ps t) (wrap ps t' (- v') + iv_num u)"
        using c(3) b take_bit_wrap[OF rt(2), of "bits ps t" "- v'"] take_bit_wrap[OF assms(2), of "bits ps t" "iv_num u"]
        by (metis add.commute diff_conv_add_uminus order_refl take_bit_add)
      then have "rep ps syms \<sigma> t bv v w n (Binary OP_sub t (Constval t c) r) None"
        using W v'(2) r(1) Some assms by (intro rep_binary_const[OF _ assms(2) refl F(3) F(6)]) auto
      then show ?thesis using nz g r c(1) Some GetExtValue_0[OF u(2)] by (simp add: PairToExpr_def Iv_eq_const[OF u(2)])
    qed
  qed
qed

section \<open>Operands\<close>

text \<open>\<open>x\<close> can stand for the operand \<open>a\<close> of an operation of type \<open>t\<close>.\<close>

definition stands_for :: "nat \<Rightarrow> symbol_types \<Rightarrow> store \<Rightarrow> PrimType \<Rightarrow> node \<Rightarrow> node \<Rightarrow> bool" where
  "stands_for ps syms \<sigma> t a x \<longleftrightarrow>
     wt ps x \<and> fits ps t x \<and> (boolv a \<longrightarrow> boolv x) \<and> weight x \<le> weight a \<and> (noshr a \<longrightarrow> noshr x) \<and>
     (nonconst x \<or> const_of x \<noteq> None) \<and>
     (\<exists>va vx. eval ps syms \<sigma> a = Some va \<and> eval ps syms \<sigma> x = Some vx \<and> wrap ps t vx = wrap ps t va \<and>
       (vx = 0 \<longleftrightarrow> va = 0) \<and> (wrap ps t va = 0 \<longleftrightarrow> va = 0) \<and> (0 \<le> va \<and> va < 64 \<longrightarrow> vx = va) \<and> (boolv a \<longrightarrow> vx = va))"

lemma wrap_zero: "ity ps t \<Longrightarrow> wrap ps t 0 = 0"
  by (simp add: wrap_bool)

lemma range_zero: "ity ps t \<Longrightarrow> wrap ps t v = v \<Longrightarrow> take_bit (bits ps t) v = 0 \<longleftrightarrow> v = 0"
  using wrap_eq_iff[of ps t v 0] wrap_zero[of ps t] by simp

lemma bool_cong_eq:
  fixes x y :: int
  assumes "take_bit n x = take_bit n y" "0 < n" "x = 0 \<or> x = 1" "y = 0 \<or> y = 1"
  shows "x = y"
  using assms by (cases n) (auto simp: take_bit_Suc)

lemma small_wrap: "ity ps t \<Longrightarrow> t \<noteq> PTY_u1 \<Longrightarrow> 0 \<le> v \<Longrightarrow> v < 64 \<Longrightarrow> wrap ps t v = v"
proof (rule wrap_small)
  assume a: "ity ps t" "t \<noteq> PTY_u1" "v < 64"
  have "7 \<le> bits ps t - 1" using ity_bits[OF a(1)] a(2) by auto
  then have "(2 :: int) ^ 7 \<le> 2 ^ (bits ps t - 1)" by (intro power_increasing) auto
  then show "v < 2 ^ (bits ps t - 1)" using a(3) by simp
qed auto

text \<open>A value \<open>x\<close> of an expression in the place of one with value \<open>v\<close>, equal modulo the width of the
  latter.\<close>

lemma place_values:
  assumes "wt ps a" "eval ps syms \<sigma> a = Some va" "wt ps x" "fits ps (GetPrimType a) x" "eval ps syms \<sigma> x = Some vx"
    and "take_bit (bits ps (GetPrimType a)) vx = take_bit (bits ps (GetPrimType a)) va" "boolv a \<longrightarrow> boolv x"
  shows "boolv a \<longrightarrow> vx = va" and "vx = 0 \<longleftrightarrow> va = 0" and "0 \<le> va \<Longrightarrow> va < 64 \<Longrightarrow> vx = va"
proof -
  let ?b = "bits ps (GetPrimType a)"
  note ta = wt_type[OF assms(1)] and tx = wt_type[OF assms(3)]
  have b: "0 < ?b" "GetPrimType a \<noteq> PTY_u1 \<Longrightarrow> 8 \<le> ?b" using ity_bits[OF ta] by auto
  have ra: "wrap ps (GetPrimType a) va = va" and rx: "wrap ps (GetPrimType x) vx = vx"
    using eval_range assms by blast+
  show *: "boolv a \<longrightarrow> vx = va"
    using eval_bool[OF assms(1) _ assms(2)] eval_bool[OF assms(3) _ assms(5)] assms(6,7) b(1) bool_cong_eq[of ?b vx va] by blast
  have nb: "GetPrimType a \<noteq> PTY_u1" "bits ps (GetPrimType x) = ?b \<or> boolv x" if "\<not> boolv a"
    using that assms(4) boolv_u1 by (auto simp: fits_def)
  have z: "vx = 0 \<longleftrightarrow> take_bit ?b vx = 0" if "\<not> boolv a"
  proof -
    have "take_bit ?b 1 \<noteq> (0 :: int)" using b(1) by (cases ?b) (auto simp: take_bit_Suc)
    then show ?thesis
      using nb[OF that] range_zero[OF tx rx] eval_bool[OF assms(3) _ assms(5)] by auto
  qed
  show "vx = 0 \<longleftrightarrow> va = 0"
    using * z range_zero[OF ta ra] assms(6) by (cases "boolv a") auto
  assume v: "0 \<le> va" "va < 64"
  show "vx = va"
  proof (cases "boolv a")
    case False
    have tb: "take_bit ?b va = va"
      using v b(2)[OF nb(1)[OF False]] power_increasing[of 8 ?b "2 :: int"] by (intro take_bit_int_eq_self) auto
    show ?thesis
    proof (cases "bits ps (GetPrimType x) = ?b")
      case True
      then have "GetPrimType x \<noteq> PTY_u1" using b(2)[OF nb(1)[OF False]] bits_u1[of ps] by auto
      moreover have "wrap ps (GetPrimType x) vx = wrap ps (GetPrimType x) va"
        using wrap_eq_iff[OF tx] assms(6) True by simp
      ultimately show ?thesis using small_wrap[OF tx _ v] rx by simp
    next
      case bx: False
      then have "vx = 0 \<or> vx = 1" using nb(2)[OF False] eval_bool[OF assms(3) _ assms(5)] by auto
      moreover have "take_bit ?b 1 = (1 :: int)" using b(1) by (cases ?b) (auto simp: take_bit_Suc)
      ultimately show ?thesis using assms(6) tb by (metis take_bit_of_0)
    qed
  qed (use * in blast)
qed

lemma rep_value: "rep ps syms \<sigma> t bv v w n e s \<Longrightarrow>
    \<exists>v'. eval ps syms \<sigma> e = Some v' \<and> take_bit (bits ps t) (v' + sval s) = take_bit (bits ps t) v"
  by (simp add: rep_def)

lemma operand:
  assumes "represents ps syms \<sigma> a p" "wt ps a" "ity ps t" "fits ps t a"
  shows "\<exists>x. PairToExpr ps (GetPrimType a) p = Some x \<and> stands_for ps syms \<sigma> t a x"
proof -
  obtain va where va: "eval ps syms \<sigma> a = Some va"
      "rep ps syms \<sigma> (GetPrimType a) (boolv a) va (weight a) (noshr a) (fst p) (snd p)"
    using assms(1) by (auto simp: represents_def)
  note ta = wt_type[OF assms(2)]
  obtain x where x: "PairToExpr ps (GetPrimType a) p = Some x"
      "rep ps syms \<sigma> (GetPrimType a) (boolv a) va (weight a) (noshr a) x None"
    using PairToExpr_rep[OF va(2) ta] by auto
  obtain vx where vx: "eval ps syms \<sigma> x = Some vx"
      "take_bit (bits ps (GetPrimType a)) vx = take_bit (bits ps (GetPrimType a)) va"
    using rep_value[OF x(2)] by auto
  have wx: "wt ps x" "fits ps (GetPrimType a) x" "boolv a \<longrightarrow> boolv x" "weight x \<le> weight a" "noshr a \<longrightarrow> noshr x"
    "nonconst x \<or> const_of x \<noteq> None" using x(2) by (auto simp: rep_def)
  note P = place_values[OF assms(2) va(1) wx(1,2) vx wx(3)]
  have ra: "wrap ps (GetPrimType a) va = va" using eval_range assms(2) va(1) by blast
  have "wrap ps t vx = wrap ps t va" "wrap ps t va = 0 \<longleftrightarrow> va = 0"
  proof -
    consider "boolv a" | "t \<noteq> PTY_u1" "bits ps (GetPrimType a) = bits ps t" using assms(4) by (auto simp: fits_def)
    then show "wrap ps t vx = wrap ps t va" using P(1) vx(2) wrap_eq_iff[OF assms(3)] by cases auto
    consider "boolv a" | "t \<noteq> PTY_u1" "bits ps (GetPrimType a) = bits ps t" using assms(4) by (auto simp: fits_def)
    then show "wrap ps t va = 0 \<longleftrightarrow> va = 0"
    proof cases
      case 1
      then show ?thesis using eval_bool[OF assms(2) _ va(1)] wrap_bool[OF assms(3)] by auto
    next
      case 2
      then show ?thesis using range_zero[OF ta ra] wrap_eq_iff[OF assms(3), of va 0] wrap_zero[OF assms(3)] by simp
    qed
  qed
  then show ?thesis using x(1) wx va(1) vx(1) P fits_trans[OF assms(4) wx(2)] by (auto simp: stands_for_def)
qed

text \<open>The pair itself as an operand of an addition.\<close>

lemma pair_operand:
  assumes "represents ps syms \<sigma> a (e, s)" "wt ps a" "ity ps t" "fits ps t a"
  shows "\<exists>va ve. eval ps syms \<sigma> a = Some va \<and> eval ps syms \<sigma> e = Some ve \<and> wrap ps t (ve + sval s) = wrap ps t va \<and>
    wt ps e \<and> fits ps t e \<and> (boolv a \<longrightarrow> boolv e \<and> s = None) \<and> weight e + (if s = None then 0 else 2) \<le> weight a \<and>
    (noshr a \<longrightarrow> noshr e) \<and> (nonconst e \<or> const_of e \<noteq> None \<and> s = None) \<and>
    (\<forall>v. s = Some v \<longrightarrow> iv64 v \<and> bits ps t \<le> iv_width v \<and> 32 \<le> bits ps t)"
proof -
  obtain va where va: "eval ps syms \<sigma> a = Some va"
      "rep ps syms \<sigma> (GetPrimType a) (boolv a) va (weight a) (noshr a) e s"
    using assms(1) by (auto simp: represents_def)
  obtain ve where ve: "eval ps syms \<sigma> e = Some ve"
      "take_bit (bits ps (GetPrimType a)) (ve + sval s) = take_bit (bits ps (GetPrimType a)) va"
    using rep_value[OF va(2)] by auto
  have we: "wt ps e" "fits ps (GetPrimType a) e" "boolv a \<longrightarrow> boolv e \<and> s = None" using va(2) by (auto simp: rep_def)
  have nb: "t \<noteq> PTY_u1" "bits ps (GetPrimType a) = bits ps t" if "\<not> boolv a" using that assms(4) by (auto simp: fits_def)
  have "wrap ps t (ve + sval s) = wrap ps t va"
  proof (cases "boolv a")
    case True
    then have "ve = va" using place_values(1)[OF assms(2) va(1) we(1,2) ve(1)] ve(2) we(3) by simp
    then show ?thesis using True we(3) by simp
  next
    case False
    then show ?thesis using nb ve(2) wrap_eq_iff[OF assms(3)] by simp
  qed
  then show ?thesis
    using va ve(1) we nb fits_trans[OF assms(4) we(2)] unfolding rep_def by (auto split: option.splits)
qed

lemma representsI:
  assumes "eval ps syms \<sigma> e = Some v" "wt ps x" "eval ps syms \<sigma> x = Some v'" "fits ps (GetPrimType e) x" "boolv e \<longrightarrow> boolv x"
    and "take_bit (bits ps (GetPrimType e)) v' = take_bit (bits ps (GetPrimType e)) v"
    and "nonconst x \<or> const_of x \<noteq> None" "weight x \<le> weight e" "noshr e \<longrightarrow> noshr x"
  shows "represents ps syms \<sigma> e (x, None)"
  using assms by (auto simp: represents_def rep_def)

lemma represents_same_type:
  assumes "eval ps syms \<sigma> e = Some v" "wt ps x" "eval ps syms \<sigma> x = Some v" "GetPrimType x = GetPrimType e" "boolv e \<longrightarrow> boolv x"
    and "nonconst x \<or> const_of x \<noteq> None" "weight x \<le> weight e" "noshr e \<longrightarrow> noshr x"
  shows "represents ps syms \<sigma> e (x, None)"
  using assms fits_self[of ps x] by (intro representsI) auto

lemma represents_self: "wt ps e \<Longrightarrow> eval ps syms \<sigma> e = Some v \<Longrightarrow> nonconst e \<or> const_of e \<noteq> None \<Longrightarrow>
    represents ps syms \<sigma> e (e, None)"
  by (rule represents_same_type) auto

section \<open>Constants\<close>

lemma make_const_gives:
  assumes "ity ps t"
  shows "\<exists>c. make_const ps (word_of_int x) t = Some c \<and> wt ps (Constval t c) \<and> iv_num (mc_value c) = wrap ps t x"
  using Iv_of_int_gives[OF assms, of x] ity_classes(5)[OF assms] assms
  by (auto simp: make_const_def GetOrCreateIntConst_def gives_def)

lemma gives_make_const:
  assumes "ity ps t" "gives ps t r x"
  shows "\<exists>v c. r = Some v \<and> GetExtValue 0 v = Some (signed_take_bit 63 (iv_num v)) \<and>
    make_const ps (word_of_int (signed_take_bit 63 (iv_num v))) t = Some c \<and> wt ps (Constval t c) \<and>
    iv_num (mc_value c) = wrap ps t x"
proof -
  obtain v where v: "r = Some v" "typed ps t v" "iv_num v = wrap ps t x" using assms(2) by (auto simp: gives_def)
  then show ?thesis
    using GetExtValue_0[OF typed_iv64[OF assms(1) v(2)]] make_const_gives[OF assms(1), of "iv_num v"]
    by (auto simp: word_of_Ext wrap_wrap[OF assms(1)])
qed

lemma eval_unary_cong:
  "ity ps t \<Longrightarrow> opc = OP_neg \<or> opc = OP_bnot \<Longrightarrow> wrap ps t x = wrap ps t y \<Longrightarrow> eval_unary ps opc t x = eval_unary ps opc t y"
  by (auto simp: eval_unary_def) (metis wrap_minus wrap_not)+

lemma FoldConstUnary_value:
  assumes "ity ps t" "iv64 (mc_value c)" "opc = OP_neg \<or> opc = OP_bnot \<or> opc = OP_lnot"
  shows "\<exists>c'. FoldConstUnary ps opc t c = Some (Constval t c') \<and> wt ps (Constval t c') \<and>
    eval_unary ps opc t (wrap ps t (iv_num (mc_value c))) = Some (iv_num (mc_value c'))"
proof -
  obtain v where v: "TruncOrExtend_type ps t (mc_value c) = Some v" "typed ps t v" "iv_num v = wrap ps t (iv_num (mc_value c))"
    using TruncOrExtend_gives[OF assms(1,2)] by (auto simp: gives_def)
  let ?r = "case opc of OP_neg \<Rightarrow> Iv_neg v | OP_bnot \<Rightarrow> Iv_not v | _ \<Rightarrow> Iv_of_val_type ps (bool_word (iv_num v = 0)) t"
  let ?x = "case opc of OP_neg \<Rightarrow> - iv_num v | OP_bnot \<Rightarrow> NOT (iv_num v) | _ \<Rightarrow> truth (iv_num v = 0)"
  have "gives ps t ?r ?x"
    using assms(3) Iv_unary_gives[OF assms(1) v(2)] Iv_of_val_gives[OF assms(1), of "bool_word (iv_num v = 0)"]
    by (auto simp: bool_word_def truth_def)
  from gives_make_const[OF assms(1) this] obtain u c' where u: "?r = Some u" "GetExtValue 0 u = Some (signed_take_bit 63 (iv_num u))"
      "make_const ps (word_of_int (signed_take_bit 63 (iv_num u))) t = Some c'" "wt ps (Constval t c')"
      "iv_num (mc_value c') = wrap ps t ?x" by blast
  then show ?thesis
    using assms(3) v ity_classes(1)[OF assms(1)] Iv_eq_const[OF typed_iv64[OF assms(1) v(2)]]
    by (auto simp: FoldConstUnary_def FoldIntConstUnaryMIRConst_def eval_unary_def wrap_truth)
qed

lemma aligned_bits: "ity ps t \<Longrightarrow> k < bits ps t \<Longrightarrow> k mod GetAlignedPrimTypeBitSize ps t = k"
  using ity_cases[of ps t] ity_ps[of ps t] by (auto simp: bits_def prim_eval)

lemma eval_binary_cong:
  assumes "ity ps t" "wrap ps t x = wrap ps t x'" "wrap ps t y = wrap ps t y'"
    and "opc \<in> {OP_add, OP_sub, OP_mul, OP_div, OP_rem, OP_band, OP_bior, OP_bxor, OP_max, OP_min}"
  shows "eval_binary ps opc t x y = eval_binary ps opc t x' y'"
  using assms by (auto simp: eval_binary_def Let_def)

lemma eval_shift_cong:
  assumes "ity ps t" "wrap ps t x = wrap ps t x'" "opc \<in> {OP_ashr, OP_lshr, OP_shl}"
  shows "eval_binary ps opc t x y = eval_binary ps opc t x' y"
  using assms by (auto simp: eval_binary_def Let_def)

lemma shift_amount:
  assumes "iv64 v" "0 \<le> iv_num v" "iv_num v < int (bits ps t)" "ity ps t"
  shows "\<exists>k. GetZXTValue 0 v = Some k \<and> unat k mod GetAlignedPrimTypeBitSize ps t = nat (iv_num v)"
proof -
  obtain k where k: "GetZXTValue 0 v = Some k" "unat k = iv_bits v" using GetZXTValue_0[OF assms(1)] by blast
  have "int (iv_bits v) = iv_num v" using assms(1,2) iv_bits_bound[of v] by (auto simp: iv_num_def iv64_def split: if_splits)
  then have "iv_bits v = nat (iv_num v)" by linarith
  moreover have "nat (iv_num v) < bits ps t" using assms(2,3) by linarith
  ultimately show ?thesis using k aligned_bits[OF assms(4)] by metis
qed

lemma shift_const_gives:
  assumes "ity ps t" "iv64 b" "eval_shift ps t (iv_num b) g = Some v" "\<And>k. k < bits ps t \<Longrightarrow> gives ps t (f k) (g k)"
  shows "gives ps t (Option.bind (GetZXTValue 0 b) (\<lambda>k. f (unat k mod GetAlignedPrimTypeBitSize ps t))) v"
proof -
  have y: "0 \<le> iv_num b" "iv_num b < int (bits ps t)" "v = wrap ps t (g (nat (iv_num b)))"
    using assms(3) by (auto simp: eval_shift_def split: if_splits)
  obtain k where k: "GetZXTValue 0 b = Some k" "unat k mod GetAlignedPrimTypeBitSize ps t = nat (iv_num b)"
    using shift_amount[OF assms(2) y(1,2) assms(1)] by blast
  have "nat (iv_num b) < bits ps t" using y by linarith
  then have "gives ps t (f (nat (iv_num b))) v"
    using gives_wrap[OF assms(1) assms(4)] y(3) wrap_wrap[OF assms(1)] by metis
  then show ?thesis using k by simp
qed

lemma FoldConstBinary_value:
  assumes "ity ps t" "iv64 (mc_value c0)" "iv64 (mc_value c1)"
    and "eval_binary ps opc t (iv_num (mc_value c0)) (iv_num (mc_value c1)) = Some v"
    and "opc \<in> {OP_add, OP_sub, OP_mul, OP_div, OP_rem, OP_band, OP_bior, OP_bxor, OP_ashr, OP_lshr, OP_shl}"
  shows "\<exists>c. FoldConstBinary ps opc t c0 c1 = Some (Constval t c) \<and> wt ps (Constval t c) \<and> iv_num (mc_value c) = v"
proof -
  let ?a = "mc_value c0" and ?b = "mc_value c1"
  let ?shift = "\<lambda>f. Option.bind (GetZXTValue 0 ?b) (\<lambda>k. f ps ?a (unat k mod GetAlignedPrimTypeBitSize ps t) t)"
  let ?r = "case opc of OP_add \<Rightarrow> Iv_Add ps ?a ?b t | OP_sub \<Rightarrow> Iv_Sub ps ?a ?b t | OP_mul \<Rightarrow> Iv_Mul ps ?a ?b t
    | OP_div \<Rightarrow> Iv_Div ps ?a ?b t | OP_rem \<Rightarrow> Iv_Rem ps ?a ?b t | OP_ashr \<Rightarrow> ?shift AShr_type
    | OP_lshr \<Rightarrow> ?shift LShr_type | OP_shl \<Rightarrow> ?shift Iv_Shl | OP_band \<Rightarrow> Iv_And ps ?a ?b t
    | OP_bior \<Rightarrow> Iv_Or ps ?a ?b t | OP_bxor \<Rightarrow> Iv_Xor ps ?a ?b t | _ \<Rightarrow> None"
  have b: "Suc (bits ps t - 1) = bits ps t" using ity_bits[OF assms(1)] by simp
  have sw: "signed_take_bit (bits ps t - 1) (wrap ps t (iv_num ?a)) = signed_take_bit (bits ps t - 1) (iv_num ?a)"
    by (simp only: signed_take_bit_eq_iff_take_bit_eq b take_bit_wrap[OF assms(1)] order_refl)
  have pw: "wrap ps t (push_bit k (wrap ps t (iv_num ?a))) = wrap ps t (push_bit k (iv_num ?a))" for k
    using wrap_mult(1)[OF assms(1), of "iv_num ?a" "2 ^ k"] by (simp add: push_bit_eq_mult)
  have "gives ps t ?r v"
  proof -
    have G: "gives ps t r z" if "gives ps t r y" "wrap ps t y = z" for r y z
      using that wrap_wrap[OF assms(1), of y] by (auto simp: gives_def)
    have ashr: "gives ps t (?shift AShr_type) v" if "opc = OP_ashr"
      by (rule shift_const_gives[OF assms(1,3) _ AShr_gives[OF assms(1,2)]])
        (use assms(4) that in \<open>simp_all add: eval_binary_def Let_def sw[simplified]\<close>)
    have lshr: "gives ps t (?shift LShr_type) v" if "opc = OP_lshr"
      by (rule shift_const_gives[OF assms(1,3) _ LShr_gives[OF assms(1,2)]])
        (use assms(4) that in \<open>simp_all add: eval_binary_def Let_def take_bit_wrap[OF assms(1)]\<close>)
    have shl: "gives ps t (?shift Iv_Shl) v" if "opc = OP_shl"
      by (rule shift_const_gives[OF assms(1,3) _ Iv_Shl_gives[OF assms(1,2)]])
        (use assms(4) that pw in \<open>auto simp: eval_binary_def eval_shift_def Let_def split: if_splits\<close>)
    note ev = eval_binary_def Let_def wrap_arith[OF assms(1)] wrap_bitwise[OF assms(1)]
    show ?thesis using assms(5)
    proof (elim insertE emptyE)
      assume "opc = OP_add"
      then show ?thesis using G[OF Iv_ring_gives(1)[OF assms(1-3)]] assms(4) by (simp add: ev)
    next
      assume "opc = OP_sub"
      then show ?thesis using G[OF Iv_ring_gives(2)[OF assms(1-3)]] assms(4) by (simp add: ev)
    next
      assume "opc = OP_mul"
      then show ?thesis using G[OF Iv_ring_gives(3)[OF assms(1-3)]] assms(4) by (simp add: ev)
    next
      assume "opc = OP_band"
      then show ?thesis using G[OF Iv_ring_gives(4)[OF assms(1-3)]] assms(4) by (simp add: ev)
    next
      assume "opc = OP_bior"
      then show ?thesis using G[OF Iv_ring_gives(5)[OF assms(1-3)]] assms(4) by (simp add: ev)
    next
      assume "opc = OP_bxor"
      then show ?thesis using G[OF Iv_ring_gives(6)[OF assms(1-3)]] assms(4) by (simp add: ev)
    next
      assume "opc = OP_div"
      then show ?thesis using G[OF Iv_div_type(1)[OF assms(1-3)]] assms(4) by (simp add: ev split: if_splits)
    next
      assume "opc = OP_rem"
      then show ?thesis using G[OF Iv_div_type(2)[OF assms(1-3)]] assms(4) by (simp add: ev split: if_splits)
    next
      assume "opc = OP_ashr"
      then show ?thesis using ashr by simp
    next
      assume "opc = OP_lshr"
      then show ?thesis using lshr by simp
    next
      assume "opc = OP_shl"
      then show ?thesis using shl by simp
    qed
  qed
  from gives_make_const[OF assms(1) this] obtain u c where u: "?r = Some u" "GetExtValue 0 u = Some (signed_take_bit 63 (iv_num u))"
      "make_const ps (word_of_int (signed_take_bit 63 (iv_num u))) t = Some c" "wt ps (Constval t c)"
      "iv_num (mc_value c) = wrap ps t v" by blast
  moreover obtain z where "Iv_of_val_type ps 0 t = Some z" using Iv_of_val_gives[OF assms(1), of 0] by (auto simp: gives_def)
  ultimately show ?thesis
    using assms(5) ity_classes(1)[OF assms(1)] eval_binary_range[OF assms(1,4)]
    by (auto simp: FoldConstBinary_def FoldIntConstBinaryMIRConst_def Let_def split: Option.bind_splits)
qed

lemma FoldConstComparison_value:
  assumes "ity ps t" "ity ps ot" "iv64 (mc_value c0)" "iv64 (mc_value c1)"
    and "eval_compare ps opc t ot (iv_num (mc_value c0)) (iv_num (mc_value c1)) = Some v"
  shows "\<exists>c. FoldConstComparison ps opc t ot c0 c1 = Some (Constval t c) \<and> wt ps (Constval t c) \<and> iv_num (mc_value c) = wrap ps t v"
proof -
  let ?a = "wrap ps ot (iv_num (mc_value c0))" and ?b = "wrap ps ot (iv_num (mc_value c1))"
  let ?x = "case opc of OP_eq \<Rightarrow> truth (?a = ?b) | OP_ne \<Rightarrow> truth (?a \<noteq> ?b) | OP_lt \<Rightarrow> truth (?a < ?b) | OP_le \<Rightarrow> truth (?a \<le> ?b)
    | OP_gt \<Rightarrow> truth (?a > ?b) | OP_ge \<Rightarrow> truth (?a \<ge> ?b) | _ \<Rightarrow> (if ?a > ?b then 1 else if ?a = ?b then 0 else - 1)"
  obtain c where c: "make_const ps (word_of_int ?x) t = Some c" "wt ps (Constval t c)" "iv_num (mc_value c) = wrap ps t ?x"
    using make_const_gives[OF assms(1), of ?x] by blast
  have ops: "opc \<in> {OP_eq, OP_ne, OP_lt, OP_le, OP_gt, OP_ge, OP_cmp}"
    using assms(5) by (cases opc) (simp_all add: eval_compare_def Let_def)
  then have "wrap ps t ?x = wrap ps t v"
    using assms(5) wrap_wrap[OF assms(1)] by (elim insertE emptyE; simp add: eval_compare_def Let_def; metis)
  moreover have "FoldConstComparison ps opc t ot c0 c1 = map_option (Constval t) (make_const ps (word_of_int ?x) t)"
    using ops Iv_compare_type[OF assms(2-4)] ity_classes(1)[OF assms(2)]
    by (auto simp: FoldConstComparison_def FoldIntConstComparisonMIRConst_def truth_def)
  ultimately show ?thesis using c by auto
qed

end
