(* ===== verification/Constant_Fold_Nodes.thy ===== *)
theory Constant_Fold_Nodes
  imports Constant_Fold_Pair
begin

text \<open>
  The folding functions of all nodes but the binary operators: given pairs that represent the operands,
  each returns a pair that represents the node.
\<close>

unbundle bit_operations_syntax

section \<open>Nodes with one operand\<close>

lemma PairToExpr_shape:
  "PairToExpr ps t p = Some x \<Longrightarrow> x = fst p \<or> (\<exists>opc a b. x = Binary opc t a b)"
  by (auto simp: PairToExpr_def add_const_def split: option.splits Option.bind_splits if_splits)

lemma PairToExpr_nonconst: "PairToExpr ps t p = Some x \<Longrightarrow> const_of (fst p) = None \<Longrightarrow> nonconst x \<or> const_of x \<noteq> None \<Longrightarrow> nonconst x"
  using PairToExpr_shape[of ps t p x] by auto

lemma const_operand:
  assumes "represents ps syms \<sigma> a p" "const_of (fst p) = Some c" "wt ps a" "ity ps t" "fits ps t a"
  obtains T where "p = (Constval T c, None)" "iv64 (mc_value c)" "stands_for ps syms \<sigma> t a (Constval T c)"
    "eval ps syms \<sigma> (Constval T c) = Some (iv_num (mc_value c))"
proof -
  obtain T where T: "fst p = Constval T c" using assms(2) by (auto simp: const_of_eq)
  then have s: "snd p = None" using assms(1) by (auto simp: represents_def rep_def)
  have w: "wt ps (Constval T c)" using assms(1) T by (auto simp: represents_def rep_def)
  have x: "stands_for ps syms \<sigma> t a (Constval T c)"
    using operand[OF assms(1,3-5)] T s by (auto simp: PairToExpr_def)
  show thesis using that[of T] T s x w typed_iv64[of ps T] typed_num[of ps T] by (cases p) auto
qed

lemma stands_for_value:
  assumes "stands_for ps syms \<sigma> t a x"
  obtains va vx where "eval ps syms \<sigma> a = Some va" "eval ps syms \<sigma> x = Some vx" "wrap ps t vx = wrap ps t va"
    "vx = 0 \<longleftrightarrow> va = 0" "wrap ps t va = 0 \<longleftrightarrow> va = 0" "0 \<le> va \<and> va < 64 \<longrightarrow> vx = va" "boolv a \<longrightarrow> vx = va"
  using assms by (auto simp: stands_for_def)

lemma stands_for_shape:
  assumes "stands_for ps syms \<sigma> t a x"
  shows "wt ps x" "fits ps t x" "boolv a \<longrightarrow> boolv x" "weight x \<le> weight a" "noshr a \<longrightarrow> noshr x" "nonconst x \<or> const_of x \<noteq> None"
  using assms by (auto simp: stands_for_def)

lemma eval_unary_stands:
  assumes "stands_for ps syms \<sigma> t a x" "ity ps t" "eval ps syms \<sigma> (Unary opc t a) = Some v"
    "opc = OP_lnot \<or> opc = OP_neg \<or> opc = OP_bnot"
  shows "eval ps syms \<sigma> (Unary opc t x) = Some v"
proof -
  obtain va vx where E: "eval ps syms \<sigma> a = Some va" "eval ps syms \<sigma> x = Some vx" "wrap ps t vx = wrap ps t va" "vx = 0 \<longleftrightarrow> va = 0"
    using assms(1) by (rule stands_for_value)
  show ?thesis
    using assms(3,4) E eval_unary_cong[OF assms(2) _ E(3), of opc] by (cases "opc = OP_lnot") (auto simp: eval_unary_def)
qed

lemma FoldUnary_rebuild:
  assumes "wt ps (Unary opc t a)" "eval ps syms \<sigma> (Unary opc t a) = Some v" "represents ps syms \<sigma> a p" "const_of (fst p) = None"
  shows "\<exists>x. PairToExpr ps (GetPrimType a) p = Some x \<and> represents ps syms \<sigma> (Unary opc t a) (Unary opc t x, None)"
proof -
  have w: "wt ps a" "ity ps t" "fits ps t a" "opc = OP_lnot \<or> opc = OP_neg \<or> opc = OP_bnot" using assms(1) by auto
  obtain x where x: "PairToExpr ps (GetPrimType a) p = Some x" "stands_for ps syms \<sigma> t a x"
    using operand[OF assms(3) w(1,2,3)] by blast
  note S = stands_for_shape[OF x(2)]
  have "nonconst x" using PairToExpr_nonconst[OF x(1) assms(4) S(6)] .
  then have "represents ps syms \<sigma> (Unary opc t a) (Unary opc t x, None)"
    using S assms(1) eval_unary_stands[OF x(2) w(2) assms(2) w(4)]
    by (intro represents_same_type[OF assms(2)]) auto
  then show ?thesis using x(1) by blast
qed

lemma Iv_neg_sum:
  assumes "iv64 s"
  obtains y where "Iv_neg s = Some y" "iv64 y" "iv_width y = iv_width s"
    "\<And>n. n \<le> iv_width s \<Longrightarrow> take_bit n (iv_num y) = take_bit n (- iv_num s)"
proof -
  obtain y where y: "Iv_neg s = Some y" "iv64 y" "iv_width y = iv_width s"
      "take_bit (iv_width s) (iv_num y) = take_bit (iv_width s) (- iv_num s)"
    using Iv_neg_result[of s] assms iv_bits_num by (fastforce simp: iv_result_def iv64_def same_type_def take_bit_eq_mod)
  then show thesis using that[of y] by (metis min_def take_bit_take_bit)
qed

lemma GetOpCode_neg: "wt ps e \<Longrightarrow> GetOpCode e = OP_neg \<Longrightarrow> \<exists>t a. e = Unary OP_neg t a"
  by (cases e) (auto simp: wt_binary_def split: if_splits)

lemma NegateTree_cases:
  assumes "const_of e = None"
  obtains t a where "e = Unary OP_neg t a" "NegateTree e = Some a"
  | "NegateTree e = Some (Unary OP_neg (GetPrimType e) e)"
  using assms that by (cases e; cases "GetOpCode e = OP_neg"; simp)

text \<open>A negated node with the type set to that of the operation.\<close>

lemma neg_node_place:
  assumes "ity ps t" "t \<noteq> PTY_u1" "wt ps e" "fits ps t e" "eval ps syms \<sigma> e = Some ve" "nonconst e"
  shows "wt ps (Unary OP_neg t e)" "eval ps syms \<sigma> (Unary OP_neg t e) = Some (wrap ps t (- ve))" "nonconst (Unary OP_neg t e)"
  using assms by (auto simp: eval_unary_def)

lemma represents_negI:
  assumes "eval ps syms \<sigma> (Unary OP_neg t a) = Some v" "eval ps syms \<sigma> a = Some va" "ity ps t" "t \<noteq> PTY_u1"
    and "wt ps x" "fits ps t x" "nonconst x" "eval ps syms \<sigma> x = Some vx" "take_bit (bits ps t) vx = take_bit (bits ps t) (- ve)"
    and "wrap ps t (ve + sval s) = wrap ps t va" "\<forall>u. s = Some u \<longrightarrow> iv64 u \<and> bits ps t \<le> iv_width u \<and> 32 \<le> bits ps t"
    and "weight x + (if s = None then 0 else 2) \<le> weight a" "noshr a \<longrightarrow> noshr x"
  shows "\<exists>sum. (case s of None \<Rightarrow> Some None | Some v \<Rightarrow> map_option Some (Iv_neg v)) = Some sum \<and>
    represents ps syms \<sigma> (Unary OP_neg t a) (x, sum)"
proof -
  have v: "v = wrap ps t (- va)" using assms(1,2) by (simp add: eval_unary_def)
  have c: "take_bit (bits ps t) (- (ve + sval s)) = take_bit (bits ps t) v"
    using assms(3,10) v by (metis order_refl take_bit_minus take_bit_wrap wrap_eq_iff)
  show ?thesis
  proof (cases s)
    case None
    then show ?thesis using assms c by (auto simp: represents_def rep_def)
  next
    case (Some u)
    then have u: "iv64 u" "bits ps t \<le> iv_width u" using assms(11) by auto
    obtain y where y: "Iv_neg u = Some y" "iv64 y" "iv_width y = iv_width u" "take_bit (bits ps t) (iv_num y) = take_bit (bits ps t) (- iv_num u)"
      using Iv_neg_sum[OF u(1)] u(2) by metis
    have "take_bit (bits ps t) (vx + iv_num y) = take_bit (bits ps t) (- ve + - iv_num u)"
      using assms(9) y(4) by (metis take_bit_add)
    also have "- ve + - iv_num u = - (ve + sval s)" using Some by simp
    finally show ?thesis using assms c y Some u by (auto simp: represents_def rep_def)
  qed
qed

lemma FoldUnary_neg:
  assumes "wt ps (Unary OP_neg t a)" "eval ps syms \<sigma> (Unary OP_neg t a) = Some v" "represents ps syms \<sigma> a (e, s)"
    "const_of e = None" "GetPrimType e \<noteq> PTY_u1" "NegateTree e = Some r"
    "\<not> (GetOpCode r = OP_neg \<and> GetPrimType r \<noteq> t \<and> GetPrimTypeSize ps (GetPrimType r) \<noteq> GetPrimTypeSize ps t)"
  shows "\<exists>sum. (case s of None \<Rightarrow> Some None | Some v \<Rightarrow> map_option Some (Iv_neg v)) = Some sum \<and>
    represents ps syms \<sigma> (Unary OP_neg t a)
      (if GetOpCode r = OP_neg \<and> GetPrimType r \<noteq> t then SetPrimType t r else r, sum)"
proof -
  have w: "wt ps a" "ity ps t" "fits ps t a" "t \<noteq> PTY_u1" using assms(1) by auto
  obtain va ve where E: "eval ps syms \<sigma> a = Some va" "eval ps syms \<sigma> e = Some ve" "wrap ps t (ve + sval s) = wrap ps t va"
      "wt ps e" "fits ps t e" "weight e + (if s = None then 0 else 2) \<le> weight a" "noshr a \<longrightarrow> noshr e" "nonconst e"
      "\<forall>u. s = Some u \<longrightarrow> iv64 u \<and> bits ps t \<le> iv_width u \<and> 32 \<le> bits ps t"
    using pair_operand[OF assms(3) w(1-3)] assms(4) by auto
  note neg = represents_negI[OF assms(2) E(1) w(2,4)]
  from assms(4) show ?thesis
  proof (cases rule: NegateTree_cases)
    case (1 T y)
    then have r: "r = y" using assms(6) by simp
    have y: "wt ps y" "ity ps T" "T \<noteq> PTY_u1" "fits ps T y" "nonconst y" using E(4,8) 1(1) by auto
    have bT: "bits ps T = bits ps t" using E(5) 1(1) y(3) by (auto simp: fits_def)
    have fy: "fits ps t y" using y(4) bT w(4) by (auto simp: fits_def)
    obtain vy where vy: "eval ps syms \<sigma> y = Some vy" "ve = wrap ps T (- vy)"
      using E(2) 1(1) by (auto simp: eval_unary_def split: Option.bind_splits)
    have cy: "take_bit (bits ps t) vy = take_bit (bits ps t) (- ve)"
      using vy(2) take_bit_wrap[OF y(2), of "bits ps t" "- vy"] bT by (metis minus_minus order_refl take_bit_minus)
    show ?thesis
    proof (cases "GetOpCode y = OP_neg \<and> GetPrimType y \<noteq> t")
      case False
      then show ?thesis using neg[OF y(1) fy y(5) vy(1) cy E(3,9)] E(6,7) 1(1) r by auto
    next
      case True
      obtain T2 z where z: "y = Unary OP_neg T2 z" using GetOpCode_neg[OF y(1)] True by blast
      have "GetPrimTypeSize ps T2 = GetPrimTypeSize ps t" using assms(7) True r z by auto
      moreover have T2: "ity ps T2" "T2 \<noteq> PTY_u1" "wt ps z" "fits ps T2 z" "nonconst z" using y(1,5) z by auto
      ultimately have b2: "bits ps T2 = bits ps t" using ity_size_eq w(2,4) by blast
      then have fz: "fits ps t z" using T2(4) w(4) by (auto simp: fits_def)
      obtain vz where vz: "eval ps syms \<sigma> z = Some vz" "vy = wrap ps T2 (- vz)"
        using vy(1) z by (auto simp: eval_unary_def split: Option.bind_splits)
      note N = neg_node_place[OF w(2,4) T2(3) fz vz(1) T2(5)]
      have "take_bit (bits ps t) (wrap ps t (- vz)) = take_bit (bits ps t) (- ve)"
        using cy vz(2) b2 take_bit_wrap[OF T2(1)] take_bit_wrap[OF w(2)] by simp
      then have "\<exists>sum. (case s of None \<Rightarrow> Some None | Some v \<Rightarrow> map_option Some (Iv_neg v)) = Some sum \<and>
          represents ps syms \<sigma> (Unary OP_neg t a) (Unary OP_neg t z, sum)"
        using E(6,7) 1(1) z w(4) fits_self[of ps "Unary OP_neg t z"]
        by (intro neg[OF N(1) _ N(3) N(2) _ E(3,9)]) auto
      then show ?thesis using True r z by simp
    qed
  next
    case 2
    then have r: "r = Unary OP_neg (GetPrimType e) e" using assms(6) by simp
    note N = neg_node_place[OF w(2,4) E(4,5,2,8)]
    have "\<exists>sum. (case s of None \<Rightarrow> Some None | Some v \<Rightarrow> map_option Some (Iv_neg v)) = Some sum \<and>
        represents ps syms \<sigma> (Unary OP_neg t a) (Unary OP_neg t e, sum)"
      using E(6,7) fits_self[of ps "Unary OP_neg t e"] take_bit_wrap[OF w(2)]
      by (intro neg[OF N(1) _ N(3) N(2) _ E(3,9)]) auto
    then show ?thesis using r by auto
  qed
qed

lemma FoldUnary_represents:
  assumes "wt ps (Unary opc t a)" "eval ps syms \<sigma> (Unary opc t a) = Some v" "rec a = Some p" "represents ps syms \<sigma> a p"
  shows "\<exists>q. FoldUnary ps rec opc t a = Some q \<and> represents ps syms \<sigma> (Unary opc t a) q"
proof (cases "const_of (fst p)")
  case (Some c)
  have w: "wt ps a" "ity ps t" "fits ps t a" "opc = OP_neg \<or> opc = OP_bnot \<or> opc = OP_lnot" using assms(1) by auto
  obtain T where T: "iv64 (mc_value c)" "stands_for ps syms \<sigma> t a (Constval T c)"
      "eval ps syms \<sigma> (Constval T c) = Some (iv_num (mc_value c))"
    using const_operand[OF assms(4) Some w(1-3)] by blast
  obtain c' where c': "FoldConstUnary ps opc t c = Some (Constval t c')" "wt ps (Constval t c')"
      "eval_unary ps opc t (wrap ps t (iv_num (mc_value c))) = Some (iv_num (mc_value c'))"
    using FoldConstUnary_value[OF w(2) T(1) w(4)] by blast
  obtain va where va: "eval ps syms \<sigma> a = Some va" "wrap ps t (iv_num (mc_value c)) = wrap ps t va" "wrap ps t va = 0 \<longleftrightarrow> va = 0"
    using stands_for_value[OF T(2)] T(3) by (metis option.inject)
  have "iv_num (mc_value c') = v"
    using w(4) c'(3) va assms(2) eval_unary_cong[OF w(2), of opc "wrap ps t va" va] wrap_wrap[OF w(2)]
    by (cases "opc = OP_lnot") (auto simp: eval_unary_def)
  then have "represents ps syms \<sigma> (Unary opc t a) (Constval t c', None)"
    using c'(2) w typed_num[OF w(2)] stands_for_shape(4)[OF T(2)]
    by (intro represents_same_type[OF assms(2)]) (auto intro: boolv_u1)
  then show ?thesis using Some c'(1) assms(3) by (simp add: FoldUnary_def)
next
  case None
  show ?thesis
  proof (cases "IsPrimitiveInteger t \<and> opc = OP_neg \<and> GetPrimType (fst p) \<noteq> PTY_u1")
    case False
    then show ?thesis using FoldUnary_rebuild[OF assms(1,2,4) None] assms(3) None by (auto simp: FoldUnary_def)
  next
    case True
    obtain r where r: "NegateTree (fst p) = Some r" using None NegateTree_cases by blast
    obtain e s where p: "p = (e, s)" by fastforce
    show ?thesis
    proof (cases "GetOpCode r = OP_neg \<and> GetPrimType r \<noteq> t \<and> GetPrimTypeSize ps (GetPrimType r) \<noteq> GetPrimTypeSize ps t")
      case c: True
      then show ?thesis using FoldUnary_rebuild[OF assms(1,2,4) None] assms(3) None True r by (auto simp: FoldUnary_def)
    next
      case c: False
      then show ?thesis
        using FoldUnary_neg[of ps t a syms \<sigma> v e s r] assms True None r p by (auto simp: FoldUnary_def)
    qed
  qed
qed

lemma GetOrCreate_gives:
  assumes "ity ps t"
  shows "\<exists>c. GetOrCreateIntConst ps (word_of_int x) t = Some c \<and> wt ps (Constval t c) \<and> iv_num (mc_value c) = wrap ps t x"
  using Iv_of_int_gives[OF assms, of x] assms by (auto simp: GetOrCreateIntConst_def gives_def)

text \<open>The value read by \<open>FoldSignExtendMIRConst\<close> from a value of the given size.\<close>

lemma extend_reads:
  assumes "iv64 v" "sz = iv_width v"
  shows "\<exists>r. (if opc = OP_sext then map_option word_of_int (GetSXTValue sz v) else GetZXTValue sz v) = Some (word_of_int r :: u64) \<and>
    r = (if opc = OP_sext then signed_take_bit (sz - 1) (iv_num v) else take_bit sz (iv_num v))"
proof (cases "opc = OP_sext")
  case True
  then show ?thesis using GetSXTValue_0[OF assms(1)] GetSXTValue_width[OF assms] assms(2) by simp
next
  case False
  obtain x where x: "GetZXTValue 0 v = Some x" "unat x = iv_bits v" using GetZXTValue_0[OF assms(1)] by blast
  have "int (unat x) = take_bit sz (iv_num v)"
    using x(2) iv_bits_num[of v] assms by (simp add: iv64_def take_bit_eq_mod)
  then show ?thesis using False x(1) GetZXTValue_width[OF assms] by (metis word_of_int_uint of_nat_unat)
qed

lemma FoldSignExtendMIRConst_value:
  assumes "ity ps t" "iv64 v" "sz = iv_width v"
  shows "\<exists>c. FoldSignExtendMIRConst ps opc t sz v = Some c \<and> wt ps (Constval t c) \<and> iv_num (mc_value c) =
    wrap ps t (if opc = OP_sext then signed_take_bit (sz - 1) (iv_num v) else take_bit sz (iv_num v))"
  using extend_reads[OF assms(2,3), of opc] GetOrCreate_gives[OF assms(1)] by (auto simp: FoldSignExtendMIRConst_def)

lemma wrap_narrow: "ity ps t \<Longrightarrow> ity ps f \<Longrightarrow> bits ps t \<le> bits ps f \<Longrightarrow> wrap ps t (wrap ps f x) = wrap ps t x"
  by (simp add: wrap_eq_iff take_bit_wrap)

lemma FoldTypeCvt_const_value:
  assumes "ity ps t" "ity ps f" "iv64 (mc_value c)"
  shows "\<exists>c'. FoldTypeCvt_const ps c f t = Some (Some (Constval t c')) \<and> wt ps (Constval t c') \<and>
    iv_num (mc_value c') = wrap ps t (wrap ps f (iv_num (mc_value c)))"
proof -
  note classes = ity_classes[OF assms(1)] ity_classes[OF assms(2)]
  have size: "(if f = PTY_u1 then 1 else GetPrimTypeBitSize ps f) = bits ps f" "(if t = PTY_u1 then 1 else GetPrimTypeBitSize ps t) = bits ps t"
    using ity_bit_size[OF assms(1)] ity_bit_size[OF assms(2)] bits_u1[of ps] by auto
  show ?thesis
  proof (cases "bits ps t > bits ps f")
    case True
    obtain v where v: "TruncOrExtend_type ps f (mc_value c) = Some v" "typed ps f v" "iv_num v = wrap ps f (iv_num (mc_value c))"
      using TruncOrExtend_gives[OF assms(2,3)] by (auto simp: gives_def)
    let ?op = "if IsSignedInteger f then OP_sext else OP_zext"
    have m: "bits ps f mod 2 ^ 8 = bits ps f" "bits ps f = iv_width v" using ity_bits[OF assms(2)] v(2) by (auto simp: typed_def)
    obtain c' where c': "FoldSignExtendMIRConst ps ?op t (bits ps f mod 2 ^ 8) v = Some c'" "wt ps (Constval t c')"
        "iv_num (mc_value c') = wrap ps t (if ?op = OP_sext then signed_take_bit (bits ps f - 1) (iv_num v) else take_bit (bits ps f) (iv_num v))"
      using FoldSignExtendMIRConst_value[OF assms(1) typed_iv64[OF assms(2) v(2)] m(2), of ?op] m(1) by metis
    have "(if ?op = OP_sext then signed_take_bit (bits ps f - 1) (iv_num v) else take_bit (bits ps f) (iv_num v)) = wrap ps f (iv_num v)"
      by (simp add: wrap_def)
    then show ?thesis using c' v classes True size typed_num[OF assms(2) v(2)]
      by (auto simp: FoldTypeCvt_const_def FoldTypeCvtMIRConst_def Let_def)
  next
    case False
    obtain c' where c': "GetOrCreateIntConst ps (word_of_int (signed_take_bit 63 (iv_num (mc_value c)))) t = Some c'"
        "wt ps (Constval t c')" "iv_num (mc_value c') = wrap ps t (iv_num (mc_value c))"
      using GetOrCreate_gives[OF assms(1), of "iv_num (mc_value c)"] by (auto simp: word_of_Ext)
    then show ?thesis using classes False size GetExtValue_0[OF assms(3)] wrap_narrow[OF assms(1,2)]
      by (auto simp: FoldTypeCvt_const_def FoldTypeCvtMIRConst_def Let_def)
  qed
qed

lemma cvt_redundant:
  assumes "wt ps (TypeCvt OP_cvt t f a)" "eval ps syms \<sigma> (TypeCvt OP_cvt t f a) = Some v" "represents ps syms \<sigma> a (e, s)"
    "GetPrimTypeSize ps f = GetPrimTypeSize ps t" "const_of e = None"
  shows "\<exists>q. (case s of None \<Rightarrow> Some (e, None) | Some u \<Rightarrow> do { w \<leftarrow> Iv_of_iv_type ps u t; Some (e, Some w) }) = Some q \<and>
    represents ps syms \<sigma> (TypeCvt OP_cvt t f a) q"
proof -
  have w: "wt ps a" "ity ps t" "ity ps f" "t = PTY_u1 \<longrightarrow> boolv a" "fits ps f a" using assms(1) by auto
  obtain va ve where E: "eval ps syms \<sigma> a = Some va" "eval ps syms \<sigma> e = Some ve" "wrap ps f (ve + sval s) = wrap ps f va"
      "wt ps e" "fits ps f e" "boolv a \<longrightarrow> boolv e \<and> s = None" "weight e + (if s = None then 0 else 2) \<le> weight a"
      "noshr a \<longrightarrow> noshr e" "nonconst e" "\<forall>u. s = Some u \<longrightarrow> iv64 u \<and> bits ps f \<le> iv_width u \<and> 32 \<le> bits ps f"
    using pair_operand[OF assms(3) w(1,3,5)] assms(5) by auto
  have v: "v = wrap ps t (wrap ps f va)" using assms(2) E(1) by simp
  show ?thesis
  proof (cases "f = PTY_u1 \<or> t = PTY_u1")
    case True
    then have b: "boolv a" "boolv e" "s = None" using w(4,5) E(6) by (auto simp: fits_u1)
    then have "ve = 0 \<or> ve = 1" "va = 0 \<or> va = 1"
      using eval_bool E(1,2,4) w(1) by blast+
    then have "v = ve" using v E(3) b wrap_bool[OF w(3)] wrap_bool[OF w(2)] by auto
    then show ?thesis using b E assms(2) w(4) fits_bool[of e] by (auto simp: represents_def rep_def)
  next
    case False
    then have bt: "bits ps f = bits ps t" using ity_size_eq[OF w(3,2)] assms(4) by auto
    have fe: "fits ps t e" using E(5) bt False by (auto simp: fits_def)
    have c: "take_bit (bits ps t) (ve + sval s) = take_bit (bits ps t) v"
      using v E(3) wrap_eq_iff[OF w(3)] take_bit_wrap[OF w(2)] take_bit_wrap[OF w(3)] bt by simp
    show ?thesis
    proof (cases s)
      case None
      then show ?thesis using c fe E assms(2) w(4) by (auto simp: represents_def rep_def)
    next
      case (Some u)
      then have u: "iv64 u" "bits ps t \<le> iv_width u" and b32: "32 \<le> bits ps t" using E(10) bt by auto
      obtain y where y: "Iv_of_iv_type ps u t = Some y" "typed ps t y" "iv_num y = wrap ps t (iv_num u)"
        using Iv_of_iv_gives[OF w(2) u] by (auto simp: gives_def)
      have "take_bit (bits ps t) (ve + iv_num y) = take_bit (bits ps t) (ve + iv_num u)"
        using y(3) take_bit_wrap[OF w(2), of "bits ps t" "iv_num u"] by (metis add.commute order_refl take_bit_cong_add)
      then show ?thesis
        using Some c y fe E assms(2) w(4) b32 typed_iv64[OF w(2) y(2)] by (auto simp: represents_def rep_def typed_def)
    qed
  qed
qed

lemma FoldTypeCvt_represents:
  assumes "wt ps (TypeCvt opc t f a)" "eval ps syms \<sigma> (TypeCvt opc t f a) = Some v" "rec a = Some p" "represents ps syms \<sigma> a p"
  shows "\<exists>q. FoldTypeCvt ps rec opc t f a = Some q \<and> represents ps syms \<sigma> (TypeCvt opc t f a) q"
proof -
  have w: "wt ps a" "ity ps t" "ity ps f" "t = PTY_u1 \<longrightarrow> boolv a" "fits ps f a" "opc = OP_cvt" using assms(1) by auto
  obtain e s where p: "p = (e, s)" by fastforce
  show ?thesis
  proof (cases "const_of e")
    case (Some c)
    then have "const_of (fst p) = Some c" using p by simp
    then obtain T where T: "iv64 (mc_value c)" "stands_for ps syms \<sigma> f a (Constval T c)"
        "eval ps syms \<sigma> (Constval T c) = Some (iv_num (mc_value c))"
      using const_operand[OF assms(4) _ w(1,3,5)] by blast
    obtain c' where c': "FoldTypeCvt_const ps c f t = Some (Some (Constval t c'))" "wt ps (Constval t c')"
        "iv_num (mc_value c') = wrap ps t (wrap ps f (iv_num (mc_value c)))"
      using FoldTypeCvt_const_value[OF w(2,3) T(1)] by blast
    obtain va where "eval ps syms \<sigma> a = Some va" "wrap ps f (iv_num (mc_value c)) = wrap ps f va"
      using stands_for_value[OF T(2)] T(3) by (metis option.inject)
    then have "iv_num (mc_value c') = v" using c'(3) assms(2) w(6) by simp
    then have "represents ps syms \<sigma> (TypeCvt opc t f a) (Constval t c', None)"
      using c'(2) w typed_num[OF w(2)] stands_for_shape(4)[OF T(2)] by (intro represents_same_type[OF assms(2)]) auto
    then show ?thesis using Some p c'(1) w(6) assms(3) by (simp add: FoldTypeCvt_def Let_def)
  next
    case None
    obtain x where x: "PairToExpr ps (GetPrimType a) p = Some x" "stands_for ps syms \<sigma> f a x"
      using operand[OF assms(4) w(1,3,5)] by blast
    obtain va vx where "eval ps syms \<sigma> a = Some va" "eval ps syms \<sigma> x = Some vx" "wrap ps f vx = wrap ps f va"
      using stands_for_value[OF x(2)] by metis
    then have "represents ps syms \<sigma> (TypeCvt opc t f a) (TypeCvt opc t f x, None)"
      using stands_for_shape[OF x(2)] assms(1,2) w(6) by (intro represents_same_type[OF assms(2)]) auto
    then show ?thesis
      using cvt_redundant[of ps t f a syms \<sigma> v e s] assms None p w(6) x(1)
      by (auto simp: FoldTypeCvt_def Let_def split: option.splits)
  qed
qed

lemma FoldRetype_represents:
  assumes "wt ps (Retype t f a)" "eval ps syms \<sigma> (Retype t f a) = Some v" "rec a = Some p" "represents ps syms \<sigma> a p"
  shows "\<exists>q. FoldRetype ps rec t f a = Some q \<and> represents ps syms \<sigma> (Retype t f a) q"
proof -
  have w: "wt ps a" "ity ps t" "fits ps t a" using assms(1) by auto
  obtain x where x: "PairToExpr ps (GetPrimType a) p = Some x" "stands_for ps syms \<sigma> t a x"
    using operand[OF assms(4) w] by blast
  obtain va vx where "eval ps syms \<sigma> a = Some va" "eval ps syms \<sigma> x = Some vx" "wrap ps t vx = wrap ps t va"
    using stands_for_value[OF x(2)] by metis
  then have "represents ps syms \<sigma> (Retype t f a) (Retype t f x, None)"
    using stands_for_shape[OF x(2)] assms(1,2) by (intro represents_same_type[OF assms(2)]) auto
  then show ?thesis using assms(3) x(1) by (simp add: FoldRetype_def)
qed

lemma FoldSizeoftype_represents:
  assumes "wt ps (Sizeoftype t arg)" "eval ps syms \<sigma> (Sizeoftype t arg) = Some v"
  shows "\<exists>q. FoldSizeoftype ps t arg = Some q \<and> represents ps syms \<sigma> (Sizeoftype t arg) q"
proof -
  obtain a where a: "arg = Some a" "v = wrap ps t (int (GetPrimTypeSize ps a))" using assms(2) by auto
  have t: "ity ps t" using assms(1) by simp
  obtain c where c: "GetOrCreateIntConst ps (of_nat (GetPrimTypeSize ps a)) t = Some c" "wt ps (Constval t c)" "iv_num (mc_value c) = v"
    using GetOrCreate_gives[OF t, of "int (GetPrimTypeSize ps a)"] a(2) by auto
  have "represents ps syms \<sigma> (Sizeoftype t arg) (Constval t c, None)"
    using c(2,3) typed_num[OF t] by (intro represents_same_type[OF assms(2)]) auto
  then show ?thesis using a c(1) by (simp add: FoldSizeoftype_def)
qed

section \<open>Bit fields\<close>

definition syms_ok :: "nat \<Rightarrow> symbol_types \<Rightarrow> bool" where
  "syms_ok ps syms \<longleftrightarrow> (\<forall>st fld ty n. syms st fld = Some (ty, n) \<longrightarrow> IsPrimitiveInteger ty \<longrightarrow> n = GetPrimTypeSize ps ty)"

lemma extract_value_cong:
  assumes "0 < sz" "take_bit sz x = take_bit sz y"
  shows "extract_value opc t 0 sz x = extract_value opc t 0 sz y"
proof -
  have "signed_take_bit (sz - 1) x = signed_take_bit (sz - 1) y"
    using assms by (simp add: signed_take_bit_eq_iff_take_bit_eq)
  then show ?thesis using assms(2) by (simp add: extract_value_def)
qed

lemma take_bit_extract: "0 < sz \<Longrightarrow> take_bit sz (extract_value opc t 0 sz x) = take_bit sz x"
  by (simp add: extract_value_def take_bit_signed_take_bit)

lemma is_extract_eq:
  "wt ps e \<Longrightarrow> is_extract e = Some (off, sz, a) \<Longrightarrow> \<exists>opc t. e = Extractbits opc t off sz a"
  by (cases e) (auto split: if_splits)

text \<open>The operand left after the deletion of an inner extraction.\<close>

lemma extract_operand:
  assumes "stands_for ps syms \<sigma> t a x" "ity ps t" "t \<noteq> PTY_u1" "0 < sz" "sz \<le> bits ps t" "eval ps syms \<sigma> a = Some va"
    and "y = (case is_extract x of Some (off', sz', b) \<Rightarrow> if 0 = off' \<and> sz = sz' then b else x | None \<Rightarrow> x)"
  shows "wt ps y \<and> fits ps t y \<and> weight y \<le> weight a \<and> (noshr a \<longrightarrow> noshr y) \<and>
    (\<exists>vy. eval ps syms \<sigma> y = Some vy \<and> take_bit sz vy = take_bit sz va)"
proof -
  obtain vx where vx: "eval ps syms \<sigma> x = Some vx" "wrap ps t vx = wrap ps t va"
    using stands_for_value[OF assms(1)] assms(6) by (metis option.inject)
  have cx: "take_bit sz vx = take_bit sz va"
    using vx(2) wrap_eq_iff[OF assms(2)] assms(5) by (metis min_def take_bit_take_bit)
  note S = stands_for_shape[OF assms(1)]
  show ?thesis
  proof (cases "y = x")
    case True
    then show ?thesis using S vx(1) cx by auto
  next
    case False
    then obtain b where "is_extract x = Some (0, sz, b)" "y = b" using assms(7) by (auto split: option.splits if_splits)
    then obtain opc T where b: "x = Extractbits opc T 0 sz y" using is_extract_eq[OF S(1)] by blast
    then have T: "wt ps y" "ity ps T" "T \<noteq> PTY_u1" "fits ps T y" "sz \<le> bits ps T" using S(1) by auto
    then have "bits ps T = bits ps t" using S(2) b by (auto simp: fits_def)
    then have fy: "fits ps t y" using T(4) assms(3) by (auto simp: fits_def)
    obtain vy where vy: "eval ps syms \<sigma> y = Some vy" "vx = wrap ps T (extract_value opc T 0 sz vy)"
      using vx(1) b by (auto split: Option.bind_splits)
    then have "take_bit sz vy = take_bit sz va" using cx T(2,5) assms(4) by (simp add: take_bit_wrap take_bit_extract)
    then show ?thesis using T(1) fy S(4,5) b vy(1) by auto
  qed
qed

lemma redundant_extract:
  assumes "ExtractbitsRedundant ps syms opc t sz y" "wt ps y" "ity ps t" "t \<noteq> PTY_u1" "syms_ok ps syms" "0 < sz" "sz \<le> bits ps t"
    "eval ps syms \<sigma> y = Some vy"
  shows "take_bit (bits ps t) vy = take_bit (bits ps t) (extract_value opc t 0 sz vy)" "nonconst y"
proof -
  have "(sz = bits ps t \<or> opc = OP_zext \<and> vy = take_bit sz vy) \<and> nonconst y"
  proof (cases y)
    case (Dread t0 st fld)
    then obtain n where "syms st fld = Some (t, n)" "IsPrimitiveInteger t" "n * 8 = sz"
      using assms(1) by (auto split: option.splits)
    then have "GetPrimTypeSize ps t * 8 = sz" using assms(5) by (auto simp: syms_ok_def)
    then show ?thesis using ity_bit_size[OF assms(3)] assms(4) Dread by (simp add: GetPrimTypeBitSize_def)
  next
    case (Extractbits opc' t' off sz' b)
    then have r: "opc' = OP_extractbits" "sz' < sz" "opc = OP_zext" "t' = t" "\<not> IsSignedInteger t" "off = 0"
      using assms(1,2) ity_classes(6)[OF assms(3)] by auto
    obtain vb where "vy = wrap ps t (take_bit sz' vb)"
      using assms(8) Extractbits r by (auto simp: extract_value_def split: Option.bind_splits)
    then have "vy = take_bit sz' vb" using r assms(2,7) Extractbits by (simp add: wrap_def)
    then have "vy = take_bit sz vy" using r(2) by simp
    then show ?thesis using r(3) Extractbits by simp
  qed (use assms(1) in auto)
  then show "take_bit (bits ps t) vy = take_bit (bits ps t) (extract_value opc t 0 sz vy)" "nonconst y"
    using take_bit_extract[OF assms(6), of opc t vy]
    by (elim conjE disjE; simp add: extract_value_def)+
qed

lemma FoldExtractbits_represents:
  assumes "wt ps (Extractbits opc t off sz a)" "eval ps syms \<sigma> (Extractbits opc t off sz a) = Some v"
    "rec a = Some p" "represents ps syms \<sigma> a p" "syms_ok ps syms"
  shows "\<exists>q. FoldExtractbits ps syms rec opc t off sz a = Some q \<and> represents ps syms \<sigma> (Extractbits opc t off sz a) q"
proof -
  have w: "wt ps a" "ity ps t" "fits ps t a" "t \<noteq> PTY_u1" "off = 0" "0 < sz" "sz \<le> bits ps t"
    "opc = OP_sext \<or> opc = OP_zext \<or> opc = OP_extractbits" using assms(1) by auto
  obtain va where va: "eval ps syms \<sigma> a = Some va" "v = wrap ps t (extract_value opc t 0 sz va)"
    using assms(2) w(5) by (auto split: Option.bind_splits)
  obtain x where x: "PairToExpr ps (GetPrimType a) p = Some x" "stands_for ps syms \<sigma> t a x"
    using operand[OF assms(4) w(1-3)] by blast
  let ?y = "case is_extract x of Some (off', sz', b) \<Rightarrow> if 0 = off' \<and> sz = sz' then b else x | None \<Rightarrow> x"
  obtain vy where y: "wt ps ?y" "fits ps t ?y" "weight ?y \<le> weight a" "noshr a \<longrightarrow> noshr ?y"
      "eval ps syms \<sigma> ?y = Some vy" "take_bit sz vy = take_bit sz va"
    using extract_operand[OF x(2) w(2,4,6,7) va(1) refl] by auto
  have vv: "v = wrap ps t (extract_value opc t 0 sz vy)" using va(2) extract_value_cong[OF w(6) y(6)] by simp
  show ?thesis
  proof (cases "const_of (fst p) \<noteq> None \<and> (opc = OP_sext \<or> opc = OP_zext)")
    case True
    then obtain c where c: "const_of (fst p) = Some c" by blast
    obtain T where T: "iv64 (mc_value c)" "stands_for ps syms \<sigma> t a (Constval T c)"
        "eval ps syms \<sigma> (Constval T c) = Some (iv_num (mc_value c))"
      using const_operand[OF assms(4) c w(1-3)] by blast
    have sz64: "sz \<le> 64" using w(7) ity_bits[OF w(2)] by simp
    obtain u where u: "TruncOrExtend sz (opc = OP_sext) (mc_value c) = Some u" "iv64 u" "iv_width u = sz"
        "take_bit sz (iv_num u) = take_bit sz (iv_num (mc_value c))"
      using TruncOrExtend_converts[of "mc_value c" sz "opc = OP_sext"] T(1) w(6) sz64 iv_bits_num
      by (fastforce simp: iv_converts_def target_ok_def iv64_def take_bit_eq_mod)
    obtain c' where c': "FoldSignExtendMIRConst ps opc t sz u = Some c'" "wt ps (Constval t c')" "iv_num (mc_value c') =
        wrap ps t (if opc = OP_sext then signed_take_bit (sz - 1) (iv_num u) else take_bit sz (iv_num u))"
      using FoldSignExtendMIRConst_value[OF w(2) u(2) u(3)[symmetric]] by blast
    obtain va' where "eval ps syms \<sigma> a = Some va'" "wrap ps t (iv_num (mc_value c)) = wrap ps t va'"
      using stands_for_value[OF T(2)] T(3) by (metis option.inject)
    then have "take_bit sz (iv_num (mc_value c)) = take_bit sz va"
      using va(1) wrap_eq_iff[OF w(2)] w(7) by (metis min_def option.inject take_bit_take_bit)
    then have "take_bit sz (iv_num u) = take_bit sz va" using u(4) by simp
    moreover have "(if opc = OP_sext then signed_take_bit (sz - 1) (iv_num u) else take_bit sz (iv_num u)) = extract_value opc t 0 sz (iv_num u)"
      using True by (auto simp: extract_value_def)
    ultimately have "iv_num (mc_value c') = v"
      using c'(3) va(2) extract_value_cong[OF w(6), of "iv_num u" va opc t] by simp
    then have "represents ps syms \<sigma> (Extractbits opc t off sz a) (Constval t c', None)"
      using c'(2) w typed_num[OF w(2)] stands_for_shape(4)[OF T(2)] by (intro represents_same_type[OF assms(2)]) auto
    then show ?thesis using True c u(1) c'(1,2) assms(3) by (auto simp: FoldExtractbits_def FoldSignExtend_def)
  next
    case False
    let ?red = "off = 0 \<and> sz \<ge> 8 \<and> Cf_IsPowerOf2 (of_nat sz) \<and> ExtractbitsRedundant ps syms opc t sz ?y"
    have "FoldExtractbits ps syms rec opc t off sz a = Some (if ?red then ?y else Extractbits opc t off sz ?y, None)"
      using False assms(3) x(1) w(5) by (auto simp: FoldExtractbits_def Let_def split: option.splits bool.splits)
    moreover have "represents ps syms \<sigma> (Extractbits opc t off sz a) (Extractbits opc t off sz ?y, None)"
      using y assms(1) w(5) vv by (intro represents_same_type[OF assms(2)]) auto
    moreover have "represents ps syms \<sigma> (Extractbits opc t off sz a) (?y, None)" if ?red
    proof -
      have R: "take_bit (bits ps t) vy = take_bit (bits ps t) (extract_value opc t 0 sz vy)" "nonconst ?y"
        using redundant_extract[OF _ y(1) w(2,4) assms(5) w(6,7) y(5)] that by blast+
      then show ?thesis using y w(4) vv take_bit_wrap[OF w(2)] by (intro representsI[OF assms(2) y(1) y(5)]) auto
    qed
    ultimately show ?thesis by auto
  qed
qed

lemma deposit_value_cong:
  assumes "off + sz \<le> n" "take_bit n x = take_bit n x'" "take_bit n y = take_bit n y'"
  shows "take_bit n (deposit_value off sz x y) = take_bit n (deposit_value off sz x' y')"
proof -
  have "bit x i = bit x' i" "bit y i = bit y' i" if "i < n" for i
    using assms(2,3) that by (metis bit_take_bit_iff)+
  then show ?thesis using assms(1)
    by (intro bit_eqI) (auto simp: deposit_value_def Let_def bit_simps)
qed

lemma deposit_word:
  assumes "off + sz < 64"
  shows "take_bit 64 (uint ((word_of_int x AND NOT ((push_bit (sz + off) 1 - 1) XOR (push_bit off 1 - 1))) OR
      (push_bit off (word_of_int y) AND (push_bit (sz + off) 1 - 1)) :: u64)) = take_bit 64 (deposit_value off sz x y)"
proof -
  have m: "push_bit n 1 - 1 = (mask n :: u64)" for n by (simp add: mask_eq_exp_minus_1)
  show ?thesis unfolding m using assms
    by (intro bit_eqI) (auto simp: deposit_value_def Let_def bit_simps bit_mask_iff)
qed

lemma FoldDepositbits_represents:
  assumes "wt ps (Depositbits t off sz a b)" "eval ps syms \<sigma> (Depositbits t off sz a b) = Some v"
    "rec a = Some p" "represents ps syms \<sigma> a p" "rec b = Some q" "represents ps syms \<sigma> b q"
  shows "\<exists>r. FoldDepositbits ps rec t off sz a b = Some r \<and> represents ps syms \<sigma> (Depositbits t off sz a b) r"
proof -
  have w: "wt ps a" "wt ps b" "ity ps t" "fits ps t a" "fits ps t b" "t \<noteq> PTY_u1" "off + sz \<le> bits ps t" "off + sz < 64"
    using assms(1) by auto
  obtain x where x: "PairToExpr ps (GetPrimType a) p = Some x" "stands_for ps syms \<sigma> t a x"
    using operand[OF assms(4) w(1,3,4)] by blast
  obtain y where y: "PairToExpr ps (GetPrimType b) q = Some y" "stands_for ps syms \<sigma> t b y"
    using operand[OF assms(6) w(2,3,5)] by blast
  obtain va vx where A: "eval ps syms \<sigma> a = Some va" "eval ps syms \<sigma> x = Some vx" "wrap ps t vx = wrap ps t va"
    using stands_for_value[OF x(2)] by metis
  obtain vb vy where B: "eval ps syms \<sigma> b = Some vb" "eval ps syms \<sigma> y = Some vy" "wrap ps t vy = wrap ps t vb"
    using stands_for_value[OF y(2)] by metis
  have v: "v = wrap ps t (deposit_value off sz va vb)" using assms(2) A(1) B(1) by simp
  have vd: "wrap ps t (deposit_value off sz vx vy) = v"
    using v A(3) B(3) deposit_value_cong[OF w(7), of vx va vy vb] by (simp add: wrap_eq_iff[OF w(3)])
  show ?thesis
  proof (cases "const_of (fst p) \<noteq> None \<and> const_of (fst q) \<noteq> None")
    case True
    then obtain c d where c: "const_of (fst p) = Some c" "const_of (fst q) = Some d" by blast
    obtain T where T: "p = (Constval T c, None)" "iv64 (mc_value c)" "eval ps syms \<sigma> (Constval T c) = Some (iv_num (mc_value c))"
      using const_operand[OF assms(4) c(1) w(1,3,4)] by blast
    obtain U where U: "q = (Constval U d, None)" "iv64 (mc_value d)" "eval ps syms \<sigma> (Constval U d) = Some (iv_num (mc_value d))"
      using const_operand[OF assms(6) c(2) w(2,3,5)] by blast
    have n: "iv_num (mc_value c) = vx" "iv_num (mc_value d) = vy"
      using T U x(1) y(1) A(2) B(2) by (auto simp: PairToExpr_def)
    let ?w = "(word_of_int vx AND NOT ((push_bit (sz + off) 1 - 1) XOR (push_bit off 1 - 1))) OR
      (push_bit off (word_of_int vy) AND (push_bit (sz + off) 1 - 1)) :: u64"
    have ww: "wrap ps t (uint ?w) = v"
      using wrap_congI[OF w(3) deposit_word[OF w(8), of vx vy]] ity_bits[OF w(3)] vd by simp
    obtain e where e: "GetOrCreateIntConst ps ?w t = Some e" "wt ps (Constval t e)" "iv_num (mc_value e) = v"
      using GetOrCreate_gives[OF w(3), of "uint ?w"] ww by auto
    have "represents ps syms \<sigma> (Depositbits t off sz a b) (Constval t e, None)"
      using e(2,3) w typed_num[OF w(3)] by (intro represents_same_type[OF assms(2)]) auto
    moreover have "FoldDepositbits ps rec t off sz a b = Some (Constval t e, None)"
      using c assms(3,5) w(8) GetExtValue_0[OF T(2)] GetExtValue_0[OF U(2)] n e(1)
      by (simp add: FoldDepositbits_def shl_word_def Let_def word_of_Ext)
    ultimately show ?thesis by simp
  next
    case False
    have "represents ps syms \<sigma> (Depositbits t off sz a b) (Depositbits t off sz x y, None)"
      using stands_for_shape[OF x(2)] stands_for_shape[OF y(2)] A(2) B(2) vd assms(1)
      by (intro represents_same_type[OF assms(2)]) auto
    then show ?thesis using False assms(3,5) x(1) y(1)
      by (cases "const_of (fst p)"; cases "const_of (fst q)") (auto simp: FoldDepositbits_def)
  qed
qed

section \<open>Comparisons\<close>

lemma eval_compare_cong:
  "wrap ps ot x = wrap ps ot x' \<Longrightarrow> wrap ps ot y = wrap ps ot y' \<Longrightarrow> eval_compare ps opc t ot x y = eval_compare ps opc t ot x' y'"
  by (simp add: eval_compare_def)

lemma weight_pos: "0 < weight e"
  by (induction e) auto

lemma compare_opcode: "wt ps e \<Longrightarrow> GetOpCode e = OP_ne \<or> GetOpCode e = OP_eq \<Longrightarrow> \<exists>t ot a b. e = Compare (GetOpCode e) t ot a b"
  by (cases e) (auto simp: wt_binary_def split: if_splits)

lemma no_cmp: "wt ps e \<Longrightarrow> cmp_operands e = None"
  by (cases e) auto

lemma u1_const: "wt ps e \<Longrightarrow> GetPrimType e = PTY_u1 \<Longrightarrow> nonconst e \<or> const_of e \<noteq> None"
  by (cases e) auto

lemma u1_below_cvt_value:
  "wt ps e \<Longrightarrow> u1_below_cvt e = Some x \<Longrightarrow> eval ps syms \<sigma> e = Some v \<Longrightarrow>
    wt ps x \<and> GetPrimType x = PTY_u1 \<and> eval ps syms \<sigma> x = Some v \<and> weight x \<le> weight e \<and> (noshr e \<longrightarrow> noshr x)"
proof (induction e arbitrary: v rule: u1_below_cvt.induct)
  case (1 opc t f a)
  show ?case
  proof (cases "t = PTY_u1")
    case True
    then show ?thesis using "1.prems" by auto
  next
    case False
    obtain va where va: "eval ps syms \<sigma> a = Some va" "v = wrap ps t (wrap ps f va)"
      using "1.prems"(1,3) by (auto split: Option.bind_splits if_splits)
    have x: "u1_below_cvt a = Some x" "wt ps a" "ity ps t" "ity ps f" using "1.prems"(1,2) False by auto
    have IH: "wt ps x \<and> GetPrimType x = PTY_u1 \<and> eval ps syms \<sigma> x = Some va \<and> weight x \<le> weight a \<and> (noshr a \<longrightarrow> noshr x)"
      using "1.IH"[OF False _ x(2,1) va(1)] "1.prems"(1) by auto
    then have "va = 0 \<or> va = 1" using eval_bool boolv_u1 by metis
    then have "v = va" using va(2) wrap_bool x(3,4) by simp
    then show ?thesis using IH by auto
  qed
qed (auto split: if_splits)

lemma eval_compare_bool:
  "opc \<in> {OP_eq, OP_ne, OP_lt, OP_le, OP_gt, OP_ge} \<Longrightarrow> eval_compare ps opc t ot x y = Some v \<Longrightarrow> v = 0 \<or> v = 1"
  by (elim insertE emptyE; simp add: eval_compare_def Let_def; metis truth_bool(1))

lemma compare_represents:
  assumes "wt ps (Compare opc t ot a b)" "eval ps syms \<sigma> (Compare opc t ot a b) = Some v"
    "stands_for ps syms \<sigma> ot a l" "stands_for ps syms \<sigma> ot b r"
  shows "wt ps (Compare opc t ot l r)" "eval ps syms \<sigma> (Compare opc t ot l r) = Some v"
    "represents ps syms \<sigma> (Compare opc t ot a b) (Compare opc t ot l r, None)"
proof -
  obtain va vl where A: "eval ps syms \<sigma> a = Some va" "eval ps syms \<sigma> l = Some vl" "wrap ps ot vl = wrap ps ot va"
    using stands_for_value[OF assms(3)] by metis
  obtain vb vr where B: "eval ps syms \<sigma> b = Some vb" "eval ps syms \<sigma> r = Some vr" "wrap ps ot vr = wrap ps ot vb"
    using stands_for_value[OF assms(4)] by metis
  note S = stands_for_shape[OF assms(3)] stands_for_shape[OF assms(4)]
  show w: "wt ps (Compare opc t ot l r)" using assms(1) S by simp
  show e: "eval ps syms \<sigma> (Compare opc t ot l r) = Some v"
    using assms(2) A B eval_compare_cong[OF A(3) B(3)] by simp
  show "represents ps syms \<sigma> (Compare opc t ot a b) (Compare opc t ot l r, None)"
    using w e S assms(1) by (intro represents_same_type[OF assms(2)]) auto
qed

lemma boolean_represents:
  assumes "wt ps (Compare opc t ot a b)" "eval ps syms \<sigma> (Compare opc t ot a b) = Some v"
    "wt ps x" "boolv x" "eval ps syms \<sigma> x = Some v" "nonconst x \<or> const_of x \<noteq> None" "weight x \<le> weight a + weight b + 1"
    "noshr a \<and> noshr b \<longrightarrow> noshr x"
  shows "represents ps syms \<sigma> (Compare opc t ot a b) (x, None)"
  using assms fits_bool[OF assms(4)] by (intro representsI[OF assms(2,3,5)]) auto

lemma SimplifyDoubleCompare_represents:
  assumes "wt ps (Compare opc t ot a b)" "eval ps syms \<sigma> (Compare opc t ot a b) = Some v"
    "stands_for ps syms \<sigma> ot a l" "stands_for ps syms \<sigma> ot b r"
  shows "\<exists>e. SimplifyDoubleCompare opc t ot l r = Some e \<and> represents ps syms \<sigma> (Compare opc t ot a b) (e, None)"
proof -
  note W = compare_represents[OF assms]
  note Sl = stands_for_shape[OF assms(3)] and Sr = stands_for_shape[OF assms(4)]
  have ot: "ity ps ot" using assms(1) by simp
  note nc = no_cmp[OF Sl(1)] no_cmp[OF Sr(1)]
  show ?thesis
  proof (cases "const_of r")
    case None
    then show ?thesis using W(3) nc by (simp add: SimplifyDoubleCompare_def Let_def)
  next
    case (Some c)
    then obtain T where T: "r = Constval T c" by (auto simp: const_of_eq)
    then have c: "iv64 (mc_value c)" "wrap ps T (iv_num (mc_value c)) = iv_num (mc_value c)"
      using Sr(1) typed_iv64 typed_num by auto
    have z: "mc_IsZero c = Some (iv_num (mc_value c) = 0)" using Iv_eq_const[OF c(1)] by (simp add: mc_IsZero_def)
    obtain vl where vl: "eval ps syms \<sigma> l = Some vl" using stands_for_value[OF assms(3)] by metis
    have v: "eval_compare ps opc t ot vl (iv_num (mc_value c)) = Some v" using W(2) vl T c(2) by simp
    have bool: "v = vl" if "opc = OP_ne" "iv_num (mc_value c) = 0" "vl = 0 \<or> vl = 1"
      using v that(1,2) wrap_bool[OF ot that(3)] wrap_zero[OF ot] that(3) by (auto simp: eval_compare_def truth_def Let_def)
    show ?thesis
    proof (cases "(opc = OP_ne \<or> opc = OP_eq) \<and> iv_num (mc_value c) = 0")
      case False
      then show ?thesis using W(3) nc Some z by (auto simp: SimplifyDoubleCompare_def Let_def)
    next
      case zero: True
      show ?thesis
      proof (cases "GetOpCode l = OP_ne \<or> GetOpCode l = OP_eq")
        case flag: True
        then obtain T' ot' a' b' where l: "l = Compare (GetOpCode l) T' ot' a' b'" using compare_opcode[OF Sl(1)] by blast
        obtain o' where o': "o' = GetOpCode l" "l = Compare o' T' ot' a' b'" using l by simp
        then have bl: "boolv l" "vl = 0 \<or> vl = 1" using flag eval_bool[OF Sl(1) _ vl] by (auto simp: boolv.simps(1))
        show ?thesis
        proof (cases "opc = OP_ne")
          case True
          have "represents ps syms \<sigma> (Compare opc t ot a b) (l, None)"
            using bool True zero bl vl Sl Sr(4) by (intro boolean_represents[OF assms(1,2)]) auto
          then show ?thesis using True flag nc Some z zero by (simp add: SimplifyDoubleCompare_def Let_def)
        next
          case False
          let ?x = "Compare (if o' = OP_ne then OP_eq else OP_ne) T' ot' a' b'"
          have "eval ps syms \<sigma> ?x = Some (1 - vl)"
            using vl flag o'(1) unfolding o'(2) by (auto simp: eval_compare_def truth_def Let_def split: Option.bind_splits)
          moreover have "v = 1 - vl"
            using v False zero bl(2) wrap_bool[OF ot bl(2)] wrap_zero[OF ot] by (auto simp: eval_compare_def truth_def Let_def)
          ultimately have "represents ps syms \<sigma> (Compare opc t ot a b) (?x, None)"
            using Sl Sr(4) o'(2) by (intro boolean_represents[OF assms(1,2)]) auto
          moreover have "SetOpCode (if GetOpCode l = OP_ne then OP_eq else OP_ne) l = ?x" using o'(2) by simp
          ultimately show ?thesis using False flag nc Some z zero by (simp add: SimplifyDoubleCompare_def Let_def)
        qed
      next
        case flag: False
        show ?thesis
        proof (cases "opc = OP_ne \<and> u1_below_cvt l \<noteq> None")
          case False
          then show ?thesis using W(3) flag nc Some z zero by (auto simp: SimplifyDoubleCompare_def Let_def)
        next
          case True
          then obtain x where x: "u1_below_cvt l = Some x" by blast
          have X: "wt ps x" "GetPrimType x = PTY_u1" "eval ps syms \<sigma> x = Some vl" "weight x \<le> weight l" "noshr l \<longrightarrow> noshr x"
            using u1_below_cvt_value[OF Sl(1) x vl] by auto
          have "vl = 0 \<or> vl = 1" using eval_bool[OF X(1) boolv_u1[OF X(2)] X(3)] .
          then have "represents ps syms \<sigma> (Compare opc t ot a b) (x, None)"
            using bool True zero X Sl(4,5) u1_const[OF X(1,2)] boolv_u1[OF X(2)] by (intro boolean_represents[OF assms(1,2)]) auto
          then show ?thesis using True x flag nc Some z zero by (simp add: SimplifyDoubleCompare_def Let_def)
        qed
      qed
    qed
  qed
qed

lemma FoldCompare_represents:
  assumes "wt ps (Compare opc t ot a b)" "eval ps syms \<sigma> (Compare opc t ot a b) = Some v"
    "rec a = Some p" "represents ps syms \<sigma> a p" "rec b = Some q" "represents ps syms \<sigma> b q"
  shows "\<exists>r. FoldCompare ps rec opc t ot a b = Some r \<and> represents ps syms \<sigma> (Compare opc t ot a b) r"
proof -
  have w: "wt ps a" "wt ps b" "ity ps ot" "fits ps ot a" "fits ps ot b" "ity ps t"
    and opc: "opc \<in> {OP_eq, OP_ne, OP_lt, OP_le, OP_gt, OP_ge}"
    using assms(1) wt_type[OF assms(1)] by auto
  obtain l where l: "PairToExpr ps (GetPrimType a) p = Some l" "stands_for ps syms \<sigma> ot a l"
    using operand[OF assms(4) w(1,3,4)] by blast
  obtain r where r: "PairToExpr ps (GetPrimType b) q = Some r" "stands_for ps syms \<sigma> ot b r"
    using operand[OF assms(6) w(2,3,5)] by blast
  note W = compare_represents[OF assms(1,2) l(2) r(2)]
  note S = SimplifyDoubleCompare_represents[OF assms(1,2) l(2) r(2)]
  have f: "ot \<noteq> PTY_f128" "t \<noteq> PTY_f128" "\<not> IsPrimitiveDynType ot" using ity_classes w(3,6) by auto
  have D: "FoldCompare ps rec opc t ot a b =
      (case (const_of (fst p), const_of (fst q)) of
         (Some c0, Some c1) \<Rightarrow> map_option (\<lambda>e. (e, None)) (FoldConstComparison ps opc t ot c0 c1)
       | (Some c0, None) \<Rightarrow> map_option (\<lambda>e. (e, None)) (FoldConstComparisonReverse opc t ot (fst p) r)
       | _ \<Rightarrow> map_option (\<lambda>e. (e, None)) (SimplifyDoubleCompare opc t ot l r))"
    using assms(3,5) l(1) r(1) f opc
    by (cases "const_of (fst p)"; cases "const_of (fst q)")
      (auto simp: FoldCompare_def map_option_case split: option.splits)
  show ?thesis
  proof (cases "const_of (fst p)")
    case None
    then show ?thesis using D S by (auto split: option.splits)
  next
    case (Some c0)
    obtain T where T: "p = (Constval T c0, None)" "iv64 (mc_value c0)"
        "eval ps syms \<sigma> (Constval T c0) = Some (iv_num (mc_value c0))"
      using const_operand[OF assms(4) Some w(1,3,4)] by blast
    have l': "l = Constval T c0" using l(1) T(1) by (simp add: PairToExpr_def)
    show ?thesis
    proof (cases "const_of (fst q)")
      case None
      have "eval ps syms \<sigma> (Compare opc t ot l r) = Some v" by (rule W(2))
      then have "\<exists>e. FoldConstComparisonReverse opc t ot (fst p) r = Some e \<and> wt ps e \<and> boolv e \<and> nonconst e \<and>
          eval ps syms \<sigma> e = Some v \<and> weight e = weight l + weight r + 1 \<and> (noshr l \<and> noshr r \<longrightarrow> noshr e)"
        using opc W(1) T(1) l'
        by (elim insertE emptyE) (auto simp: FoldConstComparisonReverse_def eval_compare_def Let_def truth_def split: Option.bind_splits)
      then obtain e where e: "FoldConstComparisonReverse opc t ot (fst p) r = Some e" "wt ps e" "boolv e" "nonconst e"
          "eval ps syms \<sigma> e = Some v" "weight e = weight l + weight r + 1" "noshr l \<and> noshr r \<longrightarrow> noshr e" by blast
      have "represents ps syms \<sigma> (Compare opc t ot a b) (e, None)"
        using e stands_for_shape[OF l(2)] stands_for_shape[OF r(2)] by (intro boolean_represents[OF assms(1,2)]) auto
      then show ?thesis using D Some None e(1) by simp
    next
      case s1: (Some c1)
      obtain U where U: "q = (Constval U c1, None)" "iv64 (mc_value c1)"
          "eval ps syms \<sigma> (Constval U c1) = Some (iv_num (mc_value c1))"
        using const_operand[OF assms(6) s1 w(2,3,5)] by blast
      have r': "r = Constval U c1" using r(1) U(1) by (simp add: PairToExpr_def)
      have ev: "eval_compare ps opc t ot (iv_num (mc_value c0)) (iv_num (mc_value c1)) = Some v"
        using W(2) l' r' T(3) U(3) by simp
      have bv: "v = 0 \<or> v = 1" by (rule eval_compare_bool[OF opc ev])
      obtain c where c: "FoldConstComparison ps opc t ot c0 c1 = Some (Constval t c)" "wt ps (Constval t c)" "iv_num (mc_value c) = wrap ps t v"
        using FoldConstComparison_value[OF w(6,3) T(2) U(2) ev] by blast
      have cv: "iv_num (mc_value c) = v" using c(3) wrap_bool[OF w(6) bv] by simp
      have "represents ps syms \<sigma> (Compare opc t ot a b) (Constval t c, None)"
        using c(2) cv bv assms(1) wrap_bool[OF w(6) bv] by (intro boolean_represents[OF assms(1,2)]) auto
      then show ?thesis using D Some s1 c(1) by simp
    qed
  qed
qed

section \<open>Selections\<close>

lemma boolean_pair:
  assumes "represents ps syms \<sigma> a p" "boolv a" "wt ps a" "eval ps syms \<sigma> a = Some va"
  shows "snd p = None" "wt ps (fst p)" "boolv (fst p)" "eval ps syms \<sigma> (fst p) = Some va" "weight (fst p) \<le> weight a"
    "noshr a \<longrightarrow> noshr (fst p)" "nonconst (fst p) \<or> const_of (fst p) \<noteq> None"
proof -
  have R: "rep ps syms \<sigma> (GetPrimType a) (boolv a) va (weight a) (noshr a) (fst p) (snd p)"
    using assms(1,4) by (auto simp: represents_def)
  show s: "snd p = None" and b: "boolv (fst p)" using R assms(2) by (auto simp: rep_def)
  show w: "wt ps (fst p)" "weight (fst p) \<le> weight a" "noshr a \<longrightarrow> noshr (fst p)" "nonconst (fst p) \<or> const_of (fst p) \<noteq> None"
    using R by (auto simp: rep_def)
  obtain v' where v': "eval ps syms \<sigma> (fst p) = Some v'" "take_bit (bits ps (GetPrimType a)) v' = take_bit (bits ps (GetPrimType a)) va"
    using rep_value[OF R] s by auto
  have "v' = va"
    by (rule bool_cong_eq[OF v'(2)]) (use ity_bits[OF wt_type[OF assms(3)]] eval_bool[OF w(1) b v'(1)] eval_bool[OF assms(3,2,4)] in auto)
  then show "eval ps syms \<sigma> (fst p) = Some va" using v'(1) by simp
qed

lemma select_represents:
  assumes "wt ps (Ternary OP_select t a b c)" "eval ps syms \<sigma> (Ternary OP_select t a b c) = Some v"
    "stands_for ps syms \<sigma> (GetPrimType a) a e0" "stands_for ps syms \<sigma> t b e1" "stands_for ps syms \<sigma> t c e2"
  shows "represents ps syms \<sigma> (Ternary OP_select t a b c) (Ternary OP_select t e0 e1 e2, None)"
    and "eval ps syms \<sigma> a = Some va \<Longrightarrow> va \<noteq> 0 \<Longrightarrow> represents ps syms \<sigma> (Ternary OP_select t a b c) (e1, None)"
    and "eval ps syms \<sigma> a = Some va \<Longrightarrow> va = 0 \<Longrightarrow> represents ps syms \<sigma> (Ternary OP_select t a b c) (e2, None)"
proof -
  have w: "wt ps a" "wt ps b" "wt ps c" "ity ps t" "boolv a" "fits ps t b" "fits ps t c" using assms(1) by auto
  obtain va0 v0 where A: "eval ps syms \<sigma> a = Some va0" "eval ps syms \<sigma> e0 = Some v0" "boolv a \<longrightarrow> v0 = va0"
    using stands_for_value[OF assms(3)] by metis
  obtain vb v1 where B: "eval ps syms \<sigma> b = Some vb" "eval ps syms \<sigma> e1 = Some v1" "wrap ps t v1 = wrap ps t vb"
    using stands_for_value[OF assms(4)] by metis
  obtain vc v2 where C: "eval ps syms \<sigma> c = Some vc" "eval ps syms \<sigma> e2 = Some v2" "wrap ps t v2 = wrap ps t vc"
    using stands_for_value[OF assms(5)] by metis
  note S = stands_for_shape[OF assms(3)] stands_for_shape[OF assms(4)] stands_for_shape[OF assms(5)]
  have v: "v = wrap ps t (if va0 \<noteq> 0 then vb else vc)" using assms(2) A(1) B(1) C(1) by simp
  show "represents ps syms \<sigma> (Ternary OP_select t a b c) (Ternary OP_select t e0 e1 e2, None)"
    using S w A B C v assms(1) by (intro represents_same_type[OF assms(2)]) auto
  have bt: "boolv b" "boolv c" if "t = PTY_u1" using that w(6,7) by (auto simp: fits_u1)
  show "represents ps syms \<sigma> (Ternary OP_select t a b c) (e1, None)" if "eval ps syms \<sigma> a = Some va" "va \<noteq> 0"
    using that S w A B v bt take_bit_wrap[OF w(4)] wrap_eq_iff[OF w(4)] by (intro representsI[OF assms(2) _ B(2)]) auto
  show "represents ps syms \<sigma> (Ternary OP_select t a b c) (e2, None)" if "eval ps syms \<sigma> a = Some va" "va = 0"
    using that S w A C v bt take_bit_wrap[OF w(4)] wrap_eq_iff[OF w(4)] by (intro representsI[OF assms(2) _ C(2)]) auto
qed

lemma select_boolean:
  assumes "wt ps (Ternary OP_select t a b c)" "eval ps syms \<sigma> (Ternary OP_select t a b c) = Some v"
    "wt ps x" "boolv x" "eval ps syms \<sigma> x = Some v" "nonconst x \<or> const_of x \<noteq> None" "weight x \<le> weight a + weight b + weight c + 1"
    "noshr a \<and> noshr b \<and> noshr c \<longrightarrow> noshr x"
  shows "represents ps syms \<sigma> (Ternary OP_select t a b c) (x, None)"
  using assms fits_bool[OF assms(4)] by (intro representsI[OF assms(2,3,5)]) auto

lemma PairToExpr_None: "snd p = None \<Longrightarrow> PairToExpr ps t p = Some (fst p)"
  by (simp add: PairToExpr_def)

lemma FoldTernary_represents:
  assumes "wt ps (Ternary opc t a b c)" "eval ps syms \<sigma> (Ternary opc t a b c) = Some v"
    "rec a = Some p" "represents ps syms \<sigma> a p" "rec b = Some q" "represents ps syms \<sigma> b q" "rec c = Some r" "represents ps syms \<sigma> c r"
    and same: "\<And>x y. same x y \<Longrightarrow> x = y"
    and again: "\<And>x z n u. PairToExpr ps (GetPrimType a) p = Some x \<Longrightarrow> CreateIntConst ps 0 (GetPrimType a) = Some z \<Longrightarrow>
      n = Compare OP_eq (GetPrimType a) (GetPrimType a) x z \<Longrightarrow> weight n < weight (Ternary opc t a b c) \<Longrightarrow> wt ps n \<Longrightarrow>
      eval ps syms \<sigma> n = Some u \<Longrightarrow> \<exists>k. rec n = Some k \<and> represents ps syms \<sigma> n k"
  shows "\<exists>k. FoldTernary ps same rec opc t a b c = Some k \<and> represents ps syms \<sigma> (Ternary opc t a b c) k"
proof -
  have sel: "opc = OP_select" using assms(1) by simp
  note wt' = assms(1)[unfolded sel] and ev' = assms(2)[unfolded sel]
  have w: "wt ps a" "wt ps b" "wt ps c" "ity ps t" "boolv a" "fits ps t b" "fits ps t c" using assms(1) by auto
  note ta = wt_type[OF w(1)]
  obtain e0 where e0: "PairToExpr ps (GetPrimType a) p = Some e0" "stands_for ps syms \<sigma> (GetPrimType a) a e0"
    using operand[OF assms(4) w(1) ta fits_self] by blast
  obtain e1 where e1: "PairToExpr ps (GetPrimType b) q = Some e1" "stands_for ps syms \<sigma> t b e1"
    using operand[OF assms(6) w(2,4,6)] by blast
  obtain e2 where e2: "PairToExpr ps (GetPrimType c) r = Some e2" "stands_for ps syms \<sigma> t c e2"
    using operand[OF assms(8) w(3,4,7)] by blast
  obtain va vb vc where V: "eval ps syms \<sigma> a = Some va" "eval ps syms \<sigma> b = Some vb" "eval ps syms \<sigma> c = Some vc"
      "v = wrap ps t (if va \<noteq> 0 then vb else vc)" using assms(2) sel by (auto split: Option.bind_splits)
  note P = boolean_pair[OF assms(4) w(5,1) V(1)]
  note R = select_represents[OF wt' ev' e0(2) e1(2) e2(2)]
  have int: "IsPrimitiveInteger (GetPrimType b)" using ity_classes(1) wt_type[OF w(2)] by blast
  note D = FoldTernary_def sel Let_def
  show ?thesis
  proof (cases "const_of (fst p)")
    case (Some c0)
    obtain T where T: "iv64 (mc_value c0)" "eval ps syms \<sigma> (Constval T c0) = Some (iv_num (mc_value c0))" "p = (Constval T c0, None)"
      using const_operand[OF assms(4) Some w(1) ta fits_self] by blast
    then have n: "iv_num (mc_value c0) = va" using P(4) by simp
    have z: "mc_IsZero c0 = Some (va = 0)" using Iv_eq_const[OF T(1)] n by (simp add: mc_IsZero_def)
    have "FoldTernary ps same rec opc t a b c = Some (if \<not> same e0 a \<or> \<not> same e1 b \<or> \<not> same e2 c then Ternary opc t e0 e1 e2
        else if va \<noteq> 0 then e1 else e2, None)"
      using assms(3,5,7) e0(1) e1(1) e2(1) Some z by (simp add: D)
    then show ?thesis using R V(1) sel by auto
  next
    case None
    have rebuild: "\<exists>k. FoldTernary ps same rec opc t a b c = Some k \<and> represents ps syms \<sigma> (Ternary opc t a b c) k"
      if "FoldTernary ps same rec opc t a b c = Some (Ternary opc t e0 e1 e2, None)" using that R(1) sel by simp
    show ?thesis
    proof (cases "const_of (fst q) \<noteq> None \<and> const_of (fst r) \<noteq> None")
      case False
      then show ?thesis using assms(3,5,7) e0(1) e1(1) e2(1) None
        by (intro rebuild) (auto simp: D split: option.splits)
    next
      case True
      then obtain c1 c2 where c: "const_of (fst q) = Some c1" "const_of (fst r) = Some c2" by blast
      obtain T1 where T1: "iv64 (mc_value c1)" "stands_for ps syms \<sigma> t b (Constval T1 c1)"
          "eval ps syms \<sigma> (Constval T1 c1) = Some (iv_num (mc_value c1))"
        using const_operand[OF assms(6) c(1) w(2,4,6)] by blast
      obtain T2 where T2: "iv64 (mc_value c2)" "stands_for ps syms \<sigma> t c (Constval T2 c2)"
          "eval ps syms \<sigma> (Constval T2 c2) = Some (iv_num (mc_value c2))"
        using const_operand[OF assms(8) c(2) w(3,4,7)] by blast
      have n: "wrap ps t (iv_num (mc_value c1)) = wrap ps t vb" "wrap ps t (iv_num (mc_value c2)) = wrap ps t vc"
        using stands_for_value[OF T1(2)] T1(3) stands_for_value[OF T2(2)] T2(3) V(2,3) by (metis option.inject)+
      let ?x1 = "signed_take_bit 63 (iv_num (mc_value c1))" and ?x2 = "signed_take_bit 63 (iv_num (mc_value c2))"
      note X = GetExtValue_0[OF T1(1)] GetExtValue_0[OF T2(1)]
      have one: "vb' = 1 \<Longrightarrow> wrap ps t vb' = 1" "vb' = 0 \<Longrightarrow> wrap ps t vb' = 0" for vb' using wrap_bool[OF w(4)] by auto
      have bv: "va = 0 \<or> va = 1" using eval_bool[OF w(1,5) V(1)] .
      consider (id) "?x1 = 1" "?x2 = 0" | (not) "?x1 = 0" "?x2 = 1" | (other) "\<not> (?x1 = 1 \<and> ?x2 = 0)" "\<not> (?x1 = 0 \<and> ?x2 = 1)" by blast
      then show ?thesis
      proof cases
        case id
        then have "iv_num (mc_value c1) = 1" "iv_num (mc_value c2) = 0"
          using signed_64_eq iv64_num[OF T1(1)] iv64_num[OF T2(1)] by auto
        then have "v = va" using V(4) n one bv by auto
        then have "represents ps syms \<sigma> (Ternary OP_select t a b c) (fst p, None)"
          using P by (intro select_boolean[OF wt' ev']) auto
        then show ?thesis using assms(3,5,7) c None X id P(1) int sel by (simp add: D PairToExpr_None)
      next
        case not
        then have n01: "iv_num (mc_value c1) = 0" "iv_num (mc_value c2) = 1"
          using signed_64_eq iv64_num[OF T1(1)] iv64_num[OF T2(1)] by auto
        obtain d where d: "CreateIntConst ps 0 (GetPrimType a) = Some (Constval (GetPrimType a) d)" "wt ps (Constval (GetPrimType a) d)"
            "iv_num (mc_value d) = 0"
          using CreateIntConst_gives[OF ta, of 0] ta wrap_zero[OF ta] by auto
        let ?n = "Compare OP_eq (GetPrimType a) (GetPrimType a) e0 (Constval (GetPrimType a) d)"
        note S0 = stands_for_shape[OF e0(2)]
        obtain v0 where v0: "eval ps syms \<sigma> e0 = Some v0" "v0 = va" using stands_for_value[OF e0(2)] V(1) w(5) by (metis option.inject)
        have ev: "eval ps syms \<sigma> ?n = Some (truth (va = 0))"
          using v0 d(3) bv wrap_bool[OF ta] wrap_zero[OF ta] by (auto simp: eval_compare_def Let_def)
        have wn: "wt ps ?n" using S0 d(2) ta boolv_type[OF w(1,5)] fits_self[of ps "Constval (GetPrimType a) d"] by auto
        obtain k where k: "rec ?n = Some k" "represents ps syms \<sigma> ?n k"
          using again[OF e0(1) d(1) refl _ wn ev] S0(4) weight_pos[of b] weight_pos[of c] by auto
        note K = boolean_pair[OF k(2) _ wn ev]
        have "v = truth (va = 0)" using V(4) n n01 one bv by (auto simp: truth_def)
        then have "represents ps syms \<sigma> (Ternary OP_select t a b c) (fst k, None)"
          using K S0 weight_pos[of b] weight_pos[of c] by (intro select_boolean[OF wt' ev']) auto
        then show ?thesis using assms(3,5,7) c None X not e0(1) d(1) k(1) K(1) int sel by (simp add: D PairToExpr_None)
      next
        case other
        then show ?thesis using assms(3,5,7) e0(1) e1(1) e2(1) None c X by (intro rebuild) (auto simp: D)
      qed
    qed
  qed
qed

end
