(* ===== verification/Constant_Fold_Binary.thy ===== *)
theory Constant_Fold_Binary
  imports Constant_Fold_Nodes
begin

text \<open>
  The folding of binary operators: every branch of \<open>FoldBinary\<close> with a constant on the left, on the right, on
  both sides or on none returns a pair that represents the node.
\<close>

unbundle bit_operations_syntax

section \<open>Binary operators\<close>

text \<open>The sums of the constant parts, in 64 bits.\<close>

definition sums :: "IntVal option option \<Rightarrow> bool \<Rightarrow> int \<Rightarrow> bool" where
  "sums r none z \<longleftrightarrow> (\<exists>s. r = Some s \<and> (s = None \<longleftrightarrow> none) \<and> (\<forall>v. s = Some v \<longrightarrow> iv64 v \<and> iv_width v = 64) \<and>
     take_bit 64 (sval s) = take_bit 64 z)"

definition sum64 :: "IntVal option \<Rightarrow> bool" where
  "sum64 s \<longleftrightarrow> (\<forall>v. s = Some v \<longrightarrow> iv64 v)"

lemma sum64_simps [simp]: "sum64 None" "sum64 (Some v) \<longleftrightarrow> iv64 v"
  by (simp_all add: sum64_def)

lemma gives_sums:
  assumes "ity ps PTY_i64" "gives ps PTY_i64 r z" "take_bit 64 z = take_bit 64 z'"
  shows "sums (map_option Some r) False z'"
proof -
  obtain v where v: "r = Some v" "typed ps PTY_i64 v" "iv_num v = wrap ps PTY_i64 z" using assms(2) by (auto simp: gives_def)
  have "take_bit 64 (iv_num v) = take_bit 64 z'"
    using v(3) take_bit_wrap[OF assms(1), of 64 z] assms(3) i64_type(1)[of ps] by simp
  then show ?thesis using v typed_iv64[OF assms(1) v(2)] i64_type(1)[of ps] by (auto simp: sums_def typed_def)
qed

lemma opt_arith_sums:
  assumes "ity ps t" "sum64 s1" "sum64 s2"
  shows "sums (opt_plus ps s1 s2) (s1 = None \<and> s2 = None) (sval s1 + sval s2)"
    "sums (opt_minus ps s1 s2) (s1 = None \<and> s2 = None) (sval s1 - sval s2)"
proof -
  note i64 = ity_i64[OF assms(1)]
  note T = gives_sums[OF i64 TruncOrExtend_gives[OF i64]] and R = gives_sums[OF i64 Iv_ring_gives(1)[OF i64]] gives_sums[OF i64 Iv_ring_gives(2)[OF i64]]
  have neg: "sums (do { c \<leftarrow> TruncOrExtend_type ps PTY_i64 v; map_option Some (Iv_neg c) }) False (- iv_num v)" if v: "iv64 v" for v
  proof -
    obtain c where c: "TruncOrExtend_type ps PTY_i64 v = Some c" "typed ps PTY_i64 c" "iv_num c = wrap ps PTY_i64 (iv_num v)"
      using TruncOrExtend_gives[OF i64 v] by (auto simp: gives_def)
    have "sums (map_option Some (Iv_neg c)) False (- iv_num v)"
      by (rule gives_sums[OF i64 Iv_unary_gives(1)[OF i64 c(2)]])
        (use c(3) take_bit_wrap[OF i64, of 64] i64_type(1)[of ps] in \<open>metis order_refl take_bit_minus\<close>)
    then show ?thesis using c(1) by simp
  qed
  show "sums (opt_plus ps s1 s2) (s1 = None \<and> s2 = None) (sval s1 + sval s2)"
    using assms(2,3) by (cases s1; cases s2) (simp_all add: opt_plus_def AddSub_def T R, simp add: sums_def)
  show "sums (opt_minus ps s1 s2) (s1 = None \<and> s2 = None) (sval s1 - sval s2)"
    using assms(2,3) neg by (cases s1; cases s2) (simp_all add: opt_minus_def AddSub_def T R, simp add: sums_def)
qed

lemma opt_times_sums:
  assumes "ity ps t" "iv64 u" "iv64 v"
  shows "sums (opt_times ps (Some u) (Some v)) False (iv_num u * iv_num v)"
  using gives_sums[OF ity_i64[OF assms(1)] Iv_ring_gives(3)[OF ity_i64[OF assms(1)] assms(2,3)]] by (simp add: opt_times_def)

text \<open>A result before its conversion to the type of the operation.\<close>

definition yields :: "nat \<Rightarrow> symbol_types \<Rightarrow> store \<Rightarrow> node \<Rightarrow> fold_pair option \<Rightarrow> bool" where
  "yields ps syms \<sigma> e r \<longleftrightarrow>
     (\<exists>x s v v'. r = Some (x, s) \<and> wt ps x \<and> (boolv e \<longrightarrow> boolv x \<and> s = None) \<and>
       (fits ps (GetPrimType e) x \<or> GetPrimType x = PTY_i32) \<and> sum_ok ps (GetPrimType e) s \<and>
       (nonconst x \<or> const_of x \<noteq> None \<and> s = None) \<and> weight x + (if s = None then 0 else 2) \<le> weight e \<and> (noshr e \<longrightarrow> noshr x) \<and>
       eval ps syms \<sigma> e = Some v \<and> eval ps syms \<sigma> x = Some v' \<and>
       take_bit (bits ps (GetPrimType e)) (v' + sval s) = take_bit (bits ps (GetPrimType e)) v)"

lemma no_cvt_fits: "ity ps t \<Longrightarrow> 32 \<le> bits ps t \<Longrightarrow> IsNoCvtNeeded PTY_i32 t \<Longrightarrow> bits ps t = 32"
  using ity_cases[of ps t] ity_ps[of ps t] by (auto simp: IsNoCvtNeeded_def bits_def prim_eval)

lemma yields_convert:
  assumes "yields ps syms \<sigma> e r" "wt ps e" "e = Binary opc t a b"
  shows "\<exists>q. map_option (\<lambda>(x, s). (cvt_if_needed t x, s)) r = Some q \<and> represents ps syms \<sigma> e q"
proof -
  have ty: "GetPrimType e = t" using assms(3) by simp
  obtain x s v v' where X: "r = Some (x, s)" "wt ps x" "boolv e \<longrightarrow> boolv x \<and> s = None" "fits ps t x \<or> GetPrimType x = PTY_i32"
      "sum_ok ps t s" "nonconst x \<or> const_of x \<noteq> None \<and> s = None" "weight x + (if s = None then 0 else 2) \<le> weight e" "noshr e \<longrightarrow> noshr x"
      "eval ps syms \<sigma> e = Some v" "eval ps syms \<sigma> x = Some v'" "take_bit (bits ps t) (v' + sval s) = take_bit (bits ps t) v"
    using assms(1) unfolding yields_def ty by blast
  have t: "ity ps t" "t = PTY_u1 \<or> 32 \<le> bits ps t" and be: "boolv e \<longleftrightarrow> t = PTY_u1"
    using assms(2,3) by (auto simp: wt_binary_def split: if_splits)
  note tx = wt_type[OF X(2)]
  show ?thesis
  proof (cases "IsNoCvtNeeded (GetPrimType x) t")
    case True
    have "fits ps t x"
    proof (cases "fits ps t x")
      case False
      then have i: "GetPrimType x = PTY_i32" "t \<noteq> PTY_u1" using X(3,4) be by (auto simp: fits_u1)
      then have "bits ps t = 32" using no_cvt_fits[OF t(1)] t(2) True by auto
      then show ?thesis using i by (simp add: fits_def bits_def prim_eval)
    qed
    then show ?thesis using True X by (simp add: represents_def rep_def cvt_if_needed_def ty)
  next
    case False
    let ?y = "TypeCvt OP_cvt t (GetPrimType x) x"
    have "eval ps syms \<sigma> ?y = Some (wrap ps t v')" using X(2,10) eval_range by simp
    moreover have "take_bit (bits ps t) (wrap ps t v' + sval s) = take_bit (bits ps t) v"
      using X(11) take_bit_wrap[OF t(1), of "bits ps t" v'] by (metis order_refl take_bit_cong_add)
    moreover have "wt ps ?y" using X(2,3) t(1) tx be fits_self[of ps x] by auto
    moreover have "fits ps t ?y" using fits_self[of ps ?y] by simp
    ultimately show ?thesis using False X be by (simp add: represents_def rep_def cvt_if_needed_def ty)
  qed
qed

lemma wt_binary_parts:
  assumes "wt ps (Binary opc t a b)"
  shows "wt ps a" "wt ps b" "ity ps t" "fits ps t a" "opc \<notin> {OP_ashr, OP_lshr, OP_shl} \<Longrightarrow> fits ps t b"
    "t \<noteq> PTY_u1 \<Longrightarrow> 32 \<le> bits ps t" "t = PTY_u1 \<Longrightarrow> opc = OP_bxor" "opc = OP_band \<Longrightarrow> noshr a \<and> noshr b" "opc = OP_div \<Longrightarrow> \<not> IsSignedInteger t"
    "opc \<in> {OP_ashr, OP_lshr, OP_shl, OP_add, OP_sub, OP_mul, OP_div, OP_rem, OP_band, OP_bior, OP_bxor}"
  using assms by (auto simp: wt_binary_def fits_u1 split: if_splits)

lemma wt_binary_operands:
  assumes "wt ps (Binary opc t a b)" "wt ps l" "wt ps r" "fits ps t l" "fits ps t b \<longrightarrow> fits ps t r" "noshr a \<longrightarrow> noshr l" "noshr b \<longrightarrow> noshr r"
  shows "wt ps (Binary opc t l r)"
  using assms by (auto simp: wt_binary_def fits_u1 split: if_splits)

lemma yieldsI:
  assumes "eval ps syms \<sigma> (Binary opc t a b) = Some v" "ity ps t" "wt ps x" "fits ps t x" "t = PTY_u1 \<longrightarrow> s = None" "sum_ok ps t s"
    and "nonconst x \<or> const_of x \<noteq> None \<and> s = None" "weight x + (if s = None then 0 else 2) \<le> weight a + weight b + 1"
    and "noshr a \<longrightarrow> noshr b \<longrightarrow> opc \<notin> {OP_ashr, OP_lshr} \<longrightarrow> noshr x" "eval ps syms \<sigma> x = Some v'" "wrap ps t (v' + sval s) = wrap ps t v"
  shows "yields ps syms \<sigma> (Binary opc t a b) (Some (x, s))"
proof -
  have "t = PTY_u1 \<longrightarrow> boolv x" using assms(4) fits_u1 by blast
  then show ?thesis using assms by (simp add: yields_def wrap_eq_iff[OF assms(2)])
qed

lemma binary_operands:
  assumes "wt ps (Binary opc t a b)" "eval ps syms \<sigma> (Binary opc t a b) = Some v"
    "stands_for ps syms \<sigma> t a l" "stands_for ps syms \<sigma> (GetPrimType b) b r" "fits ps t b \<longrightarrow> stands_for ps syms \<sigma> t b r"
  shows "wt ps (Binary opc t l r)" "eval ps syms \<sigma> (Binary opc t l r) = Some v"
    "represents ps syms \<sigma> (Binary opc t a b) (Binary opc t l r, None)" "yields ps syms \<sigma> (Binary opc t a b) (Some (Binary opc t l r, None))"
proof -
  note W = wt_binary_parts[OF assms(1)]
  obtain va vl where A: "eval ps syms \<sigma> a = Some va" "eval ps syms \<sigma> l = Some vl" "wrap ps t vl = wrap ps t va"
    using stands_for_value[OF assms(3)] by metis
  obtain vb vr where B: "eval ps syms \<sigma> b = Some vb" "eval ps syms \<sigma> r = Some vr" "0 \<le> vb \<and> vb < 64 \<longrightarrow> vr = vb"
    using stands_for_value[OF assms(4)] by metis
  note S = stands_for_shape[OF assms(3)] stands_for_shape[OF assms(4)]
  have ev: "eval_binary ps opc t va vb = Some v" using assms(2) A B by simp
  show w: "wt ps (Binary opc t l r)"
    by (rule wt_binary_operands[OF assms(1)]) (use S stands_for_shape(2)[of ps syms \<sigma> t b r] assms(5) in auto)
  have "eval_binary ps opc t vl vr = Some v"
  proof (cases "opc \<in> {OP_ashr, OP_lshr, OP_shl}")
    case True
    then have "0 \<le> vb \<and> vb < 64" using ev ity_bits[OF W(3)] by (auto simp: eval_binary_def eval_shift_def Let_def split: if_splits)
    then show ?thesis using B(3) ev eval_shift_cong[OF W(3) A(3) True] by simp
  next
    case False
    then have "wrap ps t vr = wrap ps t vb" using assms(5) W(5) B(1,2) stands_for_value[of ps syms \<sigma> t b r] by (metis option.inject)
    then show ?thesis using ev eval_binary_cong[OF W(3) A(3), of vr vb opc] W(10) False by auto
  qed
  then show e: "eval ps syms \<sigma> (Binary opc t l r) = Some v" using A B by simp
  then show "represents ps syms \<sigma> (Binary opc t a b) (Binary opc t l r, None)"
    using w S by (intro represents_same_type[OF assms(2)]) auto
  show "yields ps syms \<sigma> (Binary opc t a b) (Some (Binary opc t l r, None))"
    using w e S fits_self[of ps "Binary opc t l r"] by (intro yieldsI[OF assms(2) W(3)]) auto
qed

lemma binary_folded:
  assumes "wt ps (Binary opc t a b)" "represents ps syms \<sigma> a lp" "represents ps syms \<sigma> b rp"
  obtains l r where "PairToExpr ps (GetPrimType a) lp = Some l" "PairToExpr ps (GetPrimType b) rp = Some r"
    "stands_for ps syms \<sigma> t a l" "stands_for ps syms \<sigma> (GetPrimType b) b r" "fits ps t b \<longrightarrow> stands_for ps syms \<sigma> t b r"
proof -
  note W = wt_binary_parts[OF assms(1)]
  show thesis
    using that operand[OF assms(2) W(1,3,4)] operand[OF assms(3) W(2) wt_type[OF W(2)] fits_self] operand[OF assms(3) W(2,3)]
    by (metis option.inject)
qed

text \<open>Constants in the place of another of the same type.\<close>

lemma const_fits:
  assumes "fits ps t (Constval T c)" "iv_num (mc_value d) \<in> {0, 1}"
  shows "fits ps t (Constval T d)"
  using assms by (auto simp: fits_def)

lemma int_const_pair_gives:
  assumes "ity ps T"
  shows "\<exists>d. int_const_pair ps (word_of_int z) T = Some (Constval T d, None) \<and> wt ps (Constval T d) \<and> iv_num (mc_value d) = wrap ps T z"
  using CreateIntConst_gives[OF assms, of z] assms by (auto simp: int_const_pair_def)

lemma yields_small_const:
  assumes "eval ps syms \<sigma> (Binary opc t a b) = Some v" "ity ps t" "wt ps (Constval T c)" "fits ps t (Constval T c)"
    and "z \<in> {0, 1}" "v = z"
  shows "yields ps syms \<sigma> (Binary opc t a b) (int_const_pair ps (word_of_int z) T)"
proof -
  have T: "ity ps T" using assms(3) by simp
  obtain d where d: "int_const_pair ps (word_of_int z) T = Some (Constval T d, None)" "wt ps (Constval T d)" "iv_num (mc_value d) = z"
    using int_const_pair_gives[OF T, of z] wrap_bool[OF T, of z] assms(5) by auto
  have "fits ps t (Constval T d)" using const_fits[OF assms(4)] d(3) assms(5) by simp
  then show ?thesis using d(1,2,3) assms(5,6) wrap_bool[OF T, of z] unfolding d(1)
    by (intro yieldsI[OF assms(1,2)]) auto
qed

lemma minus_one_type:
  assumes "wt ps (Constval T c)" "fits ps t (Constval T c)" "signed_take_bit 63 (iv_num (mc_value c)) = - 1"
  shows "t \<noteq> PTY_u1" "bits ps T = bits ps t"
proof -
  have "iv_num (mc_value c) \<noteq> 0" "iv_num (mc_value c) \<noteq> 1" using assms(3) by (auto simp: signed_64_range)
  moreover have "iv_num (mc_value c) = 0 \<or> iv_num (mc_value c) = 1" if "T = PTY_u1"
  proof -
    have "wrap ps T (iv_num (mc_value c)) = iv_num (mc_value c)" "ity ps T" using assms(1) typed_num[of ps T] by auto
    then have "0 \<le> iv_num (mc_value c)" "iv_num (mc_value c) < 2" using that by (auto simp: wrap_range u1_unsigned bits_u1)
    then show ?thesis by auto
  qed
  ultimately have "\<not> boolv (Constval T c)" by auto
  then show "t \<noteq> PTY_u1" "bits ps T = bits ps t" using assms(2) by (auto simp: fits_def)
qed

lemma wrap_minus_one_cong:
  assumes "ity ps t" "signed_take_bit 63 z = - 1"
  shows "wrap ps t z = wrap ps t (- 1)"
proof -
  have "take_bit 64 z = take_bit 64 (- 1)" using assms(2) signed_take_bit_eq_iff_take_bit_eq[of 63 z "- 1"] by simp
  then show ?thesis using ity_bits[OF assms(1)] by (intro wrap_congI[OF assms(1)]) auto
qed

lemma yields_minus_one:
  assumes "eval ps syms \<sigma> (Binary opc t a b) = Some v" "ity ps t" "wt ps (Constval T c)" "fits ps t (Constval T c)"
    and "signed_take_bit 63 (iv_num (mc_value c)) = - 1" "wrap ps t v = wrap ps t (- 1)"
  shows "yields ps syms \<sigma> (Binary opc t a b) (int_const_pair ps (- 1) T)"
proof -
  have T: "ity ps T" "bits ps T = bits ps t" "t \<noteq> PTY_u1" using assms(3) minus_one_type[OF assms(3-5)] by auto
  obtain d where d: "int_const_pair ps (word_of_int (- 1)) T = Some (Constval T d, None)" "wt ps (Constval T d)"
      "iv_num (mc_value d) = wrap ps T (- 1)" using int_const_pair_gives[OF T(1), of "- 1"] by blast
  have "wrap ps t (wrap ps T (- 1)) = wrap ps t (- 1)" using wrap_narrow[OF assms(2) T(1)] T(2) by simp
  then show ?thesis using d T assms(6) wrap_wrap[OF T(1)]
    by (simp, intro yieldsI[OF assms(1,2), where v' = "wrap ps T (- 1)"]) (auto simp: fits_def)
qed

lemma yields_else_if:
  assumes "c = Some q" "q \<Longrightarrow> yields ps syms \<sigma> e r" "\<not> q \<Longrightarrow> yields ps syms \<sigma> e (else_if xs d)"
  shows "yields ps syms \<sigma> e (else_if ((c, r) # xs) d)"
  using assms by simp

lemma andm_Some: "m = Some q \<Longrightarrow> andm p m = Some (p \<and> q)"
  by (simp add: andm_def)

lemma sums_obtain:
  assumes "sums r none z" "32 \<le> bits ps t" "ity ps t"
  obtains s where "r = Some s" "s = None \<longleftrightarrow> none" "sum_ok ps t s" "wrap ps t (x + sval s) = wrap ps t (x + z)"
proof -
  obtain s where s: "r = Some s" "s = None \<longleftrightarrow> none" "\<forall>v. s = Some v \<longrightarrow> iv64 v \<and> iv_width v = 64" "take_bit 64 (sval s) = take_bit 64 z"
    using assms(1) by (auto simp: sums_def)
  have "sum_ok ps t s" using s(3) assms(2) ity_bits[OF assms(3)] by (cases s) auto
  moreover have "wrap ps t (x + sval s) = wrap ps t (x + z)"
    using ity_bits[OF assms(3)] s(4) by (intro wrap_congI[OF assms(3), of 64]) (metis take_bit_add, simp)
  ultimately show thesis using that s by blast
qed

text \<open>A folded operand that is not a constant.\<close>

definition folded :: "nat \<Rightarrow> symbol_types \<Rightarrow> store \<Rightarrow> PrimType \<Rightarrow> node \<Rightarrow> int \<Rightarrow> node \<Rightarrow> IntVal option \<Rightarrow> int \<Rightarrow> bool" where
  "folded ps syms \<sigma> t a va x s vx \<longleftrightarrow>
     eval ps syms \<sigma> a = Some va \<and> eval ps syms \<sigma> x = Some vx \<and> wrap ps t (vx + sval s) = wrap ps t va \<and> wt ps x \<and> fits ps t x \<and>
     (boolv a \<longrightarrow> boolv x \<and> s = None) \<and> weight x + (if s = None then 0 else 2) \<le> weight a \<and> (noshr a \<longrightarrow> noshr x) \<and> nonconst x \<and>
     sum_ok ps t s"

lemma folded_pair:
  assumes "represents ps syms \<sigma> a (x, s)" "wt ps a" "ity ps t" "fits ps t a" "const_of x = None"
  obtains va vx where "folded ps syms \<sigma> t a va x s vx"
proof -
  have "\<exists>va vx. folded ps syms \<sigma> t a va x s vx"
    using pair_operand[OF assms(1-4)] assms(5) unfolding folded_def sum_ok_def by (cases s) auto
  then show thesis using that by blast
qed

lemma nonconst_no_const: "nonconst x \<Longrightarrow> const_of x = None"
  by (cases x) auto

lemma foldedD:
  assumes "folded ps syms \<sigma> t a va x s vx"
  shows "eval ps syms \<sigma> a = Some va" "eval ps syms \<sigma> x = Some vx" "wrap ps t (vx + sval s) = wrap ps t va" "wt ps x" "fits ps t x"
    "boolv a \<longrightarrow> boolv x \<and> s = None" "weight x + (if s = None then 0 else 2) \<le> weight a" "noshr a \<longrightarrow> noshr x" "nonconst x" "sum_ok ps t s"
    "sum64 s" "const_of x = None"
  using assms nonconst_no_const[of x] by (auto simp: folded_def sum64_def)

lemma eval_binary_values:
  assumes "ity ps t"
  shows "eval_binary ps OP_add t x y = Some (wrap ps t (x + y))" "eval_binary ps OP_sub t x y = Some (wrap ps t (x - y))"
    "eval_binary ps OP_mul t x y = Some (wrap ps t (x * y))" "eval_binary ps OP_band t x y = Some (wrap ps t (x AND y))"
    "eval_binary ps OP_bior t x y = Some (wrap ps t (x OR y))" "eval_binary ps OP_bxor t x y = Some (wrap ps t (x XOR y))"
  by (simp_all add: eval_binary_def Let_def wrap_arith[OF assms] wrap_bitwise[OF assms])

lemma wrap_cong:
  assumes "ity ps t" "wrap ps t x = wrap ps t x'" "wrap ps t y = wrap ps t y'"
  shows "wrap ps t (x + y) = wrap ps t (x' + y')" "wrap ps t (x - y) = wrap ps t (x' - y')" "wrap ps t (x * y) = wrap ps t (x' * y')"
    "wrap ps t (x AND y) = wrap ps t (x' AND y')" "wrap ps t (x OR y) = wrap ps t (x' OR y')" "wrap ps t (x XOR y) = wrap ps t (x' XOR y')"
  using assms(2,3) unfolding wrap_eq_iff[OF assms(1)] by (metis take_bit_add take_bit_diff take_bit_mult take_bit_and take_bit_or take_bit_xor)+

text \<open>The pair of one operand is the result, or another constant part is added to its node.\<close>

lemma yields_keep:
  assumes "folded ps syms \<sigma> t c vc x s vx" "c = a \<or> c = b" "wt ps (Binary opc t a b)" "eval ps syms \<sigma> (Binary opc t a b) = Some v" "wrap ps t v = wrap ps t vc"
  shows "yields ps syms \<sigma> (Binary opc t a b) (Some (x, s))"
proof -
  note F = foldedD[OF assms(1)] and W = wt_binary_parts[OF assms(3)]
  have "t = PTY_u1 \<longrightarrow> s = None" using F(10) bits_u1[of ps] by (auto simp: sum_ok_def split: option.splits)
  then show ?thesis using F assms(2,5) by (intro yieldsI[OF assms(4) W(3)]) auto
qed

lemma yields_sum:
  assumes "folded ps syms \<sigma> t c vc x s vx" "c = a \<or> c = b" "wt ps (Binary opc t a b)" "eval ps syms \<sigma> (Binary opc t a b) = Some v"
    and "opc \<noteq> OP_bxor" "sums r none z" "wrap ps t v = wrap ps t (vx + z)"
  shows "yields ps syms \<sigma> (Binary opc t a b) (do { sum \<leftarrow> r; Some (x, sum) })"
proof -
  note F = foldedD[OF assms(1)] and W = wt_binary_parts[OF assms(3)]
  have u: "t \<noteq> PTY_u1" using W(7) assms(5) by blast
  obtain s' where s': "r = Some s'" "sum_ok ps t s'" "wrap ps t (vx + sval s') = wrap ps t (vx + z)"
    using sums_obtain[OF assms(6) W(6)[OF u] W(3)] by metis
  have "weight x + 2 \<le> weight a + weight b + 1" using F(7) weight_pos[of a] weight_pos[of b] assms(2) by (auto split: if_splits)
  then show ?thesis using F s' assms(2,7) u by (simp, intro yieldsI[OF assms(4) W(3)]) auto
qed

lemma widen_i32_value:
  assumes "ity ps t" "32 \<le> bits ps t" "wt ps x" "fits ps t x" "eval ps syms \<sigma> x = Some vx"
  shows "wt ps (widen_i32 ps t x)" "fits ps t (widen_i32 ps t x)" "eval ps syms \<sigma> (widen_i32 ps t x) = Some vx"
    "weight (widen_i32 ps t x) = weight x" "noshr (widen_i32 ps t x) = noshr x"
    "widen_i32 ps t x = x \<or> neg_opnd (widen_i32 ps t x) = None"
proof -
  note tx = wt_type[OF assms(3)]
  have b: "boolv x" if "GetPrimTypeSize ps t > GetPrimTypeSize ps (GetPrimType x)"
    using assms(4) that ity_size_eq[OF assms(1) tx] boolv_u1[of x] wide_not_u1[OF assms(2)] by (cases "GetPrimType x = PTY_u1") (auto simp: fits_def)
  have v: "vx = 0 \<or> vx = 1" if "boolv x" using eval_bool[OF assms(3) that assms(5)] .
  show "wt ps (widen_i32 ps t x)"
    using assms b ity_i32[OF assms(1)] fits_bool[of x] wide_not_u1[OF assms(2)] by (auto simp: widen_i32_def)
  show "fits ps t (widen_i32 ps t x)" using assms(4) fits_self[of ps "TypeCvt OP_cvt t PTY_i32 x"] by (auto simp: widen_i32_def)
  show "eval ps syms \<sigma> (widen_i32 ps t x) = Some vx"
    using assms(5) b v wrap_bool[OF assms(1)] wrap_bool[OF ity_i32[OF assms(1)]] by (auto simp: widen_i32_def)
qed (simp_all add: widen_i32_def)

lemma product_sum:
  assumes "wrap ps t (vx + s) = wrap ps t vb" "wrap ps t c = wrap ps t va" "ity ps t"
  shows "wrap ps t (wrap ps t (c * vx) + c * s) = wrap ps t (va * vb)"
proof -
  have "wrap ps t (wrap ps t (c * vx) + c * s) = wrap ps t (c * (vx + s))"
    by (simp add: wrap_arith[OF assms(3)] distrib_left)
  also have "\<dots> = wrap ps t (wrap ps t c * wrap ps t (vx + s))" by (simp add: wrap_arith[OF assms(3)])
  finally show ?thesis using assms by (simp add: wrap_arith[OF assms(3)])
qed

text \<open>The constant operand on the left.\<close>

lemma NegateTree_cvt: "NegateTree (TypeCvt opc t f x) = Some (Unary OP_neg t (TypeCvt opc t f x))"
  by simp

lemma lconst_negated:
  assumes "folded ps syms \<sigma> t b vb r s vr" "wt ps b" "ity ps t" "32 \<le> bits ps t" "fits ps t b" "GetPrimType r \<noteq> PTY_u1"
  obtains y vy where "NegateTree (if GetPrimTypeSize ps (GetPrimType b) < GetPrimTypeSize ps t then TypeCvt OP_cvt t (GetPrimType b) r else r) = Some y"
    "wt ps y" "fits ps t y \<or> GetPrimType y = PTY_i32" "nonconst y" "eval ps syms \<sigma> y = Some vy" "wrap ps t vy = wrap ps t (- vr)"
    "weight y = weight r" "noshr y = noshr r"
proof -
  note F = foldedD[OF assms(1)] and tb = wt_type[OF assms(2)]
  note u1 = wide_not_u1[OF assms(4)]
  show thesis
  proof (cases "GetPrimTypeSize ps (GetPrimType b) < GetPrimTypeSize ps t")
    case True
    then have "boolv b" using assms(5) ity_size_eq[OF assms(3) tb u1] boolv_u1[of b]
      by (cases "GetPrimType b = PTY_u1") (auto simp: fits_def)
    then have r: "boolv r" using F(6) by blast
    then have v: "vr = 0 \<or> vr = 1" using eval_bool[OF F(4) _ F(2)] by blast
    let ?y = "Unary OP_neg t (TypeCvt OP_cvt t (GetPrimType b) r)"
    show thesis
    proof (rule that[of ?y])
      show "wt ps ?y" using F(4) tb assms(3) u1 fits_bool[OF r] fits_self[of ps "TypeCvt OP_cvt t (GetPrimType b) r"] by simp
      show "eval ps syms \<sigma> ?y = Some (wrap ps t (- vr))"
        using F(2) v wrap_bool[OF assms(3)] wrap_bool[OF tb] by (auto simp: eval_unary_def)
    qed (use True fits_self[of ps ?y] wrap_wrap[OF assms(3)] in auto)
  next
    case False
    from F(12) show thesis
    proof (cases rule: NegateTree_cases)
      case (1 T y)
      then have y: "wt ps y" "ity ps T" "T \<noteq> PTY_u1" "fits ps T y" "nonconst y" "bits ps T = bits ps t"
        using F(4,5,9) by (auto simp: fits_def)
      obtain vy where vy: "eval ps syms \<sigma> y = Some vy" "vr = wrap ps T (- vy)"
        using F(2) 1(1) by (auto simp: eval_unary_def split: Option.bind_splits)
      have "wrap ps t (- vr) = wrap ps t (- wrap ps t vr)" by (simp add: wrap_arith[OF assms(3)])
      also have "wrap ps t vr = wrap ps t (- vy)" using vy(2) wrap_narrow[OF assms(3) y(2)] y(6) by simp
      finally have "wrap ps t vy = wrap ps t (- vr)" by (simp add: wrap_arith[OF assms(3)])
      then show thesis using that[of y vy] False 1 y vy(1) u1 by (auto simp: fits_def)
    next
      case 2
      let ?y = "Unary OP_neg (GetPrimType r) r"
      note tr = wt_type[OF F(4)]
      consider "bits ps (GetPrimType r) = bits ps t" | "boolv r" using F(5) by (auto simp: fits_def)
      then have "(fits ps t ?y \<or> GetPrimType r = PTY_i32) \<and> wrap ps t (wrap ps (GetPrimType r) (- vr)) = wrap ps t (- vr)"
      proof cases
        case b: 1
        then show ?thesis using u1 wrap_narrow[OF assms(3) tr] by (simp add: fits_def)
      next
        case b: 2
        then have i: "GetPrimType r = PTY_i32" using boolv_type[OF F(4)] assms(6) by blast
        have "vr = 0 \<or> vr = 1" using eval_bool[OF F(4) b F(2)] .
        then have "wrap ps PTY_i32 (- vr) = - vr" using ity_i32[OF assms(3)] by (auto simp: wrap_range bits_def prim_eval)
        then show ?thesis using i by simp
      qed
      then show thesis using that[of ?y "wrap ps (GetPrimType r) (- vr)"] False 2 F(2,4,9) tr assms(6) fits_self[of ps r]
        by (simp add: eval_unary_def)
    qed
  qed
qed

lemma lconst_sub_yields:
  assumes "wt ps (Binary OP_sub t a b)" "eval ps syms \<sigma> (Binary OP_sub t a b) = Some v" "folded ps syms \<sigma> t b vb r s vr"
    "eval ps syms \<sigma> a = Some va" "iv64 c" "wrap ps t (iv_num c) = wrap ps t va" "GetPrimType r \<noteq> PTY_u1"
  shows "yields ps syms \<sigma> (Binary OP_sub t a b) (do {
     sum \<leftarrow> opt_minus ps (Some c) s;
     e \<leftarrow> NegateTree (if GetPrimTypeSize ps (GetPrimType b) < GetPrimTypeSize ps t then TypeCvt OP_cvt t (GetPrimType b) r else r);
     Some (e, sum)
   })"
proof -
  note F = foldedD[OF assms(3)] and W = wt_binary_parts[OF assms(1)]
  have t: "t \<noteq> PTY_u1" "32 \<le> bits ps t" "fits ps t b" using W(5-7) by auto
  obtain y vy where y: "NegateTree (if GetPrimTypeSize ps (GetPrimType b) < GetPrimTypeSize ps t then TypeCvt OP_cvt t (GetPrimType b) r else r) = Some y"
    "wt ps y" "fits ps t y \<or> GetPrimType y = PTY_i32" "nonconst y" "eval ps syms \<sigma> y = Some vy" "wrap ps t vy = wrap ps t (- vr)"
    "weight y = weight r" "noshr y = noshr r"
    using lconst_negated[OF assms(3) W(2,3) t(2,3) assms(7)] by blast
  obtain s' where s': "opt_minus ps (Some c) s = Some s'" "sum_ok ps t s'" "wrap ps t (vy + sval s') = wrap ps t (vy + (iv_num c - sval s))"
    using sums_obtain[OF opt_arith_sums(2)[OF W(3), of "Some c" s] t(2) W(3)] F(11) assms(5) by (metis sum64_simps(2) sval_simps(2))
  have "wrap ps t (vy + (iv_num c - sval s)) = wrap ps t (wrap ps t vy + (iv_num c - sval s))" by (simp add: wrap_arith[OF W(3)])
  also have "\<dots> = wrap ps t (- vr + (iv_num c - sval s))" using y(6) by (simp add: wrap_arith[OF W(3)])
  also have "- vr + (iv_num c - sval s) = iv_num c - (vr + sval s)" by simp
  also have "wrap ps t \<dots> = wrap ps t (wrap ps t (iv_num c) - wrap ps t (vr + sval s))" by (simp add: wrap_arith[OF W(3)])
  also have "\<dots> = wrap ps t (va - vb)" using assms(6) F(3) by (simp add: wrap_arith[OF W(3)])
  also have "\<dots> = v" using assms(2,4) F(1) eval_binary_values(2)[OF W(3)] by simp
  finally have "take_bit (bits ps t) (vy + sval s') = take_bit (bits ps t) v"
    using s'(3) take_bit_wrap[OF W(3), of "bits ps t"] by (metis order_refl)
  moreover have "weight y + 2 \<le> weight a + weight b + 1" using F(7) y(7) weight_pos[of a] by (auto split: if_splits)
  ultimately show ?thesis using y s'(1,2) F(8) t(1) assms(2) by (simp add: yields_def)
qed

lemma eval_binary_zero:
  assumes "ity ps t" "wrap ps t x = 0" "eval_binary ps opc t x y = Some v" "opc \<in> {OP_mul, OP_div, OP_rem, OP_ashr, OP_lshr, OP_shl, OP_band}"
  shows "v = 0"
  using assms(4,3,2) wrap_zero[OF assms(1)]
  by (elim insertE emptyE) (auto simp: eval_binary_def eval_shift_def Let_def split: if_splits)

lemma overflow_test_defined:
  assumes "ity ps T" "iv64 c" "sum64 s"
  shows "\<exists>q. (case s of None \<Rightarrow> Some False
      | Some s \<Rightarrow> andm p (do { x \<leftarrow> GetExtValue 0 c; y \<leftarrow> GetExtValue 0 s; IntegerOpIsOverflow ps opc T x y })) = Some q"
    and "\<exists>q. (case s of None \<Rightarrow> Some False
      | Some s \<Rightarrow> do { x \<leftarrow> GetExtValue 0 s; y \<leftarrow> GetExtValue 0 c; IntegerOpIsOverflow ps opc T x y }) = Some q"
  using assms IntegerOpIsOverflow_defined[OF assms(1)] GetExtValue_0[OF assms(2)] GetExtValue_0
  by (cases s; auto simp: andm_def)+

lemma represents_sum64: "represents ps syms \<sigma> b (r, s) \<Longrightarrow> sum64 s"
  by (auto simp: represents_def rep_def sum64_def)

lemma opt_is_zero_value: "sum64 s \<Longrightarrow> opt_is_zero s = Some (sval s = 0)"
  by (cases s) (simp_all add: opt_is_zero_def Iv_eq_const)

lemma yields_product:
  assumes "wt ps (Binary OP_mul t a b)" "eval ps syms \<sigma> (Binary OP_mul t a b) = Some v" "folded ps syms \<sigma> t x vx y s vy" "x = a \<or> x = b"
    and "sums r False (n * sval s)" "wrap ps t v = wrap ps t (n * vx)" "s \<noteq> None"
    and "wt ps (Binary OP_mul t l u)" "eval ps syms \<sigma> (Binary OP_mul t l u) = Some (wrap ps t (n * vy))" "weight l + weight u = weight y + 1"
      "noshr y \<longrightarrow> noshr l \<and> noshr u"
  shows "yields ps syms \<sigma> (Binary OP_mul t a b) (do { sum \<leftarrow> r; Some (Binary OP_mul t l u, sum) })"
proof -
  note F = foldedD[OF assms(3)] and W = wt_binary_parts[OF assms(1)]
  have t: "t \<noteq> PTY_u1" "32 \<le> bits ps t" using W(6,7) by auto
  obtain s' where s': "r = Some s'" "s' \<noteq> None" "sum_ok ps t s'"
      "wrap ps t (wrap ps t (n * vy) + sval s') = wrap ps t (wrap ps t (n * vy) + n * sval s)"
    using sums_obtain[OF assms(5) t(2) W(3)] by metis
  have "wrap ps t (wrap ps t (n * vy) + sval s') = wrap ps t v"
    using s'(4) product_sum[OF F(3) refl W(3)] assms(6) by simp
  moreover have "weight (Binary OP_mul t l u) + 2 \<le> weight a + weight b + 1"
    using F(7) assms(4,7,10) weight_pos[of a] weight_pos[of b] by auto
  ultimately show ?thesis
    using s'(1-3) assms(4,8,9,11) F(8) t(1) fits_self[of ps "Binary OP_mul t l u"]
    by (simp, intro yieldsI[OF assms(2) W(3)]) auto
qed

lemma FoldBinary_lconst_yields:
  assumes wt: "wt ps (Binary opc t a b)" and ev: "eval ps syms \<sigma> (Binary opc t a b) = Some v"
    and A: "represents ps syms \<sigma> a (Constval T c, None)" and B: "represents ps syms \<sigma> b (r, s)" and nc: "const_of r = None"
  shows "yields ps syms \<sigma> (Binary opc t a b) (FoldBinary_lconst ps opc t (GetPrimType b) (Constval T c) c (r, s))"
proof -
  note W = wt_binary_parts[OF wt]
  let ?n = "iv_num (mc_value c)" and ?e = "Binary opc t a b"
  have C: "iv64 (mc_value c)" "stands_for ps syms \<sigma> t a (Constval T c)" "eval ps syms \<sigma> (Constval T c) = Some ?n"
    using const_operand[OF A _ W(1,3,4)] by auto
  have cw: "wt ps (Constval T c)" "fits ps t (Constval T c)" "ity ps T" and ty: "mc_type c = T" using stands_for_shape[OF C(2)] by auto
  obtain va where va: "eval ps syms \<sigma> a = Some va" "wrap ps t ?n = wrap ps t va"
    using stands_for_value[OF C(2)] C(3) by (metis option.inject)
  obtain vb where vb: "eval ps syms \<sigma> b = Some vb" "eval_binary ps opc t va vb = Some v" using ev va(1) by (auto split: Option.bind_splits)
  obtain vr where F: "folded ps syms \<sigma> t b vb r s vr" if "opc \<notin> {OP_ashr, OP_lshr, OP_shl}"
    using folded_pair[OF B W(2,3) W(5) nc] vb(1) foldedD(1) by (metis option.inject)
  obtain e where e: "PairToExpr ps (GetPrimType b) (r, s) = Some e" "stands_for ps syms \<sigma> (GetPrimType b) b e" "fits ps t b \<longrightarrow> stands_for ps syms \<sigma> t b e"
    using binary_folded[OF wt A B] by metis
  have rebuild: "yields ps syms \<sigma> ?e (do { e \<leftarrow> PairToExpr ps (GetPrimType b) (r, s); Some (Binary opc t (Constval T c) e, None) })"
    using binary_operands(4)[OF wt ev C(2) e(2,3)] e(1) by simp
  have m1: "Iv_eq_int (mc_value c) (- 1) = Some (signed_take_bit 63 ?n = - 1)" using Iv_eq_int_iff[OF C(1)] .
  have rv: "wrap ps t v = v" using eval_range[OF wt ev] by simp
  have s64: "sum64 s" by (rule represents_sum64[OF B])
  have NZ: "map_option Not (opt_is_zero s) = Some (sval s \<noteq> 0)" "map_option Not (Iv_eq_int (mc_value c) 0) = Some (?n \<noteq> 0)"
    using opt_is_zero_value[OF s64] Iv_eq_const[OF C(1)] by simp_all
  note Z = Iv_eq_const[OF C(1)] and E = eval_binary_values[OF W(3)]
  show ?thesis unfolding FoldBinary_lconst_def Let_def fst_conv snd_conv ty
    apply (rule yields_else_if[OF refl])
    subgoal premises p
    proof -
      have F': "folded ps syms \<sigma> t b vb r s vr" using F p by simp
      have "sums (opt_plus ps (Some (mc_value c)) s) False (?n + sval s)"
        using opt_arith_sums(1)[OF W(3), of "Some (mc_value c)" s] C(1) foldedD(11)[OF F'] by simp
      moreover have "wrap ps t v = wrap ps t (vr + (?n + sval s))"
        using vb(2) p wrap_cong(1)[OF W(3) va(2) foldedD(3)[OF F']] E(1) rv by (simp add: add.left_commute)
      ultimately show ?thesis
        using overflow_test_defined(1)[OF cw(3) C(1) foldedD(11)[OF F'], of "IsSignedInteger T" OP_add] rebuild
          yields_sum[OF F' _ wt ev, of "opt_plus ps (Some (mc_value c)) s" False "?n + sval s"] p by auto
    qed
    apply (rule yields_else_if[OF refl])
    subgoal premises p
      using lconst_sub_yields[of ps t a b syms \<sigma> v vb r s vr va "mc_value c"] wt ev F va C(1) p by simp
    apply (rule yields_else_if[OF andm_Some[OF Z(1)]])
    subgoal premises p
    proof -
      have "v = 0" using eval_binary_zero[OF W(3) _ vb(2)] va(2) wrap_zero[OF W(3)] W(10) p by auto
      then show ?thesis using yields_small_const[OF ev W(3) cw(1,2), of 0] by simp
    qed
    apply (rule yields_else_if[OF andm_Some[OF Z(2)]])
    subgoal premises p
      by (rule yields_keep[OF F _ wt ev])
        (use p vb(2) wrap_cong(3)[OF W(3) va(2) refl, of vb] E(3) wrap_wrap[OF W(3)] in auto)
    apply (rule yields_else_if[OF andm_Some[OF m1]])
    subgoal premises p
      by (rule yields_minus_one[OF ev W(3) cw(1,2)])
        (use p vb(2) wrap_cong(5)[OF W(3) va(2) refl, of vb] E(5) wrap_cong(5)[OF W(3) wrap_minus_one_cong[OF W(3), of ?n, folded va(2), symmetric] refl, of vb] wrap_wrap[OF W(3)] in auto)
    apply (rule yields_else_if[OF andm_Some[OF NZ(1)]])
    subgoal premises p
    proof -
      have F': "folded ps syms \<sigma> t b vb r s vr" using F p by simp
      have t: "32 \<le> bits ps t" using W(6,7) p by auto
      note X = widen_i32_value[OF W(3) t foldedD(4,5,2)[OF F']]
      obtain u where u: "s = Some u" "iv64 u" using p s64 by auto
      have op: "opc = OP_mul" using p by simp
      have N: "wt ps (Binary OP_mul t (Constval T c) (widen_i32 ps t r))"
        using X(1,2) cw(1,2) t W(3) wide_not_u1[OF t] by (simp add: wt_binary_def)
      have "yields ps syms \<sigma> (Binary OP_mul t a b) (do { sum \<leftarrow> opt_times ps (Some (mc_value c)) s; Some (Binary OP_mul t (Constval T c) (widen_i32 ps t r), sum) })"
        using wt ev F' u op opt_times_sums[OF W(3) C(1) u(2)] X(3-5) C(3) N E(3) vb(2) wrap_cong(3)[OF W(3) va(2) refl, of vb] rv
        by (intro yields_product[of ps t a b syms \<sigma> v b vb r s vr _ ?n]) auto
      then show ?thesis using op by simp
    qed
    apply (rule yields_else_if[OF refl])
    subgoal premises p
      using p W(10) by auto
    apply (rule yields_else_if[OF andm_Some[OF NZ(2)]])
    subgoal premises p
      using p W(10) by auto
    apply (rule yields_else_if[OF andm_Some[OF Z(1)]])
    subgoal premises p
      by (rule yields_keep[OF F _ wt ev])
        (use p vb(2) wrap_cong(5,6)[OF W(3) va(2) refl, of vb] E(5,6) rv in auto)
    using rebuild by simp
qed

text \<open>The constant operand on the right.\<close>

lemma rconst_product:
  assumes wt: "wt ps (Binary OP_mul t a b)" and ev: "eval ps syms \<sigma> (Binary OP_mul t a b) = Some v"
    and F: "folded ps syms \<sigma> t a va l s vl" and s: "s = Some u" "iv64 u" and c: "iv64 (mc_value c)" "wt ps (Constval T c)" "fits ps t (Constval T c)"
    and n: "wrap ps t v = wrap ps t (iv_num (mc_value c) * va)"
  shows "yields ps syms \<sigma> (Binary OP_mul t a b) (do {
     sum \<leftarrow> opt_times ps s (Some (mc_value c));
     m \<leftarrow> Iv_eq_int (mc_value c) (- 1);
     (case (m, neg_opnd (widen_i32 ps t l)) of
        (True, Some x) \<Rightarrow> Some (x, sum)
      | _ \<Rightarrow> Some (Binary OP_mul t (widen_i32 ps t l) (Constval T c), sum))
   })"
proof -
  let ?n = "iv_num (mc_value c)" and ?e = "Binary OP_mul t a b"
  note W = wt_binary_parts[OF wt] and D = foldedD[OF F]
  have t: "t \<noteq> PTY_u1" "32 \<le> bits ps t" using W(6,7) by auto
  note X = widen_i32_value[OF W(3) t(2) D(4,5,2)]
  have S: "sums (opt_times ps s (Some (mc_value c))) False (?n * sval s)"
    using opt_times_sums[OF W(3) s(2) c(1)] s(1) by (simp add: mult.commute)
  have m: "Iv_eq_int (mc_value c) (- 1) = Some (signed_take_bit 63 ?n = - 1)" using Iv_eq_int_iff[OF c(1)] .
  show ?thesis
  proof (cases "signed_take_bit 63 ?n = - 1 \<and> neg_opnd (widen_i32 ps t l) \<noteq> None")
    case False
    have N: "wt ps (Binary OP_mul t (widen_i32 ps t l) (Constval T c))"
      using X(1,2) c t W(3) by (simp add: wt_binary_def)
    have "eval ps syms \<sigma> (Constval T c) = Some ?n" using c(2) typed_num[of ps T "mc_value c"] by simp
    then have "yields ps syms \<sigma> ?e (do { sum \<leftarrow> opt_times ps s (Some (mc_value c)); Some (Binary OP_mul t (widen_i32 ps t l) (Constval T c), sum) })"
      using s(1) S n X(3-5) N eval_binary_values(3)[OF W(3)] by (intro yields_product[OF wt ev F]) (auto simp: mult.commute)
    then show ?thesis using False m by (cases "signed_take_bit 63 ?n = - 1") auto
  next
    case True
    then obtain x T' where x: "l = Unary OP_neg T' x" "neg_opnd (widen_i32 ps t l) = Some x" using X(6) by (auto simp: neg_opnd_eq)
    then have y: "wt ps x" "ity ps T'" "T' \<noteq> PTY_u1" "fits ps T' x" "nonconst x" "bits ps T' = bits ps t"
      using D(4,5,9) by (auto simp: fits_def)
    then have fx: "fits ps t x" using t(1) by (auto simp: fits_def)
    obtain vy where vy: "eval ps syms \<sigma> x = Some vy" "vl = wrap ps T' (- vy)"
      using D(2) x(1) by (auto simp: eval_unary_def split: Option.bind_splits)
    obtain s' where s': "opt_times ps s (Some (mc_value c)) = Some s'" "sum_ok ps t s'" "wrap ps t (vy + sval s') = wrap ps t (vy + ?n * sval s)"
      using sums_obtain[OF S t(2) W(3)] by metis
    have "wrap ps t vl = wrap ps t (- vy)" using vy(2) y(6) wrap_narrow[OF W(3) y(2)] by simp
    then have "wrap ps t (?n * vl) = wrap ps t (- 1 * - vy)" using True wrap_minus_one_cong[OF W(3), of ?n] by (intro wrap_cong(3)[OF W(3)]) auto
    then have "wrap ps t (vy + ?n * sval s) = wrap ps t (wrap ps t (?n * vl) + ?n * sval s)" by (simp add: wrap_arith[OF W(3)])
    then have "wrap ps t (vy + sval s') = wrap ps t v" using s'(3) product_sum[OF D(3) refl W(3)] n by simp
    moreover have "weight x + 2 \<le> weight a + weight b + 1" using D(7) x(1) s(1) by simp
    ultimately have "yields ps syms \<sigma> ?e (Some (x, s'))"
      using y fx vy(1) s'(2) D(8) x(1) t(1) by (intro yieldsI[OF ev W(3)]) auto
    then show ?thesis using True m x(2) s'(1) by simp
  qed
qed

lemma rconst_bxor_one:
  assumes wt: "wt ps (Binary OP_bxor t a b)" and ev: "eval ps syms \<sigma> (Binary OP_bxor t a b) = Some v"
    and F: "folded ps syms \<sigma> t a va l s vl" and l: "l = TypeCvt OP_cvt T f base" "GetPrimType base = PTY_u1" and s: "sval s = 0"
    and v: "v = wrap ps t (va XOR 1)" and t: "t \<noteq> PTY_u1"
    and again: "\<And>n u. cvt_operand l = Some n \<Longrightarrow> weight n < weight (Binary OP_bxor t a b) \<Longrightarrow> wt ps n \<Longrightarrow> eval ps syms \<sigma> n = Some u \<Longrightarrow>
      \<exists>k. rec n = Some k \<and> represents ps syms \<sigma> n k"
  shows "yields ps syms \<sigma> (Binary OP_bxor t a b) (do {
     one \<leftarrow> CreateIntConst ps 1 PTY_u1;
     p \<leftarrow> rec base;
     e \<leftarrow> PairToExpr ps PTY_u1 p;
     Some (TypeCvt OP_cvt t PTY_u1 (Binary OP_bxor PTY_u1 e one), None)
   })"
proof -
  note W = wt_binary_parts[OF wt] and D = foldedD[OF F]
  have u1: "ity ps PTY_u1" by (rule ity_u1[OF W(3)])
  have B: "wt ps base" "boolv base" "ity ps T" "ity ps f" using D(4) l by (auto simp: boolv_u1)
  obtain vb where vb: "eval ps syms \<sigma> base = Some vb" "vl = wrap ps T (wrap ps f vb)" using D(2) l(1) by (auto split: Option.bind_splits)
  have b01: "vb = 0 \<or> vb = 1" using eval_bool[OF B(1,2) vb(1)] .
  then have "vl = vb" using vb(2) wrap_bool[OF B(3)] wrap_bool[OF B(4)] by auto
  then have a: "wrap ps t va = wrap ps t vb" using D(3) s by simp
  have wb: "weight base \<le> weight a" using D(7) l(1) by (auto split: if_splits)
  obtain k where k: "rec base = Some k" "represents ps syms \<sigma> base k" using again[OF _ _ B(1) vb(1)] wb l(1) by auto
  note K = boolean_pair[OF k(2) B(2,1) vb(1)]
  obtain d where d: "CreateIntConst ps (word_of_int 1) PTY_u1 = Some (Constval PTY_u1 d)" "wt ps (Constval PTY_u1 d)" "iv_num (mc_value d) = 1"
    using CreateIntConst_gives[OF u1, of 1] wrap_bool[OF u1, of 1] u1 by auto
  let ?x = "Binary OP_bxor PTY_u1 (fst k) (Constval PTY_u1 d)"
  have wx: "wt ps ?x" using K(2,3) d(2) u1 by (simp add: wt_binary_def)
  have ex: "eval ps syms \<sigma> (TypeCvt OP_cvt t PTY_u1 ?x) = Some (wrap ps t (vb XOR 1))"
    using K(4) d(3) b01 eval_binary_values(6)[OF u1] wrap_bool[OF u1] by auto
  have "wrap ps t v = wrap ps t (vb XOR 1)" using v wrap_cong(6)[OF W(3) a refl, of 1] wrap_wrap[OF W(3)] by simp
  then have "yields ps syms \<sigma> (Binary OP_bxor t a b) (Some (TypeCvt OP_cvt t PTY_u1 ?x, None))"
    using ex wx t u1 W(3) K(5,6) D(8) l(1) wb weight_pos[of b] fits_self[of ps ?x] fits_self[of ps "TypeCvt OP_cvt t PTY_u1 ?x"] wrap_wrap[OF W(3)]
    by (intro yieldsI[OF ev W(3), where v' = "wrap ps t (vb XOR 1)"]) auto
  then show ?thesis using k(1) K(1) d(1) by (simp add: PairToExpr_None)
qed

lemma shift_by_zero:
  assumes "ity ps t" "eval_binary ps opc t x 0 = Some v" "opc \<in> {OP_ashr, OP_lshr, OP_shl}"
  shows "wrap ps t v = wrap ps t x"
proof -
  have b: "Suc (bits ps t - 1) = bits ps t" using ity_bits[OF assms(1)] by simp
  have "wrap ps t (signed_take_bit (bits ps t - 1) (wrap ps t x)) = wrap ps t x" "wrap ps t (take_bit (bits ps t) (wrap ps t x)) = wrap ps t x"
    using b by (simp_all add: wrap_eq_iff[OF assms(1)] take_bit_wrap[OF assms(1)] take_bit_signed_take_bit)
  moreover have "0 < bits ps t" using b by simp
  ultimately show ?thesis using assms(3,2) wrap_wrap[OF assms(1), of x]
    by (elim insertE emptyE) (auto simp: eval_binary_def eval_shift_def Let_def)
qed

lemma unit_divisor:
  assumes "ity ps t" "wrap ps t y = 1" "eval_binary ps opc t x y = Some v"
  shows "opc = OP_div \<Longrightarrow> wrap ps t v = wrap ps t x" "opc = OP_rem \<Longrightarrow> v = 0"
  using assms(2,3) wrap_wrap[OF assms(1)] wrap_zero[OF assms(1)]
  by (auto simp: eval_binary_def Let_def smod_int_alt_def split: if_splits)

lemma shr_and_mask_none: "wt ps l \<Longrightarrow> noshr l \<Longrightarrow> shr_and_mask ps t c l = Some None"
  by (cases l) (auto simp: shr_and_mask_def)

lemma FoldBinary_rconst_yields:
  assumes wt: "wt ps (Binary opc t a b)" and ev: "eval ps syms \<sigma> (Binary opc t a b) = Some v"
    and A: "represents ps syms \<sigma> a (l, s)" and nc: "const_of l = None" and B: "represents ps syms \<sigma> b (Constval T c, None)"
    and again: "\<And>n u. cvt_operand l = Some n \<Longrightarrow> weight n < weight (Binary opc t a b) \<Longrightarrow> wt ps n \<Longrightarrow> eval ps syms \<sigma> n = Some u \<Longrightarrow>
      \<exists>k. rec n = Some k \<and> represents ps syms \<sigma> n k"
  shows "yields ps syms \<sigma> (Binary opc t a b)
    (FoldBinary_rconst ps rec opc t (GetPrimType a) (GetPrimType b) (l, s) (Constval T c, None) c)"
proof -
  note W = wt_binary_parts[OF wt]
  let ?n = "iv_num (mc_value c)" and ?e = "Binary opc t a b" and ?shift = "opc \<in> {OP_ashr, OP_lshr, OP_shl}"
  have C: "iv64 (mc_value c)" "stands_for ps syms \<sigma> (GetPrimType b) b (Constval T c)" "eval ps syms \<sigma> (Constval T c) = Some ?n"
    using const_operand[OF B _ W(2) wt_type[OF W(2)] fits_self] by auto
  have Ct: "stands_for ps syms \<sigma> t b (Constval T c)" if "fits ps t b" using const_operand[OF B _ W(2,3) that] by auto
  have cw: "wt ps (Constval T c)" "ity ps T" and ty: "mc_type c = T" using stands_for_shape[OF C(2)] by auto
  have cf: "fits ps t (Constval T c)" if "\<not> ?shift" using stands_for_shape[OF Ct] W(5) that by blast
  obtain va vl where F: "folded ps syms \<sigma> t a va l s vl" using folded_pair[OF A W(1,3,4) nc] by blast
  note D = foldedD[OF F]
  obtain vb where vb: "eval ps syms \<sigma> b = Some vb" "eval_binary ps opc t va vb = Some v" using ev D(1) by (auto split: Option.bind_splits)
  have nb: "wrap ps t ?n = wrap ps t vb" if "\<not> ?shift"
    using stands_for_value[OF Ct] W(5) that C(3) vb(1) by (metis option.inject)
  have sb: "vb = ?n" if "?shift" "?n = 0"
    using stands_for_value[OF C(2)] C(3) vb(1) that by (metis option.inject)
  obtain e where e: "PairToExpr ps (GetPrimType a) (l, s) = Some e" "stands_for ps syms \<sigma> t a e"
    using binary_folded[OF wt A B] by metis
  have rebuild: "yields ps syms \<sigma> ?e (do { e \<leftarrow> PairToExpr ps (GetPrimType a) (l, s); Some (Binary opc t e (Constval T c), None) })"
    using binary_operands(4)[OF wt ev e(2) C(2)] Ct e(1) by simp
  then have rebuild2: "yields ps syms \<sigma> ?e (do { e \<leftarrow> PairToExpr ps (GetPrimType a) (l, s);
      e' \<leftarrow> PairToExpr ps (GetPrimType b) (Constval T c, None); Some (Binary opc t e e', None) })"
    by (simp add: PairToExpr_None)
  have m1: "Iv_eq_int (mc_value c) (- 1) = Some (signed_take_bit 63 ?n = - 1)" using Iv_eq_int_iff[OF C(1)] .
  have rv: "wrap ps t v = v" using eval_range[OF wt ev] by simp
  obtain mq where mq: "(if iv_sign (mc_value c) then map_option Not (IsMinValue (mc_value c)) else Some True) = Some mq"
    using IsMinValue_defined[OF C(1)] by (cases "iv_sign (mc_value c)") auto
  have "\<exists>pq. (case s of None \<Rightarrow> Some False
      | Some s \<Rightarrow> do { z \<leftarrow> Iv_eq_int s 0; andm (\<not> z) (map_option (\<lambda>x. x > - kMaxOffset) (GetSXTValue 0 s)) }) = Some pq \<and> (pq \<longrightarrow> s \<noteq> None)"
    using D(11) by (cases s) (auto simp: Iv_eq_const GetSXTValue_0 andm_def)
  then obtain pq where pq: "(case s of None \<Rightarrow> Some False
      | Some s \<Rightarrow> do { z \<leftarrow> Iv_eq_int s 0; andm (\<not> z) (map_option (\<lambda>x. x > - kMaxOffset) (GetSXTValue 0 s)) }) = Some pq" "pq \<longrightarrow> s \<noteq> None" by blast
  obtain z where z: "GetZXTValue 0 (mc_value c) = Some z" using GetZXTValue_0[OF C(1)] by blast
  obtain bq where bq: "(do { z \<leftarrow> GetZXTValue 0 (mc_value c); andm (ContiguousBitsOf1 z) (opt_is_zero s) }) = Some bq"
    using z andm_Some[OF opt_is_zero_value[OF D(11)]] by simp
  note Z = Iv_eq_const[OF C(1)] and E = eval_binary_values[OF W(3)]
  note small = yields_small_const[OF ev W(3) cw(1) cf, of 0, simplified]
  note keep = yields_keep[OF F _ wt ev]
  show ?thesis unfolding FoldBinary_rconst_def Let_def fst_conv snd_conv ty
    apply (rule yields_else_if[OF refl])
    subgoal premises p
    proof -
      have "sums (opt_plus ps s (Some (mc_value c))) False (sval s + ?n)"
        using opt_arith_sums(1)[OF W(3), of s "Some (mc_value c)"] C(1) D(11) by simp
      moreover have "wrap ps t v = wrap ps t (vl + (sval s + ?n))"
        using vb(2) p wrap_cong(1)[OF W(3) D(3) nb] E(1) rv by (simp add: add.assoc)
      ultimately show ?thesis
        using overflow_test_defined(2)[OF cw(2) C(1) D(11), of opc] rebuild2
          yields_sum[OF F _ wt ev, of "opt_plus ps s (Some (mc_value c))" False "sval s + ?n"] p by auto
    qed
    apply (rule yields_else_if[OF andm_Some[OF mq]])
    subgoal premises p
    proof -
      have "sums (opt_minus ps s (Some (mc_value c))) False (sval s - ?n)"
        using opt_arith_sums(2)[OF W(3), of s "Some (mc_value c)"] C(1) D(11) by simp
      moreover have "wrap ps t v = wrap ps t (vl + (sval s - ?n))"
        using vb(2) p wrap_cong(2)[OF W(3) D(3) nb] E(2) rv by (simp add: add_diff_eq)
      ultimately show ?thesis
        using yields_sum[OF F _ wt ev, of "opt_minus ps s (Some (mc_value c))" False "sval s - ?n"] p by auto
    qed
    apply (rule yields_else_if[OF andm_Some[OF Z(1)]])
    subgoal premises p
      by (rule small) (use p W(10) vb(2) wrap_cong(3,4)[OF W(3) refl nb, of va] E(3,4) wrap_zero[OF W(3)] in auto)
    apply (rule yields_else_if[OF andm_Some[OF Z(2)]])
    subgoal premises p
      by (rule keep) (use p vb(2) wrap_cong(3)[OF W(3) refl nb, of va] nb E(3) rv unit_divisor(1)[OF W(3) _ vb(2)] wrap_bool[OF W(3), of 1] in auto)
    apply (rule yields_else_if[OF refl])
    subgoal premises p
      using p W(9) by simp
    apply (rule yields_else_if[OF andm_Some[OF pq(1)]])
    subgoal premises p
    proof -
      obtain u where u: "s = Some u" "iv64 u" using p pq(2) D(11) by auto
      have n: "wrap ps t v = wrap ps t (?n * va)"
        using p vb(2) wrap_cong(3)[OF W(3) nb refl, of va] E(3) rv by (simp add: mult.commute)
      show ?thesis using rconst_product[OF _ _ F u C(1) cw(1) cf n, of b] wt ev p by simp
    qed
    apply (rule yields_else_if[OF andm_Some[OF m1]])
    subgoal premises p
      by (rule keep) (use p vb(2) wrap_minus_one_cong[OF W(3), of ?n] nb wrap_cong(4)[OF W(3) refl, of vb "- 1" va] E(4) rv in auto)
    apply (rule yields_else_if[OF andm_Some[OF bq]])
    subgoal premises p
      using p W(8) D(4,8) shr_and_mask_none[of ps l] rebuild by simp
    apply (rule yields_else_if[OF andm_Some[OF m1]])
    subgoal premises p
      by (rule yields_minus_one[OF ev W(3) cw(1) cf])
        (use p vb(2) wrap_minus_one_cong[OF W(3), of ?n] nb wrap_cong(5)[OF W(3) refl, of vb "- 1" va] E(5) rv in auto)
    apply (rule yields_else_if[OF refl])
    subgoal premises p
      using p W(10) by auto
    apply (rule yields_else_if[OF andm_Some[OF Z(1)]])
    subgoal premises p
      by (rule keep) (use p vb(2) wrap_cong(5,6)[OF W(3) refl nb, of va] nb E(5,6) rv sb shift_by_zero[OF W(3), of opc va v] in auto)
    apply (rule yields_else_if[OF andm_Some[OF Z(2)]])
    subgoal premises p
    proof -
      have v: "v = wrap ps t (va XOR 1)" using p vb(2) wrap_cong(6)[OF W(3) refl nb, of va] E(6) by simp
      show ?thesis
      proof (cases "\<exists>T f base. l = TypeCvt OP_cvt T f base \<and> GetPrimType base = PTY_u1 \<and> sval s = 0")
        case True
        then obtain T f base where "l = TypeCvt OP_cvt T f base" "GetPrimType base = PTY_u1" "sval s = 0" by blast
        then show ?thesis
          using rconst_bxor_one[OF _ _ F, of b v T f base rec] wt ev again v p opt_is_zero_value[OF D(11)] by simp
      next
        case False
        then show ?thesis using rebuild2 p opt_is_zero_value[OF D(11)] by (cases l) auto
      qed
    qed
    apply (rule yields_else_if[OF andm_Some[OF Z(2)]])
    subgoal premises p
      by (rule small) (use p nb unit_divisor(2)[OF W(3) _ vb(2)] wrap_bool[OF W(3), of 1] in auto)
    using rebuild by simp
qed

lemma IsDivSafe_defined: "iv64 (mc_value x) \<Longrightarrow> iv64 (mc_value y) \<Longrightarrow> \<exists>q. IsDivSafe x y t = Some q"
  using Iv_eq_const[of "mc_value y"] IsMinValue_defined[of "mc_value x"] AreAllBitsOne_defined[of "mc_value y"]
  by (auto simp: IsDivSafe_def andm_def)

lemma both_const_represents:
  assumes wt: "wt ps (Binary opc t a b)" and ev: "eval ps syms \<sigma> (Binary opc t a b) = Some v"
    and A: "represents ps syms \<sigma> a (Constval T c, None)" and B: "represents ps syms \<sigma> b (Constval U d, None)"
  shows "represents ps syms \<sigma> (Binary opc t a b) (Binary opc t (Constval T c) (Constval U d), None)" "\<exists>q. IsDivSafe c d t = Some q"
    and "\<exists>x. FoldConstBinary ps opc t c d = Some x \<and> represents ps syms \<sigma> (Binary opc t a b) (x, None)"
proof -
  note W = wt_binary_parts[OF wt]
  have S: "stands_for ps syms \<sigma> t a (Constval T c)" "stands_for ps syms \<sigma> (GetPrimType b) b (Constval U d)"
      "fits ps t b \<longrightarrow> stands_for ps syms \<sigma> t b (Constval U d)"
    using binary_folded[OF wt A B] by (auto simp: PairToExpr_None)
  note O = binary_operands[OF wt ev S]
  show "represents ps syms \<sigma> (Binary opc t a b) (Binary opc t (Constval T c) (Constval U d), None)" by (rule O(3))
  have c: "ity ps T" "typed ps T (mc_value c)" "ity ps U" "typed ps U (mc_value d)" using O(1) by auto
  note N = typed_num[OF c(1,2)] typed_num[OF c(3,4)] typed_iv64[OF c(1,2)] typed_iv64[OF c(3,4)]
  show "\<exists>q. IsDivSafe c d t = Some q" using IsDivSafe_defined N by blast
  have "eval_binary ps opc t (iv_num (mc_value c)) (iv_num (mc_value d)) = Some v" using O(2) N by simp
  then obtain k where k: "FoldConstBinary ps opc t c d = Some (Constval t k)" "wt ps (Constval t k)" "iv_num (mc_value k) = v"
    using FoldConstBinary_value[OF W(3) N(3,4)] W(10) by blast
  have "represents ps syms \<sigma> (Binary opc t a b) (Constval t k, None)"
    using k(2,3) eval_range[OF wt ev] by (intro represents_same_type[OF ev]) auto
  then show "\<exists>x. FoldConstBinary ps opc t c d = Some x \<and> represents ps syms \<sigma> (Binary opc t a b) (x, None)" using k(1) by blast
qed

lemma sum_of_pairs_represents:
  assumes wt: "wt ps (Binary opc t a b)" and ev: "eval ps syms \<sigma> (Binary opc t a b) = Some v"
    and F: "folded ps syms \<sigma> t a va l s vl" and G: "folded ps syms \<sigma> t b vb r s' vr"
    and opc: "opc = OP_add \<and> z = sval s + sval s' \<or> opc = OP_sub \<and> z = sval s - sval s'" and S: "sums q (s = None \<and> s' = None) z"
  shows "\<exists>sum. q = Some sum \<and> represents ps syms \<sigma> (Binary opc t a b) (Binary opc t l r, sum)"
proof -
  note W = wt_binary_parts[OF wt] and D = foldedD[OF F] and D' = foldedD[OF G]
  have t: "t \<noteq> PTY_u1" "32 \<le> bits ps t" using W(6,7) opc by auto
  let ?w = "(if opc = OP_add then (+) else (-)) vl vr"
  obtain sum where sum: "q = Some sum" "sum = None \<longleftrightarrow> s = None \<and> s' = None" "sum_ok ps t sum"
      "wrap ps t (?w + sval sum) = wrap ps t (?w + z)"
    by (rule sums_obtain[OF S t(2) W(3)])
  let ?v = "wrap ps t ?w"
  have N: "wt ps (Binary opc t l r)" by (rule wt_binary_operands[OF wt]) (use D D' in auto)
  have en: "eval ps syms \<sigma> (Binary opc t l r) = Some ?v" using D(2) D'(2) opc eval_binary_values(1,2)[OF W(3)] by auto
  have "?w + z = (if opc = OP_add then (+) else (-)) (vl + sval s) (vr + sval s')" using opc by auto
  then have "wrap ps t (?v + sval sum) = wrap ps t ((if opc = OP_add then (+) else (-)) (vl + sval s) (vr + sval s'))"
    using sum(4) by (simp only: wrap_arith[OF W(3)])
  also have "\<dots> = wrap ps t v"
    using wrap_cong(1,2)[OF W(3) D(3) D'(3)] opc ev D(1) D'(1) eval_binary_values(1,2)[OF W(3)] wrap_wrap[OF W(3)] by auto
  finally have "take_bit (bits ps t) (?v + sval sum) = take_bit (bits ps t) v" using wrap_eq_iff[OF W(3)] by blast
  moreover have "weight (Binary opc t l r) + (if sum = None then 0 else 2) \<le> weight (Binary opc t a b)"
    using D(7) D'(7) sum(2) by (auto split: if_splits)
  ultimately show ?thesis
    using sum(1,3) N en ev D(8) D'(8) t(1) fits_self[of ps "Binary opc t l r"] opc by (auto simp: represents_def rep_def)
qed

lemma FoldBinary_represents:
  assumes wt: "wt ps (Binary opc t a b)" and ev: "eval ps syms \<sigma> (Binary opc t a b) = Some v"
    and A: "rec a = Some lp" "represents ps syms \<sigma> a lp" and B: "rec b = Some rp" "represents ps syms \<sigma> b rp"
    and again: "\<And>n u. cvt_operand (fst lp) = Some n \<Longrightarrow> weight n < weight (Binary opc t a b) \<Longrightarrow> wt ps n \<Longrightarrow> eval ps syms \<sigma> n = Some u \<Longrightarrow>
      \<exists>k. rec n = Some k \<and> represents ps syms \<sigma> n k"
  shows "\<exists>q. FoldBinary ps rec opc t a b = Some q \<and> represents ps syms \<sigma> (Binary opc t a b) q"
proof -
  note W = wt_binary_parts[OF wt]
  obtain l s r s' where p: "lp = (l, s)" "rp = (r, s')" by (cases lp, cases rp)
  have nf: "\<not> (GetPrimType a = PTY_f128 \<or> GetPrimType b = PTY_f128 \<or> t = PTY_f128)" and int: "IsPrimitiveInteger t"
    using ity_classes(4)[OF W(3)] ity_classes(4)[OF wt_type[OF W(1)]] ity_classes(4)[OF wt_type[OF W(2)]] ity_classes(1)[OF W(3)] by auto
  obtain x y where xy: "PairToExpr ps (GetPrimType a) lp = Some x" "PairToExpr ps (GetPrimType b) rp = Some y"
      "represents ps syms \<sigma> (Binary opc t a b) (Binary opc t x y, None)"
    using binary_folded[OF wt A(2) B(2)] binary_operands(3)[OF wt ev] by metis
  note D = FoldBinary_def Let_def A(1) B(1) nf int p
  have cs: "s = None" if "const_of l \<noteq> None" using A(2) p that nonconst_no_const by (auto simp: represents_def rep_def)
  have cs': "s' = None" if "const_of r \<noteq> None" using B(2) p that nonconst_no_const by (auto simp: represents_def rep_def)
  show ?thesis
  proof (cases "const_of l")
    case L: (Some c)
    then obtain T where T: "l = Constval T c" "s = None" using cs by (auto simp: const_of_eq)
    show ?thesis
    proof (cases "const_of r")
      case R: (Some d)
      then obtain U where U: "r = Constval U d" "s' = None" using cs' by (auto simp: const_of_eq)
      note C = both_const_represents[OF wt ev A(2)[unfolded p T] B(2)[unfolded p U]]
      then show ?thesis using T U by (auto simp: D andm_def)
    next
      case R: None
      then show ?thesis
        using yields_convert[OF FoldBinary_lconst_yields[OF wt ev A(2)[unfolded p T] B(2)[unfolded p] R] wt refl] T by (simp add: D)
    qed
  next
    case L: None
    show ?thesis
    proof (cases "const_of r")
      case R: (Some d)
      then obtain U where U: "r = Constval U d" "s' = None" using cs' by (auto simp: const_of_eq)
      show ?thesis
        using yields_convert[OF FoldBinary_rconst_yields[OF wt ev A(2)[unfolded p] L B(2)[unfolded p U] again[unfolded p fst_conv]] wt refl] L U
        by (simp add: D)
    next
      case R: None
      show ?thesis
      proof (cases "opc = OP_add \<or> opc = OP_sub")
        case False
        then show ?thesis using xy L R by (simp add: D)
      next
        case True
        then have fb: "fits ps t b" using W(5) by auto
        obtain va vl where F: "folded ps syms \<sigma> t a va l s vl" using folded_pair[OF A(2)[unfolded p] W(1,3,4) L] by blast
        obtain vb vr where G: "folded ps syms \<sigma> t b vb r s' vr" using folded_pair[OF B(2)[unfolded p] W(2,3) fb R] by blast
        note S = opt_arith_sums[OF W(3) foldedD(11)[OF F] foldedD(11)[OF G]]
        note P = sum_of_pairs_represents[OF wt ev F G _ S(1)] sum_of_pairs_represents[OF wt ev F G _ S(2)]
        have self: "represents ps syms \<sigma> (Binary opc t a b) (Binary opc t a b, None)" using represents_self[OF wt ev] by simp
        show ?thesis using True P self L R by (auto simp: D)
      qed
    qed
  qed
qed

end
