(* ===== verification/Constant_Fold_Sound.thy ===== *)
theory Constant_Fold_Sound
  imports Constant_Fold_Binary
begin

text \<open>
  The recursion of the constant folder, its termination, and the properties of \<open>Fold\<close>: types and values are
  kept on well-typed expressions. The last section has examples, and expressions outside of that class
  whose value folding changes.
\<close>

unbundle bit_operations_syntax

section \<open>The recursion\<close>

text \<open>More depth does not change a result.\<close>

lemma else_if_mono:
  "list_all2 (\<lambda>x y. fst x = fst y \<and> (\<forall>q. snd x = Some q \<longrightarrow> snd y = Some q)) xs ys \<Longrightarrow> else_if xs d = Some q \<Longrightarrow> else_if ys d = Some q"
  by (induction rule: list_all2_induct) (auto split: option.splits if_splits)

lemma FoldBinary_rconst_mono:
  assumes "\<And>n q. rec n = Some q \<Longrightarrow> rec' n = Some q" "FoldBinary_rconst ps rec opc t lt rt lp rp c = Some q"
  shows "FoldBinary_rconst ps rec' opc t lt rt lp rp c = Some q"
  using assms(2) unfolding FoldBinary_rconst_def Let_def
  by (rule else_if_mono[rotated]) (auto dest: assms(1) split: Option.bind_splits option.splits if_splits)

lemma FoldBinary_mono:
  assumes M: "\<And>n q. rec n = Some q \<Longrightarrow> rec' n = Some q" and F: "FoldBinary ps rec opc t a b = Some q"
  shows "FoldBinary ps rec' opc t a b = Some q"
proof (cases "GetPrimType a = PTY_f128 \<or> GetPrimType b = PTY_f128 \<or> t = PTY_f128")
  case True
  then show ?thesis using F by (auto simp: FoldBinary_def)
next
  case False
  then obtain lp rp where p: "rec a = Some lp" "rec b = Some rp" using F by (cases "rec a"; cases "rec b"; simp add: FoldBinary_def Let_def)
  note D = FoldBinary_def Let_def False p M[OF p(1)] M[OF p(2)]
  show ?thesis
  proof (cases "const_of (fst lp) = None \<and> const_of (fst rp) \<noteq> None \<and> IsPrimitiveInteger t")
    case True
    then obtain c where c: "const_of (fst lp) = None" "const_of (fst rp) = Some c" "IsPrimitiveInteger t" by blast
    then obtain z where z: "FoldBinary_rconst ps rec opc t (GetPrimType a) (GetPrimType b) lp rp c = Some z" using F by (auto simp: D)
    then show ?thesis using F c FoldBinary_rconst_mono[of rec rec', OF M z] by (simp add: D)
  next
    case c: False
    then show ?thesis using F by (cases "const_of (fst lp)"; cases "const_of (fst rp)") (simp_all add: D)
  qed
qed

lemma FoldTernary_mono:
  assumes M: "\<And>n q. rec n = Some q \<Longrightarrow> rec' n = Some q" and F: "FoldTernary ps same rec opc t a b c = Some q"
  shows "FoldTernary ps same rec' opc t a b c = Some q"
proof -
  let ?t = "GetPrimType a"
  obtain p0 p1 p2 where p: "rec a = Some p0" "rec b = Some p1" "rec c = Some p2"
    using F by (cases "rec a"; cases "rec b"; cases "rec c"; simp add: FoldTernary_def)
  note D = FoldTernary_def Let_def p M[OF p(1)] M[OF p(2)] M[OF p(3)] bind_eq_Some_conv
  show ?thesis using F by (auto simp: D dest: M split: option.split_asm option.split if_splits)
qed

lemma Fold_node_mono:
  assumes M: "\<And>n q. rec n = Some q \<Longrightarrow> rec' n = Some q"
  shows "FoldUnary ps rec opc t a = Some q \<Longrightarrow> FoldUnary ps rec' opc t a = Some q"
    "FoldTypeCvt ps rec opc t f a = Some q \<Longrightarrow> FoldTypeCvt ps rec' opc t f a = Some q"
    "FoldRetype ps rec t f a = Some q \<Longrightarrow> FoldRetype ps rec' t f a = Some q"
    "FoldExtractbits ps syms rec opc t off sz a = Some q \<Longrightarrow> FoldExtractbits ps syms rec' opc t off sz a = Some q"
  using M by (cases "rec a"; simp add: FoldUnary_def FoldTypeCvt_def FoldRetype_def FoldExtractbits_def)+

lemma Fold_nodes_mono:
  assumes M: "\<And>n q. rec n = Some q \<Longrightarrow> rec' n = Some q"
  shows "FoldCompare ps rec opc t ot a b = Some q \<Longrightarrow> FoldCompare ps rec' opc t ot a b = Some q"
    "FoldDepositbits ps rec t off sz a b = Some q \<Longrightarrow> FoldDepositbits ps rec' t off sz a b = Some q"
  using M by (cases "rec a"; cases "rec b"; simp add: FoldCompare_def FoldDepositbits_def)+

lemma DispatchFold_Suc:
  "DispatchFold ps syms same k e = Some q \<Longrightarrow> DispatchFold ps syms same (Suc k) e = Some q"
proof (induction k arbitrary: e q)
  case (Suc k)
  define r r' where r: "r = DispatchFold ps syms same k" and r': "r' = DispatchFold ps syms same (Suc k)"
  have M: "r n = Some u \<Longrightarrow> r' n = Some u" for n u using Suc.IH unfolding r r' by blast
  note mono = Fold_node_mono[of r r', OF M] Fold_nodes_mono[of r r', OF M] FoldBinary_mono[of r r', OF M] FoldTernary_mono[of r r', OF M]
  note D = DispatchFold.simps(2)[of ps syms same k, folded r] DispatchFold.simps(2)[of ps syms same "Suc k", folded r']
  show ?case using Suc.prems unfolding D Let_def by (cases e) (auto simp only: node.case split: if_splits intro: mono)
qed simp

lemma DispatchFold_mono:
  assumes "DispatchFold ps syms same k e = Some q" "k \<le> m"
  shows "DispatchFold ps syms same m e = Some q"
  using assms(2) by (induction rule: dec_induct) (use assms(1) DispatchFold_Suc in blast)+

text \<open>Folding ends with a pair that stands for the value of the expression.\<close>

definition folds :: "nat \<Rightarrow> symbol_types \<Rightarrow> store \<Rightarrow> (node \<Rightarrow> node \<Rightarrow> bool) \<Rightarrow> node \<Rightarrow> bool" where
  "folds ps syms \<sigma> same e \<longleftrightarrow> (\<exists>k p. DispatchFold ps syms same k e = Some p \<and> represents ps syms \<sigma> e p)"

lemma folds_leaf:
  assumes "wt ps e" "eval ps syms \<sigma> e = Some v" "DispatchFold ps syms same 1 e = Some (e, None)" "nonconst e \<or> const_of e \<noteq> None"
  shows "folds ps syms \<sigma> same e"
  unfolding folds_def using assms(3) represents_self[OF assms(1,2,4)] by blast

lemma folds_step: "DispatchFold ps syms same (Suc k) e = r \<Longrightarrow> \<exists>q. r = Some q \<and> represents ps syms \<sigma> e q \<Longrightarrow> folds ps syms \<sigma> same e"
  unfolding folds_def by blast

lemma folds_unary:
  assumes "wt ps e" "eval ps syms \<sigma> e = Some v" "syms_ok ps syms"
    and "e = Unary opc t a \<or> e = TypeCvt opc t f a \<or> e = Retype t f a \<or> e = Extractbits opc t off sz a" "folds ps syms \<sigma> same a"
  shows "folds ps syms \<sigma> same e"
proof -
  obtain k p where k: "DispatchFold ps syms same k a = Some p" "represents ps syms \<sigma> a p" using assms(5) by (auto simp: folds_def)
  from assms(4) show ?thesis
  proof (elim disjE)
    assume e: "e = Unary opc t a"
    then show ?thesis using FoldUnary_represents[where rec = "DispatchFold ps syms same k", OF _ _ k, of opc t v] assms(1,2)
      by (intro folds_step[where k = k]) auto
  next
    assume e: "e = TypeCvt opc t f a"
    then show ?thesis using FoldTypeCvt_represents[where rec = "DispatchFold ps syms same k", OF _ _ k, of opc t f v] assms(1,2)
      by (intro folds_step[where k = k]) auto
  next
    assume e: "e = Retype t f a"
    then show ?thesis using FoldRetype_represents[where rec = "DispatchFold ps syms same k", OF _ _ k, of t f v] assms(1,2)
      by (intro folds_step[where k = k]) auto
  next
    assume e: "e = Extractbits opc t off sz a"
    then show ?thesis using FoldExtractbits_represents[where rec = "DispatchFold ps syms same k", OF _ _ k assms(3), of opc t off sz v] assms(1,2)
      by (intro folds_step[where k = k]) auto
  qed
qed

lemma folds_pair:
  assumes "folds ps syms \<sigma> same a" "folds ps syms \<sigma> same b"
  obtains k p q where "\<And>m. k \<le> m \<Longrightarrow> DispatchFold ps syms same m a = Some p" "represents ps syms \<sigma> a p"
    "\<And>m. k \<le> m \<Longrightarrow> DispatchFold ps syms same m b = Some q" "represents ps syms \<sigma> b q"
proof -
  obtain k p where p: "DispatchFold ps syms same k a = Some p" "represents ps syms \<sigma> a p" using assms(1) by (auto simp: folds_def)
  obtain l q where q: "DispatchFold ps syms same l b = Some q" "represents ps syms \<sigma> b q" using assms(2) by (auto simp: folds_def)
  show thesis
    by (rule that[of "max k l"]) (use p(2) q(2) DispatchFold_mono[OF p(1)] DispatchFold_mono[OF q(1)] in auto)
qed

lemma folds_two:
  assumes "wt ps e" "eval ps syms \<sigma> e = Some v"
    and "e = Compare opc t ot a b \<or> e = Depositbits t off sz a b" "folds ps syms \<sigma> same a" "folds ps syms \<sigma> same b"
  shows "folds ps syms \<sigma> same e"
proof -
  obtain k p q where k: "DispatchFold ps syms same k a = Some p" "represents ps syms \<sigma> a p"
      "DispatchFold ps syms same k b = Some q" "represents ps syms \<sigma> b q"
    using folds_pair[OF assms(4,5)] by (metis order_refl)
  from assms(3) show ?thesis
  proof (elim disjE)
    assume e: "e = Compare opc t ot a b"
    then show ?thesis using FoldCompare_represents[where rec = "DispatchFold ps syms same k", OF _ _ k, of opc t ot v] assms(1,2)
      by (intro folds_step[where k = k]) auto
  next
    assume e: "e = Depositbits t off sz a b"
    then show ?thesis using FoldDepositbits_represents[where rec = "DispatchFold ps syms same k", OF _ _ k, of t off sz v] assms(1,2)
      by (intro folds_step[where k = k]) auto
  qed
qed

lemma folds_binary:
  assumes "wt ps (Binary opc t a b)" "eval ps syms \<sigma> (Binary opc t a b) = Some v" "folds ps syms \<sigma> same a" "folds ps syms \<sigma> same b"
    and IH: "\<And>n u. weight n < weight (Binary opc t a b) \<Longrightarrow> wt ps n \<Longrightarrow> eval ps syms \<sigma> n = Some u \<Longrightarrow> folds ps syms \<sigma> same n"
  shows "folds ps syms \<sigma> same (Binary opc t a b)"
proof -
  obtain k p q where k: "\<And>m. k \<le> m \<Longrightarrow> DispatchFold ps syms same m a = Some p" "represents ps syms \<sigma> a p"
      "\<And>m. k \<le> m \<Longrightarrow> DispatchFold ps syms same m b = Some q" "represents ps syms \<sigma> b q"
    using folds_pair[OF assms(3,4)] by metis
  obtain m where m: "k \<le> m" "\<And>n u. cvt_operand (fst p) = Some n \<Longrightarrow> weight n < weight (Binary opc t a b) \<Longrightarrow> wt ps n \<Longrightarrow>
      eval ps syms \<sigma> n = Some u \<Longrightarrow> \<exists>w. DispatchFold ps syms same m n = Some w \<and> represents ps syms \<sigma> n w"
  proof (cases "\<exists>n u. cvt_operand (fst p) = Some n \<and> weight n < weight (Binary opc t a b) \<and> wt ps n \<and> eval ps syms \<sigma> n = Some u")
    case True
    then obtain n where n: "cvt_operand (fst p) = Some n" "folds ps syms \<sigma> same n" using IH by blast
    then obtain l w where w: "DispatchFold ps syms same l n = Some w" "represents ps syms \<sigma> n w" by (auto simp: folds_def)
    show thesis by (rule that[of "max k l"]) (use n(1) w(2) DispatchFold_mono[OF w(1), of "max k l"] in auto)
  qed (use that[of k] in auto)
  have op: "opc \<in> {OP_add, OP_ashr, OP_band, OP_bior, OP_bxor, OP_cand, OP_cior, OP_div, OP_land, OP_lior, OP_lshr, OP_max, OP_min, OP_mul, OP_rem, OP_shl, OP_sub}"
    using wt_binary_parts(10)[OF assms(1)] by auto
  show ?thesis
    by (rule folds_step[where k = m], unfold DispatchFold.simps(2) Let_def node.case if_P[OF op], rule refl)
      (rule FoldBinary_represents[OF assms(1,2) k(1)[OF m(1)] k(2) k(3)[OF m(1)] k(4) m(2)])
qed

lemma folds_ternary:
  assumes "wt ps (Ternary opc t a b c)" "eval ps syms \<sigma> (Ternary opc t a b c) = Some v"
    "folds ps syms \<sigma> same a" "folds ps syms \<sigma> same b" "folds ps syms \<sigma> same c" and same: "\<And>x y. same x y \<Longrightarrow> x = y"
    and IH: "\<And>n u. weight n < weight (Ternary opc t a b c) \<Longrightarrow> wt ps n \<Longrightarrow> eval ps syms \<sigma> n = Some u \<Longrightarrow> folds ps syms \<sigma> same n"
  shows "folds ps syms \<sigma> same (Ternary opc t a b c)"
proof -
  let ?t = "GetPrimType a" and ?D = "DispatchFold ps syms same"
  obtain k p q where k: "\<And>m. k \<le> m \<Longrightarrow> ?D m a = Some p" "represents ps syms \<sigma> a p" "\<And>m. k \<le> m \<Longrightarrow> ?D m b = Some q" "represents ps syms \<sigma> b q"
    using folds_pair[OF assms(3,4)] by metis
  obtain l r where l: "\<And>m. l \<le> m \<Longrightarrow> ?D m c = Some r" "represents ps syms \<sigma> c r" using folds_pair[OF assms(5,5)] by metis
  obtain m where m: "k \<le> m" "l \<le> m" "\<And>x z n u. PairToExpr ps ?t p = Some x \<Longrightarrow> CreateIntConst ps 0 ?t = Some z \<Longrightarrow>
      n = Compare OP_eq ?t ?t x z \<Longrightarrow> weight n < weight (Ternary opc t a b c) \<Longrightarrow> wt ps n \<Longrightarrow>
      eval ps syms \<sigma> n = Some u \<Longrightarrow> \<exists>w. ?D m n = Some w \<and> represents ps syms \<sigma> n w"
  proof (cases "\<exists>x z n. PairToExpr ps ?t p = Some x \<and> CreateIntConst ps 0 ?t = Some z \<and> n = Compare OP_eq ?t ?t x z \<and> folds ps syms \<sigma> same n")
    case True
    then obtain x z where n: "PairToExpr ps ?t p = Some x" "CreateIntConst ps 0 ?t = Some z" "folds ps syms \<sigma> same (Compare OP_eq ?t ?t x z)" by blast
    then obtain j w where w: "?D j (Compare OP_eq ?t ?t x z) = Some w" "represents ps syms \<sigma> (Compare OP_eq ?t ?t x z) w" unfolding folds_def by blast
    show thesis by (rule that[of "max k (max l j)"]) (use n(1,2) w(2) DispatchFold_mono[OF w(1), of "max k (max l j)"] in auto)
  next
    case False
    then show thesis using that[of "max k l"] IH by (meson max.cobounded1 max.cobounded2)
  qed
  have op: "opc = OP_select" using assms(1) by simp
  show ?thesis
    by (rule folds_step[where k = m], unfold DispatchFold.simps(2) Let_def node.case if_P[OF op], rule refl)
      (rule FoldTernary_represents[OF assms(1,2) k(1)[OF m(1)] k(2) k(3)[OF m(1)] k(4) l(1)[OF m(2)] l(2) same m(3)])
qed

lemma folds_all:
  assumes "wt ps e" "eval ps syms \<sigma> e = Some v" and syms: "syms_ok ps syms" and same: "\<And>x y. same x y \<Longrightarrow> x = y"
  shows "folds ps syms \<sigma> same e"
  using assms(1,2)
proof (induction "(weight e, size e)" arbitrary: e v rule: wf_induct_rule[OF wf_lex_prod[OF wf_less_than wf_less_than]])
  case 1
  then have IH: "folds ps syms \<sigma> same n" if "weight n < weight e \<or> weight n = weight e \<and> size n < size e" "wt ps n" "eval ps syms \<sigma> n = Some u" for n u
    using that by auto
  note wt = 1(2) and ev = 1(3)
  show ?case
  proof (cases e)
    case (Sizeoftype t arg)
    then show ?thesis using FoldSizeoftype_represents[of ps t arg syms \<sigma> v] wt ev by (intro folds_step[where k = 0]) auto
  next
    case (Unary opc t a)
    then have "folds ps syms \<sigma> same a" using IH[of a] wt ev by (auto split: Option.bind_splits)
    then show ?thesis using folds_unary[OF wt ev syms, of opc t a] Unary by simp
  next
    case (TypeCvt opc t f a)
    then have "folds ps syms \<sigma> same a" using IH[of a] wt ev by (auto split: Option.bind_splits)
    then show ?thesis using folds_unary[OF wt ev syms, of opc t a f] TypeCvt by simp
  next
    case (Retype t f a)
    then have "folds ps syms \<sigma> same a" using IH[of a] wt ev by (auto split: Option.bind_splits)
    then show ?thesis using folds_unary[OF wt ev syms, of _ t a f] Retype by simp
  next
    case (Extractbits opc t off sz a)
    then have "folds ps syms \<sigma> same a" using IH[of a] wt ev by (auto split: Option.bind_splits)
    then show ?thesis using folds_unary[OF wt ev syms, of opc t a _ off sz] Extractbits by simp
  next
    case (Binary opc t a b)
    then have "folds ps syms \<sigma> same a" "folds ps syms \<sigma> same b" using IH[of a] IH[of b] wt ev weight_pos by (auto split: Option.bind_splits)
    then show ?thesis using folds_binary[of ps opc t a b syms \<sigma> v same] IH wt ev Binary by blast
  next
    case (Compare opc t ot a b)
    then have "folds ps syms \<sigma> same a" "folds ps syms \<sigma> same b" using IH[of a] IH[of b] wt ev weight_pos by (auto split: Option.bind_splits)
    then show ?thesis using folds_two[OF wt ev, of opc t ot a b] Compare by simp
  next
    case (Depositbits t off sz a b)
    then have "folds ps syms \<sigma> same a" "folds ps syms \<sigma> same b" using IH[of a] IH[of b] wt ev weight_pos by (auto split: Option.bind_splits)
    then show ?thesis using folds_two[OF wt ev, of _ t _ a b off sz] Depositbits by simp
  next
    case (Ternary opc t a b c)
    then have "folds ps syms \<sigma> same a" "folds ps syms \<sigma> same b" "folds ps syms \<sigma> same c"
      using IH[of a] IH[of b] IH[of c] wt ev weight_pos by (auto split: Option.bind_splits)
    then show ?thesis using folds_ternary[of ps opc t a b c syms \<sigma> v same] IH same wt ev Ternary by blast
  qed (rule folds_leaf[OF wt ev]; simp)+
qed

text \<open>A bound on the depth and the result do not depend on the store.\<close>

lemma Fold_value:
  assumes "wt ps e" "eval ps syms \<sigma> e = Some v" "syms_ok ps syms" "\<And>x y. same x y \<Longrightarrow> x = y"
  shows "\<exists>N x. (\<forall>k \<ge> N. Fold ps syms same k e = Some x) \<and> stands_for ps syms \<sigma> (GetPrimType e) e x"
proof -
  obtain N p where p: "DispatchFold ps syms same N e = Some p" "represents ps syms \<sigma> e p"
    using folds_all[OF assms] unfolding folds_def by blast
  obtain x where x: "PairToExpr ps (GetPrimType e) p = Some x" "stands_for ps syms \<sigma> (GetPrimType e) e x"
    using operand[OF p(2) assms(1) wt_type[OF assms(1)] fits_self] by blast
  have "Fold ps syms same k e = Some x" if "k \<ge> N" for k using DispatchFold_mono[OF p(1) that] x(1) by (simp add: Fold_def)
  then show ?thesis using x(2) by blast
qed

lemma Fold_all_stores:
  assumes "wt ps e" "eval ps syms \<sigma> e = Some v" "syms_ok ps syms" "\<And>x y. same x y \<Longrightarrow> x = y"
  obtains N x where "\<And>k. N \<le> k \<Longrightarrow> Fold ps syms same k e = Some x"
    "\<And>\<sigma> v. eval ps syms \<sigma> e = Some v \<Longrightarrow> stands_for ps syms \<sigma> (GetPrimType e) e x"
proof -
  obtain N x where x: "\<And>k. N \<le> k \<Longrightarrow> Fold ps syms same k e = Some x" using Fold_value[OF assms] by blast
  moreover have "stands_for ps syms \<tau> (GetPrimType e) e x" if \<tau>: "eval ps syms \<tau> e = Some w" for \<tau> w
  proof -
    obtain M y where y: "\<And>k. M \<le> k \<Longrightarrow> Fold ps syms same k e = Some y" "stands_for ps syms \<tau> (GetPrimType e) e y"
      using Fold_value[OF assms(1) \<tau> assms(3,4)] by blast
    then have "x = y" using x[of "max N M"] y(1)[of "max N M"] by simp
    then show ?thesis using y(2) by simp
  qed
  ultimately show thesis using that by blast
qed

lemma Fold_least:
  assumes "Fold ps syms same k e = Some x" "k \<le> m"
  shows "Fold ps syms same m e = Some x"
  using assms(1) DispatchFold_mono[OF _ assms(2)] by (auto simp: Fold_def split: Option.bind_splits)

section \<open>Properties of the folder\<close>

text \<open>C1: The folded expression has the value of the original in every store in which the original has one:
  the two agree once reduced to the type of the original.\<close>

theorem fold_keeps_value:
  assumes "wt ps e" "eval ps syms \<sigma> e = Some v" "syms_ok ps syms" "\<And>x y. same x y \<Longrightarrow> x = y"
  shows "\<exists>N x. (\<forall>k. N \<le> k \<longrightarrow> Fold ps syms same k e = Some x) \<and>
    (\<forall>\<tau> w. eval ps syms \<tau> e = Some w \<longrightarrow> (\<exists>u. eval ps syms \<tau> x = Some u \<and> wrap ps (GetPrimType e) u = w))"
proof -
  obtain N x where x: "\<And>k. N \<le> k \<Longrightarrow> Fold ps syms same k e = Some x"
      "\<And>\<sigma> v. eval ps syms \<sigma> e = Some v \<Longrightarrow> stands_for ps syms \<sigma> (GetPrimType e) e x" using Fold_all_stores[OF assms] by metis
  have "\<exists>u. eval ps syms \<tau> x = Some u \<and> wrap ps (GetPrimType e) u = w" if \<tau>: "eval ps syms \<tau> e = Some w" for \<tau> w
    using stands_for_value[OF x(2)[OF \<tau>]] \<tau> eval_range[OF assms(1) \<tau>] by (metis option.inject)
  then show ?thesis using x(1) by blast
qed

text \<open>C2: Folding keeps types: the folded expression is well-typed, can stand where the original stood, and is
  a truth value when the original was one.\<close>

theorem fold_keeps_type:
  assumes "wt ps e" "eval ps syms \<sigma> e = Some v" "syms_ok ps syms" "\<And>x y. same x y \<Longrightarrow> x = y" "Fold ps syms same k e = Some x"
  shows "wt ps x \<and> fits ps (GetPrimType e) x \<and> (boolv e \<longrightarrow> boolv x)"
proof -
  obtain N y where y: "\<And>k. N \<le> k \<Longrightarrow> Fold ps syms same k e = Some y" "stands_for ps syms \<sigma> (GetPrimType e) e y"
    using Fold_value[OF assms(1-4)] by blast
  then have "x = y" using Fold_least[OF assms(5), of "max N k"] y(1)[of "max N k"] by simp
  then show ?thesis using stands_for_shape[OF y(2)] by blast
qed

section \<open>Examples\<close>

definition no_symbols :: symbol_types where
  "no_symbols st fld = None"

definition i32_const :: "nat \<Rightarrow> node" where
  "i32_const n = Constval PTY_i32 \<lparr>mc_type = PTY_i32, mc_value = \<lparr>iv_width = 32, iv_sign = True, iv_u = Value (of_nat n)\<rparr>\<rparr>"

text \<open>\<open>((r + 5) - 3) * 4\<close>\<close>

definition example_expr :: node where
  "example_expr = Binary OP_mul PTY_i32 (Binary OP_sub PTY_i32 (Binary OP_add PTY_i32 (Regread PTY_i32 1) (i32_const 5)) (i32_const 3)) (i32_const 4)"

lemma no_symbols_ok: "syms_ok ps no_symbols"
  by (simp add: syms_ok_def no_symbols_def)

lemma type_values: "ity 8 PTY_i32" "ity 8 PTY_u32" "bits 8 PTY_i32 = 32" "bits 8 PTY_u32 = 32" "IsSignedInteger PTY_i32" "\<not> IsSignedInteger PTY_u32"
  by (simp_all add: ity_def bits_def prim_eval)

lemma wrap_i32: "- 2147483648 \<le> x \<Longrightarrow> x < 2147483648 \<Longrightarrow> wrap 8 PTY_i32 x = x"
  using wrap_range[of 8 PTY_i32 x] type_values by simp

lemma i32_const_facts:
  assumes "n < 128"
  shows "wt 8 (i32_const n)" "eval 8 syms \<sigma> (i32_const n) = Some (int n)" "GetPrimType (i32_const n) = PTY_i32"
    "\<exists>c. i32_const n = Constval PTY_i32 c \<and> iv64 (mc_value c) \<and> iv_num (mc_value c) = int n \<and> mc_type c = PTY_i32"
proof -
  let ?v = "\<lparr>iv_width = 32, iv_sign = True, iv_u = Value (of_nat n)\<rparr>"
  have u: "unat (of_nat n :: u64) = n" using assms by (simp add: unat_of_nat)
  have t: "typed 8 PTY_i32 ?v" using assms u by (simp add: typed_def type_values iv_ok_one)
  have v: "iv_num ?v = int n" using assms u by (simp add: iv_num_def iv_bits_def)
  show "wt 8 (i32_const n)" using t by (simp add: i32_const_def type_values)
  show "eval 8 syms \<sigma> (i32_const n) = Some (int n)" using v assms by (simp add: i32_const_def wrap_i32)
  show "GetPrimType (i32_const n) = PTY_i32" by (simp add: i32_const_def)
  show "\<exists>c. i32_const n = Constval PTY_i32 c \<and> iv64 (mc_value c) \<and> iv_num (mc_value c) = int n \<and> mc_type c = PTY_i32"
    using typed_iv64[OF type_values(1) t] v by (simp add: i32_const_def)
qed

lemma example_wt: "wt 8 example_expr"
  by (simp add: example_expr_def wt_binary_def fits_def type_values i32_const_facts)

lemma example_eval: "eval 8 no_symbols (\<lambda>_. 7) example_expr = Some 36"
  by (simp add: example_expr_def eval_binary_values type_values i32_const_facts wrap_i32)

lemma example_type: "GetPrimType example_expr = PTY_i32"
  by (simp add: example_expr_def)

lemma example_fold_defined: "\<exists>k x. Fold 8 no_symbols (=) k example_expr = Some x"
  using Fold_value[OF example_wt example_eval no_symbols_ok, of "(=)"] by blast

theorem fold_keeps_value_witness:
  "\<exists>N x. (\<forall>k. N \<le> k \<longrightarrow> Fold 8 no_symbols (=) k example_expr = Some x) \<and>
    (\<exists>u. eval 8 no_symbols (\<lambda>_. 7) x = Some u \<and> wrap 8 PTY_i32 u = 36)"
  using fold_keeps_value[OF example_wt example_eval no_symbols_ok, of "(=)", unfolded example_type] example_eval by blast

theorem fold_keeps_type_witness: "\<exists>k x. Fold 8 no_symbols (=) k example_expr = Some x \<and> wt 8 x \<and> fits 8 PTY_i32 x"
proof -
  obtain k x where x: "Fold 8 no_symbols (=) k example_expr = Some x" using example_fold_defined by blast
  then show ?thesis using fold_keeps_type[OF example_wt example_eval no_symbols_ok _ x] unfolding example_type by blast
qed

text \<open>Expressions that folding changes. In \<open>0 || (r + 5)\<close> and \<open>5 && (r + 5)\<close> the pair of the second operand is
  \<open>r\<close> with the constant 5 to be added, and the constant is lost.\<close>

definition sum_expr :: node where
  "sum_expr = Binary OP_add PTY_i32 (Regread PTY_i32 1) (i32_const 5)"

definition nested_extract :: node where
  "nested_extract = Extractbits OP_extractbits PTY_u32 8 4 (Extractbits OP_extractbits PTY_u32 8 4 (Regread PTY_u32 1))"

definition select_expr :: node where
  "select_expr = Ternary OP_select PTY_i32 (Regread PTY_i32 1) (i32_const 1) (i32_const 0)"

lemma leaf_dispatch: "DispatchFold ps syms same (Suc k) (Regread t r) = Some (Regread t r, None)"
    "DispatchFold ps syms same (Suc k) (i32_const n) = Some (i32_const n, None)"
  by (simp_all add: i32_const_def)

lemma sum_expr_dispatch: "\<exists>s. DispatchFold 8 syms same (Suc (Suc k)) sum_expr = Some (Regread PTY_i32 1, Some s)"
proof -
  obtain c where c: "i32_const 5 = Constval PTY_i32 c" "iv64 (mc_value c)" "mc_type c = PTY_i32" using i32_const_facts(4)[of 5] by auto
  have "sums (opt_plus 8 None (Some (mc_value c))) False (iv_num (mc_value c))"
    using opt_arith_sums(1)[OF type_values(1), of None "Some (mc_value c)"] c(2) by simp
  then obtain s where s: "opt_plus 8 None (Some (mc_value c)) = Some (Some s)" by (auto simp: sums_def)
  have "IsPrimitiveInteger PTY_i32" using ity_classes(1)[OF type_values(1)] .
  then show ?thesis using c(1,3) s
    by (simp add: sum_expr_def FoldBinary_def FoldBinary_rconst_def cvt_if_needed_def IsNoCvtNeeded_def)
qed

lemma zero_compare: "\<exists>d. compare_with_zero 8 PTY_i32 (Regread PTY_i32 1) =
    Some (Compare OP_ne PTY_i32 PTY_i32 (Regread PTY_i32 1) (Constval PTY_i32 d), None) \<and> wrap 8 PTY_i32 (iv_num (mc_value d)) = 0"
  using CreateIntConst_gives[OF type_values(1), of 0] wrap_zero[OF type_values(1)] by (auto simp: compare_with_zero_def)

lemma logical_drops_addend:
  assumes "opc = OP_lior \<and> n = 0 \<or> opc = OP_land \<and> n = 5"
  shows "\<exists>x. Fold 8 syms same (Suc (Suc (Suc k))) (Binary opc PTY_i32 (i32_const n) sum_expr) = Some x \<and>
    eval 8 syms \<sigma> (Binary opc PTY_i32 (i32_const n) sum_expr) = Some (truth (wrap 8 PTY_i32 (\<sigma> (Inr 1) + 5) \<noteq> 0)) \<and>
    eval 8 syms \<sigma> x = Some (truth (wrap 8 PTY_i32 (\<sigma> (Inr 1)) \<noteq> 0))"
proof -
  obtain s where s: "DispatchFold 8 syms same (Suc (Suc k)) sum_expr = Some (Regread PTY_i32 1, Some s)" using sum_expr_dispatch by blast
  obtain c where c: "i32_const n = Constval PTY_i32 c" "iv64 (mc_value c)" "iv_num (mc_value c) = int n" "mc_type c = PTY_i32"
    using i32_const_facts(4)[of n] assms by auto
  obtain d where d: "compare_with_zero 8 PTY_i32 (Regread PTY_i32 1) = Some (Compare OP_ne PTY_i32 PTY_i32 (Regread PTY_i32 1) (Constval PTY_i32 d), None)"
      "wrap 8 PTY_i32 (iv_num (mc_value d)) = 0" using zero_compare by blast
  have i: "IsPrimitiveInteger PTY_i32" using ity_classes(1)[OF type_values(1)] .
  have t: "GetPrimType sum_expr = PTY_i32" by (simp add: sum_expr_def)
  let ?l = "Constval PTY_i32 c" and ?x = "Compare OP_ne PTY_i32 PTY_i32 (Regread PTY_i32 1) (Constval PTY_i32 d)"
  define r where r: "r = DispatchFold 8 syms same (Suc (Suc k))"
  have rc: "r ?l = Some (?l, None)" by (simp add: r)
  have "FoldBinary_lconst 8 opc PTY_i32 PTY_i32 ?l c (Regread PTY_i32 1, Some s) = Some (?x, None)"
    using assms d(1) Iv_eq_const[OF c(2)] c(3) by (elim disjE conjE) (simp_all add: FoldBinary_lconst_def Let_def andm_def)
  then have f: "FoldBinary 8 r opc PTY_i32 ?l sum_expr = Some (?x, None)"
    using s[folded r] rc i t by (simp add: FoldBinary_def Let_def cvt_if_needed_def IsNoCvtNeeded_def)
  have "opc \<in> {OP_add, OP_ashr, OP_band, OP_bior, OP_bxor, OP_cand, OP_cior, OP_div, OP_land, OP_lior, OP_lshr, OP_max, OP_min, OP_mul, OP_rem, OP_shl, OP_sub}"
    using assms by auto
  then have "DispatchFold 8 syms same (Suc (Suc (Suc k))) (Binary opc PTY_i32 (i32_const n) sum_expr) = Some (?x, None)"
    unfolding DispatchFold.simps(2)[of 8 syms same "Suc (Suc k)", folded r] Let_def node.case c(1) using f by (simp only: if_True)
  then have "Fold 8 syms same (Suc (Suc (Suc k))) (Binary opc PTY_i32 (i32_const n) sum_expr) =
      Some (Compare OP_ne PTY_i32 PTY_i32 (Regread PTY_i32 1) (Constval PTY_i32 d))"
    by (simp only: Fold_def bind.bind_lunit PairToExpr_None snd_conv fst_conv)
  moreover have "eval 8 syms \<sigma> sum_expr = Some (wrap 8 PTY_i32 (\<sigma> (Inr 1) + 5))"
    using i32_const_facts(2)[of 5] wrap_add(1)[OF type_values(1)] by (simp add: sum_expr_def eval_binary_values(1)[OF type_values(1)])
  moreover have "eval 8 syms \<sigma> (i32_const n) = Some (int n)" using i32_const_facts(2)[of n] assms by auto
  moreover have "eval_binary 8 opc PTY_i32 (int n) y = Some (truth (y \<noteq> 0))" for y using assms by (auto simp: eval_binary_def Let_def)
  moreover have "eval 8 syms \<sigma> (Compare OP_ne PTY_i32 PTY_i32 (Regread PTY_i32 1) (Constval PTY_i32 d)) = Some (truth (wrap 8 PTY_i32 (\<sigma> (Inr 1)) \<noteq> 0))"
    using d(2) wrap_zero[OF type_values(1)] by (simp add: eval_compare_def Let_def wrap_wrap[OF type_values(1)])
  ultimately show ?thesis by simp
qed

lemma nested_extract_fold:
  "Fold 8 syms same (Suc (Suc (Suc k))) nested_extract = Some (Extractbits OP_extractbits PTY_u32 8 4 (Regread PTY_u32 1))"
  by (simp add: nested_extract_def Fold_def FoldExtractbits_def PairToExpr_def)

lemma nested_extract_values:
  "eval 8 syms (\<lambda>_. 256) nested_extract = Some 0"
  "eval 8 syms (\<lambda>_. 256) (Extractbits OP_extractbits PTY_u32 8 4 (Regread PTY_u32 1)) = Some 1"
  by (simp_all add: nested_extract_def extract_value_def wrap_def type_values)

lemma select_fold: "Fold 8 syms same (Suc (Suc (Suc k))) select_expr = Some (Regread PTY_i32 1)"
proof -
  obtain c d where c: "i32_const 1 = Constval PTY_i32 c" "iv64 (mc_value c)" "iv_num (mc_value c) = 1"
      "i32_const 0 = Constval PTY_i32 d" "iv64 (mc_value d)" "iv_num (mc_value d) = 0" using i32_const_facts(4)[of 1] i32_const_facts(4)[of 0] by auto
  have "GetExtValue 0 (mc_value c) = Some 1" "GetExtValue 0 (mc_value d) = Some 0"
    using GetExtValue_0[OF c(2)] GetExtValue_0[OF c(5)] c(3,6) by (simp_all add: signed_64_range)
  then show ?thesis using c(1,4) ity_classes(1)[OF type_values(1)]
    by (simp add: select_expr_def Fold_def FoldTernary_def PairToExpr_def)
qed

text \<open>C36: Four expressions whose value folding changes: \<open>0 || (r + 5)\<close> and \<open>5 && (r + 5)\<close> become \<open>r != 0\<close>, two
  nested extractions of the same bits at an offset other than 0 become one, and \<open>select (r, 1, 0)\<close> becomes \<open>r\<close>.\<close>

theorem fold_not_exact:
  "(\<exists>x. Fold 8 no_symbols (=) 3 (Binary OP_lior PTY_i32 (i32_const 0) sum_expr) = Some x \<and>
      eval 8 no_symbols (\<lambda>_. - 5) (Binary OP_lior PTY_i32 (i32_const 0) sum_expr) = Some 0 \<and> eval 8 no_symbols (\<lambda>_. - 5) x = Some 1) \<and>
   (\<exists>x. Fold 8 no_symbols (=) 3 (Binary OP_land PTY_i32 (i32_const 5) sum_expr) = Some x \<and>
      eval 8 no_symbols (\<lambda>_. - 5) (Binary OP_land PTY_i32 (i32_const 5) sum_expr) = Some 0 \<and> eval 8 no_symbols (\<lambda>_. - 5) x = Some 1) \<and>
   (\<exists>x. Fold 8 no_symbols (=) 3 nested_extract = Some x \<and>
      eval 8 no_symbols (\<lambda>_. 256) nested_extract = Some 0 \<and> eval 8 no_symbols (\<lambda>_. 256) x = Some 1) \<and>
   (\<exists>x. Fold 8 no_symbols (=) 3 select_expr = Some x \<and>
      eval 8 no_symbols (\<lambda>_. 2) select_expr = Some 1 \<and> eval 8 no_symbols (\<lambda>_. 2) x = Some 2)"
proof (intro conjI)
  note logical = logical_drops_addend[where k = 0 and syms = no_symbols and same = "(=)" and \<sigma> = "\<lambda>_. - 5", unfolded numeral_3_eq_3[symmetric]]
  show "\<exists>x. Fold 8 no_symbols (=) 3 (Binary OP_lior PTY_i32 (i32_const 0) sum_expr) = Some x \<and>
      eval 8 no_symbols (\<lambda>_. - 5) (Binary OP_lior PTY_i32 (i32_const 0) sum_expr) = Some 0 \<and> eval 8 no_symbols (\<lambda>_. - 5) x = Some 1"
    using logical[of OP_lior 0] wrap_i32[of 0] wrap_i32[of "- 5"] by (simp only: truth_def) auto
  show "\<exists>x. Fold 8 no_symbols (=) 3 (Binary OP_land PTY_i32 (i32_const 5) sum_expr) = Some x \<and>
      eval 8 no_symbols (\<lambda>_. - 5) (Binary OP_land PTY_i32 (i32_const 5) sum_expr) = Some 0 \<and> eval 8 no_symbols (\<lambda>_. - 5) x = Some 1"
    using logical[of OP_land 5] wrap_i32[of 0] wrap_i32[of "- 5"] by (simp only: truth_def) auto
  show "\<exists>x. Fold 8 no_symbols (=) 3 nested_extract = Some x \<and>
      eval 8 no_symbols (\<lambda>_. 256) nested_extract = Some 0 \<and> eval 8 no_symbols (\<lambda>_. 256) x = Some 1"
    using nested_extract_fold[of no_symbols "(=)" 0] nested_extract_values by (simp add: numeral_3_eq_3)
  show "\<exists>x. Fold 8 no_symbols (=) 3 select_expr = Some x \<and>
      eval 8 no_symbols (\<lambda>_. 2) select_expr = Some 1 \<and> eval 8 no_symbols (\<lambda>_. 2) x = Some 2"
    using select_fold[of no_symbols "(=)" 0] by (simp add: numeral_3_eq_3 select_expr_def i32_const_facts wrap_i32)
qed

section \<open>Operators on constants\<close>

text \<open>Maximum, minimum and the operators on truth values.\<close>

lemma Iv_of_iv_typed: "ity ps t \<Longrightarrow> typed ps t v \<Longrightarrow> gives ps t (Iv_of_iv_type ps v t) (iv_num v)"
  by (rule Iv_of_iv_gives) (auto simp: typed_def iv64_def ity_def)

lemma Iv_min_max_gives:
  assumes "ity ps t" "typed ps t a" "typed ps t b"
  shows "gives ps t (Iv_Min_type ps a b t) (min (iv_num a) (iv_num b))" "gives ps t (Iv_Max_type ps a b t) (max (iv_num a) (iv_num b))"
proof -
  have i: "iv64 a" "iv64 b" using assms typed_iv64 by auto
  have n: "wrap ps t (iv_num a) = iv_num a" "wrap ps t (iv_num b) = iv_num b" using assms typed_num by auto
  have lt: "Iv_Less ps a b t = Some (iv_num a < iv_num b)" using Iv_compare_type(2)[OF assms(1) i] n by simp
  show min: "gives ps t (Iv_Min_type ps a b t) (min (iv_num a) (iv_num b))"
    using Iv_of_iv_typed[OF assms(1,2)] Iv_of_iv_typed[OF assms(1,3)] lt by (simp add: Iv_Min_type_def min_def)
  then obtain m where m: "Iv_Min_type ps a b t = Some m" "typed ps t m" "iv_num m = min (iv_num a) (iv_num b)"
    using n by (auto simp: gives_def min_def)
  have "Iv_eq m a = Some (iv_num m = iv_num a)" using Iv_eq_num[OF typed_ok[OF m(2)] typed_ok[OF assms(2)] typed_same[OF m(2) assms(2)]] .
  then have r: "Iv_Max_type ps a b t = Some (if iv_num m = iv_num a then b else a)"
    using m(1) Iv_copy_ok[OF typed_ok[OF assms(2)]] Iv_copy_ok[OF typed_ok[OF assms(3)]] by (simp add: Iv_Max_type_def)
  show "gives ps t (Iv_Max_type ps a b t) (max (iv_num a) (iv_num b))"
  proof (cases "iv_num m = iv_num a")
    case True
    then show ?thesis using r m(3) assms(3) n by (auto simp: gives_def)
  next
    case False
    then show ?thesis using r m(3) assms(2) n by (auto simp: gives_def)
  qed
qed

lemma truth_const_gives:
  assumes "ity ps t" "iv64 a" "iv64 b"
  shows "gives ps t (do { x \<leftarrow> GetExtValue 0 a; y \<leftarrow> GetExtValue 0 b; Iv_of_val_type ps (bool_word (f (x \<noteq> 0) (y \<noteq> 0))) t })
    (truth (f (iv_num a \<noteq> 0) (iv_num b \<noteq> 0)))"
proof -
  have z: "signed_take_bit 63 (iv_num v) = 0 \<longleftrightarrow> iv_num v = 0" if "iv64 v" for v using signed_64_eq[of "iv_num v" 0] iv64_num[OF that] by simp
  have "uint (bool_word c) = truth c" for c by (simp add: bool_word_def truth_def)
  then show ?thesis using GetExtValue_0[OF assms(2)] GetExtValue_0[OF assms(3)] z[OF assms(2)] z[OF assms(3)]
      Iv_of_val_gives[OF assms(1), of "bool_word (f (iv_num a \<noteq> 0) (iv_num b \<noteq> 0))"] by simp
qed

text \<open>The other operators on constants; maximum and minimum of constants that have the result type.\<close>

lemma FoldConstBinary_order_value:
  assumes "ity ps t" "iv64 (mc_value c0)" "iv64 (mc_value c1)"
    and "eval_binary ps opc t (iv_num (mc_value c0)) (iv_num (mc_value c1)) = Some v"
    and "opc \<in> {OP_max, OP_min, OP_cand, OP_land, OP_cior, OP_lior}"
    and "opc \<in> {OP_max, OP_min} \<Longrightarrow> typed ps t (mc_value c0) \<and> typed ps t (mc_value c1)"
  shows "\<exists>c. FoldConstBinary ps opc t c0 c1 = Some (Constval t c) \<and> wt ps (Constval t c) \<and> iv_num (mc_value c) = v"
proof -
  let ?a = "mc_value c0" and ?b = "mc_value c1"
  let ?truth = "\<lambda>f. do { x \<leftarrow> GetExtValue 0 ?a; y \<leftarrow> GetExtValue 0 ?b; Iv_of_val_type ps (bool_word (f (x \<noteq> 0) (y \<noteq> 0))) t }"
  let ?r = "case opc of OP_max \<Rightarrow> Iv_Max_type ps ?a ?b t | OP_min \<Rightarrow> Iv_Min_type ps ?a ?b t
    | OP_cand \<Rightarrow> ?truth (\<and>) | OP_land \<Rightarrow> ?truth (\<and>) | OP_cior \<Rightarrow> ?truth (\<or>) | OP_lior \<Rightarrow> ?truth (\<or>) | _ \<Rightarrow> None"
  have n: "wrap ps t (iv_num ?a) = iv_num ?a" "wrap ps t (iv_num ?b) = iv_num ?b" if "opc \<in> {OP_max, OP_min}"
    using assms(6)[OF that] typed_num[OF assms(1)] by auto
  note T = truth_const_gives[OF assms(1-3), of "(\<and>)"] truth_const_gives[OF assms(1-3), of "(\<or>)"]
  have "gives ps t ?r v" using assms(5)
  proof (elim insertE emptyE)
    assume o: "opc = OP_max"
    then show ?thesis using Iv_min_max_gives(2)[OF assms(1), of ?a ?b] assms(4,6) n by (simp add: eval_binary_def)
  next
    assume o: "opc = OP_min"
    then show ?thesis using Iv_min_max_gives(1)[OF assms(1), of ?a ?b] assms(4,6) n by (simp add: eval_binary_def)
  qed (use T assms(4) in \<open>simp_all add: eval_binary_def\<close>)
  from gives_make_const[OF assms(1) this] obtain u c where u: "?r = Some u" "GetExtValue 0 u = Some (signed_take_bit 63 (iv_num u))"
      "make_const ps (word_of_int (signed_take_bit 63 (iv_num u))) t = Some c" "wt ps (Constval t c)"
      "iv_num (mc_value c) = wrap ps t v" by blast
  moreover obtain z where "Iv_of_val_type ps 0 t = Some z" using Iv_of_val_gives[OF assms(1), of 0] by (auto simp: gives_def)
  ultimately show ?thesis
    using assms(5) ity_classes(1)[OF assms(1)] eval_binary_range[OF assms(1,4)]
    by (elim insertE emptyE) (auto simp: FoldConstBinary_def FoldIntConstBinaryMIRConst_def Let_def split: Option.bind_splits)
qed

lemma FoldConstBinary_all_value:
  assumes "ity ps t" "iv64 (mc_value c0)" "iv64 (mc_value c1)"
    and "eval_binary ps opc t (iv_num (mc_value c0)) (iv_num (mc_value c1)) = Some v"
    and "opc \<in> {OP_max, OP_min} \<Longrightarrow> typed ps t (mc_value c0) \<and> typed ps t (mc_value c1)"
  shows "\<exists>c. FoldConstBinary ps opc t c0 c1 = Some (Constval t c) \<and> wt ps (Constval t c) \<and> iv_num (mc_value c) = v"
proof (cases "opc \<in> {OP_max, OP_min, OP_cand, OP_land, OP_cior, OP_lior}")
  case True
  then show ?thesis by (rule FoldConstBinary_order_value[OF assms(1-4) _ assms(5)])
next
  case False
  then have "opc \<in> {OP_add, OP_sub, OP_mul, OP_div, OP_rem, OP_band, OP_bior, OP_bxor, OP_ashr, OP_lshr, OP_shl}"
    using assms(4) by (cases opc) (simp_all add: eval_binary_def)
  then show ?thesis by (rule FoldConstBinary_value[OF assms(1-4)])
qed

text \<open>C3: Folding any binary operator of two integer constants gives the constant of the result type whose value is that of the
  operation, wherever the operation has a value: not a division by zero or one that overflows, nor a shift by the width or
  more. The constants of a maximum or minimum have the result type.\<close>

theorem const_binary_exact:
  assumes "ity ps t" "iv64 (mc_value c0)" "iv64 (mc_value c1)"
    and "eval_binary ps opc t (iv_num (mc_value c0)) (iv_num (mc_value c1)) = Some v"
    and "opc \<in> {OP_max, OP_min} \<Longrightarrow> typed ps t (mc_value c0) \<and> typed ps t (mc_value c1)"
  shows "\<exists>c. FoldConstBinary ps opc t c0 c1 = Some (Constval t c) \<and> mc_type c = t \<and> typed ps t (mc_value c) \<and> iv_num (mc_value c) = v"
  using FoldConstBinary_all_value[OF assms] by auto

theorem const_binary_exact_witness:
  "\<exists>c0 c1 c. i32_const 7 = Constval PTY_i32 c0 \<and> i32_const 5 = Constval PTY_i32 c1 \<and>
    FoldConstBinary 8 OP_shl PTY_i32 c0 c1 = Some (Constval PTY_i32 c) \<and> iv_num (mc_value c) = 224"
proof -
  obtain c0 where c0: "i32_const 7 = Constval PTY_i32 c0" "iv64 (mc_value c0)" "iv_num (mc_value c0) = 7" using i32_const_facts(4)[of 7] by auto
  obtain c1 where c1: "i32_const 5 = Constval PTY_i32 c1" "iv64 (mc_value c1)" "iv_num (mc_value c1) = 5" using i32_const_facts(4)[of 5] by auto
  have "eval_binary 8 OP_shl PTY_i32 (iv_num (mc_value c0)) (iv_num (mc_value c1)) = Some 224"
    using c0(3) c1(3) by (simp add: eval_binary_def eval_shift_def type_values wrap_i32 push_bit_eq_mult)
  then show ?thesis using const_binary_exact[OF type_values(1) c0(2) c1(2)] c0(1) c1(1) by auto
qed

end
