(* ===== verification/Cmp_Fold.thy ===== *)
theory Cmp_Fold
  imports Constant_Fold_Pair
begin

text \<open>
  The merging of two comparisons of one value with constants into one,
  \<^verbatim>\<open>src/src/mapleall/mpl2mpl/src/constantfold.cpp\<close>, lines 2683 to 3024, which the optimiser calls for conditions
  joined by and or or. The expressions of the optimiser (\<open>MeExpr\<close>) are hash-consed trees of the same operators as
  the nodes of theory \<open>Constant_Fold\<close>, which stand for them here; the equality of two expressions is the equality of
  their addresses in the source. Results are \<^term>\<open>None\<close> for a failed assertion, \<^term>\<open>Some None\<close> for the null
  pointer.
\<close>

unbundle bit_operations_syntax

section \<open>Intervals\<close>

text \<open>An interval \<open>[lower, upper)\<close> of values of an integer type; with \<open>upper\<close> below \<open>lower\<close> it wraps around. A set
  that is full or empty leaves the bounds default constructed. Sets are passed by value; the copy of a
  default constructed bound, whose zero is masked by an undefined shift, is taken to be zero.\<close>

record ConstIntSet =
  cs_lower :: IntVal
  cs_upper :: IntVal
  cs_isFull :: bool
  cs_isEmpty :: bool

definition cs_new :: ConstIntSet where
  "cs_new = \<lparr>cs_lower = Iv_default, cs_upper = Iv_default, cs_isFull = False, cs_isEmpty = False\<rparr>"

definition DoNegation :: "ConstIntSet \<Rightarrow> ConstIntSet option" where
  "DoNegation s =
     (if cs_isEmpty s \<or> cs_isFull s then Some (s\<lparr>cs_isEmpty := cs_isFull s, cs_isFull := cs_isEmpty s\<rparr>)
      else do {
        mn \<leftarrow> IsMinValue (cs_lower s);
        mx \<leftarrow> andm (\<not> mn) (IsMaxValue (cs_upper s));
        (if mn then do {
           u \<leftarrow> SetMaxValue (iv_sign (cs_upper s)) (iv_width (cs_upper s)) (cs_upper s);
           Some (s\<lparr>cs_lower := cs_upper s, cs_upper := u\<rparr>)
         } else if mx then do {
           l \<leftarrow> SetMinValue (iv_sign (cs_lower s)) (iv_width (cs_lower s)) (cs_lower s);
           Some (s\<lparr>cs_lower := l, cs_upper := cs_lower s\<rparr>)
         } else Some (s\<lparr>cs_lower := cs_upper s, cs_upper := cs_lower s\<rparr>))
      })"

definition EqMax :: "ConstIntSet \<Rightarrow> bool option" where
  "EqMax s = do { e \<leftarrow> Iv_eq (cs_lower s) (cs_upper s); andm e (IsMaxValue (cs_upper s)) }"

definition cs_eq :: "ConstIntSet \<Rightarrow> ConstIntSet \<Rightarrow> bool option" where
  "cs_eq s1 s2 =
     andm (cs_isFull s1 = cs_isFull s2 \<and> cs_isEmpty s1 = cs_isEmpty s2) (do {
       l \<leftarrow> Iv_eq (cs_lower s1) (cs_lower s2);
       andm l (Iv_eq (cs_upper s1) (cs_upper s2))
     })"

text \<open>The interval of the values \<open>x\<close> with \<open>x op c\<close>. A constant that does not fit the type of the value is
  replaced by the least or the greatest value.\<close>

definition range_set :: "Opcode \<Rightarrow> IntVal \<Rightarrow> ConstIntSet option" where
  "range_set opc v =
     (let least = SetMinValue (iv_sign v) (iv_width v) Iv_default;
          greatest = SetMaxValue (iv_sign v) (iv_width v) Iv_default in
      case opc of
        OP_lt \<Rightarrow> do {
          b \<leftarrow> IsMinValue v;
          (if b then Some (cs_new\<lparr>cs_isEmpty := True\<rparr>)
           else do { l \<leftarrow> least; Some (cs_new\<lparr>cs_lower := l, cs_upper := v\<rparr>) })
        }
      | OP_le \<Rightarrow> do {
          b \<leftarrow> IsMaxValue v;
          (if b then Some (cs_new\<lparr>cs_isFull := True\<rparr>)
           else do { l \<leftarrow> least; u \<leftarrow> Iv_plus_u64 v 1; Some (cs_new\<lparr>cs_lower := l, cs_upper := u\<rparr>) })
        }
      | OP_gt \<Rightarrow> do {
          b \<leftarrow> IsMaxValue v;
          (if b then Some (cs_new\<lparr>cs_isEmpty := True\<rparr>)
           else do { l \<leftarrow> Iv_plus_u64 v 1; u \<leftarrow> greatest; Some (cs_new\<lparr>cs_lower := l, cs_upper := u\<rparr>) })
        }
      | OP_ge \<Rightarrow> do {
          b \<leftarrow> IsMinValue v;
          (if b then Some (cs_new\<lparr>cs_isFull := True\<rparr>)
           else do { u \<leftarrow> greatest; Some (cs_new\<lparr>cs_lower := v, cs_upper := u\<rparr>) })
        }
      | OP_eq \<Rightarrow> do {
          b \<leftarrow> IsMaxValue v;
          u \<leftarrow> (if b then Some v else Iv_plus_u64 v 1);
          Some (cs_new\<lparr>cs_lower := v, cs_upper := u\<rparr>)
        }
      | OP_ne \<Rightarrow> do {
          b \<leftarrow> IsMaxValue v;
          l \<leftarrow> (if b then least else Iv_plus_u64 v 1);
          Some (cs_new\<lparr>cs_lower := l, cs_upper := v\<rparr>)
        }
      | _ \<Rightarrow> None)"

definition GenerateIntSet :: "nat \<Rightarrow> Opcode \<Rightarrow> IntVal \<Rightarrow> PrimType \<Rightarrow> PrimType \<Rightarrow> ConstIntSet option" where
  "GenerateIntSet ps opc c valueType t = do {
     v \<leftarrow> TruncOrExtend_type ps t c;
     misfit \<leftarrow> andm (t \<noteq> valueType) (do {
       w \<leftarrow> Trunc_type ps valueType v;
       x \<leftarrow> GetZXTValue 0 w;
       y \<leftarrow> GetZXTValue 0 c;
       Some (x \<noteq> y)
     });
     (if misfit \<and> opc = OP_eq then Some (cs_new\<lparr>cs_isEmpty := True\<rparr>)
      else if misfit \<and> opc = OP_ne then Some (cs_new\<lparr>cs_isFull := True\<rparr>)
      else do {
        v \<leftarrow> (if misfit then do {
               neg \<leftarrow> andm (IsSignedInteger valueType) (GetSignBit v);
               (if neg then SetMinValue (iv_sign v) (iv_width v) v else SetMaxValue (iv_sign v) (iv_width v) v)
             } else Some v);
        range_set opc v
      })
   }"

text \<open>The union of two intervals, if it is an interval; the inner option is the null result.\<close>

definition union_eqmax :: "ConstIntSet \<Rightarrow> ConstIntSet \<Rightarrow> ConstIntSet option option" where
  "union_eqmax s1 s2 = do {
     a \<leftarrow> Iv_eq (cs_upper s1) (cs_upper s2);
     b \<leftarrow> (if a then Some True else do { u \<leftarrow> Iv_plus_u64 (cs_upper s1) 1; Iv_eq u (cs_upper s2) });
     Some (if b then Some (cs_new\<lparr>cs_lower := cs_lower s1, cs_upper := cs_upper s2\<rparr>) else None)
   }"

definition union_hull :: "ConstIntSet \<Rightarrow> ConstIntSet \<Rightarrow> ConstIntSet option" where
  "union_hull s1 s2 = do {
     a \<leftarrow> Iv_less (cs_lower s2) (cs_lower s1);
     b \<leftarrow> Iv_less (cs_upper s1) (cs_upper s2);
     Some (cs_new\<lparr>cs_lower := if a then cs_lower s2 else cs_lower s1, cs_upper := if b then cs_upper s2 else cs_upper s1\<rparr>)
   }"

definition union_wrapped :: "ConstIntSet \<Rightarrow> ConstIntSet \<Rightarrow> ConstIntSet option option" where
  "union_wrapped s1 s2 =
     (let l1 = cs_lower s1; u1 = cs_upper s1; l2 = cs_lower s2; u2 = cs_upper s2 in do {
        a \<leftarrow> Iv_le u2 u1;
        b \<leftarrow> Iv_ge l2 l1;
        c \<leftarrow> Iv_le l2 u1;
        d \<leftarrow> Iv_ge u2 l1;
        e \<leftarrow> Iv_greater l2 u1;
        f \<leftarrow> Iv_less u2 l1;
        Some (if a \<or> b then Some s1
              else if c \<and> d then Some (cs_new\<lparr>cs_isFull := True\<rparr>)
              else if e \<and> d then Some (cs_new\<lparr>cs_lower := l2, cs_upper := u1\<rparr>)
              else if c \<and> f then Some (cs_new\<lparr>cs_lower := l1, cs_upper := u2\<rparr>)
              else None)
      })"

definition union_ranges :: "ConstIntSet \<Rightarrow> ConstIntSet \<Rightarrow> ConstIntSet option option" where
  "union_ranges s1 s2 = do {
     less1 \<leftarrow> Iv_less (cs_lower s1) (cs_upper s1);
     less2 \<leftarrow> Iv_less (cs_lower s2) (cs_upper s2);
     greater1 \<leftarrow> Iv_greater (cs_lower s1) (cs_upper s1);
     greater2 \<leftarrow> Iv_greater (cs_lower s2) (cs_upper s2);
     (if less1 \<and> less2 then do {
        a \<leftarrow> Iv_less (cs_upper s1) (cs_lower s2);
        b \<leftarrow> Iv_greater (cs_lower s1) (cs_upper s2);
        (if a \<or> b then Some None else map_option Some (union_hull s1 s2))
      } else if greater1 \<and> less2 then union_wrapped s1 s2
      else if greater1 \<and> greater2 then do {
        a \<leftarrow> Iv_le (cs_lower s2) (cs_upper s1);
        b \<leftarrow> Iv_ge (cs_upper s2) (cs_lower s1);
        (if a \<or> b then Some (Some (cs_new\<lparr>cs_isFull := True\<rparr>)) else map_option Some (union_hull s1 s2))
      } else Some (Some cs_new))
   }"

definition union_ordered :: "ConstIntSet \<Rightarrow> ConstIntSet \<Rightarrow> ConstIntSet option option" where
  "union_ordered s1 s2 = do {
     m2 \<leftarrow> EqMax s2;
     (if m2 then union_eqmax s1 s2
      else do {
        mn \<leftarrow> IsMinValue (cs_lower s1);
        mx \<leftarrow> IsMaxValue (cs_upper s2);
        (if mn \<and> mx then do {
           full \<leftarrow> Iv_le (cs_lower s2) (cs_upper s1);
           Some (Some (cs_new\<lparr>cs_upper := cs_upper s1, cs_lower := cs_lower s2, cs_isFull := full\<rparr>))
         } else union_ranges s1 s2)
      })
   }"

definition Cs_Union :: "ConstIntSet \<Rightarrow> ConstIntSet \<Rightarrow> ConstIntSet option option" where
  "Cs_Union s1 s2 = do {
     same \<leftarrow> cs_eq s1 s2;
     (if same then Some (Some s1)
      else if cs_isFull s1 \<or> cs_isFull s2 then Some (Some (cs_new\<lparr>cs_isFull := True\<rparr>))
      else if cs_isEmpty s1 \<or> cs_isEmpty s2 then Some (Some (if cs_isEmpty s1 then s2 else s1))
      else if iv_sign (cs_lower s1) \<noteq> iv_sign (cs_lower s2) then Some None
      else do {
        wrap2 \<leftarrow> Iv_greater (cs_lower s2) (cs_upper s2);
        max1 \<leftarrow> IsMaxValue (cs_upper s1);
        m2 \<leftarrow> EqMax s2;
        (if (wrap2 \<or> max1) \<and> \<not> m2 then union_ordered s2 s1 else union_ordered s1 s2)
      })
   }"

section \<open>The merged comparison\<close>

definition CreateIntConstMeExpr :: "nat \<Rightarrow> IntVal \<Rightarrow> PrimType \<Rightarrow> node option" where
  "CreateIntConstMeExpr ps v t = do { x \<leftarrow> GetExtValue 0 v; CreateIntConst ps (word_of_int x) t }"

definition IntSet2MeExpr :: "nat \<Rightarrow> node \<Rightarrow> ConstIntSet \<Rightarrow> node option" where
  "IntSet2MeExpr ps value s =
     (let l = cs_lower s; u = cs_upper s; t = GetPrimType value in
      if cs_isFull s then CreateIntConst ps 1 PTY_u1
      else if cs_isEmpty s then CreateIntConst ps 0 PTY_u1
      else do {
        lowerValExpr \<leftarrow> CreateIntConstMeExpr ps l t;
        upperValExpr \<leftarrow> CreateIntConstMeExpr ps u t;
        mn \<leftarrow> IsMinValue l;
        mx \<leftarrow> IsMaxValue u;
        l1 \<leftarrow> Iv_plus_u64 l 1;
        u1 \<leftarrow> Iv_plus_u64 u 1;
        single \<leftarrow> Iv_eq u l1;
        gap \<leftarrow> Iv_eq l u1;
        inside \<leftarrow> Iv_ge u l1;
        (if mn then Some (Compare OP_lt PTY_u1 t value upperValExpr)
         else if mx then Some (Compare OP_ge PTY_u1 t value lowerValExpr)
         else if single then Some (Compare OP_eq PTY_u1 t value lowerValExpr)
         else if gap then Some (Compare OP_ne PTY_u1 t value upperValExpr)
         else if inside then do {
           d \<leftarrow> Iv_minus u l;
           d \<leftarrow> Iv_minus_u64 d 1;
           c \<leftarrow> CreateIntConstMeExpr ps d t;
           Some (Compare OP_le PTY_u1 (GetUnsignedPrimType t) (Binary OP_sub t value lowerValExpr) c)
         } else do {
           d \<leftarrow> Iv_minus l u;
           c \<leftarrow> CreateIntConstMeExpr ps d t;
           Some (Compare OP_ge PTY_u1 (GetUnsignedPrimType t) (Binary OP_sub t value upperValExpr) c)
         })
      })"

text \<open>Two sets of one size whose lower bounds differ in one bit: the bit is masked out, after a shift of the
  values when the bounds alone do not show it.\<close>

definition one_bit_merge :: "nat \<Rightarrow> PrimType \<Rightarrow> node \<Rightarrow> ConstIntSet \<Rightarrow> ConstIntSet \<Rightarrow> (node \<times> ConstIntSet) option option" where
  "one_bit_merge ps t value s1 s2 = do {
     diff \<leftarrow> Iv_minus (cs_lower s2) (cs_lower s1);
     pow \<leftarrow> IsPowerOf2 diff;
     (if \<not> pow then Some None
      else do {
        zero \<leftarrow> Iv_of_val_type ps 0 t;
        x \<leftarrow> Iv_xor (cs_lower s1) diff;
        moved \<leftarrow> Iv_neq x (cs_lower s2);
        let offset = (if moved then cs_lower s1 else zero);
        l \<leftarrow> Iv_minus (cs_lower s1) offset;
        u \<leftarrow> Iv_minus (cs_upper s1) offset;
        o' \<leftarrow> CreateIntConstMeExpr ps offset t;
        m \<leftarrow> Iv_not diff;
        m' \<leftarrow> CreateIntConstMeExpr ps m t;
        Some (Some (Binary OP_band t (Binary OP_sub t value o') m', cs_new\<lparr>cs_lower := l, cs_upper := u\<rparr>))
      })
   }"

definition one_bit_apart :: "nat \<Rightarrow> PrimType \<Rightarrow> node \<Rightarrow> ConstIntSet \<Rightarrow> ConstIntSet \<Rightarrow> (node \<times> ConstIntSet) option option" where
  "one_bit_apart ps t value s1 s2 = do {
     d1 \<leftarrow> Iv_minus (cs_upper s1) (cs_lower s1);
     d2 \<leftarrow> Iv_minus (cs_upper s2) (cs_lower s2);
     differ \<leftarrow> Iv_neq d1 d2;
     (if differ then Some None
      else do {
        a \<leftarrow> Iv_ge (cs_lower s1) (cs_upper s1);
        b \<leftarrow> Iv_ge (cs_lower s2) (cs_upper s2);
        (if a \<or> b then Some None
         else do {
           z1 \<leftarrow> GetZXTValue 0 (cs_lower s1);
           z2 \<leftarrow> GetZXTValue 0 (cs_lower s2);
           (if z1 > z2 then one_bit_merge ps t value s2 s1 else one_bit_merge ps t value s1 s2)
         })
      })
   }"

text \<open>The union of two sets of comparisons, or the masked test.\<close>

definition merge_sets :: "nat \<Rightarrow> PrimType \<Rightarrow> node \<Rightarrow> ConstIntSet \<Rightarrow> ConstIntSet \<Rightarrow> (node \<times> ConstIntSet) option option" where
  "merge_sets ps t value s1 s2 = do {
     s3 \<leftarrow> Cs_Union s1 s2;
     (case s3 of
        Some s \<Rightarrow> Some (Some (value, s))
      | None \<Rightarrow> (if iv_sign (cs_lower s1) \<noteq> iv_sign (cs_lower s2) then Some None else one_bit_apart ps t value s1 s2))
   }"

definition IsCompareHasReverseOp :: "Opcode \<Rightarrow> bool" where
  "IsCompareHasReverseOp opc \<longleftrightarrow> opc \<in> {OP_eq, OP_ne, OP_ge, OP_gt, OP_le, OP_lt}"

text \<open>The comparisons have a constant as second operand. Expressions are shared, so that equal operands are
  the same.\<close>

fun compare_const :: "node \<Rightarrow> (Opcode \<times> PrimType \<times> node \<times> MIRIntConst) option" where
  "compare_const (Compare opc _ ot a (Constval _ c)) = (if IsCompareHasReverseOp opc then Some (opc, ot, a, c) else None)"
| "compare_const _ = None"

definition FoldCmpExpr :: "nat \<Rightarrow> node \<Rightarrow> node \<Rightarrow> bool \<Rightarrow> node option option" where
  "FoldCmpExpr ps cmp1 cmp2 isAnd =
     (case (compare_const cmp1, compare_const cmp2) of
        (Some (op1, type1, value, c1), Some (op2, type2, value2, c2)) \<Rightarrow>
          (if value \<noteq> value2 \<or> \<not> IsPrimitiveInteger (GetPrimType value) \<or> type1 \<noteq> type2 then Some None
           else do {
             let vt = GetPrimType value;
             let t = (if IsUnsignedInteger vt then GetUnsignedPrimType type1 else type1);
             s1 \<leftarrow> GenerateIntSet ps op1 (mc_value c1) vt t;
             s2 \<leftarrow> GenerateIntSet ps op2 (mc_value c2) vt t;
             s1 \<leftarrow> (if isAnd then DoNegation s1 else Some s1);
             s2 \<leftarrow> (if isAnd then DoNegation s2 else Some s2);
             r \<leftarrow> merge_sets ps t value s1 s2;
             (case r of
                None \<Rightarrow> Some None
              | Some (value', s) \<Rightarrow> do {
                  s \<leftarrow> (if isAnd then DoNegation s else Some s);
                  map_option Some (IntSet2MeExpr ps value' s)
                })
           })
      | _ \<Rightarrow> Some None)"

text \<open>\<open>(x & c1) | (x & c2)\<close> is \<open>x & (c1 | c2)\<close>.\<close>

fun band_const :: "node \<Rightarrow> (node \<times> MIRIntConst) option" where
  "band_const (Binary opc _ a (Constval _ c)) = (if opc = OP_band then Some (a, c) else None)"
| "band_const _ = None"

definition FoldOrOfAnds :: "nat \<Rightarrow> node \<Rightarrow> node \<Rightarrow> node option option" where
  "FoldOrOfAnds ps and1 and2 =
     (case (band_const and1, band_const and2) of
        (Some (value, c1), Some (value2, c2)) \<Rightarrow>
          (if value \<noteq> value2 then Some None
           else do {
             c3 \<leftarrow> Iv_or (mc_value c1) (mc_value c2);
             e \<leftarrow> CreateIntConstMeExpr ps c3 (GetPrimType value);
             Some (Some (Binary OP_band (GetPrimType value) value e))
           })
      | _ \<Rightarrow> Some None)"

end
