(* ===== verification/Cmp_Fold_Sets.thy ===== *)
theory Cmp_Fold_Sets
  imports Cmp_Fold
begin

text \<open>
  The sets of values that the merging of comparisons works with, as intervals of integers: the operations of
  \<open>IntVal\<close> in a type as operations on integers, the set of a comparison, its complement, and the union. The union is
  refined to one on pairs of integers, \<open>unite\<close>, which is shown to be exact.
\<close>

unbundle bit_operations_syntax

section \<open>Bounds of a type\<close>

definition least :: "nat \<Rightarrow> PrimType \<Rightarrow> int" where
  "least ps t = (if IsSignedInteger t then - (2 ^ (bits ps t - 1)) else 0)"

definition greatest :: "nat \<Rightarrow> PrimType \<Rightarrow> int" where
  "greatest ps t = (if IsSignedInteger t then 2 ^ (bits ps t - 1) - 1 else 2 ^ bits ps t - 1)"

lemma wrap_self_iff: "ity ps t \<Longrightarrow> wrap ps t x = x \<longleftrightarrow> least ps t \<le> x \<and> x \<le> greatest ps t"
  by (auto simp: wrap_range least_def greatest_def)

lemma typed_bounds: "ity ps t \<Longrightarrow> typed ps t v \<Longrightarrow> least ps t \<le> iv_num v \<and> iv_num v \<le> greatest ps t"
  using typed_num by (simp add: wrap_self_iff[symmetric])

lemma type_span: "ity ps t \<Longrightarrow> greatest ps t - least ps t = 2 ^ bits ps t - 1"
  using ity_bits[of ps t] by (cases "bits ps t") (auto simp: least_def greatest_def)

lemma type_order: "ity ps t \<Longrightarrow> least ps t < greatest ps t"
  using type_span[of ps t] ity_bits[of ps t] one_less_power[of "2 :: int" "bits ps t"] by linarith

text \<open>The value of a type that stands for an integer.\<close>

definition ivn :: "nat \<Rightarrow> PrimType \<Rightarrow> int \<Rightarrow> IntVal" where
  "ivn ps t z = \<lparr>iv_width = bits ps t, iv_sign = IsSignedInteger t, iv_u = Value (take_bit (bits ps t) (word_of_int z))\<rparr>"

lemma ivn_of_val: "ity ps t \<Longrightarrow> Iv_of_val_type ps (word_of_int z) t = Some (ivn ps t z)"
  using ity_bits[of ps t] ity_classes(1)[of ps t] by (simp add: Iv_of_val_type_def Iv_of_val_one bits_def[symmetric] iv_assert_def ivn_def)

lemma typed_ivn [simp]: "ity ps t \<Longrightarrow> typed ps t (ivn ps t z)"
  and num_ivn [simp]: "ity ps t \<Longrightarrow> iv_num (ivn ps t z) = wrap ps t z"
  using Iv_of_int_gives[of ps t z] by (auto simp: gives_def ivn_of_val)

lemma typed_inj: "ity ps t \<Longrightarrow> typed ps t v \<Longrightarrow> typed ps t w \<Longrightarrow> iv_num v = iv_num w \<Longrightarrow> v = w"
proof -
  assume t: "ity ps t" and v: "typed ps t v" "typed ps t w" and n: "iv_num v = iv_num w"
  have "iv_bits v = iv_bits w" using iv_num_inj[OF typed_ok[OF v(1)] typed_ok[OF v(2)] typed_same[OF v]] n by simp
  then show ?thesis using typed_iv64[OF t v(1)] typed_iv64[OF t v(2)] v
    by (elim one_word_cases) (auto simp: typed_def iv_bits_def dest: word_unat_eq_iff[THEN iffD2])
qed

lemma gives_ivn: "ity ps t \<Longrightarrow> gives ps t r z \<Longrightarrow> r = Some (ivn ps t z)"
  by (auto simp: gives_def intro: typed_inj)

lemma typed_eq_ivn: "ity ps t \<Longrightarrow> typed ps t v \<Longrightarrow> v = ivn ps t (iv_num v)"
  by (rule typed_inj[of ps t]) (simp_all add: typed_num)

lemma ivn_eq_iff: "ity ps t \<Longrightarrow> ivn ps t a = ivn ps t b \<longleftrightarrow> wrap ps t a = wrap ps t b"
  by (metis num_ivn typed_inj typed_ivn)

section \<open>The operations on values of a type\<close>

lemma typed_compare:
  assumes "ity ps t" "typed ps t a" "typed ps t b"
  shows "Iv_eq a b = Some (iv_num a = iv_num b)" "Iv_neq a b = Some (iv_num a \<noteq> iv_num b)"
    "Iv_less a b = Some (iv_num a < iv_num b)" "Iv_greater a b = Some (iv_num a > iv_num b)"
    "Iv_le a b = Some (iv_num a \<le> iv_num b)" "Iv_ge a b = Some (iv_num a \<ge> iv_num b)"
proof -
  have c: "iv_ok a" "iv_ok b" "same_type a b" "iv_width a \<le> 64"
    using assms ity_bits[OF assms(1)] by (auto simp: typed_def same_type_def)
  then show "Iv_eq a b = Some (iv_num a = iv_num b)" "Iv_neq a b = Some (iv_num a \<noteq> iv_num b)"
    by (simp_all add: Iv_eq_num Iv_neq_def)
  show "Iv_less a b = Some (iv_num a < iv_num b)" "Iv_greater a b = Some (iv_num a > iv_num b)"
    "Iv_le a b = Some (iv_num a \<le> iv_num b)" "Iv_ge a b = Some (iv_num a \<ge> iv_num b)"
    using c by (auto simp: Iv_compare_one Iv_le_def Iv_ge_def)
qed

lemma typed_minus:
  assumes "ity ps t" "typed ps t a" "typed ps t b"
  shows "Iv_minus a b = Some (ivn ps t (iv_num a - iv_num b))"
  using assms by (intro gives_ivn iv_result_gives[OF _ Iv_minus_result]) (auto intro: typed_ok typed_same)

lemma typed_xor:
  assumes "ity ps t" "typed ps t a" "typed ps t b"
  shows "Iv_xor a b = Some (ivn ps t (iv_num a XOR iv_num b))"
  using assms by (intro gives_ivn iv_result_gives[OF _ Iv_xor_result]) (auto intro: typed_ok typed_same)

lemma typed_or:
  assumes "ity ps t" "typed ps t a" "typed ps t b"
  shows "Iv_or a b = Some (ivn ps t (iv_num a OR iv_num b))"
  using assms by (intro gives_ivn iv_result_gives[OF _ Iv_or_result]) (auto intro: typed_ok typed_same)

lemma typed_not: "ity ps t \<Longrightarrow> typed ps t a \<Longrightarrow> Iv_not a = Some (ivn ps t (NOT (iv_num a)))"
  by (intro gives_ivn Iv_unary_gives)

lemma typed_like:
  assumes "ity ps t" "typed ps t a"
  shows "like (word_of_int k) a = Some (ivn ps t k)"
  using assms ity_bits[OF assms(1)] by (simp add: like_def typed_def Iv_of_val_one ivn_def)

lemma typed_step:
  assumes "ity ps t" "typed ps t a"
  shows "Iv_plus_u64 a 1 = Some (ivn ps t (iv_num a + 1))" "Iv_minus_u64 a 1 = Some (ivn ps t (iv_num a - 1))"
proof -
  have l: "like 1 a = Some (ivn ps t 1)" using typed_like[OF assms, of 1] by simp
  have "gives ps t (Iv_plus a (ivn ps t 1)) (iv_num a + iv_num (ivn ps t 1))"
    using assms by (intro iv_result_gives[OF _ Iv_plus_result]) (auto intro: typed_ok[of ps t] typed_same[of ps t])
  then have "gives ps t (Iv_plus a (ivn ps t 1)) (iv_num a + 1)"
    using assms(1) by (elim gives_wrap[rotated]) (simp_all add: wrap_arith)
  then show "Iv_plus_u64 a 1 = Some (ivn ps t (iv_num a + 1))" using l assms(1) by (simp add: Iv_plus_u64_def gives_ivn)
  have "Iv_minus a (ivn ps t 1) = Some (ivn ps t (iv_num a - 1))"
    using typed_minus[OF assms typed_ivn[OF assms(1)], of 1] assms(1) by (simp add: ivn_eq_iff wrap_arith)
  then show "Iv_minus_u64 a 1 = Some (ivn ps t (iv_num a - 1))" using l by (simp add: Iv_minus_u64_def)
qed

text \<open>The words of the least and the greatest value.\<close>

lemma ivn_extreme:
  assumes "ity ps t"
  shows "ivn ps t (least ps t) = \<lparr>iv_width = bits ps t, iv_sign = IsSignedInteger t,
      iv_u = Value (if IsSignedInteger t then 2 ^ (bits ps t - 1) else 0)\<rparr>"
    and "ivn ps t (greatest ps t) = \<lparr>iv_width = bits ps t, iv_sign = IsSignedInteger t,
      iv_u = Value (if IsSignedInteger t then 2 ^ (bits ps t - 1) - 1 else mask (bits ps t))\<rparr>"
proof -
  obtain n where n: "bits ps t = Suc n" using ity_bits[OF assms] by (cases "bits ps t") auto
  have "take_bit (Suc n) (- (2 ^ n :: int)) = 2 ^ n"
    using zmod_zminus1_eq_if[of "2 ^ n :: int" "2 ^ Suc n"] by (simp add: take_bit_eq_mod)
  then have "take_bit (Suc n) (- (2 ^ n) :: u64) = 2 ^ n"
    using take_bit_of_int[of "Suc n" "- (2 ^ n)", where 'a = u64] by simp
  then show "ivn ps t (least ps t) = \<lparr>iv_width = bits ps t, iv_sign = IsSignedInteger t,
      iv_u = Value (if IsSignedInteger t then 2 ^ (bits ps t - 1) else 0)\<rparr>" by (simp add: ivn_def least_def n)
  have "take_bit (Suc n) (2 ^ n - 1 :: u64) = 2 ^ n - 1" "take_bit (Suc n) (2 ^ Suc n - 1 :: u64) = mask (Suc n)"
    by (simp_all only: mask_eq_exp_minus_1[symmetric] take_bit_of_mask min_def) simp_all
  then show "ivn ps t (greatest ps t) = \<lparr>iv_width = bits ps t, iv_sign = IsSignedInteger t,
      iv_u = Value (if IsSignedInteger t then 2 ^ (bits ps t - 1) - 1 else mask (bits ps t))\<rparr>"
    by (simp add: ivn_def greatest_def n)
qed

lemma all_ones_mask: "0 < w \<Longrightarrow> w \<le> 64 \<Longrightarrow> shr_word (- 1 :: u64) (64 - w) = Some (mask w)"
  by (simp add: shr_word_def drop_bit_ones)

lemma typed_extreme:
  assumes "ity ps t" "typed ps t v"
  shows "IsMinValue v = Some (iv_num v = least ps t)" "IsMaxValue v = Some (iv_num v = greatest ps t)"
proof -
  obtain w s x where v: "v = \<lparr>iv_width = w, iv_sign = s, iv_u = Value x\<rparr>" "0 < w" "w \<le> 64" "unat x < 2 ^ w"
    using typed_iv64[OF assms] by (rule one_word_cases)
  have e: "bits ps t = w" "IsSignedInteger t = s" "w - 1 < 64" using assms(2) v(1,2,3) by (auto simp: typed_def)
  have n: "iv_num v = z \<longleftrightarrow> v = ivn ps t z" if "wrap ps t z = z" for z
    using typed_eq_ivn[OF assms] num_ivn[OF assms(1)] that by metis
  have b: "wrap ps t (least ps t) = least ps t" "wrap ps t (greatest ps t) = greatest ps t"
    using type_order[OF assms(1)] assms(1) by (simp_all add: wrap_self_iff)
  show "IsMinValue v = Some (iv_num v = least ps t)"
    using v e n[OF b(1)] ivn_extreme(1)[OF assms(1)] by (simp add: IsMinValue_def iv_ops sign_mask_def shl_word_def)
  show "IsMaxValue v = Some (iv_num v = greatest ps t)"
    using v e n[OF b(2)] ivn_extreme(2)[OF assms(1)]
    by (simp add: IsMaxValue_def AreAllBitsOne_def iv_ops sign_mask_def shl_word_def all_ones_mask kWordBitSize_def)
qed

lemma set_extreme:
  assumes "ity ps t" "IsOneWord v"
  shows "SetMinValue (IsSignedInteger t) (bits ps t) v = Some (ivn ps t (least ps t))"
    "SetMaxValue (IsSignedInteger t) (bits ps t) v = Some (ivn ps t (greatest ps t))"
proof -
  have w: "0 < bits ps t" "bits ps t \<le> 64" "bits ps t - 1 < 64" using ity_bits[OF assms(1)] by auto
  show "SetMinValue (IsSignedInteger t) (bits ps t) v = Some (ivn ps t (least ps t))"
    "SetMaxValue (IsSignedInteger t) (bits ps t) v = Some (ivn ps t (greatest ps t))"
    using assms w all_ones_mask[OF w(1,2)]
    by (cases v; simp add: SetMinValue_def SetMaxValue_def ivn_extreme iv_ops iv_assert_def sign_mask_def shl_word_def kWordBitSize_def)+
qed

section \<open>The values in a set\<close>

text \<open>The reading of a set that the merged comparison tests: an upper bound that is the greatest value is in
  the set. The sets made of constants that keep a distance from the greatest value have no other use of the
  last two values.\<close>

definition between :: "int \<Rightarrow> int \<Rightarrow> int \<Rightarrow> int \<Rightarrow> int \<Rightarrow> bool" where
  "between mn mx l u z \<longleftrightarrow>
     (if l = mn then z < u else if u = mx then l \<le> z else if l < u then l \<le> z \<and> z < u else l \<le> z \<or> z < u)"

definition good_bounds :: "int \<Rightarrow> int \<Rightarrow> int \<Rightarrow> int \<Rightarrow> bool" where
  "good_bounds mn mx l u \<longleftrightarrow>
     mn \<le> l \<and> l \<le> mx - 2 \<and> mn \<le> u \<and> (u = mx \<or> u \<le> mx - 2) \<and> l \<noteq> u \<and> \<not> (l = mn \<and> u = mx)"

text \<open>The bounds of one comparison and of their complements.\<close>

definition basic_bounds :: "int \<Rightarrow> int \<Rightarrow> int \<Rightarrow> int \<Rightarrow> bool" where
  "basic_bounds mn mx l u \<longleftrightarrow> good_bounds mn mx l u \<and> (l = mn \<or> u = mx \<or> \<bar>u - l\<bar> = 1)"

definition negate_bounds :: "int \<Rightarrow> int \<Rightarrow> int \<Rightarrow> int \<Rightarrow> int \<times> int" where
  "negate_bounds mn mx l u = (if l = mn then (u, mx) else if u = mx then (mn, l) else (u, l))"

lemma negate_bounds:
  assumes "good_bounds mn mx l u" "negate_bounds mn mx l u = (l', u')"
  shows "good_bounds mn mx l' u'"
    and "basic_bounds mn mx l u \<Longrightarrow> basic_bounds mn mx l' u'"
    and "mn \<le> z \<Longrightarrow> z \<le> mx \<Longrightarrow> between mn mx l' u' z \<longleftrightarrow> \<not> between mn mx l u z"
  using assms by (auto simp: good_bounds_def basic_bounds_def negate_bounds_def between_def split: if_splits)

definition contains :: "nat \<Rightarrow> PrimType \<Rightarrow> ConstIntSet \<Rightarrow> int \<Rightarrow> bool" where
  "contains ps t s z \<longleftrightarrow> cs_isFull s \<or>
     \<not> cs_isEmpty s \<and> between (least ps t) (greatest ps t) (iv_num (cs_lower s)) (iv_num (cs_upper s)) z"

definition interval :: "nat \<Rightarrow> PrimType \<Rightarrow> int \<Rightarrow> int \<Rightarrow> ConstIntSet" where
  "interval ps t l u = cs_new\<lparr>cs_lower := ivn ps t l, cs_upper := ivn ps t u\<rparr>"

definition all_values :: ConstIntSet where
  "all_values = cs_new\<lparr>cs_isFull := True\<rparr>"

definition no_values :: ConstIntSet where
  "no_values = cs_new\<lparr>cs_isEmpty := True\<rparr>"

lemmas set_forms = interval_def all_values_def no_values_def cs_new_def

lemma interval_sel [simp]:
  "cs_lower (interval ps t l u) = ivn ps t l" "cs_upper (interval ps t l u) = ivn ps t u"
  "\<not> cs_isFull (interval ps t l u)" "\<not> cs_isEmpty (interval ps t l u)"
  by (simp_all add: set_forms)

lemma good_in_type:
  assumes "ity ps t" "good_bounds (least ps t) (greatest ps t) l u"
  shows "wrap ps t l = l" "wrap ps t u = u"
  using assms by (auto simp: good_bounds_def wrap_self_iff)

lemma extremes_in_type: "ity ps t \<Longrightarrow> wrap ps t (least ps t) = least ps t" "ity ps t \<Longrightarrow> wrap ps t (greatest ps t) = greatest ps t"
  using type_order[of ps t] by (simp_all add: wrap_self_iff)

lemma contains_interval:
  assumes "ity ps t" "good_bounds (least ps t) (greatest ps t) l u"
  shows "contains ps t (interval ps t l u) z \<longleftrightarrow> between (least ps t) (greatest ps t) l u z"
  using assms good_in_type[OF assms] by (simp add: contains_def)

lemma contains_trivial [simp]: "contains ps t all_values z" "\<not> contains ps t no_values z"
  by (simp_all add: contains_def all_values_def no_values_def cs_new_def)

lemma ivn_fields: "iv_width (ivn ps t z) = bits ps t" "iv_sign (ivn ps t z) = IsSignedInteger t"
  by (simp_all add: ivn_def)

lemma ivn_one: "ity ps t \<Longrightarrow> IsOneWord (ivn ps t z)"
  using ity_bits[of ps t] by (simp add: ivn_def IsOneWord_def kWordBitSize_def)

lemma DoNegation_trivial: "DoNegation all_values = Some no_values" "DoNegation no_values = Some all_values"
  by (simp_all add: DoNegation_def all_values_def no_values_def cs_new_def)

lemma DoNegation_interval:
  assumes t: "ity ps t" and b: "wrap ps t l = l" "wrap ps t u = u"
  shows "DoNegation (interval ps t l u) = Some (case negate_bounds (least ps t) (greatest ps t) l u of (l', u') \<Rightarrow> interval ps t l' u')"
  using t b by (simp add: DoNegation_def typed_extreme[OF t] andm_def negate_bounds_def ivn_fields ivn_one set_extreme set_forms)

definition basic :: "nat \<Rightarrow> PrimType \<Rightarrow> ConstIntSet \<Rightarrow> bool" where
  "basic ps t s \<longleftrightarrow> s = all_values \<or> s = no_values \<or>
     (\<exists>l u. s = interval ps t l u \<and> basic_bounds (least ps t) (greatest ps t) l u)"

lemma DoNegation_basic:
  assumes "ity ps t" "basic ps t s"
  obtains s' where "DoNegation s = Some s'" "basic ps t s'"
    "\<And>z. wrap ps t z = z \<Longrightarrow> contains ps t s' z \<longleftrightarrow> \<not> contains ps t s z"
proof -
  consider "s = all_values" | "s = no_values"
    | l u where "s = interval ps t l u" "basic_bounds (least ps t) (greatest ps t) l u"
    using assms(2) unfolding basic_def by blast
  then show ?thesis
  proof cases
    case (3 l u)
    obtain l' u' where n: "negate_bounds (least ps t) (greatest ps t) l u = (l', u')" by fastforce
    have g: "good_bounds (least ps t) (greatest ps t) l u" using 3(2) by (simp add: basic_bounds_def)
    note b = negate_bounds[OF g n]
    show ?thesis
    proof (rule that[of "interval ps t l' u'"])
      show "DoNegation s = Some (interval ps t l' u')"
        using DoNegation_interval[OF assms(1) good_in_type[OF assms(1) g]] 3(1) n by simp
      show "basic ps t (interval ps t l' u')" using b(2)[OF 3(2)] by (auto simp: basic_def)
      show "contains ps t (interval ps t l' u') z \<longleftrightarrow> \<not> contains ps t s z" if "wrap ps t z = z" for z
        using b(3) that 3(1) assms(1) by (simp add: contains_interval[OF assms(1) g] contains_interval[OF assms(1) b(1)] wrap_self_iff)
    qed
  qed (use that DoNegation_trivial in \<open>auto simp: basic_def\<close>)
qed

definition cmp_holds :: "Opcode \<Rightarrow> int \<Rightarrow> int \<Rightarrow> bool" where
  "cmp_holds opc a b =
     (case opc of OP_eq \<Rightarrow> a = b | OP_ne \<Rightarrow> a \<noteq> b | OP_lt \<Rightarrow> a < b | OP_le \<Rightarrow> a \<le> b | OP_gt \<Rightarrow> a > b | OP_ge \<Rightarrow> a \<ge> b | _ \<Rightarrow> False)"

lemma range_set_ivn:
  assumes t: "ity ps t" and c: "least ps t \<le> c" "c < greatest ps t"
  shows "range_set OP_eq (ivn ps t c) = Some (interval ps t c (c + 1))"
    "range_set OP_ne (ivn ps t c) = Some (interval ps t (c + 1) c)"
    "range_set OP_lt (ivn ps t c) = Some (if c = least ps t then no_values else interval ps t (least ps t) c)"
    "range_set OP_le (ivn ps t c) = Some (interval ps t (least ps t) (c + 1))"
    "range_set OP_gt (ivn ps t c) = Some (interval ps t (c + 1) (greatest ps t))"
    "range_set OP_ge (ivn ps t c) = Some (if c = least ps t then all_values else interval ps t c (greatest ps t))"
proof -
  have w: "wrap ps t c = c" "IsOneWord Iv_default" using t c by (simp_all add: wrap_self_iff IsOneWord_def Iv_default_def)
  note num = typed_extreme[OF t typed_ivn[OF t]] typed_step[OF t typed_ivn[OF t]] ivn_fields set_extreme[OF t w(2)] num_ivn[OF t] w(1)
  show "range_set OP_eq (ivn ps t c) = Some (interval ps t c (c + 1))"
    "range_set OP_ne (ivn ps t c) = Some (interval ps t (c + 1) c)"
    "range_set OP_lt (ivn ps t c) = Some (if c = least ps t then no_values else interval ps t (least ps t) c)"
    "range_set OP_le (ivn ps t c) = Some (interval ps t (least ps t) (c + 1))"
    "range_set OP_gt (ivn ps t c) = Some (interval ps t (c + 1) (greatest ps t))"
    "range_set OP_ge (ivn ps t c) = Some (if c = least ps t then all_values else interval ps t c (greatest ps t))"
    using c by (simp_all add: range_set_def num set_forms)
qed

lemma interval_basic:
  assumes "ity ps t" "basic_bounds (least ps t) (greatest ps t) l u"
    "\<And>z. least ps t \<le> z \<Longrightarrow> z \<le> greatest ps t \<Longrightarrow> between (least ps t) (greatest ps t) l u z \<longleftrightarrow> f z"
  shows "basic ps t (interval ps t l u) \<and> (\<forall>z. wrap ps t z = z \<longrightarrow> (contains ps t (interval ps t l u) z \<longleftrightarrow> f z))"
  using assms by (auto simp: basic_def basic_bounds_def contains_interval wrap_self_iff)

lemma range_set_basic:
  assumes t: "ity ps t" and opc: "opc \<in> {OP_eq, OP_ne, OP_lt, OP_le, OP_gt, OP_ge}"
    and c: "least ps t \<le> c" "c + 3 \<le> greatest ps t"
  shows "\<exists>s. range_set opc (ivn ps t c) = Some s \<and> basic ps t s \<and> (\<forall>z. wrap ps t z = z \<longrightarrow> (contains ps t s z \<longleftrightarrow> cmp_holds opc z c))"
proof -
  have "c < greatest ps t" using c by simp
  note r = range_set_ivn[OF t c(1) this]
  have trivial: "basic ps t all_values" "basic ps t no_values" by (simp_all add: basic_def)
  have low: "wrap ps t z = z \<Longrightarrow> least ps t \<le> z" for z using t by (simp add: wrap_self_iff)
  show ?thesis
    using opc
  proof (elim insertE emptyE)
    assume "opc = OP_lt"
    then show ?thesis using c r low trivial interval_basic[OF t, of "least ps t" c "\<lambda>z. z < c"]
      by (cases "c = least ps t") (auto simp: cmp_holds_def basic_bounds_def good_bounds_def between_def not_less)
  next
    assume "opc = OP_ge"
    then show ?thesis using c r low trivial interval_basic[OF t, of c "greatest ps t" "\<lambda>z. z \<ge> c"]
      by (cases "c = least ps t") (auto simp: cmp_holds_def basic_bounds_def good_bounds_def between_def)
  qed (use c r(1,2,4,5) in \<open>auto simp: cmp_holds_def basic_bounds_def good_bounds_def between_def intro!: interval_basic[OF t] split: if_splits\<close>)
qed

lemma GenerateIntSet_basic:
  assumes t: "ity ps t" and opc: "opc \<in> {OP_eq, OP_ne, OP_lt, OP_le, OP_gt, OP_ge}"
    and c: "iv64 v" "wrap ps t (iv_num v) + 3 \<le> greatest ps t"
  obtains s where "GenerateIntSet ps opc v t t = Some s" "basic ps t s"
    "\<And>z. wrap ps t z = z \<Longrightarrow> contains ps t s z \<longleftrightarrow> cmp_holds opc z (wrap ps t (iv_num v))"
proof -
  have "least ps t \<le> wrap ps t (iv_num v)" using wrap_wrap[OF t] wrap_self_iff[OF t] by blast
  then obtain s where s: "range_set opc (ivn ps t (wrap ps t (iv_num v))) = Some s" "basic ps t s"
    "\<And>z. wrap ps t z = z \<Longrightarrow> contains ps t s z \<longleftrightarrow> cmp_holds opc z (wrap ps t (iv_num v))"
    using range_set_basic[OF t opc _ c(2)] by blast
  have "TruncOrExtend_type ps t v = Some (ivn ps t (wrap ps t (iv_num v)))"
    using gives_ivn[OF t TruncOrExtend_gives[OF t c(1)]] by (simp add: ivn_eq_iff t wrap_wrap)
  then show ?thesis using s by (intro that[of s]) (simp_all add: GenerateIntSet_def andm_def)
qed

section \<open>The union on integers\<close>

text \<open>The union of two pairs of bounds: no interval, everything, or the bounds.\<close>

definition unite_ordered :: "int \<Rightarrow> int \<Rightarrow> int \<times> int \<Rightarrow> int \<times> int \<Rightarrow> (int \<times> int) option option" where
  "unite_ordered mn mx a b =
     (let (l1, u1) = a; (l2, u2) = b in
      if l1 = mn \<and> u2 = mx then Some (if l2 \<le> u1 then None else Some (l2, u1))
      else if l1 < u1 \<and> l2 < u2 then (if u1 < l2 \<or> u2 < l1 then None else Some (Some (min l1 l2, max u1 u2)))
      else if u1 < l1 \<and> l2 < u2 then
        (if u2 \<le> u1 \<or> l1 \<le> l2 then Some (Some (l1, u1))
         else if l2 \<le> u1 \<and> l1 \<le> u2 then Some None
         else if u1 < l2 \<and> l1 \<le> u2 then Some (Some (l2, u1))
         else if l2 \<le> u1 \<and> u2 < l1 then Some (Some (l1, u2))
         else None)
      else (if l2 \<le> u1 \<or> l1 \<le> u2 then Some None else Some (Some (min l1 l2, max u1 u2))))"

lemma unite_ordered_cases:
  "l1 = mn \<and> u2 = mx \<Longrightarrow> unite_ordered mn mx (l1, u1) (l2, u2) = Some (if l2 \<le> u1 then None else Some (l2, u1))"
  "\<not> (l1 = mn \<and> u2 = mx) \<Longrightarrow> l1 < u1 \<Longrightarrow> l2 < u2 \<Longrightarrow>
    unite_ordered mn mx (l1, u1) (l2, u2) = (if u1 < l2 \<or> u2 < l1 then None else Some (Some (min l1 l2, max u1 u2)))"
  "\<not> (l1 = mn \<and> u2 = mx) \<Longrightarrow> u1 < l1 \<Longrightarrow> l2 < u2 \<Longrightarrow>
    unite_ordered mn mx (l1, u1) (l2, u2) =
      (if u2 \<le> u1 \<or> l1 \<le> l2 then Some (Some (l1, u1))
       else if l2 \<le> u1 \<and> l1 \<le> u2 then Some None
       else if u1 < l2 \<and> l1 \<le> u2 then Some (Some (l2, u1))
       else if l2 \<le> u1 \<and> u2 < l1 then Some (Some (l1, u2))
       else None)"
  "\<not> (l1 = mn \<and> u2 = mx) \<Longrightarrow> u1 < l1 \<Longrightarrow> u2 < l2 \<Longrightarrow>
    unite_ordered mn mx (l1, u1) (l2, u2) = (if l2 \<le> u1 \<or> l1 \<le> u2 then Some None else Some (Some (min l1 l2, max u1 u2)))"
  by (simp_all only: unite_ordered_def Let_def prod.case if_True if_False simp_thms less_not_sym)

definition unite :: "int \<Rightarrow> int \<Rightarrow> int \<times> int \<Rightarrow> int \<times> int \<Rightarrow> (int \<times> int) option option" where
  "unite mn mx a b =
     (if a = b then Some (Some a)
      else if snd b < fst b \<or> snd a = mx then unite_ordered mn mx b a else unite_ordered mn mx a b)"

lemma between_straight:
  "good_bounds mn mx l u \<Longrightarrow> l < u \<Longrightarrow> mn \<le> z \<Longrightarrow> z \<le> mx \<Longrightarrow> between mn mx l u z \<longleftrightarrow> l \<le> z \<and> (z < u \<or> u = mx)"
  by (auto simp: between_def good_bounds_def)

lemma between_wrapped: "good_bounds mn mx l u \<Longrightarrow> u < l \<Longrightarrow> between mn mx l u z \<longleftrightarrow> l \<le> z \<or> z < u"
  by (auto simp: between_def good_bounds_def)

definition exact_union :: "int \<Rightarrow> int \<Rightarrow> int \<times> int \<Rightarrow> int \<times> int \<Rightarrow> (int \<times> int) option \<Rightarrow> bool" where
  "exact_union mn mx a b r \<longleftrightarrow>
     (case r of None \<Rightarrow> \<forall>z. mn \<le> z \<and> z \<le> mx \<longrightarrow> between mn mx (fst a) (snd a) z \<or> between mn mx (fst b) (snd b) z
      | Some (l, u) \<Rightarrow> good_bounds mn mx l u \<and>
          (\<forall>z. mn \<le> z \<and> z \<le> mx \<longrightarrow> (between mn mx l u z \<longleftrightarrow> between mn mx (fst a) (snd a) z \<or> between mn mx (fst b) (snd b) z)))"

lemma exact_unionI:
  "good_bounds mn mx l u \<Longrightarrow>
    (\<And>z. mn \<le> z \<Longrightarrow> z \<le> mx \<Longrightarrow> between mn mx l u z \<longleftrightarrow> between mn mx (fst a) (snd a) z \<or> between mn mx (fst b) (snd b) z) \<Longrightarrow>
    exact_union mn mx a b (Some (l, u))"
  "(\<And>z. mn \<le> z \<Longrightarrow> z \<le> mx \<Longrightarrow> between mn mx (fst a) (snd a) z \<or> between mn mx (fst b) (snd b) z) \<Longrightarrow> exact_union mn mx a b None"
  by (auto simp: exact_union_def)

lemma unite_ends:
  assumes a: "good_bounds mn mx mn u1" and b: "good_bounds mn mx l2 mx"
  shows "exact_union mn mx (mn, u1) (l2, mx) (if l2 \<le> u1 then None else Some (l2, u1))"
proof -
  have s: "mn < u1" "l2 < mx" "u1 < mx" using assms by (auto simp: good_bounds_def)
  note m = between_straight[OF a s(1)] between_straight[OF b s(2)]
  show ?thesis
  proof (cases "l2 \<le> u1")
    case True
    have "exact_union mn mx (mn, u1) (l2, mx) None" by (rule exact_unionI) (use True s in \<open>auto simp: m\<close>)
    then show ?thesis using True by simp
  next
    case False
    then have g: "good_bounds mn mx l2 u1" "u1 < l2" using assms by (auto simp: good_bounds_def)
    have "exact_union mn mx (mn, u1) (l2, mx) (Some (l2, u1))"
      by (rule exact_unionI) (use g s in \<open>auto simp: m between_wrapped[OF g]\<close>)
    then show ?thesis using False by simp
  qed
qed

lemma joined_ranges:
  fixes z :: int
  assumes "l2 \<le> u1" "l1 \<le> u2" "u1 \<le> mx" "u2 \<le> mx"
  shows "min l1 l2 \<le> z \<and> (z < max u1 u2 \<or> max u1 u2 = mx) \<longleftrightarrow> l1 \<le> z \<and> (z < u1 \<or> u1 = mx) \<or> l2 \<le> z \<and> (z < u2 \<or> u2 = mx)"
  using assms by (cases "l1 \<le> l2"; cases "u1 \<le> u2") (auto simp: min_def max_def)

lemma unite_straight:
  assumes a: "good_bounds mn mx l1 u1" "l1 < u1" and b: "good_bounds mn mx l2 u2" "l2 < u2"
    and o: "\<not> (l1 = mn \<and> u2 = mx)" "\<not> (u1 = mx \<and> l2 = mn)" "\<not> (u1 < l2 \<or> u2 < l1)"
  shows "exact_union mn mx (l1, u1) (l2, u2) (Some (min l1 l2, max u1 u2))"
proof -
  have g: "good_bounds mn mx (min l1 l2) (max u1 u2)" "min l1 l2 < max u1 u2"
    using assms by (auto simp: good_bounds_def min_def max_def)
  have j: "l2 \<le> u1" "l1 \<le> u2" "u1 \<le> mx" "u2 \<le> mx" using a b o(3) by (auto simp: good_bounds_def)
  show ?thesis
    by (rule exact_unionI)
      (simp_all only: g between_straight[OF a] between_straight[OF b] between_straight[OF g] fst_conv snd_conv joined_ranges[OF j])
qed

lemma unite_wrapped_straight:
  assumes a: "good_bounds mn mx l1 u1" "u1 < l1" and b: "good_bounds mn mx l2 u2" "l2 < u2"
  shows "u2 \<le> u1 \<or> l1 \<le> l2 \<Longrightarrow> exact_union mn mx (l1, u1) (l2, u2) (Some (l1, u1))"
    and "l2 \<le> u1 \<Longrightarrow> l1 \<le> u2 \<Longrightarrow> exact_union mn mx (l1, u1) (l2, u2) None"
    and "u1 < l2 \<Longrightarrow> l2 < l1 \<Longrightarrow> l1 \<le> u2 \<Longrightarrow> exact_union mn mx (l1, u1) (l2, u2) (Some (l2, u1))"
    and "l2 \<le> u1 \<Longrightarrow> u1 < u2 \<Longrightarrow> u2 < l1 \<Longrightarrow> exact_union mn mx (l1, u1) (l2, u2) (Some (l1, u2))"
proof -
  note m = between_wrapped[OF a] between_straight[OF b]
  show "exact_union mn mx (l1, u1) (l2, u2) (Some (l1, u1))" if "u2 \<le> u1 \<or> l1 \<le> l2"
    by (rule exact_unionI) (use that a b in \<open>auto simp: m good_bounds_def\<close>)
  show "exact_union mn mx (l1, u1) (l2, u2) None" if "l2 \<le> u1" "l1 \<le> u2"
    by (rule exact_unionI) (use that in \<open>auto simp: m\<close>)
  show "exact_union mn mx (l1, u1) (l2, u2) (Some (l2, u1))" if "u1 < l2" "l2 < l1" "l1 \<le> u2"
  proof -
    have g: "good_bounds mn mx l2 u1" using that a b by (auto simp: good_bounds_def)
    show ?thesis by (rule exact_unionI) (use g that in \<open>auto simp: m between_wrapped[OF g that(1)]\<close>)
  qed
  show "exact_union mn mx (l1, u1) (l2, u2) (Some (l1, u2))" if "l2 \<le> u1" "u1 < u2" "u2 < l1"
  proof -
    have g: "good_bounds mn mx l1 u2" using that a b by (auto simp: good_bounds_def)
    show ?thesis by (rule exact_unionI) (use g that a in \<open>auto simp: m between_wrapped[OF g that(3)] good_bounds_def\<close>)
  qed
qed

lemma unite_wrapped:
  assumes a: "good_bounds mn mx l1 u1" "u1 < l1" and b: "good_bounds mn mx l2 u2" "u2 < l2"
  shows "exact_union mn mx (l1, u1) (l2, u2) (if l2 \<le> u1 \<or> l1 \<le> u2 then None else Some (min l1 l2, max u1 u2))"
proof (cases "l2 \<le> u1 \<or> l1 \<le> u2")
  note m = between_wrapped[OF a] between_wrapped[OF b]
  case True
  have "exact_union mn mx (l1, u1) (l2, u2) None" by (rule exact_unionI) (use True in \<open>auto simp: m\<close>)
  then show ?thesis using True by simp
next
  note m = between_wrapped[OF a] between_wrapped[OF b]
  case False
  have g: "good_bounds mn mx (min l1 l2) (max u1 u2)" "max u1 u2 < min l1 l2"
    using False a b by (auto simp: good_bounds_def min_def max_def)
  have "exact_union mn mx (l1, u1) (l2, u2) (Some (min l1 l2, max u1 u2))"
    by (rule exact_unionI) (use g in \<open>auto simp: m between_wrapped[OF g]\<close>)
  then show ?thesis using False by simp
qed

lemma unite_ordered_exact:
  assumes a: "good_bounds mn mx l1 u1" and b: "good_bounds mn mx l2 u2"
    and o: "\<not> (l1 < u1 \<and> u2 < l2)" "\<not> (u1 = mx \<and> l2 = mn)" and r: "unite_ordered mn mx (l1, u1) (l2, u2) = Some r"
  shows "exact_union mn mx (l1, u1) (l2, u2) r"
proof -
  have "l1 < u1 \<or> u1 < l1" "l2 < u2 \<or> u2 < l2" using a b by (auto simp: good_bounds_def)
  then consider (ends) "l1 = mn" "u2 = mx" | (ss) "\<not> (l1 = mn \<and> u2 = mx)" "l1 < u1" "l2 < u2"
    | (ws) "\<not> (l1 = mn \<and> u2 = mx)" "u1 < l1" "l2 < u2" | (ww) "\<not> (l1 = mn \<and> u2 = mx)" "u1 < l1" "u2 < l2"
    using o(1) by blast
  then show ?thesis
  proof cases
    case ends
    then show ?thesis using unite_ends[of mn mx u1 l2] a b r by (simp add: unite_ordered_def)
  next
    case ss
    then have c: "\<not> (u1 < l2 \<or> u2 < l1)" "r = Some (min l1 l2, max u1 u2)" using r by (auto simp: unite_ordered_def split: if_splits)
    then show ?thesis using unite_straight[OF a ss(2) b ss(3,1) o(2) c(1)] by (simp only:)
  next
    case ws
    note w = unite_wrapped_straight[OF a ws(2) b ws(3)]
    note e = unite_ordered_cases(3)[OF ws]
    show ?thesis
    proof (cases "u2 \<le> u1 \<or> l1 \<le> l2")
      case True
      then show ?thesis using e r w(1) by simp
    next
      case False
      then have c: "u1 < u2" "l2 < l1" by auto
      then consider "l2 \<le> u1" "l1 \<le> u2" | "u1 < l2" "l1 \<le> u2" | "l2 \<le> u1" "u2 < l1" | "u1 < l2" "u2 < l1" by linarith
      then show ?thesis by cases (use e r c w(2,3,4) in simp_all)
    qed
  next
    case ww
    then have "r = (if l2 \<le> u1 \<or> l1 \<le> u2 then None else Some (min l1 l2, max u1 u2))"
      using r by (auto simp: unite_ordered_def split: if_splits)
    then show ?thesis using unite_wrapped[OF a ww(2) b ww(3)] by (simp only:)
  qed
qed

lemma exact_union_swap: "exact_union mn mx a b r \<Longrightarrow> exact_union mn mx b a r"
  by (auto simp: exact_union_def split: option.splits)

lemma unite_exact:
  assumes a: "good_bounds mn mx l1 u1" and b: "good_bounds mn mx l2 u2" and r: "unite mn mx (l1, u1) (l2, u2) = Some r"
  shows "exact_union mn mx (l1, u1) (l2, u2) r"
proof (cases "(l1, u1) = (l2, u2)")
  case True
  then show ?thesis using r a by (auto simp: unite_def exact_union_def)
next
  case F: False
  show ?thesis
  proof (cases "u2 < l2 \<or> u1 = mx")
    case True
    have "exact_union mn mx (l2, u2) (l1, u1) r"
    proof (rule unite_ordered_exact[OF b a])
      show "unite_ordered mn mx (l2, u2) (l1, u1) = Some r" using r F True by (auto simp: unite_def)
    qed (use True a b in \<open>auto simp: good_bounds_def\<close>)
    then show ?thesis by (rule exact_union_swap)
  next
    case False
    show ?thesis
    proof (rule unite_ordered_exact[OF a b])
      show "unite_ordered mn mx (l1, u1) (l2, u2) = Some r" using r F False by (auto simp: unite_def)
    qed (use False in auto)
  qed
qed

text \<open>Bounds without a union as an interval: none of them, or two ranges with a gap between them.\<close>

lemma unite_fails:
  assumes "good_bounds mn mx l1 u1" "good_bounds mn mx l2 u2" "unite mn mx (l1, u1) (l2, u2) = None" "l1 < u1" "l2 < u2"
  shows "(u1 < l2 \<or> u2 < l1) \<and> \<not> (l1 = mn \<and> u2 = mx) \<and> \<not> (l2 = mn \<and> u1 = mx)"
  using assms(3-5) by (auto simp: unite_def unite_ordered_def Let_def split: if_splits)

lemma basic_gap_single:
  assumes "basic_bounds mn mx l1 u1" "basic_bounds mn mx l2 u2" "unite mn mx (l1, u1) (l2, u2) = None" "l1 < u1" "l2 < u2"
    "u1 - l1 = u2 - l2"
  shows "u1 = l1 + 1 \<and> u2 = l2 + 1"
proof -
  have g: "good_bounds mn mx l1 u1" "good_bounds mn mx l2 u2" using assms(1,2) by (simp_all add: basic_bounds_def)
  have gap: "u1 < l2 \<or> u2 < l1" "\<not> (l1 = mn \<and> u2 = mx)" "\<not> (l2 = mn \<and> u1 = mx)" using unite_fails[OF g assms(3,4,5)] by auto
  have "l1 = mn \<or> u1 = mx \<or> u1 = l1 + 1" "l2 = mn \<or> u2 = mx \<or> u2 = l2 + 1" using assms(1,2,4,5) by (auto simp: basic_bounds_def)
  moreover have "\<not> (l1 = mn \<and> l2 = mn)" "\<not> (u1 = mx \<and> u2 = mx)" using gap(1) assms(4,5) g by (auto simp: good_bounds_def)
  ultimately have "u1 = l1 + 1 \<or> u2 = l2 + 1" using gap(2,3) by blast
  then show ?thesis using assms(6) by auto
qed

section \<open>The union of intervals\<close>

definition denotes :: "nat \<Rightarrow> PrimType \<Rightarrow> ConstIntSet \<Rightarrow> (int \<times> int) option \<Rightarrow> bool" where
  "denotes ps t s r \<longleftrightarrow>
     (case r of None \<Rightarrow> cs_isFull s \<and> \<not> cs_isEmpty s | Some (l, u) \<Rightarrow> s = interval ps t l u)"

lemma union_ordered_intervals:
  assumes t: "ity ps t" and a: "good_bounds (least ps t) (greatest ps t) l1 u1" and b: "good_bounds (least ps t) (greatest ps t) l2 u2"
    and o: "\<not> (l1 < u1 \<and> u2 < l2)"
  shows "\<exists>s. union_ordered (interval ps t l1 u1) (interval ps t l2 u2) = Some s \<and>
    rel_option (denotes ps t) s (unite_ordered (least ps t) (greatest ps t) (l1, u1) (l2, u2))"
proof -
  have w: "wrap ps t l1 = l1" "wrap ps t u1 = u1" "wrap ps t l2 = l2" "wrap ps t u2 = u2"
    using good_in_type[OF t a] good_in_type[OF t b] by auto
  note num = typed_extreme[OF t typed_ivn[OF t]] typed_compare[OF t typed_ivn[OF t] typed_ivn[OF t]] num_ivn[OF t] w extremes_in_type[OF t]
  have n: "l1 \<noteq> u1" "l2 \<noteq> u2" using a b by (auto simp: good_bounds_def)
  have h: "union_hull (interval ps t l1 u1) (interval ps t l2 u2) = Some (interval ps t (min l1 l2) (max u1 u2))"
    by (auto simp: union_hull_def num set_forms min_def max_def)
  have e: "EqMax (interval ps t l2 u2) = Some False" using n by (simp add: EqMax_def num andm_def)
  have u: "union_ordered (interval ps t l1 u1) (interval ps t l2 u2) =
      (if l1 = least ps t \<and> u2 = greatest ps t
       then Some (Some (cs_new\<lparr>cs_upper := ivn ps t u1, cs_lower := ivn ps t l2, cs_isFull := l2 \<le> u1\<rparr>))
       else union_ranges (interval ps t l1 u1) (interval ps t l2 u2))"
    by (simp add: union_ordered_def e num)
  consider (ends) "l1 = least ps t \<and> u2 = greatest ps t" | (ss) "\<not> (l1 = least ps t \<and> u2 = greatest ps t)" "l1 < u1" "l2 < u2"
    | (ws) "\<not> (l1 = least ps t \<and> u2 = greatest ps t)" "u1 < l1" "l2 < u2" | (ww) "\<not> (l1 = least ps t \<and> u2 = greatest ps t)" "u1 < l1" "u2 < l2"
    using n o by linarith
  then show ?thesis
  proof cases
    case ends
    then show ?thesis unfolding u by (simp add: unite_ordered_def denotes_def set_forms)
  next
    case ss
    then show ?thesis unfolding u unite_ordered_cases(2)[OF ss] if_not_P[OF ss(1)] by (simp add: union_ranges_def num h denotes_def)
  next
    case ws
    then show ?thesis unfolding u unite_ordered_cases(3)[OF ws] if_not_P[OF ws(1)]
      by (simp add: union_ranges_def union_wrapped_def num denotes_def) (simp add: set_forms)
  next
    case ww
    then show ?thesis unfolding u unite_ordered_cases(4)[OF ww] if_not_P[OF ww(1)]
      by (simp add: union_ranges_def num h denotes_def) (simp add: set_forms)
  qed
qed

lemma Iv_eq_default: "Iv_eq Iv_default Iv_default = Some True"
  by (simp add: Iv_eq_def Iv_default_def iv_ops iv_assert_def)

lemma Union_intervals:
  assumes t: "ity ps t" and a: "good_bounds (least ps t) (greatest ps t) l1 u1" and b: "good_bounds (least ps t) (greatest ps t) l2 u2"
  shows "\<exists>s. Cs_Union (interval ps t l1 u1) (interval ps t l2 u2) = Some s \<and>
    rel_option (denotes ps t) s (unite (least ps t) (greatest ps t) (l1, u1) (l2, u2))"
proof -
  have w: "wrap ps t l1 = l1" "wrap ps t u1 = u1" "wrap ps t l2 = l2" "wrap ps t u2 = u2"
    using good_in_type[OF t a] good_in_type[OF t b] by auto
  note num = typed_extreme[OF t typed_ivn[OF t]] typed_compare[OF t typed_ivn[OF t] typed_ivn[OF t]] num_ivn[OF t] w extremes_in_type[OF t]
  have n: "l1 \<noteq> u1" "l2 \<noteq> u2" using a b by (auto simp: good_bounds_def)
  have u: "Cs_Union (interval ps t l1 u1) (interval ps t l2 u2) =
      (if (l1, u1) = (l2, u2) then Some (Some (interval ps t l1 u1))
       else if u2 < l2 \<or> u1 = greatest ps t then union_ordered (interval ps t l2 u2) (interval ps t l1 u1)
       else union_ordered (interval ps t l1 u1) (interval ps t l2 u2))"
    using n by (simp add: Cs_Union_def cs_eq_def EqMax_def num andm_def ivn_fields)
  consider "(l1, u1) = (l2, u2)" | "(l1, u1) \<noteq> (l2, u2)" "u2 < l2 \<or> u1 = greatest ps t"
    | "(l1, u1) \<noteq> (l2, u2)" "\<not> (u2 < l2 \<or> u1 = greatest ps t)" by blast
  then show ?thesis
  proof cases
    case 1
    then show ?thesis unfolding u by (simp add: unite_def denotes_def)
  next
    case 2
    then have "\<not> (l2 < u2 \<and> u1 < l1)" using a by (auto simp: good_bounds_def)
    then show ?thesis using union_ordered_intervals[OF t b a] 2 by (auto simp: u unite_def)
  next
    case 3
    then show ?thesis using union_ordered_intervals[OF t a b] by (auto simp: u unite_def)
  qed
qed

lemma Union_trivial:
  "basic ps t s \<Longrightarrow> Cs_Union all_values s = Some (Some all_values)" "basic ps t s \<Longrightarrow> Cs_Union s all_values = Some (Some all_values)"
  "basic ps t s \<Longrightarrow> Cs_Union no_values s = Some (Some s)" "basic ps t s \<Longrightarrow> Cs_Union s no_values = Some (Some s)"
  by (auto simp: basic_def Cs_Union_def cs_eq_def andm_def set_forms Iv_eq_default)

end
