(* ===== verification/Cmp_Fold_Sound.thy ===== *)
theory Cmp_Fold_Sound
  imports Cmp_Fold_Sets
begin

text \<open>
  The merged comparison has the truth value of the two it replaces: the test made of a set, the test of two values
  that differ in one bit, the whole of \<open>FoldCmpExpr\<close>, range checks, and the inputs for which merging is not exact.
\<close>

unbundle bit_operations_syntax

section \<open>The comparison made of a set\<close>

lemma eval_cmp: "opc \<in> {OP_eq, OP_ne, OP_lt, OP_le, OP_gt, OP_ge} \<Longrightarrow>
    eval_compare ps opc t ot x y = Some (truth (cmp_holds opc (wrap ps ot x) (wrap ps ot y)))"
  by (auto simp: eval_compare_def cmp_holds_def)

lemma const_of_num:
  assumes "ity ps t" "typed ps ty v" "ity ps ty"
  obtains c where "CreateIntConstMeExpr ps v t = Some c" "eval ps syms \<sigma> c = Some (wrap ps t (iv_num v))" "GetPrimType c = t"
proof -
  obtain c where "CreateIntConst ps (word_of_int (iv_num v)) t = Some (Constval t c)" "iv_num (mc_value c) = wrap ps t (iv_num v)"
    using CreateIntConst_gives[OF assms(1), of "iv_num v"] by auto
  then show ?thesis using GetExtValue_0[OF typed_iv64[OF assms(3,2)]] assms(1)
    by (intro that[of "Constval t c"]) (simp_all add: CreateIntConstMeExpr_def word_of_Ext wrap_wrap)
qed

text \<open>A test of an interval by one unsigned comparison.\<close>

lemma interval_test:
  assumes t: "ity ps t" "ity ps t'" "bits ps t' = bits ps t" "\<not> IsSignedInteger t'"
    and r: "wrap ps t z = z" "wrap ps t a = a" "wrap ps t b = b"
  shows "wrap ps t' (z - a) < wrap ps t' (b - a) \<longleftrightarrow> (if a \<le> b then a \<le> z \<and> z < b else a \<le> z \<or> z < b)"
proof -
  let ?M = "2 ^ bits ps t :: int"
  have w: "wrap ps t' x = x mod ?M" for x using t by (simp add: wrap_def take_bit_eq_mod)
  have b: "\<bar>z - a\<bar> < ?M" "\<bar>b - a\<bar> < ?M" "\<bar>z - b\<bar> < ?M" using r type_span[OF t(1)] t(1) by (auto simp: wrap_self_iff)
  have m: "x mod ?M = (if 0 \<le> x then x else x + ?M)" if "\<bar>x\<bar> < ?M" for x
    using that by (auto simp: mod_pos_pos_trivial intro: mod_pos_pos_trivial[of "x + ?M" ?M, simplified])
  show ?thesis unfolding w m[OF b(1)] m[OF b(2)] using b by auto
qed

lemma unsigned_type:
  assumes "ity ps t"
  shows "ity ps (GetUnsignedPrimType t)" "bits ps (GetUnsignedPrimType t) = bits ps t" "\<not> IsSignedInteger (GetUnsignedPrimType t)"
  using ity_cases[OF assms] ity_ps[OF assms] by (auto simp: GetUnsignedPrimType_def ity_def bits_def prim_eval)

lemma wrap_unsigned:
  assumes "ity ps t"
  shows "wrap ps (GetUnsignedPrimType t) (wrap ps t x) = wrap ps (GetUnsignedPrimType t) x"
  using unsigned_type[OF assms] assms by (simp add: wrap_eq_iff take_bit_wrap)

lemma inside_test:
  assumes t: "ity ps t" and r: "wrap ps t z = z" "wrap ps t l = l" "wrap ps t u = u" "l < u"
  shows "wrap ps (GetUnsignedPrimType t) (z - l) \<le> wrap ps (GetUnsignedPrimType t) (u - l - 1) \<longleftrightarrow> l \<le> z \<and> z < u"
proof -
  note ut = unsigned_type[OF t]
  have d: "0 < u - l" "u - l < 2 ^ bits ps t" using r type_span[OF t] t by (auto simp: wrap_self_iff)
  have "wrap ps (GetUnsignedPrimType t) (u - l) = u - l" "wrap ps (GetUnsignedPrimType t) (u - l - 1) = u - l - 1"
    using ut d by (simp_all add: wrap_range)
  then show ?thesis using interval_test[OF t ut r(1-3)] r(4) by auto
qed

lemma outside_test:
  assumes t: "ity ps t" and r: "wrap ps t z = z" "wrap ps t l = l" "wrap ps t u = u" "u < l"
  shows "wrap ps (GetUnsignedPrimType t) (z - u) \<ge> wrap ps (GetUnsignedPrimType t) (l - u) \<longleftrightarrow> l \<le> z \<or> z < u"
  using interval_test[OF t unsigned_type[OF t] r(1,3,2)] r(4) by auto

lemma IntSet2MeExpr_interval:
  assumes t: "ity ps t" and g: "good_bounds (least ps t) (greatest ps t) l u"
    and v: "GetPrimType value = t" "eval ps syms \<sigma> value = Some z" "wrap ps t z = z"
  shows "\<exists>e. IntSet2MeExpr ps value (interval ps t l u) = Some e \<and> GetPrimType e = PTY_u1 \<and>
    eval ps syms \<sigma> e = Some (truth (between (least ps t) (greatest ps t) l u z))"
proof -
  let ?e = "eval ps syms \<sigma>"
  have w: "wrap ps t l = l" "wrap ps t u = u" by (rule good_in_type[OF t g])+
  obtain cl where cl: "CreateIntConstMeExpr ps (ivn ps t l) t = Some cl" "?e cl = Some l"
    using const_of_num[OF t typed_ivn[OF t] t, of l syms \<sigma>] t w by (metis num_ivn)
  obtain cu where cu: "CreateIntConstMeExpr ps (ivn ps t u) t = Some cu" "?e cu = Some u"
    using const_of_num[OF t typed_ivn[OF t] t, of u syms \<sigma>] t w by (metis num_ivn)
  obtain cd where cd: "CreateIntConstMeExpr ps (ivn ps t (u - l - 1)) t = Some cd" "?e cd = Some (wrap ps t (u - l - 1))"
    using const_of_num[OF t typed_ivn[OF t] t, of "u - l - 1" syms \<sigma>] t by (metis num_ivn wrap_wrap)
  obtain ce where ce: "CreateIntConstMeExpr ps (ivn ps t (l - u)) t = Some ce" "?e ce = Some (wrap ps t (l - u))"
    using const_of_num[OF t typed_ivn[OF t] t, of "l - u" syms \<sigma>] t by (metis num_ivn wrap_wrap)
  have l1: "wrap ps t (l + 1) = l + 1" using t g by (auto simp: wrap_self_iff good_bounds_def)
  have u1: "wrap ps t (u + 1) = u + 1" if "u \<noteq> greatest ps t" using t g that by (auto simp: wrap_self_iff good_bounds_def)
  have sub: "ivn ps t (wrap ps t (u - l) - 1) = ivn ps t (u - l - 1)" using t by (simp add: ivn_eq_iff wrap_arith)
  note num = typed_extreme[OF t typed_ivn[OF t]] typed_compare[OF t typed_ivn[OF t] typed_ivn[OF t]] num_ivn[OF t] w
    typed_step[OF t typed_ivn[OF t]] typed_minus[OF t typed_ivn[OF t] typed_ivn[OF t]] l1 cl(1) cu(1) cd(1) ce(1) sub
  note ev = cl(2) cu(2) cd(2) ce(2) v(2,3) w eval_cmp cmp_holds_def eval_binary_def wrap_unsigned[OF t] wrap_wrap[OF t]
  have code: "IntSet2MeExpr ps value (interval ps t l u) = Some
      (if l = least ps t then Compare OP_lt PTY_u1 t value cu
       else if u = greatest ps t then Compare OP_ge PTY_u1 t value cl
       else if u = l + 1 then Compare OP_eq PTY_u1 t value cl
       else if l = u + 1 then Compare OP_ne PTY_u1 t value cu
       else if l < u then Compare OP_le PTY_u1 (GetUnsignedPrimType t) (Binary OP_sub t value cl) cd
       else Compare OP_ge PTY_u1 (GetUnsignedPrimType t) (Binary OP_sub t value cu) ce)"
    using v(1) u1 cu(1) by (cases "u = greatest ps t") (simp_all add: IntSet2MeExpr_def Let_def num extremes_in_type[OF t])
  have ne: "l \<noteq> u" using g by (simp add: good_bounds_def)
  show ?thesis unfolding code
    using inside_test[OF t v(3) w] outside_test[OF t v(3) w] ne
    by (simp add: ev between_def Let_def) (auto simp: truth_def)
qed

section \<open>Two values that differ in one bit\<close>

lemma even_and_pred: "(2 * y :: int) AND (2 * y - 1) = 2 * (y AND (y - 1))"
proof -
  have "(2 * y - 1) div 2 = y - 1" by simp
  then show ?thesis using and_int_rec[of "2 * y" "2 * y - 1"] by simp
qed

lemma power_of_2_int:
  assumes "0 < x" "x AND (x - 1) = 0"
  shows "\<exists>k. x = (2 ^ k :: int)"
  using assms
proof (induction "nat x" arbitrary: x rule: less_induct)
  case less
  show ?case
  proof (cases "even x")
    case True
    then obtain y where y: "x = 2 * y" by auto
    then have "0 < y" "y AND (y - 1) = 0" "nat y < nat x" using less.prems even_and_pred[of y] by auto
    then obtain k where "y = 2 ^ k" using less.hyps by blast
    then show ?thesis using y by (intro exI[of _ "Suc k"]) simp
  next
    case False
    then have "x AND (x - 1) = x - 1" using and_int_rec[of x "x - 1"] by (auto elim!: oddE)
    then have "x = 2 ^ 0" using less.prems by simp
    then show ?thesis by blast
  qed
qed

lemma clear_one_bit:
  fixes x c :: int
  assumes "\<not> bit c k"
  shows "x AND NOT (2 ^ k) = c \<longleftrightarrow> x = c \<or> x = c + 2 ^ k"
proof -
  have u: "x AND NOT (2 ^ k) = x - of_bool (bit x k) * 2 ^ k" using unset_bit_eq_and_not[of k x] unset_bit_eq[of k x] by simp
  have "bit (c + 2 ^ k) k" using set_bit_eq[of k c] assms bit_set_bit_iff[of k c k] by simp
  then show ?thesis unfolding u using assms by (cases "bit x k") auto
qed

lemma xor_one_bit:
  fixes a :: int
  assumes "a XOR 2 ^ k = a + 2 ^ k"
  shows "\<not> bit a k"
proof
  assume b: "bit a k"
  have "flip_bit k a = unset_bit k a" using b by (simp add: flip_bit_eq_if)
  then have "a XOR 2 ^ k = a - 2 ^ k" using b flip_bit_eq_xor[of k a] unset_bit_eq[of k a] by simp
  then show False using assms by (simp add: eq_neg_iff_add_eq_0)
qed

lemma take_bit_diff_eq: "take_bit n (x - a) = take_bit n (y - a) \<longleftrightarrow> take_bit n x = take_bit n (y :: int)"
  by (simp add: take_bit_eq_mod mod_eq_dvd_iff)

lemma take_bit_and_not: "take_bit n (x AND NOT d) = take_bit n x AND NOT (take_bit n (d :: int))"
  by (rule bit_eqI) (auto simp: bit_simps)

lemma wrapped_eq_iff: "ity ps t \<Longrightarrow> wrap ps t y = y \<Longrightarrow> wrap ps t x = y \<longleftrightarrow> take_bit (bits ps t) x = take_bit (bits ps t) y"
  using wrap_eq_iff[of ps t x y] by simp

lemma values_eq_iff: "ity ps t \<Longrightarrow> wrap ps t x = x \<Longrightarrow> wrap ps t y = y \<Longrightarrow> x = y \<longleftrightarrow> take_bit (bits ps t) x = take_bit (bits ps t) y"
  using wrapped_eq_iff[of ps t y x] by simp

lemma one_bit_masks:
  assumes t: "ity ps t" and w: "wrap ps t a = a" "wrap ps t b = b" "wrap ps t z = z"
    and d: "take_bit (bits ps t) a < take_bit (bits ps t) b" "take_bit (bits ps t) (b - a) = 2 ^ k"
  shows "wrap ps t (a XOR (b - a)) = b \<Longrightarrow> wrap ps t (z AND NOT (b - a)) = a \<longleftrightarrow> z = a \<or> z = b"
    and "wrap ps t ((z - a) AND NOT (b - a)) = 0 \<longleftrightarrow> z = a \<or> z = b"
proof -
  let ?n = "bits ps t"
  have "take_bit ?n (b - a) = take_bit ?n (take_bit ?n b - take_bit ?n a)" by (simp add: take_bit_diff)
  also have "\<dots> = take_bit ?n b - take_bit ?n a"
    using d(1) take_bit_int_less_exp[of ?n b] take_bit_nonnegative[of ?n a] by (intro take_bit_int_eq_self) linarith+
  finally have s: "take_bit ?n b = take_bit ?n a + 2 ^ k" using d(2) by simp
  note e = values_eq_iff[OF t w(3,1)] values_eq_iff[OF t w(3,2)]
  show "wrap ps t (z AND NOT (b - a)) = a \<longleftrightarrow> z = a \<or> z = b" if "wrap ps t (a XOR (b - a)) = b"
  proof -
    have "take_bit ?n a XOR 2 ^ k = take_bit ?n a + 2 ^ k"
      using that s d(2) by (simp add: wrapped_eq_iff[OF t w(2)] take_bit_xor)
    then have "\<not> bit (take_bit ?n a) k" by (rule xor_one_bit)
    then show ?thesis unfolding wrapped_eq_iff[OF t w(1)] take_bit_and_not d(2) e s by (rule clear_one_bit)
  qed
  have "take_bit ?n (z - a) = 0 \<longleftrightarrow> z = a" using take_bit_diff_eq[of ?n z a a] by (simp add: e)
  moreover have "take_bit ?n (z - a) = 2 ^ k \<longleftrightarrow> z = b" unfolding d(2)[symmetric] e by (rule take_bit_diff_eq)
  moreover have "wrap ps t 0 = 0" using t by (rule wrap_bool) simp
  ultimately show "wrap ps t ((z - a) AND NOT (b - a)) = 0 \<longleftrightarrow> z = a \<or> z = b"
    using clear_one_bit[of 0 k "take_bit ?n (z - a)"] wrapped_eq_iff[OF t, of 0 "(z - a) AND NOT (b - a)"]
    by (simp only: take_bit_and_not d(2) take_bit_of_0 bit_0_eq simp_thms add_0 bot_fun_def bot_bool_def)
qed

lemma uint_take_bit_of_int: "n \<le> 64 \<Longrightarrow> uint (take_bit n (word_of_int d) :: u64) = take_bit n d"
  by (simp add: unsigned_take_bit_eq unsigned_of_int min_def)

lemma IsPowerOf2_ivn:
  assumes t: "ity ps t" and p: "IsPowerOf2 (ivn ps t d) = Some True"
  shows "\<exists>k. take_bit (bits ps t) d = 2 ^ k"
proof -
  define x where "x = (take_bit (bits ps t) (word_of_int d) :: u64)"
  have u: "uint x = take_bit (bits ps t) d" unfolding x_def by (rule uint_take_bit_of_int) (use ity_bits[OF t] in simp)
  have x: "x \<noteq> 0" "x AND (x - 1) = 0"
    using p ivn_one[OF t, of d] by (simp_all add: IsPowerOf2_def ivn_def u_value_def x_def[symmetric])
  have pos: "0 < uint x" using x(1) by (metis uint_0_iff uint_ge_0 order_le_less)
  then have "uint (x - 1) = uint x - 1" by (metis One_nat_def uint_1 uint_sub_lem zless_imp_add1_zle add_0)
  then have "uint x AND (uint x - 1) = 0" using x(2) by (metis uint_0_eq uint_and)
  then show ?thesis using power_of_2_int[OF pos] u by simp
qed

lemma zxt_ivn:
  assumes "ity ps t"
  shows "\<exists>x. GetZXTValue 0 (ivn ps t z) = Some x \<and> uint x = take_bit (bits ps t) z"
proof -
  have "bits ps t \<le> 64" using ity_bits[OF assms] by simp
  note u = uint_take_bit_of_int[OF this, of z]
  have "int (iv_bits (ivn ps t z)) = take_bit (bits ps t) z" by (simp only: iv_bits_def ivn_def IntVal.simps storage.case uint_nat[symmetric] u)
  then show ?thesis using GetZXTValue_0[OF typed_iv64[OF assms typed_ivn[OF assms]], of z] by (metis uint_nat)
qed

text \<open>A set, tested on a node, that answers \<open>h\<close>.\<close>

definition tests :: "nat \<Rightarrow> symbol_types \<Rightarrow> store \<Rightarrow> PrimType \<Rightarrow> bool \<Rightarrow> node \<Rightarrow> ConstIntSet \<Rightarrow> bool" where
  "tests ps syms \<sigma> t h e s \<longleftrightarrow>
     cs_isFull s \<noteq> cs_isEmpty s \<and> (cs_isFull s \<longleftrightarrow> h) \<or>
     (\<exists>l u z. s = interval ps t l u \<and> good_bounds (least ps t) (greatest ps t) l u \<and> GetPrimType e = t \<and>
       eval ps syms \<sigma> e = Some z \<and> wrap ps t z = z \<and> (between (least ps t) (greatest ps t) l u z \<longleftrightarrow> h))"

definition merged :: "nat \<Rightarrow> symbol_types \<Rightarrow> store \<Rightarrow> PrimType \<Rightarrow> bool \<Rightarrow> (node \<times> ConstIntSet) option option \<Rightarrow> bool" where
  "merged ps syms \<sigma> t h r \<longleftrightarrow> (\<exists>p. r = Some p \<and> (\<forall>e s. p = Some (e, s) \<longrightarrow> tests ps syms \<sigma> t h e s))"

lemma mergedI:
  assumes "r = Some (Some (e, interval ps t l u))" "good_bounds (least ps t) (greatest ps t) l u" "GetPrimType e = t"
    "eval ps syms \<sigma> e = Some z" "wrap ps t z = z" "between (least ps t) (greatest ps t) l u z \<longleftrightarrow> h"
  shows "merged ps syms \<sigma> t h r"
  using assms by (auto simp: merged_def tests_def)

lemma between_single: "good_bounds mn mx l (l + 1) \<Longrightarrow> mn \<le> z \<Longrightarrow> z \<le> mx \<Longrightarrow> between mn mx l (l + 1) z \<longleftrightarrow> z = l"
  by (auto simp: between_straight good_bounds_def)

lemma small_values_good:
  assumes "ity ps t" "good_bounds (least ps t) (greatest ps t) a (a + 1)"
  shows "good_bounds (least ps t) (greatest ps t) 0 1"
proof -
  have "t \<noteq> PTY_u1" using assms(2) by (auto simp: good_bounds_def least_def greatest_def u1_unsigned bits_u1)
  then have n: "8 \<le> bits ps t" using ity_bits[OF assms(1)] by simp
  have "(2 :: int) ^ 7 \<le> 2 ^ (bits ps t - 1)" "(2 :: int) ^ 7 \<le> 2 ^ bits ps t" by (rule power_increasing; use n in simp)+
  then show ?thesis by (auto simp: good_bounds_def least_def greatest_def)
qed

lemma masked_value:
  assumes t: "ity ps t" and "eval ps syms \<sigma> value = Some z" "eval ps syms \<sigma> c = Some k" "eval ps syms \<sigma> m = Some (wrap ps t n)"
  shows "eval ps syms \<sigma> (Binary OP_band t (Binary OP_sub t value c) m) = Some (wrap ps t ((z - k) AND n))"
  using assms(2-) wrap_band[OF t, of "z - k" n] by (simp add: eval_binary_def Let_def wrap_arith[OF t])

lemma one_bit_merge_exact:
  assumes t: "ity ps t" and a: "good_bounds (least ps t) (greatest ps t) a (a + 1)" and b: "good_bounds (least ps t) (greatest ps t) b (b + 1)"
    and o: "take_bit (bits ps t) a < take_bit (bits ps t) b"
    and v: "GetPrimType value = t" "eval ps syms \<sigma> value = Some z" "wrap ps t z = z"
  shows "merged ps syms \<sigma> t (z = a \<or> z = b) (one_bit_merge ps t value (interval ps t a (a + 1)) (interval ps t b (b + 1)))"
proof -
  let ?mn = "least ps t" and ?mx = "greatest ps t"
  have w: "wrap ps t a = a" "wrap ps t (a + 1) = a + 1" "wrap ps t b = b"
    using good_in_type[OF t a] good_in_type[OF t b] by auto
  obtain m where m: "CreateIntConstMeExpr ps (ivn ps t (NOT (wrap ps t (b - a)))) t = Some m"
    "eval ps syms \<sigma> m = Some (wrap ps t (NOT (b - a)))"
    using const_of_num[OF t typed_ivn[OF t] t, of "NOT (wrap ps t (b - a))" syms \<sigma>] t by (metis num_ivn wrap_wrap wrap_not)
  obtain c0 where c0: "CreateIntConstMeExpr ps (ivn ps t 0) t = Some c0" "eval ps syms \<sigma> c0 = Some 0"
    using const_of_num[OF t typed_ivn[OF t] t, of 0 syms \<sigma>] t wrap_bool[OF t, of 0] by (metis num_ivn)
  obtain ca where ca: "CreateIntConstMeExpr ps (ivn ps t a) t = Some ca" "eval ps syms \<sigma> ca = Some a"
    using const_of_num[OF t typed_ivn[OF t] t, of a syms \<sigma>] t w(1) by (metis num_ivn)
  have z: "Iv_of_val_type ps 0 t = Some (ivn ps t 0)" using ivn_of_val[OF t, of 0] by simp
  note num = typed_compare[OF t typed_ivn[OF t] typed_ivn[OF t]] num_ivn[OF t] w typed_minus[OF t typed_ivn[OF t] typed_ivn[OF t]]
    typed_xor[OF t typed_ivn[OF t] typed_ivn[OF t]] typed_not[OF t typed_ivn[OF t]] m(1) c0(1) ca(1) z
  obtain pow where pow: "IsPowerOf2 (ivn ps t (b - a)) = Some pow" using ivn_one[OF t, of "b - a"] by (auto simp: IsPowerOf2_def ivn_def u_value_def)
  have code: "one_bit_merge ps t value (interval ps t a (a + 1)) (interval ps t b (b + 1)) =
      Some (if \<not> pow then None
        else if wrap ps t (a XOR wrap ps t (b - a)) \<noteq> b
        then Some (Binary OP_band t (Binary OP_sub t value ca) m, interval ps t 0 1)
        else Some (Binary OP_band t (Binary OP_sub t value c0) m, interval ps t a (a + 1)))"
    using wrap_bool[OF t, of 0] by (simp add: one_bit_merge_def num pow) (simp add: interval_def)
  show ?thesis
  proof (cases pow)
    case False
    then show ?thesis by (simp add: code pow merged_def)
  next
    case True
    then obtain k where k: "take_bit (bits ps t) (b - a) = 2 ^ k" using IsPowerOf2_ivn[OF t] pow by auto
    have x: "wrap ps t (a XOR wrap ps t (b - a)) = wrap ps t (a XOR (b - a))" using wrap_bxor[OF t, of a "b - a"] w(1) by simp
    note masks = one_bit_masks[OF t w(1,3) v(3) o k]
    have range: "?mn \<le> wrap ps t y \<and> wrap ps t y \<le> ?mx" for y using wrap_wrap[OF t, of y] wrap_self_iff[OF t] by blast
    show ?thesis
    proof (cases "wrap ps t (a XOR (b - a)) = b")
      case same: True
      show ?thesis
        by (rule mergedI[OF _ a _ masked_value[OF t v(2) c0(2) m(2)]])
          (use True same range masks(1)[OF same] in \<open>simp_all add: code pow x wrap_wrap[OF t] between_single[OF a]\<close>)
    next
      case moved: False
      note g = small_values_good[OF t a]
      show ?thesis
        by (rule mergedI[OF _ g _ masked_value[OF t v(2) ca(2) m(2)]])
          (use True moved range masks(2) between_single[of ?mn ?mx 0] g in \<open>simp_all add: code pow x wrap_wrap[OF t]\<close>)
    qed
  qed
qed

lemma one_bit_apart_exact:
  assumes t: "ity ps t" and a: "basic_bounds (least ps t) (greatest ps t) l1 u1" and b: "basic_bounds (least ps t) (greatest ps t) l2 u2"
    and n: "unite (least ps t) (greatest ps t) (l1, u1) (l2, u2) = None"
    and v: "GetPrimType value = t" "eval ps syms \<sigma> value = Some z" "wrap ps t z = z"
  shows "merged ps syms \<sigma> t (between (least ps t) (greatest ps t) l1 u1 z \<or> between (least ps t) (greatest ps t) l2 u2 z)
    (one_bit_apart ps t value (interval ps t l1 u1) (interval ps t l2 u2))"
proof -
  let ?mn = "least ps t" and ?mx = "greatest ps t" and ?n = "bits ps t"
  have g: "good_bounds ?mn ?mx l1 u1" "good_bounds ?mn ?mx l2 u2" using a b by (simp_all add: basic_bounds_def)
  have w: "wrap ps t l1 = l1" "wrap ps t u1 = u1" "wrap ps t l2 = l2" "wrap ps t u2 = u2"
    using good_in_type[OF t g(1)] good_in_type[OF t g(2)] by auto
  obtain x1 x2 where x: "GetZXTValue 0 (ivn ps t l1) = Some x1" "uint x1 = take_bit ?n l1"
    "GetZXTValue 0 (ivn ps t l2) = Some x2" "uint x2 = take_bit ?n l2" using zxt_ivn[OF t] by metis
  note num = typed_compare[OF t typed_ivn[OF t] typed_ivn[OF t]] num_ivn[OF t] w typed_minus[OF t typed_ivn[OF t] typed_ivn[OF t]] x(1,3)
  have code: "one_bit_apart ps t value (interval ps t l1 u1) (interval ps t l2 u2) =
      (if wrap ps t (u1 - l1) \<noteq> wrap ps t (u2 - l2) \<or> u1 \<le> l1 \<or> u2 \<le> l2 then Some None
       else if x1 > x2 then one_bit_merge ps t value (interval ps t l2 u2) (interval ps t l1 u1)
       else one_bit_merge ps t value (interval ps t l1 u1) (interval ps t l2 u2))"
    by (simp add: one_bit_apart_def num)
  show ?thesis
  proof (cases "wrap ps t (u1 - l1) \<noteq> wrap ps t (u2 - l2) \<or> u1 \<le> l1 \<or> u2 \<le> l2")
    case True
    then show ?thesis by (simp add: code merged_def)
  next
    case False
    then have s: "l1 < u1" "l2 < u2" "wrap ps t (u1 - l1) = wrap ps t (u2 - l2)" by auto
    have "0 < u1 - l1" "u1 - l1 < 2 ^ ?n" "0 < u2 - l2" "u2 - l2 < 2 ^ ?n" using s w type_span[OF t] t by (auto simp: wrap_self_iff)
    then have "u1 - l1 = u2 - l2" using s(3) by (simp add: wrap_eq_iff[OF t] take_bit_int_eq_self)
    then have e: "u1 = l1 + 1" "u2 = l2 + 1" using basic_gap_single[OF a b n s(1,2)] by auto
    have r: "?mn \<le> z" "z \<le> ?mx" using v(3) t by (auto simp: wrap_self_iff)
    note single = between_single[OF g(1)[unfolded e] r] between_single[OF g(2)[unfolded e] r]
    have "l1 \<noteq> l2" using n e by (auto simp: unite_def)
    then have "take_bit ?n l1 \<noteq> take_bit ?n l2" using values_eq_iff[OF t w(1,3)] by simp
    then consider "x1 > x2" "take_bit ?n l2 < take_bit ?n l1" | "\<not> x1 > x2" "take_bit ?n l1 < take_bit ?n l2"
      using x(2,4) by (cases "x2 < x1") (auto simp: word_less_def)
    then show ?thesis
    proof cases
      case 1
      then show ?thesis using one_bit_merge_exact[OF t g(2,1)[unfolded e] 1(2) v] False
        by (simp add: code[unfolded e] e single disj_commute)
    next
      case 2
      then show ?thesis using one_bit_merge_exact[OF t g[unfolded e] 2(2) v] False
        by (simp add: code[unfolded e] e single)
    qed
  qed
qed

section \<open>Merging two comparisons\<close>

lemma tests_negation:
  assumes t: "ity ps t" and s: "tests ps syms \<sigma> t h e s"
  obtains s' where "DoNegation s = Some s'" "tests ps syms \<sigma> t (\<not> h) e s'"
proof -
  let ?mn = "least ps t" and ?mx = "greatest ps t"
  consider "cs_isFull s \<noteq> cs_isEmpty s" "cs_isFull s \<longleftrightarrow> h"
    | l u z where "s = interval ps t l u" "good_bounds ?mn ?mx l u" "GetPrimType e = t" "eval ps syms \<sigma> e = Some z" "wrap ps t z = z"
      "between ?mn ?mx l u z \<longleftrightarrow> h"
    using s unfolding tests_def by blast
  then show ?thesis
  proof cases
    case 1
    then show ?thesis
      by (intro that[of "s\<lparr>cs_isEmpty := cs_isFull s, cs_isFull := cs_isEmpty s\<rparr>"]) (auto simp: DoNegation_def tests_def)
  next
    case (2 l u z)
    obtain l' u' where n: "negate_bounds ?mn ?mx l u = (l', u')" by fastforce
    note b = negate_bounds[OF 2(2) n]
    have "?mn \<le> z" "z \<le> ?mx" using 2(5) t by (auto simp: wrap_self_iff)
    then show ?thesis
      using DoNegation_interval[OF t good_in_type[OF t 2(2)]] 2 n b(1,3)
      by (intro that[of "interval ps t l' u'"]) (auto simp: tests_def)
  qed
qed

lemma tests_expr:
  assumes t: "ity ps t" and s: "tests ps syms \<sigma> t h e s"
  obtains x where "IntSet2MeExpr ps e s = Some x" "GetPrimType x = PTY_u1" "eval ps syms \<sigma> x = Some (truth h)"
proof -
  have u: "ity ps PTY_u1" by (rule ity_u1[OF t])
  have c: "\<exists>x. CreateIntConst ps (word_of_int (truth b)) PTY_u1 = Some x \<and> GetPrimType x = PTY_u1 \<and> eval ps syms \<sigma> x = Some (truth b)" for b
    using CreateIntConst_gives[OF u, of "truth b"] u by (auto simp: wrap_wrap wrap_truth)
  from s consider "cs_isFull s \<noteq> cs_isEmpty s" "cs_isFull s \<longleftrightarrow> h"
    | l u z where "s = interval ps t l u" "good_bounds (least ps t) (greatest ps t) l u" "GetPrimType e = t"
      "eval ps syms \<sigma> e = Some z" "wrap ps t z = z" "between (least ps t) (greatest ps t) l u z \<longleftrightarrow> h"
    unfolding tests_def by blast
  then show ?thesis
  proof cases
    case 1
    then show ?thesis using c[of h] that by (cases h) (auto simp: IntSet2MeExpr_def truth_def)
  next
    case (2 l u z)
    then show ?thesis using IntSet2MeExpr_interval[OF t 2(2-5)] that by auto
  qed
qed

lemma tests_trivial: "tests ps syms \<sigma> t True e all_values" "tests ps syms \<sigma> t False e no_values"
  by (simp_all add: tests_def all_values_def no_values_def cs_new_def)

lemma tests_interval:
  assumes "ity ps t" "good_bounds (least ps t) (greatest ps t) l u" "GetPrimType e = t" "eval ps syms \<sigma> e = Some z" "wrap ps t z = z"
  shows "tests ps syms \<sigma> t (contains ps t (interval ps t l u) z) e (interval ps t l u)"
  unfolding tests_def contains_interval[OF assms(1,2)] using assms(2-) by blast

lemma basic_tests:
  assumes "ity ps t" "basic ps t s" "GetPrimType e = t" "eval ps syms \<sigma> e = Some z" "wrap ps t z = z"
  shows "tests ps syms \<sigma> t (contains ps t s z) e s"
  using assms(2) tests_interval[OF assms(1) _ assms(3-5)] by (auto simp: basic_def basic_bounds_def tests_trivial)

lemma merge_sets_exact:
  assumes t: "ity ps t" and b: "basic ps t s1" "basic ps t s2"
    and v: "GetPrimType value = t" "eval ps syms \<sigma> value = Some z" "wrap ps t z = z"
  shows "merged ps syms \<sigma> t (contains ps t s1 z \<or> contains ps t s2 z) (merge_sets ps t value s1 s2)"
proof (cases "s1 \<in> {all_values, no_values} \<or> s2 \<in> {all_values, no_values}")
  case True
  note u1 = Union_trivial[OF b(1)] and u2 = Union_trivial[OF b(2)]
  from True have "\<exists>s. Cs_Union s1 s2 = Some (Some s) \<and> tests ps syms \<sigma> t (contains ps t s1 z \<or> contains ps t s2 z) value s"
    using basic_tests[OF t b(1) v] basic_tests[OF t b(2) v]
    by (elim disjE insertE emptyE; simp add: u1 u2 tests_trivial)
  then show ?thesis by (auto simp: merge_sets_def merged_def)
next
  case False
  let ?mn = "least ps t" and ?mx = "greatest ps t"
  obtain l1 u1 l2 u2 where s: "s1 = interval ps t l1 u1" "basic_bounds ?mn ?mx l1 u1" "s2 = interval ps t l2 u2" "basic_bounds ?mn ?mx l2 u2"
    using b False unfolding basic_def by auto
  then have g: "good_bounds ?mn ?mx l1 u1" "good_bounds ?mn ?mx l2 u2" by (simp_all add: basic_bounds_def)
  have r: "?mn \<le> z" "z \<le> ?mx" using v(3) t by (auto simp: wrap_self_iff)
  note c = contains_interval[OF t g(1)] contains_interval[OF t g(2)]
  obtain u where u: "Cs_Union s1 s2 = Some u" "rel_option (denotes ps t) u (unite ?mn ?mx (l1, u1) (l2, u2))"
    using Union_intervals[OF t g] s by auto
  show ?thesis
  proof (cases "unite ?mn ?mx (l1, u1) (l2, u2)")
    case None
    then show ?thesis using one_bit_apart_exact[OF t s(2,4) None v] u s(1,3) by (simp add: merge_sets_def ivn_fields c)
  next
    case (Some d)
    then obtain s3 where s3: "u = Some s3" "denotes ps t s3 d" using u(2) by (cases u) auto
    have "tests ps syms \<sigma> t (contains ps t s1 z \<or> contains ps t s2 z) value s3"
      using unite_exact[OF g Some] s3(2) v r s(1,3)
      by (auto simp: exact_union_def denotes_def tests_def c split: option.splits)
    then show ?thesis using u(1) s3(1) by (simp add: merge_sets_def merged_def)
  qed
qed

lemma own_type: "ity ps t \<Longrightarrow> (if IsUnsignedInteger t then GetUnsignedPrimType t else t) = t"
  using ity_cases[of ps t] by (auto simp: GetUnsignedPrimType_def prim_eval)

lemma negated_or_not:
  assumes "ity ps t" "basic ps t s"
  obtains s' where "(if isAnd then DoNegation s else Some s) = Some s'" "basic ps t s'"
    "\<And>z. wrap ps t z = z \<Longrightarrow> contains ps t s' z \<longleftrightarrow> contains ps t s z \<noteq> isAnd"
proof (cases isAnd)
  case True
  then show ?thesis using DoNegation_basic[OF assms] that by (metis (full_types))
next
  case False
  then show ?thesis using that[of s] assms(2) by simp
qed

lemma merged_comparison:
  assumes t: "ity ps t" and r: "merged ps syms \<sigma> t h r"
  shows "\<exists>x. do { p \<leftarrow> r; (case p of None \<Rightarrow> Some None
      | Some (e, s) \<Rightarrow> do { s \<leftarrow> (if isAnd then DoNegation s else Some s); map_option Some (IntSet2MeExpr ps e s) }) } = Some x \<and>
    (\<forall>e. x = Some e \<longrightarrow> GetPrimType e = PTY_u1 \<and> eval ps syms \<sigma> e = Some (truth (h \<noteq> isAnd)))"
proof -
  obtain p where p: "r = Some p" "\<And>e s. p = Some (e, s) \<Longrightarrow> tests ps syms \<sigma> t h e s" using r unfolding merged_def by blast
  show ?thesis
  proof (cases p)
    case (Some q)
    obtain e s where q: "q = (e, s)" by fastforce
    have h: "tests ps syms \<sigma> t h e s" using p(2) Some q by simp
    obtain s' where s': "(if isAnd then DoNegation s else Some s) = Some s'" "tests ps syms \<sigma> t (h \<noteq> isAnd) e s'"
    proof (cases isAnd)
      case True
      obtain s' where "DoNegation s = Some s'" "tests ps syms \<sigma> t (\<not> h) e s'" by (rule tests_negation[OF t h])
      then show ?thesis using True by (intro that[of s']) simp_all
    next
      case False
      then show ?thesis using that[of s] h by simp
    qed
    obtain x where "IntSet2MeExpr ps e s' = Some x" "GetPrimType x = PTY_u1" "eval ps syms \<sigma> x = Some (truth (h \<noteq> isAnd))"
      by (rule tests_expr[OF t s'(2)])
    then show ?thesis using s'(1) p(1) Some q by simp
  qed (simp add: p(1))
qed

lemma comparison_set:
  assumes "wt ps (Compare opc t ty v (Constval k c))" "GetPrimType v = ty" "wrap ps ty (iv_num (mc_value c)) + 3 \<le> greatest ps ty"
    "eval ps syms \<sigma> v = Some x"
  obtains s s' b where "GenerateIntSet ps opc (mc_value c) ty ty = Some s" "(if isAnd then DoNegation s else Some s) = Some s'"
    "basic ps ty s'" "contains ps ty s' x \<longleftrightarrow> b \<noteq> isAnd" "eval ps syms \<sigma> (Compare opc t ty v (Constval k c)) = Some (truth b)"
    "IsCompareHasReverseOp opc"
proof -
  have t: "ity ps ty" and o: "opc \<in> {OP_eq, OP_ne, OP_lt, OP_le, OP_gt, OP_ge}" and k: "ity ps k" "typed ps k (mc_value c)" and v: "wt ps v"
    using assms(1) by auto
  have z: "wrap ps ty x = x" using eval_range[OF v assms(4)] assms(2) by simp
  let ?b = "cmp_holds opc x (wrap ps ty (iv_num (mc_value c)))"
  obtain s where s: "GenerateIntSet ps opc (mc_value c) ty ty = Some s" "basic ps ty s" "contains ps ty s x \<longleftrightarrow> ?b"
    using GenerateIntSet_basic[OF t o typed_iv64[OF k] assms(3)] z by metis
  obtain s' where s': "(if isAnd then DoNegation s else Some s) = Some s'" "basic ps ty s'"
    "contains ps ty s' x \<longleftrightarrow> contains ps ty s x \<noteq> isAnd" using negated_or_not[OF t s(2)] z by metis
  have e: "eval ps syms \<sigma> (Compare opc t ty v (Constval k c)) = Some (truth ?b)"
    using assms(4) z o typed_num[OF k] by (simp add: eval_cmp)
  have "IsCompareHasReverseOp opc" using o by (auto simp: IsCompareHasReverseOp_def)
  then show ?thesis using that[OF s(1) s'(1,2) _ e] s'(3) s(3) by simp
qed

text \<open>C5: Two comparisons of one value with constants, joined by and or or, are replaced by a single test with the
same truth value, for all six operators, in every type of at most 64 bits. The merging never fails an
assertion of the integer class. The value has the type in which it is compared, and the constants keep a distance of 3
from the greatest value of this type.\<close>

theorem cmp_fold_exact:
  assumes "wt ps (Compare op1 t1 ty v (Constval k1 c1))" "wt ps (Compare op2 t2 ty v (Constval k2 c2))"
    and ty: "GetPrimType v = ty"
    and far: "wrap ps ty (iv_num (mc_value c1)) + 3 \<le> greatest ps ty" "wrap ps ty (iv_num (mc_value c2)) + 3 \<le> greatest ps ty"
    and x: "eval ps syms \<sigma> v = Some x"
  shows "\<exists>r b1 b2. FoldCmpExpr ps (Compare op1 t1 ty v (Constval k1 c1)) (Compare op2 t2 ty v (Constval k2 c2)) isAnd = Some r \<and>
    eval ps syms \<sigma> (Compare op1 t1 ty v (Constval k1 c1)) = Some (truth b1) \<and>
    eval ps syms \<sigma> (Compare op2 t2 ty v (Constval k2 c2)) = Some (truth b2) \<and>
    (\<forall>e. r = Some e \<longrightarrow> GetPrimType e = PTY_u1 \<and>
      eval ps syms \<sigma> e = Some (truth (if isAnd then b1 \<and> b2 else b1 \<or> b2)))"
proof -
  have t: "ity ps ty" and v: "wt ps v" using assms(1) by auto
  have z: "wrap ps ty x = x" using eval_range[OF v x] ty by simp
  obtain s1 s1' b1 where s1: "GenerateIntSet ps op1 (mc_value c1) ty ty = Some s1" "(if isAnd then DoNegation s1 else Some s1) = Some s1'"
    "basic ps ty s1'" "contains ps ty s1' x \<longleftrightarrow> b1 \<noteq> isAnd" "eval ps syms \<sigma> (Compare op1 t1 ty v (Constval k1 c1)) = Some (truth b1)"
    "IsCompareHasReverseOp op1" by (rule comparison_set[OF assms(1) ty far(1) x])
  obtain s2 s2' b2 where s2: "GenerateIntSet ps op2 (mc_value c2) ty ty = Some s2" "(if isAnd then DoNegation s2 else Some s2) = Some s2'"
    "basic ps ty s2'" "contains ps ty s2' x \<longleftrightarrow> b2 \<noteq> isAnd" "eval ps syms \<sigma> (Compare op2 t2 ty v (Constval k2 c2)) = Some (truth b2)"
    "IsCompareHasReverseOp op2" by (rule comparison_set[OF assms(2) ty far(2) x])
  have h: "(contains ps ty s1' x \<or> contains ps ty s2' x) \<noteq> isAnd \<longleftrightarrow> (if isAnd then b1 \<and> b2 else b1 \<or> b2)"
    using s1(4) s2(4) by auto
  have c: "FoldCmpExpr ps (Compare op1 t1 ty v (Constval k1 c1)) (Compare op2 t2 ty v (Constval k2 c2)) isAnd =
      do { p \<leftarrow> merge_sets ps ty v s1' s2'; (case p of None \<Rightarrow> Some None
        | Some (e, s) \<Rightarrow> do { s \<leftarrow> (if isAnd then DoNegation s else Some s); map_option Some (IntSet2MeExpr ps e s) }) }"
    using s1(1,2) s2(1,2) ty ity_classes(1)[OF t]
    by (simp add: FoldCmpExpr_def s1(6) s2(6) own_type[OF t] Let_def del: if_split)
  obtain r where "FoldCmpExpr ps (Compare op1 t1 ty v (Constval k1 c1)) (Compare op2 t2 ty v (Constval k2 c2)) isAnd = Some r"
    "\<forall>e. r = Some e \<longrightarrow> GetPrimType e = PTY_u1 \<and> eval ps syms \<sigma> e = Some (truth (if isAnd then b1 \<and> b2 else b1 \<or> b2))"
    using merged_comparison[OF t merge_sets_exact[OF t s1(3) s2(3) ty x z], of isAnd] unfolding h c by (elim exE conjE)
  then show ?thesis
    using s1(5) s2(5) by (intro exI[of _ r] exI[of _ b1] exI[of _ b2]) (simp only: simp_thms)
qed

section \<open>Range checks\<close>

text \<open>The constant of a type in an expression.\<close>

definition int_const :: "nat \<Rightarrow> PrimType \<Rightarrow> int \<Rightarrow> node" where
  "int_const ps t n = Constval t \<lparr>mc_type = t, mc_value = ivn ps t n\<rparr>"

lemma CreateIntConst_ivn: "ity ps t \<Longrightarrow> CreateIntConstMeExpr ps (ivn ps t n) t = Some (int_const ps t n)"
proof -
  assume t: "ity ps t"
  have "CreateIntConst ps (word_of_int (wrap ps t n)) t = Some (int_const ps t n)"
    using ivn_of_val[OF t, of "wrap ps t n"] by (simp add: CreateIntConst_def GetOrCreateIntConst_def int_const_def ivn_eq_iff[OF t] wrap_wrap[OF t])
  then show ?thesis using GetExtValue_0[OF typed_iv64[OF t typed_ivn[OF t]], of n] t by (simp add: CreateIntConstMeExpr_def word_of_Ext)
qed

lemma GenerateIntSet_own:
  assumes "ity ps t" "wrap ps t a = a"
  shows "GenerateIntSet ps opc (ivn ps t a) t t = range_set opc (ivn ps t a)"
  using gives_ivn[OF assms(1) TruncOrExtend_gives[OF assms(1) typed_iv64[OF assms(1) typed_ivn[OF assms(1)]]], of a] assms
  by (simp add: GenerateIntSet_def andm_def)


section \<open>Where merging is not exact\<close>

text \<open>The sets of the tests with the greatest value: \<open>x < MAX\<close> and \<open>x == MAX\<close> have the same upper bound.\<close>

lemma range_set_greatest:
  assumes t: "ity ps t"
  shows "range_set OP_eq (ivn ps t (greatest ps t)) = Some (interval ps t (greatest ps t) (greatest ps t))"
    "range_set OP_lt (ivn ps t (greatest ps t)) = Some (interval ps t (least ps t) (greatest ps t))"
proof -
  have w: "wrap ps t (greatest ps t) = greatest ps t" "IsOneWord Iv_default" "greatest ps t \<noteq> least ps t"
    using t type_order[OF t] by (simp_all add: extremes_in_type IsOneWord_def Iv_default_def)
  note num = typed_extreme[OF t typed_ivn[OF t]] ivn_fields set_extreme[OF t w(2)] num_ivn[OF t] w(1,3)
  show "range_set OP_eq (ivn ps t (greatest ps t)) = Some (interval ps t (greatest ps t) (greatest ps t))"
    "range_set OP_lt (ivn ps t (greatest ps t)) = Some (interval ps t (least ps t) (greatest ps t))"
    by (simp_all add: range_set_def num Let_def set_forms)
qed

lemma eval_const_test:
  "ity ps t \<Longrightarrow> eval ps syms \<sigma> v = Some x \<Longrightarrow> wrap ps t x = x \<Longrightarrow> wrap ps t n = n \<Longrightarrow>
    opc \<in> {OP_eq, OP_ne, OP_lt, OP_le, OP_gt, OP_ge} \<Longrightarrow> eval ps syms \<sigma> (Compare opc t1 t v (int_const ps t n)) = Some (truth (cmp_holds opc x n))"
  by (simp add: int_const_def eval_cmp)

lemma fold_lt_lt_greatest:
  assumes t: "ity ps t" and v: "GetPrimType v = t" and c: "least ps t < a" "a < greatest ps t"
  shows "FoldCmpExpr ps (Compare OP_lt t1 t v (int_const ps t a)) (Compare OP_lt t2 t v (int_const ps t (greatest ps t))) False =
    Some (Some (int_const ps PTY_u1 1))"
proof -
  have w: "wrap ps t a = a" using t c by (simp add: wrap_self_iff)
  note num = typed_extreme[OF t typed_ivn[OF t]] typed_compare[OF t typed_ivn[OF t] typed_ivn[OF t]] num_ivn[OF t] w
    ivn_fields extremes_in_type[OF t]
  have s: "range_set OP_lt (ivn ps t a) = Some (interval ps t (least ps t) a)" using c range_set_ivn[OF t, of a] by simp
  have u: "Cs_Union (interval ps t (least ps t) a) (interval ps t (least ps t) (greatest ps t)) =
      Some (Some ((interval ps t (least ps t) a)\<lparr>cs_isFull := True\<rparr>))"
    using c by (simp add: Cs_Union_def cs_eq_def EqMax_def andm_def union_ordered_def num) (simp add: set_forms)
  have "CreateIntConst ps 1 PTY_u1 = Some (int_const ps PTY_u1 1)"
    using ivn_of_val[OF ity_u1[OF t], of 1] by (simp add: CreateIntConst_def GetOrCreateIntConst_def int_const_def)
  then have e: "IntSet2MeExpr ps v ((interval ps t (least ps t) a)\<lparr>cs_isFull := True\<rparr>) = Some (int_const ps PTY_u1 1)"
    by (simp add: IntSet2MeExpr_def Let_def)
  show ?thesis
    using ity_classes(1)[OF t] v
    by (simp add: FoldCmpExpr_def int_const_def IsCompareHasReverseOp_def own_type[OF t] GenerateIntSet_own[OF t] w extremes_in_type[OF t]
        s range_set_greatest[OF t] merge_sets_def u e[unfolded int_const_def] Let_def)
qed

lemma fold_lt_eq_greatest:
  assumes t: "ity ps t" and v: "GetPrimType v = t"
  shows "FoldCmpExpr ps (Compare OP_lt t1 t v (int_const ps t (greatest ps t))) (Compare OP_eq t2 t v (int_const ps t (greatest ps t))) False =
    Some (Some (Compare OP_lt PTY_u1 t v (int_const ps t (greatest ps t))))"
proof -
  have o: "least ps t \<noteq> greatest ps t" using type_order[OF t] by simp
  note num = typed_extreme[OF t typed_ivn[OF t]] typed_compare[OF t typed_ivn[OF t] typed_ivn[OF t]] num_ivn[OF t]
    typed_step[OF t typed_ivn[OF t]] typed_minus[OF t typed_ivn[OF t] typed_ivn[OF t]] ivn_fields extremes_in_type[OF t]
  have u: "Cs_Union (interval ps t (least ps t) (greatest ps t)) (interval ps t (greatest ps t) (greatest ps t)) =
      Some (Some (interval ps t (least ps t) (greatest ps t)))"
    using o by (simp add: Cs_Union_def cs_eq_def EqMax_def andm_def union_ordered_def union_eqmax_def num) (simp add: set_forms)
  have e: "IntSet2MeExpr ps v (interval ps t (least ps t) (greatest ps t)) = Some (Compare OP_lt PTY_u1 t v (int_const ps t (greatest ps t)))"
    using v by (simp add: IntSet2MeExpr_def num CreateIntConst_ivn[OF t] Let_def)
  show ?thesis
    using ity_classes(1)[OF t] v
    by (simp add: FoldCmpExpr_def int_const_def IsCompareHasReverseOp_def own_type[OF t] GenerateIntSet_own[OF t] extremes_in_type[OF t]
        range_set_greatest[OF t] merge_sets_def u e[unfolded int_const_def] Let_def)
qed

text \<open>C37: Merging goes wrong at the greatest value \<open>MAX\<close> of every integer type. For every constant \<open>a\<close> inside the type
  \<open>x < a || x < MAX\<close> becomes a constant that is true where both tests are false, and \<open>x < MAX || x == MAX\<close> becomes a test
  that is false where the second one is true: both in every store in which \<open>x\<close> has the value \<open>MAX\<close>.\<close>

theorem cmp_fold_not_exact:
  assumes "ity ps t" "GetPrimType v = t" "least ps t < a" "a < greatest ps t" "eval ps syms \<sigma> v = Some (greatest ps t)"
    and "lt_a = Compare OP_lt t1 t v (int_const ps t a)" "lt_max = Compare OP_lt t2 t v (int_const ps t (greatest ps t))"
    and "eq_max = Compare OP_eq t3 t v (int_const ps t (greatest ps t))"
  shows "\<exists>e e'. FoldCmpExpr ps lt_a lt_max False = Some (Some e) \<and>
    eval ps syms \<sigma> lt_a = Some 0 \<and> eval ps syms \<sigma> lt_max = Some 0 \<and> eval ps syms \<sigma> e = Some 1 \<and>
    FoldCmpExpr ps lt_max eq_max False = Some (Some e') \<and> eval ps syms \<sigma> eq_max = Some 1 \<and> eval ps syms \<sigma> e' = Some 0"
proof -
  have w: "wrap ps t a = a" "wrap ps t (greatest ps t) = greatest ps t" using assms(1,3,4) by (simp_all add: wrap_self_iff)
  have "eval ps syms \<sigma> (int_const ps PTY_u1 1) = Some 1"
    using ity_u1[OF assms(1)] by (simp add: int_const_def wrap_wrap) (simp add: wrap_def u1_unsigned bits_u1)
  then show ?thesis
    using fold_lt_lt_greatest[OF assms(1-4)] fold_lt_eq_greatest[OF assms(1,2)] eval_const_test[OF assms(1,5) w(2) w(1)]
      eval_const_test[OF assms(1,5) w(2) w(2)] assms(4,6-8) by (simp add: cmp_holds_def truth_def)
qed

text \<open>A negative constant never fits a narrower signed type: the test compares zero extended bits.\<close>

lemma GenerateIntSet_negative:
  assumes t: "ity ps t" "ity ps vt" "bits ps vt < bits ps t" and c: "c < 0" "least ps vt \<le> c" "wrap ps t c = c"
  shows "GenerateIntSet ps OP_eq (ivn ps t c) vt t = Some no_values"
proof -
  have w: "TruncOrExtend_type ps t (ivn ps t c) = Some (ivn ps t c)"
    using gives_ivn[OF t(1) TruncOrExtend_gives[OF t(1) typed_iv64[OF t(1) typed_ivn[OF t(1)]]], of c] t(1) c(3) by simp
  have "gives ps vt (Trunc_type ps vt (ivn ps t c)) c"
    using Trunc_converts[of "ivn ps t c" "bits ps vt" "IsSignedInteger vt"] typed_ok[OF typed_ivn[OF t(1)], of c] ity_bits[OF t(2)] t c(3)
    by (intro iv_converts_gives) (simp_all add: Trunc_type_def bits_def ivn_fields target_ok_def)
  then have v: "Trunc_type ps vt (ivn ps t c) = Some (ivn ps vt c)" by (rule gives_ivn[OF t(2)])
  obtain x where x: "GetZXTValue 0 (ivn ps vt c) = Some x" "uint x = take_bit (bits ps vt) c" using zxt_ivn[OF t(2)] by blast
  obtain y where y: "GetZXTValue 0 (ivn ps t c) = Some y" "uint y = take_bit (bits ps t) c" using zxt_ivn[OF t(1)] by blast
  have n: "take_bit (bits ps s) c = c + 2 ^ bits ps s" if "ity ps s" "least ps s \<le> c" for s
  proof -
    have "0 \<le> greatest ps s" by (simp add: greatest_def)
    then have "- (2 ^ bits ps s) \<le> c" using that type_span[OF that(1)] by linarith
    then have "(c + 2 ^ bits ps s) mod 2 ^ bits ps s = c + 2 ^ bits ps s" using c(1) by (intro mod_pos_pos_trivial) simp_all
    then show ?thesis by (simp add: take_bit_eq_mod)
  qed
  have "least ps t \<le> c" using c(3) t(1) by (simp add: wrap_self_iff)
  moreover have "(2 :: int) ^ bits ps vt < 2 ^ bits ps t" using t(3) by simp
  ultimately have "uint x \<noteq> uint y" using n[OF t(2) c(2)] n[OF t(1)] x(2) y(2) by simp
  then have "x \<noteq> y" by auto
  then show ?thesis using t(3) by (auto simp: GenerateIntSet_def w v x(1) y(1) andm_def no_values_def)
qed


text \<open>Comparisons of a register with a constant.\<close>

definition test_reg :: "Opcode \<Rightarrow> PrimType \<Rightarrow> PrimType \<Rightarrow> int \<Rightarrow> node" where
  "test_reg opc t ot n = Compare opc PTY_u1 ot (Regread t 0) (int_const 8 ot n)"

text \<open>For a signed byte \<open>x == -1 || x == 3\<close> loses its first test, for an unsigned byte \<open>x < 300 || x == 3\<close> becomes \<open>x < 255\<close>, and an
  unsigned test of a signed register becomes a signed one.\<close>

lemma fold_narrow:
  "FoldCmpExpr 8 (test_reg OP_eq PTY_i8 PTY_i32 (- 1)) (test_reg OP_eq PTY_i8 PTY_i32 3) False =
    Some (Some (test_reg OP_eq PTY_i8 PTY_i8 3))"
  "FoldCmpExpr 8 (test_reg OP_lt PTY_u8 PTY_i32 300) (test_reg OP_eq PTY_u8 PTY_i32 3) False =
    Some (Some (test_reg OP_lt PTY_u8 PTY_u8 255))"
  by code_simp+

lemma fold_sign:
  "FoldCmpExpr 8 (test_reg OP_lt PTY_i32 PTY_u32 5) (test_reg OP_eq PTY_i32 PTY_u32 5) False =
    Some (Some (test_reg OP_lt PTY_i32 PTY_i32 6))"
  by code_simp

lemma test_type: "t \<in> {PTY_i8, PTY_u8, PTY_i32, PTY_u32, PTY_u1} \<Longrightarrow> ity 8 t"
  by (auto simp: ity_def bits_def prim_eval)

lemma test_eval:
  assumes "t \<in> {PTY_i8, PTY_u8, PTY_i32, PTY_u32, PTY_u1}" "ot \<in> {PTY_i8, PTY_u8, PTY_i32, PTY_u32, PTY_u1}"
    "opc \<in> {OP_eq, OP_ne, OP_lt, OP_le, OP_gt, OP_ge}"
  shows "eval 8 syms \<sigma> (test_reg opc t ot n) = Some (truth (cmp_holds opc (wrap 8 ot (wrap 8 t (\<sigma> (Inr 0)))) (wrap 8 ot n)))"
  using test_type[OF assms(1)] test_type[OF assms(2)] assms(3) by (simp add: test_reg_def int_const_def eval_cmp wrap_wrap)

lemma test_wrap:
  "wrap 8 PTY_i32 z = signed_take_bit 31 z" "wrap 8 PTY_u32 z = take_bit 32 z" "wrap 8 PTY_i8 z = signed_take_bit 7 z" "wrap 8 PTY_u8 z = take_bit 8 z"
  by (simp_all add: wrap_def bits_def prim_eval)

lemma test_values:
  "eval 8 syms (\<lambda>_. - 1) (test_reg OP_eq PTY_i8 PTY_i32 (- 1)) = Some 1"
  "eval 8 syms (\<lambda>_. - 1) (test_reg OP_eq PTY_i8 PTY_i8 3) = Some 0"
  "eval 8 syms (\<lambda>_. 255) (test_reg OP_lt PTY_u8 PTY_i32 300) = Some 1"
  "eval 8 syms (\<lambda>_. 255) (test_reg OP_lt PTY_u8 PTY_u8 255) = Some 0"
  "eval 8 syms (\<lambda>_. - 1) (test_reg OP_lt PTY_i32 PTY_u32 5) = Some 0"
  "eval 8 syms (\<lambda>_. - 1) (test_reg OP_eq PTY_i32 PTY_u32 5) = Some 0"
  "eval 8 syms (\<lambda>_. - 1) (test_reg OP_lt PTY_i32 PTY_i32 6) = Some 1"
  by (simp_all add: test_eval test_wrap cmp_holds_def truth_def mask_eq_exp_minus_1)

section \<open>Or of ands\<close>

text \<open>\<open>(x & c1) | (x & c2)\<close> becomes \<open>x & (c1 | c2)\<close>, with the same value.\<close>

theorem or_of_ands_exact:
  assumes t: "ity ps t" and v: "GetPrimType v = t" "eval ps syms \<sigma> v = Some x"
    and c: "typed ps t (mc_value c1)" "typed ps t (mc_value c2)"
  shows "\<exists>e. FoldOrOfAnds ps (Binary OP_band t v (Constval t c1)) (Binary OP_band t v (Constval t c2)) = Some (Some e) \<and>
    eval ps syms \<sigma> e =
      eval ps syms \<sigma> (Binary OP_bior t (Binary OP_band t v (Constval t c1)) (Binary OP_band t v (Constval t c2)))"
proof -
  let ?n1 = "iv_num (mc_value c1)" and ?n2 = "iv_num (mc_value c2)"
  have "FoldOrOfAnds ps (Binary OP_band t v (Constval t c1)) (Binary OP_band t v (Constval t c2)) =
      Some (Some (Binary OP_band t v (int_const ps t (?n1 OR ?n2))))"
    using v(1) c by (simp add: FoldOrOfAnds_def typed_or[OF t] CreateIntConst_ivn[OF t])
  moreover have "eval ps syms \<sigma> (Binary OP_band t v (int_const ps t (?n1 OR ?n2))) = Some (wrap ps t (x AND (?n1 OR ?n2)))"
    using t v(2) by (simp add: int_const_def eval_binary_def Let_def wrap_wrap wrap_band)
  moreover have "eval ps syms \<sigma> (Binary OP_bior t (Binary OP_band t v (Constval t c1)) (Binary OP_band t v (Constval t c2))) =
      Some (wrap ps t ((x AND ?n1) OR (x AND ?n2)))"
    using v(2) wrap_bior[OF t, of "x AND ?n1" "x AND ?n2"] by (simp add: eval_binary_def Let_def wrap_wrap[OF t] wrap_band[OF t])
  ultimately show ?thesis by (simp add: bit.conj_disj_distrib)
qed

section \<open>Examples\<close>

lemma reg_wt: "wt 8 (test_reg opc PTY_i32 PTY_i32 n) \<longleftrightarrow> opc \<in> {OP_eq, OP_ne, OP_lt, OP_le, OP_gt, OP_ge}"
  using test_type[of PTY_i32] by (auto simp: test_reg_def int_const_def fits_def)

lemma i32_greatest: "greatest 8 PTY_i32 = 2147483647" "least 8 PTY_i32 = - 2147483648"
  by (simp_all add: greatest_def least_def bits_def prim_eval)

lemma cmp_fold_exact_witness:
  "\<exists>r b1 b2. FoldCmpExpr 8 (test_reg OP_eq PTY_i32 PTY_i32 4) (test_reg OP_eq PTY_i32 PTY_i32 6) False = Some r \<and>
    eval 8 (\<lambda>_ _. None) (\<lambda>_. 6) (test_reg OP_eq PTY_i32 PTY_i32 4) = Some (truth b1) \<and>
    eval 8 (\<lambda>_ _. None) (\<lambda>_. 6) (test_reg OP_eq PTY_i32 PTY_i32 6) = Some (truth b2) \<and>
    (\<forall>e. r = Some e \<longrightarrow> GetPrimType e = PTY_u1 \<and> eval 8 (\<lambda>_ _. None) (\<lambda>_. 6) e = Some (truth (if False then b1 \<and> b2 else b1 \<or> b2)))"
  unfolding test_reg_def int_const_def
  by (rule cmp_fold_exact) (use reg_wt[of OP_eq] in \<open>simp_all add: test_reg_def int_const_def test_type i32_greatest test_wrap\<close>)

lemma cmp_fold_not_exact_witness:
  "\<exists>e e'. FoldCmpExpr 8 (test_reg OP_lt PTY_i32 PTY_i32 1) (test_reg OP_lt PTY_i32 PTY_i32 2147483647) False = Some (Some e) \<and>
    eval 8 (\<lambda>_ _. None) (\<lambda>_. 2147483647) e = Some 1 \<and>
    FoldCmpExpr 8 (test_reg OP_lt PTY_i32 PTY_i32 2147483647) (test_reg OP_eq PTY_i32 PTY_i32 2147483647) False = Some (Some e') \<and>
    eval 8 (\<lambda>_ _. None) (\<lambda>_. 2147483647) e' = Some 0"
proof -
  have e: "eval 8 (\<lambda>_ _. None) (\<lambda>_. 2147483647) (Regread PTY_i32 0) = Some (greatest 8 PTY_i32)" by (simp add: i32_greatest test_wrap test_type)
  have t: "ity 8 PTY_i32" "GetPrimType (Regread PTY_i32 0) = PTY_i32" "least 8 PTY_i32 < 1" "1 < greatest 8 PTY_i32"
    by (simp_all add: test_type i32_greatest)
  show ?thesis
    using cmp_fold_not_exact[OF t e refl refl refl, of PTY_u1 PTY_u1 PTY_u1] unfolding test_reg_def i32_greatest by blast
qed



lemma or_of_ands_exact_witness:
  "\<exists>e. FoldOrOfAnds 8 (Binary OP_band PTY_i32 (Regread PTY_i32 0) (int_const 8 PTY_i32 4)) (Binary OP_band PTY_i32 (Regread PTY_i32 0) (int_const 8 PTY_i32 3)) =
      Some (Some e) \<and>
    eval 8 (\<lambda>_ _. None) (\<lambda>_. 6) e = eval 8 (\<lambda>_ _. None) (\<lambda>_. 6) (Binary OP_bior PTY_i32
      (Binary OP_band PTY_i32 (Regread PTY_i32 0) (int_const 8 PTY_i32 4)) (Binary OP_band PTY_i32 (Regread PTY_i32 0) (int_const 8 PTY_i32 3)))"
  unfolding int_const_def by (rule or_of_ands_exact) (simp_all add: test_type)

end
