(* ===== verification/Ptr_List.thy ===== *)
theory Ptr_List
  imports "HOL-Library.Monad_Syntax" Prelude
begin

text \<open>
  The intrusive doubly linked list of \<^verbatim>\<open>maple_util/include/ptr_list_ref.h\<close>, which holds the statements of a block, the
  instructions of a basic block and similar sequences. The links are in the nodes: a store maps the address of each node
  to its two links, and a list is a pair of pointers. Shown: as long as a node is in one place only, every sequence of
  operations acts like the operations on a list of addresses, and both iterators see this list.
\<close>

section \<open>Nodes\<close>

text \<open>A pointer is null (\<^term>\<open>None\<close>) or the address of a node. The base class \<open>PtrListNodeBase\<close> gives each node its two
  links; a store holds the links of all nodes. Reading or writing a link through the null pointer is \<^term>\<open>None\<close>.\<close>

type_synonym node_ptr = "nat option"

record links =
  nxt :: "nat \<Rightarrow> node_ptr"
  prv :: "nat \<Rightarrow> node_ptr"

definition GetPrev :: "node_ptr \<Rightarrow> links \<Rightarrow> node_ptr option" where
  "GetPrev p h = map_option (prv h) p"

definition GetNext :: "node_ptr \<Rightarrow> links \<Rightarrow> node_ptr option" where
  "GetNext p h = map_option (nxt h) p"

definition SetPrev :: "node_ptr \<Rightarrow> node_ptr \<Rightarrow> links \<Rightarrow> links option" where
  "SetPrev p q h = map_option (\<lambda>a. h\<lparr>prv := (prv h)(a := q)\<rparr>) p"

definition SetNext :: "node_ptr \<Rightarrow> node_ptr \<Rightarrow> links \<Rightarrow> links option" where
  "SetNext p q h = map_option (\<lambda>a. h\<lparr>nxt := (nxt h)(a := q)\<rparr>) p"

section \<open>The list\<close>

record ptr_list =
  pl_first :: node_ptr
  pl_last :: node_ptr

type_synonym pl_state = "links \<times> ptr_list"

definition Pl_new :: ptr_list where
  "Pl_new = \<lparr>pl_first = None, pl_last = None\<rparr>"

definition Pl_of :: "node_ptr \<Rightarrow> node_ptr \<Rightarrow> ptr_list" where
  "Pl_of firster laster = \<lparr>pl_first = firster, pl_last = (if laster = None then firster else laster)\<rparr>"

definition Pl_begin :: "pl_state \<Rightarrow> node_ptr" where
  "Pl_begin s = pl_first (snd s)"

definition Pl_end :: "pl_state \<Rightarrow> node_ptr" where
  "Pl_end s = (case pl_last (snd s) of None \<Rightarrow> None | Some a \<Rightarrow> nxt (fst s) a)"

definition Pl_rbegin :: "pl_state \<Rightarrow> node_ptr" where
  "Pl_rbegin s = pl_last (snd s)"

definition Pl_rend :: "pl_state \<Rightarrow> node_ptr" where
  "Pl_rend s = (case pl_first (snd s) of None \<Rightarrow> None | Some a \<Rightarrow> prv (fst s) a)"

definition Pl_front :: "pl_state \<Rightarrow> nat option" where
  "Pl_front s = pl_first (snd s)"

definition Pl_back :: "pl_state \<Rightarrow> nat option" where
  "Pl_back s = pl_last (snd s)"

definition Pl_empty :: "pl_state \<Rightarrow> bool" where
  "Pl_empty s \<longleftrightarrow> pl_first (snd s) = None"

definition Pl_update_front :: "node_ptr \<Rightarrow> pl_state \<Rightarrow> pl_state option" where
  "Pl_update_front value s =
     (let (h, l) = s in do {
        h \<leftarrow> (if value \<noteq> None then SetPrev value None h else Some h);
        Some (h, l\<lparr>pl_first := value\<rparr>)
      })"

definition Pl_push_front :: "node_ptr \<Rightarrow> pl_state \<Rightarrow> pl_state option" where
  "Pl_push_front val s =
     (let (h, l) = s in
      if pl_last l = None then do {
        h \<leftarrow> SetPrev val None h;
        h \<leftarrow> SetNext val None h;
        Some (h, l\<lparr>pl_first := val, pl_last := val\<rparr>)
      } else do {
        h \<leftarrow> SetPrev (pl_first l) val h;
        h \<leftarrow> SetPrev val None h;
        h \<leftarrow> SetNext val (pl_first l) h;
        Some (h, l\<lparr>pl_first := val\<rparr>)
      })"

definition Pl_pop_front :: "pl_state \<Rightarrow> pl_state option" where
  "Pl_pop_front s =
     (let (h, l) = s in
      if pl_first l = None then Some s
      else do {
        f \<leftarrow> GetNext (pl_first l) h;
        h \<leftarrow> (if f \<noteq> None then SetPrev f None h else Some h);
        Some (h, l\<lparr>pl_first := f\<rparr>)
      })"

definition Pl_update_back :: "node_ptr \<Rightarrow> pl_state \<Rightarrow> pl_state option" where
  "Pl_update_back val s =
     (let (h, l) = s in do {
        h \<leftarrow> (if val \<noteq> None then SetNext val None h else Some h);
        Some (h, l\<lparr>pl_last := val\<rparr>)
      })"

definition Pl_push_back :: "node_ptr \<Rightarrow> pl_state \<Rightarrow> pl_state option" where
  "Pl_push_back val s =
     (let (h, l) = s in do {
        (h, l) \<leftarrow> (if pl_last l = None then do {
            h \<leftarrow> SetPrev val None h;
            Some (h, l\<lparr>pl_first := val, pl_last := val\<rparr>)
          } else do {
            h \<leftarrow> SetNext (pl_last l) val h;
            h \<leftarrow> SetPrev val (pl_last l) h;
            Some (h, l\<lparr>pl_last := val\<rparr>)
          });
        h \<leftarrow> SetNext val None h;
        Some (h, l)
      })"

definition Pl_pop_back :: "pl_state \<Rightarrow> pl_state option" where
  "Pl_pop_back s =
     (let (h, l) = s in
      if pl_last l = None then Some s
      else do {
        p \<leftarrow> GetPrev (pl_last l) h;
        (if p = None then Some (h, l\<lparr>pl_first := None, pl_last := None\<rparr>)
         else do { h \<leftarrow> SetNext p None h; Some (h, l\<lparr>pl_last := p\<rparr>) })
      })"

definition Pl_insert :: "node_ptr \<Rightarrow> node_ptr \<Rightarrow> pl_state \<Rightarrow> pl_state option" where
  "Pl_insert pos value s =
     (if pos = pl_first (snd s) then Pl_push_front value s
      else if pos = Pl_end s then Pl_push_back value s
      else let (h, l) = s in do {
        p \<leftarrow> GetPrev pos h;
        h \<leftarrow> SetPrev value p h;
        h \<leftarrow> SetNext value pos h;
        p \<leftarrow> GetPrev value h;
        h \<leftarrow> SetNext p value h;
        h \<leftarrow> SetPrev pos value h;
        Some (h, l)
      })"

definition Pl_insertAfter :: "node_ptr \<Rightarrow> node_ptr \<Rightarrow> pl_state \<Rightarrow> pl_state option" where
  "Pl_insertAfter pos val s =
     (if pos = None then Pl_push_front val s
      else if pos = pl_last (snd s) then Pl_push_back val s
      else let (h, l) = s in do {
        h \<leftarrow> SetPrev val pos h;
        n \<leftarrow> GetNext pos h;
        h \<leftarrow> SetNext val n h;
        n \<leftarrow> GetNext val h;
        h \<leftarrow> SetPrev n val h;
        h \<leftarrow> SetNext pos val h;
        Some (h, l)
      })"

text \<open>\<open>other\<close> is the other list; its ends are not changed.\<close>

definition Pl_splice :: "node_ptr \<Rightarrow> ptr_list \<Rightarrow> pl_state \<Rightarrow> pl_state option" where
  "Pl_splice pos other s =
     (let (h, l) = s; front = pl_first other; back = pl_last other in
      if front = None then None
      else if Pl_empty s then Some (h, l\<lparr>pl_first := front, pl_last := back\<rparr>)
      else if pos = Pl_end s \<or> pos = pl_last l then do {
        h \<leftarrow> SetNext (pl_last l) front h;
        h \<leftarrow> SetPrev front (pl_last l) h;
        Some (h, l\<lparr>pl_last := back\<rparr>)
      } else do {
        h \<leftarrow> SetPrev front pos h;
        n \<leftarrow> GetNext pos h;
        h \<leftarrow> SetNext back n h;
        n \<leftarrow> GetNext pos h;
        h \<leftarrow> SetPrev n back h;
        h \<leftarrow> SetNext pos front h;
        Some (h, l)
      })"

definition Pl_clear :: "pl_state \<Rightarrow> pl_state" where
  "Pl_clear s = (fst s, (snd s)\<lparr>pl_first := None, pl_last := None\<rparr>)"

definition Pl_erase :: "node_ptr \<Rightarrow> pl_state \<Rightarrow> pl_state option" where
  "Pl_erase pos s =
     (let (h, l) = s in
      if pos = pl_first l \<and> pos = pl_last l then Some (h, l\<lparr>pl_first := None, pl_last := None\<rparr>)
      else if pos = pl_first l then do {
        f \<leftarrow> GetNext pos h;
        h \<leftarrow> SetPrev f None h;
        Some (h, l\<lparr>pl_first := f\<rparr>)
      } else if pos = pl_last l then Pl_pop_back s
      else do {
        p \<leftarrow> GetPrev pos h;
        n \<leftarrow> GetNext pos h;
        h \<leftarrow> SetNext p n h;
        n \<leftarrow> GetNext pos h;
        h \<leftarrow> (if n \<noteq> None then do { p \<leftarrow> GetPrev pos h; SetPrev n p h } else Some h);
        Some (h, l)
      })"

definition Pl_set_first :: "node_ptr \<Rightarrow> pl_state \<Rightarrow> pl_state" where
  "Pl_set_first f s = (fst s, (snd s)\<lparr>pl_first := f\<rparr>)"

definition Pl_set_last :: "node_ptr \<Rightarrow> pl_state \<Rightarrow> pl_state" where
  "Pl_set_last f s = (fst s, (snd s)\<lparr>pl_last := f\<rparr>)"

text \<open>The iterators follow the links from one end until they meet the other; \<open>n\<close> bounds the steps.\<close>

fun walk :: "(nat \<Rightarrow> node_ptr) \<Rightarrow> node_ptr \<Rightarrow> nat \<Rightarrow> node_ptr \<Rightarrow> nat list option" where
  "walk f stop n p =
     (if p = stop then Some []
      else case (n, p) of
        (Suc n, Some a) \<Rightarrow> map_option (Cons a) (walk f stop n (f a))
      | _ \<Rightarrow> None)"

definition Pl_iterate :: "nat \<Rightarrow> pl_state \<Rightarrow> nat list option" where
  "Pl_iterate n s = walk (nxt (fst s)) (Pl_end s) n (Pl_begin s)"

definition Pl_riterate :: "nat \<Rightarrow> pl_state \<Rightarrow> nat list option" where
  "Pl_riterate n s = walk (prv (fst s)) (Pl_rend s) n (Pl_rbegin s)"

section \<open>The nodes of a list\<close>

text \<open>\<open>linked h p xs n\<close>: the nodes \<open>xs\<close> are linked in this order in both directions, from \<open>p\<close> before them to \<open>n\<close> behind
  them.\<close>

definition first_of :: "nat list \<Rightarrow> node_ptr \<Rightarrow> node_ptr" where
  "first_of xs n = (if xs = [] then n else Some (hd xs))"

definition last_of :: "node_ptr \<Rightarrow> nat list \<Rightarrow> node_ptr" where
  "last_of p xs = (if xs = [] then p else Some (last xs))"

fun linked :: "links \<Rightarrow> node_ptr \<Rightarrow> nat list \<Rightarrow> node_ptr \<Rightarrow> bool" where
  "linked h p [] n \<longleftrightarrow> True"
| "linked h p (x # xs) n \<longleftrightarrow> prv h x = p \<and> nxt h x = first_of xs n \<and> linked h (Some x) xs n"

definition holds_list :: "pl_state \<Rightarrow> nat list \<Rightarrow> bool" where
  "holds_list s xs \<longleftrightarrow> distinct xs \<and> linked (fst s) None xs None \<and>
     pl_first (snd s) = first_of xs None \<and> pl_last (snd s) = last_of None xs"

text \<open>The links of the nodes outside a set are not touched.\<close>

definition only_changes :: "nat set \<Rightarrow> links \<Rightarrow> links \<Rightarrow> bool" where
  "only_changes A h h' \<longleftrightarrow> (\<forall>a. a \<notin> A \<longrightarrow> nxt h' a = nxt h a \<and> prv h' a = prv h a)"

lemma first_of_simps [simp]: "first_of [] n = n" "first_of (x # xs) n = Some x" "first_of (xs @ ys) n = first_of xs (first_of ys n)"
  by (auto simp: first_of_def hd_append)

lemma last_of_simps [simp]: "last_of p [] = p" "last_of p (xs @ [x]) = Some x" "last_of p (xs @ ys) = last_of (last_of p xs) ys"
  "last_of p (x # xs) = last_of (Some x) xs"
  by (auto simp: last_of_def)

lemma linked_append [simp]: "linked h p (xs @ ys) n \<longleftrightarrow> linked h p xs (first_of ys n) \<and> linked h (last_of p xs) ys n"
  by (induction xs arbitrary: p) auto

lemma linked_frame_only: "only_changes A h h' \<Longrightarrow> A \<inter> set xs = {} \<Longrightarrow> linked h' p xs n \<longleftrightarrow> linked h p xs n"
  by (induction xs arbitrary: p) (auto simp: only_changes_def)

text \<open>Writing the links of other nodes does not matter.\<close>

lemma linked_frame [simp]:
  assumes "a \<notin> set xs"
  shows "linked (h\<lparr>nxt := N(a := v)\<rparr>) p xs n \<longleftrightarrow> linked (h\<lparr>nxt := N\<rparr>) p xs n"
    "linked (h\<lparr>prv := P(a := v)\<rparr>) p xs n \<longleftrightarrow> linked (h\<lparr>prv := P\<rparr>) p xs n"
    "linked (h\<lparr>prv := P(a := v), nxt := N\<rparr>) p xs n \<longleftrightarrow> linked (h\<lparr>prv := P, nxt := N\<rparr>) p xs n"
    "linked (h\<lparr>prv := P, nxt := N(a := v)\<rparr>) p xs n \<longleftrightarrow> linked (h\<lparr>prv := P, nxt := N\<rparr>) p xs n"
  using assms by (auto intro!: linked_frame_only[of "{a}"] simp: only_changes_def)

lemma links_id [simp]: "h\<lparr>nxt := nxt h\<rparr> = h" "h\<lparr>prv := prv h\<rparr> = h"
  "h\<lparr>prv := prv h, nxt := N\<rparr> = h\<lparr>nxt := N\<rparr>" "h\<lparr>prv := P, nxt := nxt h\<rparr> = h\<lparr>prv := P\<rparr>"
  by simp_all

lemmas pl_link = GetPrev_def GetNext_def SetPrev_def SetNext_def

lemma list_ends:
  obtains "xs = []" | x where "xs = [x]" | x ys z where "xs = x # ys @ [z]"
  by (metis append_butlast_last_id list.exhaust)

section \<open>The operations on lists\<close>

lemma holds_list_Nil: "holds_list (h, l) [] \<longleftrightarrow> pl_first l = None \<and> pl_last l = None"
  by (simp add: holds_list_def)

text \<open>An operation succeeds, the list then holds \<open>xs\<close>, and only nodes of \<open>A\<close> have been written.\<close>

definition gives_list :: "pl_state option \<Rightarrow> links \<Rightarrow> nat set \<Rightarrow> nat list \<Rightarrow> bool" where
  "gives_list r h A xs \<longleftrightarrow> (\<exists>s. r = Some s \<and> holds_list s xs \<and> only_changes A h (fst s))"

lemmas list_ops = holds_list_def gives_list_def pl_link only_changes_def Let_def

lemma push_front_ok:
  assumes "holds_list (h, l) xs" "a \<notin> set xs"
  shows "gives_list (Pl_push_front (Some a) (h, l)) h (insert a (set xs)) (a # xs)"
proof (cases xs)
  case (Cons x ys)
  then show ?thesis using assms by (auto simp: list_ops Pl_push_front_def last_of_def)
qed (use assms in \<open>auto simp: list_ops Pl_push_front_def\<close>)

lemma push_back_ok:
  assumes "holds_list (h, l) xs" "a \<notin> set xs"
  shows "gives_list (Pl_push_back (Some a) (h, l)) h (insert a (set xs)) (xs @ [a])"
proof (cases xs rule: rev_cases)
  case (snoc ys x)
  then show ?thesis using assms by (auto simp: list_ops Pl_push_back_def)
qed (use assms in \<open>auto simp: list_ops Pl_push_back_def\<close>)

lemma pop_back_ok:
  assumes "holds_list (h, l) xs"
  shows "gives_list (Pl_pop_back (h, l)) h (set xs) (butlast xs)"
proof (cases xs rule: rev_cases)
  case (snoc ys x)
  note s = this
  then show ?thesis
  proof (cases ys rule: rev_cases)
    case Nil
    then show ?thesis using s assms by (auto simp: list_ops Pl_pop_back_def)
  next
    case (snoc zs y)
    then show ?thesis using s assms by (auto simp: list_ops Pl_pop_back_def butlast_append)
  qed
qed (use assms in \<open>auto simp: list_ops Pl_pop_back_def\<close>)

lemma pop_front_ok:
  assumes "holds_list (h, l) (x # y # ys)"
  shows "gives_list (Pl_pop_front (h, l)) h (set (x # y # ys)) (y # ys)"
  using assms by (auto simp: list_ops Pl_pop_front_def)

lemma end_None: "holds_list s xs \<Longrightarrow> Pl_end s = None"
  by (cases xs rule: rev_cases) (auto simp: holds_list_def Pl_end_def)

lemma insert_ok:
  assumes "holds_list (h, l) (ys @ w # zs)" "a \<notin> set (ys @ w # zs)"
  shows "gives_list (Pl_insert (Some w) (Some a) (h, l)) h (insert a (set (ys @ w # zs))) (ys @ a # w # zs)"
proof (cases ys rule: rev_cases)
  case Nil
  then show ?thesis using push_front_ok[OF assms] assms(1) by (simp add: Pl_insert_def holds_list_def)
next
  case (snoc vs v)
  then have "Some w \<noteq> pl_first l" using assms(1) by (cases vs) (auto simp: holds_list_def)
  then show ?thesis using snoc assms end_None[OF assms(1)] by (auto simp: list_ops Pl_insert_def)
qed

lemma insert_end_ok:
  assumes "holds_list (h, l) xs" "a \<notin> set xs"
  shows "gives_list (Pl_insert None (Some a) (h, l)) h (insert a (set xs)) (xs @ [a])"
proof (cases xs)
  case Nil
  then show ?thesis using push_front_ok[OF assms] assms(1) by (simp add: Pl_insert_def holds_list_def)
next
  case (Cons y ys)
  then show ?thesis using push_back_ok[OF assms] end_None[OF assms(1)] assms(1) by (simp add: Pl_insert_def holds_list_def)
qed

lemma insertAfter_ok:
  assumes "holds_list (h, l) (ys @ w # zs)" "a \<notin> set (ys @ w # zs)"
  shows "gives_list (Pl_insertAfter (Some w) (Some a) (h, l)) h (insert a (set (ys @ w # zs))) (ys @ w # a # zs)"
proof (cases zs)
  case Nil
  then show ?thesis using push_back_ok[OF assms] assms(1) by (simp add: Pl_insertAfter_def holds_list_def)
next
  case (Cons z vs)
  then have "Some w \<noteq> pl_last l" using assms(1) by (cases vs rule: rev_cases) (auto simp: holds_list_def)
  then show ?thesis using Cons assms by (auto simp: list_ops Pl_insertAfter_def)
qed

lemma erase_ok:
  assumes "holds_list (h, l) (ys @ w # zs)"
  shows "gives_list (Pl_erase (Some w) (h, l)) h (set (ys @ w # zs)) (ys @ zs)"
proof -
  consider "ys = []" "zs = []" | z vs where "ys = []" "zs = z # vs" | v us where "ys = us @ [v]" "zs = []"
    | v us z vs where "ys = us @ [v]" "zs = z # vs"
    by (metis list.exhaust rev_exhaust)
  then show ?thesis
  proof cases
    case 1
    then show ?thesis using assms by (auto simp: list_ops Pl_erase_def)
  next
    case 2
    then have "Some w \<noteq> pl_last l" using assms by (cases vs rule: rev_cases) (auto simp: holds_list_def)
    then show ?thesis using 2 assms by (auto simp: list_ops Pl_erase_def)
  next
    case 3
    then have "Some w \<noteq> pl_first l" "pl_last l = Some w" using assms by (cases us; auto simp: holds_list_def)+
    then show ?thesis using pop_back_ok[OF assms] 3 by (simp add: Pl_erase_def butlast_append)
  next
    case 4
    then have "Some w \<noteq> pl_first l" "Some w \<noteq> pl_last l"
      using assms by (cases us; auto simp: holds_list_def) (use 4 assms in \<open>cases vs rule: rev_cases; auto simp: holds_list_def\<close>)
    then show ?thesis using 4 assms by (auto simp: list_ops Pl_erase_def)
  qed
qed

text \<open>\<open>splice\<close> puts the other list behind the given node, not before it, or at the end for the end iterator.\<close>

lemma splice_ok:
  assumes "holds_list (h, l) (ys @ w # zs)" "holds_list (h, other) us" "us \<noteq> []" "set (ys @ w # zs) \<inter> set us = {}"
  shows "gives_list (Pl_splice (Some w) other (h, l)) h (set (ys @ w # zs) \<union> set us) (ys @ w # us @ zs)"
proof -
  have e: "Pl_end (h, l) = None" by (rule end_None[OF assms(1)])
  have n: "\<not> Pl_empty (h, l)" using assms(1) by (simp add: Pl_empty_def holds_list_def first_of_def)
  have *: "gives_list (Pl_splice (Some w) other (h, l)) h (set (ys @ w # zs) \<union> set us) (ys @ w # us @ zs)"
    if u: "us = [u] \<or> us = u # vs @ [v]" for u vs v
  proof (cases zs)
    case Nil
    then show ?thesis using assms e n u by (auto simp: list_ops Pl_splice_def)
  next
    case (Cons z ws)
    then have "Some w \<noteq> pl_last l" using assms(1) by (cases ws rule: rev_cases) (auto simp: holds_list_def)
    then show ?thesis using Cons assms e n u by (auto simp: list_ops Pl_splice_def)
  qed
  show ?thesis using list_ends[of us] assms(3) * by blast
qed

lemma splice_end_ok:
  assumes "holds_list (h, l) xs" "holds_list (h, other) us" "us \<noteq> []" "set xs \<inter> set us = {}"
  shows "gives_list (Pl_splice None other (h, l)) h (set xs \<union> set us) (xs @ us)"
proof (cases xs rule: rev_cases)
  case Nil
  then show ?thesis using assms by (auto simp: list_ops Pl_splice_def Pl_empty_def first_of_def)
next
  case (snoc ys y)
  obtain u vs where u: "us = u # vs" using assms(3) by (cases us) auto
  have "\<not> Pl_empty (h, l)" using assms(1) snoc by (simp add: Pl_empty_def holds_list_def first_of_def)
  then show ?thesis using assms snoc u end_None[OF assms(1)] by (auto simp: list_ops Pl_splice_def)
qed

lemma clear_ok: "holds_list (Pl_clear s) []"
  by (simp add: Pl_clear_def holds_list_def)

section \<open>Iteration\<close>

lemma walk_next:
  "linked h p xs n \<Longrightarrow> distinct xs \<Longrightarrow> (\<forall>x \<in> set xs. Some x \<noteq> n) \<Longrightarrow> length xs \<le> k \<Longrightarrow> walk (nxt h) n k (first_of xs n) = Some xs"
proof (induction xs arbitrary: p k)
  case (Cons x xs)
  then obtain k' where "k = Suc k'" "length xs \<le> k'" by (cases k) auto
  then show ?case using Cons by auto
qed simp

lemma walk_prev:
  "linked h p xs n \<Longrightarrow> distinct xs \<Longrightarrow> (\<forall>x \<in> set xs. Some x \<noteq> p) \<Longrightarrow> length xs \<le> k \<Longrightarrow> walk (prv h) p k (last_of p xs) = Some (rev xs)"
proof (induction xs arbitrary: n k rule: rev_induct)
  case (snoc x xs)
  then obtain k' where "k = Suc k'" "length xs \<le> k'" by (cases k) auto
  then show ?case using snoc by auto
qed simp

lemma iterate_ok:
  assumes "holds_list s xs" "length xs \<le> n"
  shows "Pl_iterate n s = Some xs" "Pl_riterate n s = Some (rev xs)"
proof -
  have "Pl_rend s = None" using assms(1) by (cases xs) (auto simp: holds_list_def Pl_rend_def)
  then show "Pl_iterate n s = Some xs" "Pl_riterate n s = Some (rev xs)"
    using walk_next[of "fst s" None xs None n] walk_prev[of "fst s" None xs None n] assms end_None[OF assms(1)]
    by (auto simp: Pl_iterate_def Pl_riterate_def holds_list_def Pl_begin_def Pl_rbegin_def)
qed

section \<open>Sequences of operations\<close>

datatype pl_op = PushFront nat | PushBack nat | PopFront | PopBack | InsertAt nat nat | InsertEnd nat | InsertBehind nat nat | Erase nat | Clear

primrec run_op :: "pl_op \<Rightarrow> pl_state \<Rightarrow> pl_state option" where
  "run_op (PushFront a) s = Pl_push_front (Some a) s"
| "run_op (PushBack a) s = Pl_push_back (Some a) s"
| "run_op PopFront s = Pl_pop_front s"
| "run_op PopBack s = Pl_pop_back s"
| "run_op (InsertAt w a) s = Pl_insert (Some w) (Some a) s"
| "run_op (InsertEnd a) s = Pl_insert (Pl_end s) (Some a) s"
| "run_op (InsertBehind w a) s = Pl_insertAfter (Some w) (Some a) s"
| "run_op (Erase w) s = Pl_erase (Some w) s"
| "run_op Clear s = Some (Pl_clear s)"

primrec list_op :: "pl_op \<Rightarrow> nat list \<Rightarrow> nat list" where
  "list_op (PushFront a) xs = a # xs"
| "list_op (PushBack a) xs = xs @ [a]"
| "list_op PopFront xs = tl xs"
| "list_op PopBack xs = butlast xs"
| "list_op (InsertAt w a) xs = takeWhile (\<lambda>x. x \<noteq> w) xs @ a # dropWhile (\<lambda>x. x \<noteq> w) xs"
| "list_op (InsertEnd a) xs = xs @ [a]"
| "list_op (InsertBehind w a) xs = takeWhile (\<lambda>x. x \<noteq> w) xs @ w # a # tl (dropWhile (\<lambda>x. x \<noteq> w) xs)"
| "list_op (Erase w) xs = remove1 w xs"
| "list_op Clear xs = []"

text \<open>A node is in at most one place, positions are nodes of the list, and \<open>pop_front\<close> is not called on a single node.\<close>

primrec op_allowed :: "pl_op \<Rightarrow> nat list \<Rightarrow> bool" where
  "op_allowed (PushFront a) xs \<longleftrightarrow> a \<notin> set xs"
| "op_allowed (PushBack a) xs \<longleftrightarrow> a \<notin> set xs"
| "op_allowed PopFront xs \<longleftrightarrow> length xs \<noteq> 1"
| "op_allowed PopBack xs \<longleftrightarrow> True"
| "op_allowed (InsertAt w a) xs \<longleftrightarrow> w \<in> set xs \<and> a \<notin> set xs"
| "op_allowed (InsertEnd a) xs \<longleftrightarrow> a \<notin> set xs"
| "op_allowed (InsertBehind w a) xs \<longleftrightarrow> w \<in> set xs \<and> a \<notin> set xs"
| "op_allowed (Erase w) xs \<longleftrightarrow> w \<in> set xs"
| "op_allowed Clear xs \<longleftrightarrow> True"

fun run_ops :: "('p \<Rightarrow> 's \<Rightarrow> 's option) \<Rightarrow> 'p list \<Rightarrow> 's \<Rightarrow> 's option" where
  "run_ops run [] s = Some s"
| "run_ops run (p # ps) s = do { s \<leftarrow> run p s; run_ops run ps s }"

fun ops_allowed :: "('p \<Rightarrow> 'a \<Rightarrow> bool) \<Rightarrow> ('p \<Rightarrow> 'a \<Rightarrow> 'a) \<Rightarrow> 'p list \<Rightarrow> 'a \<Rightarrow> bool" where
  "ops_allowed ok spec [] x \<longleftrightarrow> True"
| "ops_allowed ok spec (p # ps) x \<longleftrightarrow> ok p x \<and> ops_allowed ok spec ps (spec p x)"

text \<open>Partial operations on a representation that implement total ones where these are allowed.\<close>

locale partial_ops =
  fixes repr :: "'s \<Rightarrow> 'a \<Rightarrow> bool"
    and run :: "'p \<Rightarrow> 's \<Rightarrow> 's option"
    and spec :: "'p \<Rightarrow> 'a \<Rightarrow> 'a"
    and ok :: "'p \<Rightarrow> 'a \<Rightarrow> bool"
  assumes step: "repr s x \<Longrightarrow> ok p x \<Longrightarrow> \<exists>s'. run p s = Some s' \<and> repr s' (spec p x)"
begin

lemma sequence: "repr s x \<Longrightarrow> ops_allowed ok spec ps x \<Longrightarrow> \<exists>s'. run_ops run ps s = Some s' \<and> repr s' (fold spec ps x)"
proof (induction ps arbitrary: s x)
  case (Cons p ps)
  then obtain s' where "run p s = Some s'" "repr s' (spec p x)" using step by (metis ops_allowed.simps(2))
  then show ?case using Cons by fastforce
qed simp

end

lemma gives_list_step: "gives_list r h A xs \<Longrightarrow> \<exists>s. r = Some s \<and> holds_list s xs"
  by (auto simp: gives_list_def)

lemma run_op_step:
  assumes s: "holds_list s xs" and p: "op_allowed p xs"
  shows "\<exists>s'. run_op p s = Some s' \<and> holds_list s' (list_op p xs)"
proof -
  obtain h l where hl: "s = (h, l)" by fastforce
  have d: "distinct xs" using s by (simp add: holds_list_def)
  have at: "takeWhile (\<lambda>x. x \<noteq> w) (ys @ w # zs) = ys \<and> dropWhile (\<lambda>x. x \<noteq> w) (ys @ w # zs) = w # zs \<and> remove1 w (ys @ w # zs) = ys @ zs"
    if "xs = ys @ w # zs" for w ys zs
    using d that by (auto simp: takeWhile_append dropWhile_append remove1_append)
  note ok = gives_list_step s[unfolded hl]
  have split: "\<exists>ys zs. xs = ys @ w # zs" if "w \<in> set xs" for w using that by (rule split_list)
  show ?thesis
  proof (cases p)
    case PopFront
    consider "xs = []" | x y ys where "xs = x # y # ys" using p PopFront by (cases xs; cases "tl xs") auto
    then show ?thesis
    proof cases
      case 1
      then show ?thesis using s PopFront hl by (simp add: Pl_pop_front_def holds_list_def)
    next
      case 2
      then show ?thesis using ok(1)[OF pop_front_ok] s hl PopFront by fastforce
    qed
  next
    case (InsertAt w a)
    then obtain ys zs where "xs = ys @ w # zs" using p split[of w] by auto
    then show ?thesis using ok(1)[OF insert_ok] s hl p InsertAt at by (simp add: hl)
  next
    case (InsertBehind w a)
    then obtain ys zs where "xs = ys @ w # zs" using p split[of w] by auto
    then show ?thesis using ok(1)[OF insertAfter_ok] s hl p InsertBehind at by (simp add: hl)
  next
    case (Erase w)
    then obtain ys zs where "xs = ys @ w # zs" using p split[of w] by auto
    then show ?thesis using ok(1)[OF erase_ok] s hl p Erase at by (simp add: hl)
  qed (use ok(1)[OF push_front_ok] ok(1)[OF push_back_ok] ok(1)[OF pop_back_ok] ok(1)[OF insert_end_ok] clear_ok end_None[OF s] s hl p in auto)
qed

interpretation plist: partial_ops holds_list run_op list_op op_allowed
  by unfold_locales (rule run_op_step)

text \<open>C15: Any sequence of operations on an intrusive list that is allowed on the list it stands for succeeds, without
  access through a null pointer, and has the effect of the same operations on a list of nodes; the iterators then
  visit exactly these nodes, forwards and backwards. Allowed (\<open>op_allowed\<close>) means that a node to insert is not in the list, a
  position is a node of the list, and \<open>pop_front\<close> is not called on a list of one node, where the code is wrong.\<close>

theorem plist_run_refines:
  assumes "holds_list s xs" "ops_allowed op_allowed list_op ps xs" "length (fold list_op ps xs) \<le> n"
  shows "\<exists>s'. run_ops run_op ps s = Some s' \<and> holds_list s' (fold list_op ps xs) \<and>
    Pl_iterate n s' = Some (fold list_op ps xs) \<and> Pl_riterate n s' = Some (rev (fold list_op ps xs))"
  using plist.sequence[OF assms(1,2)] iterate_ok assms(3) by blast

lemma new_list: "holds_list (h, Pl_new) []"
  by (simp add: holds_list_def Pl_new_def)

lemma plist_run_refines_witness:
  "\<exists>s'. run_ops run_op [PushBack 1, PushFront 2, InsertBehind 2 3, InsertAt 1 4, Erase 3] (\<lparr>nxt = \<lambda>_. None, prv = \<lambda>_. None\<rparr>, Pl_new) = Some s' \<and>
    holds_list s' [2, 4, 1] \<and> Pl_iterate 3 s' = Some [2, 4, 1] \<and> Pl_riterate 3 s' = Some [1, 4, 2]"
  using plist_run_refines[OF new_list, of "[PushBack 1, PushFront 2, InsertBehind 2 3, InsertAt 1 4, Erase 3]" 3] by simp

lemma push_back_stale:
  assumes "pl_first l = None" "pl_last l = Some x" "nxt h x = None"
  shows "\<exists>h' l'. run_ops run_op (map PushBack ys) (h, l) = Some (h', l') \<and> pl_first l' = None \<and> pl_last l' = Some (last (x # ys)) \<and>
    nxt h' (last (x # ys)) = None"
  using assms
proof (induction ys arbitrary: h l x)
  case (Cons y ys)
  let ?h = "h\<lparr>nxt := (nxt h)(x := Some y, y := None), prv := (prv h)(y := Some x)\<rparr>"
  have "Pl_push_back (Some y) (h, l) = Some (?h, l\<lparr>pl_last := Some y\<rparr>)" using Cons.prems by (simp add: Pl_push_back_def pl_link)
  then show ?case using Cons.prems Cons.IH[of "l\<lparr>pl_last := Some y\<rparr>" y ?h] by simp
qed simp

text \<open>C39: \<open>pop_front\<close> of the only node of any list leaves the pointer to the last node. The list then looks empty from the front,
  and stays so whatever nodes \<open>push_back\<close> adds: an iteration visits none of them, although \<open>back\<close> is the last one added.\<close>

theorem pop_front_stale_last:
  assumes "holds_list s [x]"
  shows "\<exists>s' s''. Pl_pop_front s = Some s' \<and> run_ops run_op (map PushBack ys) s' = Some s'' \<and>
    Pl_empty s'' \<and> Pl_front s'' = None \<and> Pl_iterate n s'' = Some [] \<and> Pl_back s'' = Some (last (x # ys))"
proof -
  obtain h l where s: "s = (h, l)" by fastforce
  have p: "Pl_pop_front s = Some (h, l\<lparr>pl_first := None\<rparr>)" "pl_last l = Some x" "nxt h x = None"
    using assms s by (auto simp: Pl_pop_front_def pl_link holds_list_def)
  obtain h' l' where "run_ops run_op (map PushBack ys) (h, l\<lparr>pl_first := None\<rparr>) = Some (h', l')" "pl_first l' = None"
    "pl_last l' = Some (last (x # ys))" "nxt h' (last (x # ys)) = None"
    using push_back_stale[of "l\<lparr>pl_first := None\<rparr>" x h ys] p(2,3) by auto
  moreover from this have "Pl_iterate n (h', l') = Some []" by (cases n) (simp_all add: Pl_iterate_def Pl_begin_def Pl_end_def)
  ultimately show ?thesis using p(1) by (simp add: Pl_empty_def Pl_front_def Pl_back_def)
qed

lemma pop_front_stale_last_witness:
  "\<exists>s s' s''. Pl_push_back (Some 1) (\<lparr>nxt = \<lambda>_. None, prv = \<lambda>_. None\<rparr>, Pl_new) = Some s \<and> Pl_pop_front s = Some s' \<and>
    run_ops run_op (map PushBack [2, 3]) s' = Some s'' \<and> Pl_iterate 5 s'' = Some [] \<and> Pl_back s'' = Some 3"
proof -
  obtain s where "Pl_push_back (Some 1) (\<lparr>nxt = \<lambda>_. None, prv = \<lambda>_. None\<rparr>, Pl_new) = Some s" "holds_list s [1]"
    using gives_list_step[OF push_back_ok[OF new_list, of 1]] by (metis append_Nil empty_iff list.set(1))
  then show ?thesis using pop_front_stale_last[of s 1 "[2, 3]" 5] by auto
qed

end
