(* ===== verification/Stmt_Block.thy ===== *)
theory Stmt_Block
  imports Ptr_List
begin

text \<open>
  The operations of \<open>BlockNode\<close> on its list of statements (\<^verbatim>\<open>maple_ir/src/mir_nodes.cpp\<close>) and the loop of
  \<open>SimplifyBlock\<close> (\<^verbatim>\<open>mpl2mpl/src/constantfold.cpp\<close>) that replaces, removes and opens the statements of a block while it
  walks along their links. What the simplification of a statement returns is an argument of the loop.
\<close>

section \<open>Blocks of statements\<close>

definition ReplaceStmtWithBlock :: "node_ptr \<Rightarrow> ptr_list \<Rightarrow> pl_state \<Rightarrow> pl_state option" where
  "ReplaceStmtWithBlock stmt blk s = do {
     s \<leftarrow> Pl_splice stmt blk s;
     (h, l) \<leftarrow> Pl_erase stmt s;
     n \<leftarrow> GetNext (pl_last blk) h;
     h \<leftarrow> SetNext stmt n h;
     Some (h, l)
   }"

definition ReplaceStmt1WithStmt2 :: "node_ptr \<Rightarrow> node_ptr \<Rightarrow> pl_state \<Rightarrow> pl_state option" where
  "ReplaceStmt1WithStmt2 stmt1 stmt2 s =
     (if stmt2 = stmt1 then Some s
      else if stmt2 = None then Pl_erase stmt1 s
      else do { s \<leftarrow> Pl_insert stmt1 stmt2 s; Pl_erase stmt1 s })"

definition RemoveStmt :: "node_ptr \<Rightarrow> pl_state \<Rightarrow> pl_state option" where
  "RemoveStmt stmt s = Pl_erase stmt s"

definition InsertBefore :: "node_ptr \<Rightarrow> node_ptr \<Rightarrow> pl_state \<Rightarrow> pl_state option" where
  "InsertBefore stmt1 stmt2 s = Pl_insert stmt1 stmt2 s"

definition InsertAfter :: "node_ptr \<Rightarrow> node_ptr \<Rightarrow> pl_state \<Rightarrow> pl_state option" where
  "InsertAfter stmt1 stmt2 s = Pl_insertAfter stmt1 stmt2 s"

definition InsertBlockAfter :: "ptr_list \<Rightarrow> node_ptr \<Rightarrow> pl_state \<Rightarrow> pl_state option" where
  "InsertBlockAfter inblock stmt1 s = Pl_splice stmt1 inblock s"

definition AddStatement :: "node_ptr \<Rightarrow> pl_state \<Rightarrow> pl_state option" where
  "AddStatement stmt s = Pl_push_back stmt s"

definition InsertFirst :: "node_ptr \<Rightarrow> pl_state \<Rightarrow> pl_state option" where
  "InsertFirst stmt s = Pl_push_front stmt s"

definition InsertLast :: "node_ptr \<Rightarrow> pl_state \<Rightarrow> pl_state option" where
  "InsertLast stmt s = Pl_push_back stmt s"

definition AppendStatementsFromBlock :: "ptr_list \<Rightarrow> pl_state \<Rightarrow> pl_state option" where
  "AppendStatementsFromBlock blk s = (if pl_first blk = None then Some s else Pl_splice (Pl_end s) blk s)"

section \<open>Replacing statements\<close>

lemma splice_next:
  assumes "holds_list (h, l) (ys @ w # zs)" "holds_list (h, other) us" "us \<noteq> []" "set (ys @ w # zs) \<inter> set us = {}"
    "Pl_splice (Some w) other (h, l) = Some (h', l')"
  shows "holds_list (h', l') (ys @ w # us @ zs)" "only_changes (set (ys @ w # zs) \<union> set us) h h'"
  using splice_ok[OF assms(1-4)] assms(5) by (auto simp: gives_list_def)

lemma replace_with_block_ok:
  assumes "holds_list (h, l) (ys @ w # zs)" "holds_list (h, blk) us" "us \<noteq> []" "set (ys @ w # zs) \<inter> set us = {}"
  shows "\<exists>h' l'. ReplaceStmtWithBlock (Some w) blk (h, l) = Some (h', l') \<and> holds_list (h', l') (ys @ us @ zs) \<and>
    only_changes (set (ys @ w # zs) \<union> set us) h h' \<and> nxt h' w = first_of zs None"
proof -
  obtain h1 l1 where 1: "Pl_splice (Some w) blk (h, l) = Some (h1, l1)" "holds_list (h1, l1) (ys @ w # us @ zs)"
    "only_changes (set (ys @ w # zs) \<union> set us) h h1"
    using splice_ok[OF assms] by (auto simp: gives_list_def)
  obtain h2 l2 where 2: "Pl_erase (Some w) (h1, l1) = Some (h2, l2)" "holds_list (h2, l2) (ys @ us @ zs)"
    "only_changes (set (ys @ w # us @ zs)) h1 h2"
    using erase_ok[OF 1(2)] by (auto simp: gives_list_def)
  obtain us' v where v: "us = us' @ [v]" using assms(3) by (cases us rule: rev_cases) auto
  have "pl_last blk = Some v" "nxt h2 v = first_of zs None" using assms(2) 2(2) v by (auto simp: holds_list_def)
  moreover have "w \<notin> set (ys @ us @ zs)" using 1(2) by (auto simp: holds_list_def)
  ultimately show ?thesis
    using 1(1,3) 2 by (auto simp: ReplaceStmtWithBlock_def pl_link holds_list_def only_changes_def)
qed

text \<open>The replaced statement keeps its link to the next one, along which the loops over a block go on.\<close>

lemma insert_keeps_next: "Pl_insert (Some w) (Some a) (h, l) = Some (h', l') \<Longrightarrow> a \<noteq> w \<Longrightarrow> prv h w \<noteq> Some w \<Longrightarrow> pl_last l \<noteq> Some w \<or> nxt h w \<noteq> Some w \<Longrightarrow>
    nxt h' w = nxt h w"
  by (auto simp: Pl_insert_def Pl_push_front_def Pl_push_back_def pl_link Pl_end_def split: if_splits Option.bind_splits option.splits)

lemma erase_keeps_next: "Pl_erase (Some w) (h, l) = Some (h', l') \<Longrightarrow> prv h w \<noteq> Some w \<Longrightarrow> nxt h' w = nxt h w"
  by (auto simp: Pl_erase_def Pl_pop_back_def pl_link split: if_splits Option.bind_splits option.splits)

lemma linked_not_self: "linked h p (ys @ w # zs) n \<Longrightarrow> distinct (ys @ w # zs) \<Longrightarrow> p \<noteq> Some w \<Longrightarrow> n \<noteq> Some w \<Longrightarrow> prv h w \<noteq> Some w \<and> nxt h w \<noteq> Some w"
  by (cases ys rule: rev_cases; cases zs) auto

lemma replace_stmt_ok:
  assumes "holds_list (h, l) (ys @ w # zs)" "a \<notin> set (ys @ w # zs)"
  shows "\<exists>h' l'. ReplaceStmt1WithStmt2 (Some w) (Some a) (h, l) = Some (h', l') \<and> holds_list (h', l') (ys @ a # zs) \<and>
    only_changes (insert a (set (ys @ w # zs))) h h' \<and> nxt h' w = first_of zs None"
proof -
  obtain h1 l1 where 1: "Pl_insert (Some w) (Some a) (h, l) = Some (h1, l1)" "holds_list (h1, l1) ((ys @ [a]) @ w # zs)"
    "only_changes (insert a (set (ys @ w # zs))) h h1"
    using insert_ok[OF assms] by (auto simp: gives_list_def)
  obtain h2 l2 where 2: "Pl_erase (Some w) (h1, l1) = Some (h2, l2)" "holds_list (h2, l2) ((ys @ [a]) @ zs)"
    "only_changes (set ((ys @ [a]) @ w # zs)) h1 h2"
    using erase_ok[OF 1(2)] by (auto simp: gives_list_def)
  have "prv h1 w \<noteq> Some w" using 1(2) linked_not_self[of h1 None "ys @ [a]" w zs None] by (auto simp: holds_list_def)
  then have "nxt h2 w = nxt h1 w" using erase_keeps_next[OF 2(1)] by simp
  moreover have "nxt h1 w = first_of zs None" using 1(2) by (auto simp: holds_list_def)
  ultimately show ?thesis using 1(1,3) 2 assms(2) by (auto simp: ReplaceStmt1WithStmt2_def only_changes_def)
qed

section \<open>The loop over a block\<close>

text \<open>What \<open>Simplify\<close> returns for a statement of the block: the statement itself, the null pointer, another statement or a
  block. The loop of \<open>SimplifyBlock\<close> takes these results as an argument; \<open>n\<close> bounds the number of statements.\<close>

datatype simplified = Kept | Gone | Became nat | Opened ptr_list

definition unlink_stmt :: "nat \<Rightarrow> node_ptr \<Rightarrow> pl_state \<Rightarrow> (node_ptr \<times> pl_state) option" where
  "unlink_stmt s prevStmt st = do {
     nextStmt \<leftarrow> GetNext (Some s) (fst st);
     (h, l) \<leftarrow> (if Some s = pl_first (snd st) then do {
         (h, l) \<leftarrow> Pl_update_front nextStmt st;
         h \<leftarrow> (if nextStmt \<noteq> None then SetPrev nextStmt None h else Some h);
         Some (h, l)
       } else do {
         h \<leftarrow> SetNext prevStmt nextStmt (fst st);
         h \<leftarrow> (if nextStmt \<noteq> None then SetPrev nextStmt prevStmt h else Some h);
         Some (h, snd st)
       });
     st \<leftarrow> (if Some s = pl_last l then Pl_update_back prevStmt (h, l) else Some (h, l));
     Some (nextStmt, st)
   }"

definition replace_stmt :: "simplified \<Rightarrow> nat \<Rightarrow> pl_state \<Rightarrow> (node_ptr \<times> pl_state) option" where
  "replace_stmt r s st = do {
     st \<leftarrow> (case r of
         Opened blk \<Rightarrow> ReplaceStmtWithBlock (Some s) blk st
       | Became a \<Rightarrow> ReplaceStmt1WithStmt2 (Some s) (Some a) st
       | _ \<Rightarrow> ReplaceStmt1WithStmt2 (Some s) (Some s) st);
     nextStmt \<leftarrow> GetNext (Some s) (fst st);
     Some (nextStmt, st)
   }"

fun SimplifyBlock_loop :: "nat \<Rightarrow> (nat \<Rightarrow> simplified) \<Rightarrow> node_ptr \<Rightarrow> node_ptr \<Rightarrow> pl_state \<Rightarrow> pl_state option" where
  "SimplifyBlock_loop n f None prevStmt st = Some st"
| "SimplifyBlock_loop 0 f (Some s) prevStmt st = None"
| "SimplifyBlock_loop (Suc n) f (Some s) prevStmt st =
     (if f s = Gone then do {
        (nextStmt, st) \<leftarrow> unlink_stmt s prevStmt st;
        SimplifyBlock_loop n f nextStmt prevStmt st
      } else do {
        (nextStmt, st) \<leftarrow> replace_stmt (f s) s st;
        SimplifyBlock_loop n f nextStmt (Some s) st
      })"

definition SimplifyBlock_list :: "nat \<Rightarrow> (nat \<Rightarrow> simplified) \<Rightarrow> pl_state \<Rightarrow> pl_state option" where
  "SimplifyBlock_list n f st = SimplifyBlock_loop n f (pl_first (snd st)) None st"

text \<open>The statements that take the place of one.\<close>

definition successors :: "(ptr_list \<Rightarrow> nat list) \<Rightarrow> (nat \<Rightarrow> simplified) \<Rightarrow> nat \<Rightarrow> nat list" where
  "successors ns f s = (case f s of Kept \<Rightarrow> [s] | Gone \<Rightarrow> [] | Became a \<Rightarrow> [a] | Opened blk \<Rightarrow> ns blk)"

text \<open>\<open>ns\<close> gives the nodes of the blocks. New statements and the nodes of the blocks are different from all others; no
  block is empty.\<close>

definition fresh_results :: "(ptr_list \<Rightarrow> nat list) \<Rightarrow> (nat \<Rightarrow> simplified) \<Rightarrow> links \<Rightarrow> nat list \<Rightarrow> bool" where
  "fresh_results ns f h xs \<longleftrightarrow>
     distinct (xs @ concat (map (\<lambda>s. if f s = Kept then [] else successors ns f s) xs)) \<and>
     (\<forall>s \<in> set xs. \<forall>blk. f s = Opened blk \<longrightarrow> ns blk \<noteq> [] \<and> holds_list (h, blk) (ns blk))"

text \<open>The same without the condition on empty blocks.\<close>

definition disjoint_results :: "(ptr_list \<Rightarrow> nat list) \<Rightarrow> (nat \<Rightarrow> simplified) \<Rightarrow> links \<Rightarrow> nat list \<Rightarrow> bool" where
  "disjoint_results ns f h xs \<longleftrightarrow>
     distinct (xs @ concat (map (\<lambda>s. if f s = Kept then [] else successors ns f s) xs)) \<and>
     (\<forall>s \<in> set xs. \<forall>blk. f s = Opened blk \<longrightarrow> holds_list (h, blk) (ns blk))"

definition no_empty_block :: "(ptr_list \<Rightarrow> nat list) \<Rightarrow> (nat \<Rightarrow> simplified) \<Rightarrow> nat list \<Rightarrow> bool" where
  "no_empty_block ns f xs \<longleftrightarrow> (\<forall>s \<in> set xs. \<forall>blk. f s = Opened blk \<longrightarrow> ns blk \<noteq> [])"

lemma fresh_results_iff: "fresh_results ns f h xs \<longleftrightarrow> disjoint_results ns f h xs \<and> no_empty_block ns f xs"
  by (auto simp: fresh_results_def disjoint_results_def no_empty_block_def)

text \<open>No statement is deleted directly behind one that is replaced.\<close>

fun no_gone_after_change :: "(nat \<Rightarrow> simplified) \<Rightarrow> bool \<Rightarrow> nat list \<Rightarrow> bool" where
  "no_gone_after_change f changed [] \<longleftrightarrow> True"
| "no_gone_after_change f changed (s # xs) \<longleftrightarrow>
     (f s = Gone \<longrightarrow> \<not> changed) \<and> no_gone_after_change f (if f s = Gone then changed else f s \<noteq> Kept) xs"

definition new_nodes :: "(ptr_list \<Rightarrow> nat list) \<Rightarrow> (nat \<Rightarrow> simplified) \<Rightarrow> nat list \<Rightarrow> nat set" where
  "new_nodes ns f xs = (\<Union>x \<in> set xs. if f x = Kept then {} else set (successors ns f x))"

lemma new_nodes_Cons: "new_nodes ns f (x # xs) = (if f x = Kept then {} else set (successors ns f x)) \<union> new_nodes ns f xs"
  by (simp add: new_nodes_def)

lemma disjoint_results_Cons:
  assumes "disjoint_results ns f h (s # xs)"
  shows "s \<notin> set xs" "f s \<noteq> Kept \<Longrightarrow> s \<notin> set (successors ns f s)" "f s \<noteq> Kept \<Longrightarrow> set (successors ns f s) \<inter> set xs = {}"
    "f s = Opened blk \<Longrightarrow> holds_list (h, blk) (ns blk)" "set (s # xs) \<inter> new_nodes ns f xs = {}" "f s \<noteq> Kept \<Longrightarrow> set (successors ns f s) \<inter> new_nodes ns f xs = {}"
  using assms by (auto simp: disjoint_results_def new_nodes_def)

lemma disjoint_results_tl:
  assumes "disjoint_results ns f h (s # xs)" "only_changes A h h'" "A \<inter> new_nodes ns f xs = {}"
  shows "disjoint_results ns f h' xs"
proof -
  have "holds_list (h', blk) (ns blk)" if "x \<in> set xs" "f x = Opened blk" for x blk
  proof -
    have "A \<inter> set (ns blk) = {}" using assms(3) that by (fastforce simp: successors_def new_nodes_def)
    moreover have "holds_list (h, blk) (ns blk)" using assms(1) that by (auto simp: disjoint_results_def)
    ultimately show ?thesis using linked_frame_only[OF assms(2)] by (simp add: holds_list_def)
  qed
  then show ?thesis using assms(1) by (auto simp: disjoint_results_def)
qed

lemma unlink_stmt_ok:
  assumes "holds_list (h, l) (ds @ s # rs)" "prevStmt = last_of None ds"
  shows "\<exists>h' l'. unlink_stmt s prevStmt (h, l) = Some (first_of rs None, h', l') \<and> holds_list (h', l') (ds @ rs) \<and>
    only_changes (set (ds @ s # rs)) h h'"
proof -
  have f: "pl_first l = first_of ds (Some s)" and la: "pl_last l = last_of (Some s) rs" and d: "distinct (ds @ s # rs)"
    using assms(1) by (auto simp: holds_list_def)
  have first: "Some s = pl_first l \<longleftrightarrow> ds = []" using f d by (cases ds) auto
  have last: "Some s = pl_last l \<longleftrightarrow> rs = []" using la d by (cases rs rule: rev_cases) auto
  consider "ds = []" "rs = []" | z vs where "ds = []" "rs = z # vs" | v us where "ds = us @ [v]" "rs = []"
    | v us z vs where "ds = us @ [v]" "rs = z # vs" by (metis list.exhaust rev_exhaust)
  then show ?thesis
  proof cases
    case 1
    then show ?thesis using assms first last by (auto simp: list_ops unlink_stmt_def Pl_update_front_def Pl_update_back_def)
  next
    case 2
    then show ?thesis using assms first last by (auto simp: list_ops unlink_stmt_def Pl_update_front_def)
  next
    case 3
    then show ?thesis using assms first last by (auto simp: list_ops unlink_stmt_def Pl_update_back_def)
  next
    case 4
    then show ?thesis using assms first last by (auto simp: list_ops unlink_stmt_def)
  qed
qed

lemma replace_stmt_step:
  assumes "holds_list (h, l) (ds @ s # xs)" "disjoint_results ns f h (s # xs)" "set ds \<inter> new_nodes ns f (s # xs) = {}" "f s \<noteq> Gone"
    "\<And>blk. f s = Opened blk \<Longrightarrow> ns blk \<noteq> []"
  shows "\<exists>h' l'. replace_stmt (f s) s (h, l) = Some (first_of xs None, h', l') \<and> holds_list (h', l') (ds @ successors ns f s @ xs) \<and>
    only_changes (set (ds @ s # xs) \<union> set (successors ns f s)) h h'"
proof (cases "f s")
  case Kept
  then show ?thesis using assms(1)
    by (auto simp: replace_stmt_def ReplaceStmt1WithStmt2_def pl_link successors_def only_changes_def holds_list_def)
next
  case (Became a)
  then have "a \<notin> set (ds @ s # xs)" using assms(2,3) disjoint_results_Cons(2,3)[OF assms(2)] by (auto simp: successors_def new_nodes_Cons)
  then show ?thesis using replace_stmt_ok[OF assms(1)] Became by (fastforce simp: replace_stmt_def pl_link successors_def)
next
  case (Opened blk)
  note b = assms(5)[OF Opened] disjoint_results_Cons(4)[OF assms(2) Opened]
  have "set (ds @ s # xs) \<inter> set (ns blk) = {}"
    using assms(3) Opened disjoint_results_Cons(2,3)[OF assms(2)] by (auto simp: successors_def new_nodes_Cons)
  then show ?thesis using replace_with_block_ok[OF assms(1) _ _] b Opened by (fastforce simp: replace_stmt_def pl_link successors_def)
qed (use assms in simp)

lemma SimplifyBlock_loop_ok:
  assumes "holds_list (h, l) (ds @ xs)" "disjoint_results ns f h xs" "set ds \<inter> new_nodes ns f xs = {}"
    "no_gone_after_change f changed xs" "\<not> changed \<Longrightarrow> prevStmt = last_of None ds" "length xs \<le> n" "no_empty_block ns f xs"
  shows "\<exists>st. SimplifyBlock_loop n f (first_of xs None) prevStmt (h, l) = Some st \<and>
    holds_list st (ds @ concat (map (successors ns f) xs))"
  using assms
proof (induction xs arbitrary: h l ds changed prevStmt n)
  case (Cons s xs)
  obtain m where m: "n = Suc m" "length xs \<le> m" using Cons.prems(6) by (cases n) auto
  note new = disjoint_results_Cons[OF Cons.prems(2)]
  have ne: "no_empty_block ns f xs" "\<And>blk. f s = Opened blk \<Longrightarrow> ns blk \<noteq> []" using Cons.prems(7) by (auto simp: no_empty_block_def)
  have new': "set (successors ns f s) \<inter> new_nodes ns f xs = {}"
    using new(5,6) Cons.prems(2) by (cases "f s = Kept") (auto simp: successors_def)
  have tl: "disjoint_results ns f h' xs" if "only_changes A h h'" "A \<subseteq> set (ds @ s # xs) \<union> set (successors ns f s)" for A h'
  proof (rule disjoint_results_tl[OF Cons.prems(2) that(1)])
    have "set (ds @ s # xs) \<inter> new_nodes ns f xs = {}" using new(5) Cons.prems(3) by (auto simp: new_nodes_Cons)
    then show "A \<inter> new_nodes ns f xs = {}" using new' that(2) by blast
  qed
  show ?case
  proof (cases "f s = Gone")
    case True
    then have p: "prevStmt = last_of None ds" "\<not> changed" using Cons.prems(4,5) by auto
    obtain h' l' where u: "unlink_stmt s prevStmt (h, l) = Some (first_of xs None, h', l')" "holds_list (h', l') (ds @ xs)"
      "only_changes (set (ds @ s # xs)) h h'" using unlink_stmt_ok[OF Cons.prems(1) p(1)] by auto
    have "\<exists>st. SimplifyBlock_loop m f (first_of xs None) prevStmt (h', l') = Some st \<and> holds_list st (ds @ concat (map (successors ns f) xs))"
      using Cons.prems(3,4) True p m(2) ne(1) by (intro Cons.IH[OF u(2) tl[OF u(3)], where changed = changed]) (auto simp: new_nodes_Cons)
    moreover have "successors ns f s = []" using True by (simp add: successors_def)
    ultimately show ?thesis using u(1) m(1) True by auto
  next
    case False
    obtain h' l' where r: "replace_stmt (f s) s (h, l) = Some (first_of xs None, h', l')" "holds_list (h', l') ((ds @ successors ns f s) @ xs)"
      "only_changes (set (ds @ s # xs) \<union> set (successors ns f s)) h h'"
      using replace_stmt_step[OF Cons.prems(1-3) False ne(2)] by auto
    have "\<exists>st. SimplifyBlock_loop m f (first_of xs None) (Some s) (h', l') = Some st \<and>
        holds_list st ((ds @ successors ns f s) @ concat (map (successors ns f) xs))"
    proof (rule Cons.IH[OF r(2) tl[OF r(3)], where changed = "f s \<noteq> Kept"])
      show "set (ds @ successors ns f s) \<inter> new_nodes ns f xs = {}"
        using Cons.prems(3) new' by (auto simp: new_nodes_Cons)
      show "no_gone_after_change f (f s \<noteq> Kept) xs" using Cons.prems(4) False by simp
      show "Some s = last_of None (ds @ successors ns f s)" if "\<not> f s \<noteq> Kept" using that by (simp add: successors_def)
    qed (use m(2) ne(1) in auto)
    then show ?thesis using r(1) m(1) False by simp
  qed
qed simp

text \<open>The loop over a block replaces each statement in place by what its simplification gave: itself, nothing,
  another statement or the statements of a block. It ends, and leaves a list that is linked correctly in both
  directions, as long as no statement is deleted directly behind one that was replaced.\<close>

theorem simplify_block_relinks:
  assumes "holds_list (h, l) xs" "fresh_results ns f h xs" "no_gone_after_change f False xs" "length xs \<le> n"
  shows "\<exists>st. SimplifyBlock_list n f (h, l) = Some st \<and> holds_list st (concat (map (successors ns f) xs))"
  using SimplifyBlock_loop_ok[of h l "[]" xs ns f False None n] assms
  by (auto simp: SimplifyBlock_list_def holds_list_def fresh_results_iff)

definition chain :: "nat list \<Rightarrow> pl_state" where
  "chain xs = the (run_ops run_op (map PushBack xs) (\<lparr>nxt = \<lambda>_. None, prv = \<lambda>_. None\<rparr>, Pl_new))"

lemma simplify_block_relinks_witness:
  "\<exists>st. SimplifyBlock_list 3 ((\<lambda>_. Kept)(2 := Gone, 3 := Became 9)) (chain [1, 2, 3]) = Some st \<and> holds_list st [1, 9]"
proof -
  have "run_ops run_op (map PushBack [1, 2, 3]) (\<lparr>nxt = \<lambda>_. None, prv = \<lambda>_. None\<rparr>, Pl_new) = Some (chain [1, 2, 3]) \<and> holds_list (chain [1, 2, 3]) [1, 2, 3]"
    using plist.sequence[OF new_list[of "\<lparr>nxt = \<lambda>_. None, prv = \<lambda>_. None\<rparr>"], of "map PushBack [1, 2, 3]"] by (auto simp: chain_def)
  then have "holds_list (fst (chain [1, 2, 3]), snd (chain [1, 2, 3])) [1, 2, 3]" by simp
  from simplify_block_relinks[OF this, of "\<lambda>_. []" "(\<lambda>_. Kept)(2 := Gone, 3 := Became 9)" 3]
  show ?thesis by (simp add: fresh_results_def successors_def)
qed


section \<open>Damage\<close>

text \<open>After a deletion behind a replaced statement the loop goes on along links that no longer lead from the first statement:
  \<open>d\<close> is the last statement reached from there, whose link still leads to the deleted statement \<open>s\<close>. The remaining statements
  \<open>xs\<close> hang behind \<open>q\<close>; \<open>p\<close> is the statement simplified last. Neither is \<open>d\<close>, so that no link of \<open>d\<close> is written any more.\<close>

definition cut_off :: "nat \<Rightarrow> nat \<Rightarrow> nat \<Rightarrow> nat \<Rightarrow> pl_state \<Rightarrow> nat list \<Rightarrow> bool" where
  "cut_off d s p q st xs \<longleftrightarrow> nxt (fst st) d = Some s \<and> linked (fst st) (Some q) xs None \<and> distinct xs \<and> {d, p, q} \<inter> set xs = {} \<and>
     p \<noteq> d \<and> q \<noteq> d \<and> pl_first (snd st) \<notin> insert None (Some ` set xs) \<and> (xs \<noteq> [] \<longrightarrow> pl_last (snd st) = last_of None xs)"

lemma cut_off_links:
  assumes "cut_off d s p q (h, l) (x # xs)"
  shows "prv h x = Some q" "nxt h x = first_of xs None" "Pl_end (h, l) = None" "pl_first l \<noteq> Some x" "pl_first l \<noteq> None"
    "pl_last l = Some x \<longleftrightarrow> xs = []" "x \<notin> set xs" "x \<noteq> d" "x \<noteq> p" "x \<noteq> q"
proof -
  have l: "linked h (Some q) (x # xs) None" "pl_last l = last_of None (x # xs)" "distinct (x # xs)" using assms by (auto simp: cut_off_def)
  show "Pl_end (h, l) = None"
  proof (cases xs rule: rev_cases)
    case (snoc ys y)
    then show ?thesis using l by (simp add: Pl_end_def)
  qed (use l in \<open>simp add: Pl_end_def\<close>)
  show "pl_last l = Some x \<longleftrightarrow> xs = []" using l by (cases xs rule: rev_cases) auto
qed (use assms in \<open>auto simp: cut_off_def\<close>)

lemma cut_off_unlink:
  assumes c: "cut_off d s p q (h, l) (x # xs)" and u: "unlink_stmt x (Some p) (h, l) = Some (next, h', l')"
  shows "next = first_of xs None \<and> cut_off d s p p (h', l') xs \<and> only_changes (insert p (set xs)) h h'"
proof -
  note L = cut_off_links[OF c]
  have i: "linked h (Some x) xs None" "nxt h d = Some s" "distinct xs" "{d, p} \<inter> set xs = {}" "p \<noteq> d"
    "pl_first l \<notin> insert None (Some ` set xs)" "pl_last l = last_of None (x # xs)" using c by (auto simp: cut_off_def)
  show ?thesis
  proof (cases xs)
    case Nil
    then show ?thesis using u L i by (auto simp: unlink_stmt_def pl_link Pl_update_back_def cut_off_def only_changes_def split: if_splits)
  next
    case (Cons y ys)
    then show ?thesis using u L i by (auto simp: unlink_stmt_def pl_link cut_off_def only_changes_def split: if_splits)
  qed
qed

lemma cut_off_replace:
  assumes c: "cut_off d s p q (h, l) (x # xs)" and a: "a \<notin> {d, q, x} \<union> set xs"
    and u: "ReplaceStmt1WithStmt2 (Some x) (Some a) (h, l) = Some (h', l')"
  shows "nxt h' x = first_of xs None \<and> cut_off d s x a (h', l') xs \<and> only_changes ({a, q, x} \<union> set xs) h h'"
proof -
  note L = cut_off_links[OF c]
  have i: "linked h (Some x) xs None" "nxt h d = Some s" "distinct xs" "{d, p, q} \<inter> set xs = {}" "q \<noteq> d"
    "pl_first l \<notin> insert None (Some ` set xs)" "pl_last l = last_of None (x # xs)" using c by (auto simp: cut_off_def)
  show ?thesis
  proof (cases xs)
    case Nil
    then show ?thesis using u L i a
      by (auto simp: ReplaceStmt1WithStmt2_def Pl_insert_def Pl_erase_def Pl_pop_back_def pl_link Let_def cut_off_def only_changes_def split: if_splits)
  next
    case (Cons y ys)
    then show ?thesis using u L i a
      by (auto simp: ReplaceStmt1WithStmt2_def Pl_insert_def Pl_erase_def pl_link Let_def cut_off_def only_changes_def split: if_splits)
  qed
qed

lemma cut_off_open:
  assumes c: "cut_off d s p q (h, l) (x # xs)" and b: "holds_list (h, blk) us" "set us \<inter> ({d, q, x} \<union> set xs) = {}"
    and u: "ReplaceStmtWithBlock (Some x) blk (h, l) = Some (h', l')"
  shows "nxt h' x = first_of xs None \<and> us \<noteq> [] \<and> cut_off d s x (last us) (h', l') xs \<and> only_changes (set us \<union> {q, x} \<union> set xs) h h'"
proof -
  note L = cut_off_links[OF c]
  have i: "linked h (Some x) xs None" "nxt h d = Some s" "distinct xs" "{d, p, q} \<inter> set xs = {}" "q \<noteq> d"
    "pl_first l \<notin> insert None (Some ` set xs)" "pl_last l = last_of None (x # xs)" using c by (auto simp: cut_off_def)
  consider "us = []" | v where "us = [v]" | v ws w where "us = v # ws @ [w]" by (rule list_ends[of us]) auto
  then show ?thesis
  proof cases
    case 1
    then show ?thesis using b(1) u by (simp add: holds_list_def ReplaceStmtWithBlock_def Pl_splice_def)
  next
    case 2
    then show ?thesis using b u L i
      by (cases xs) (auto simp: ReplaceStmtWithBlock_def Pl_splice_def Pl_erase_def Pl_empty_def Pl_end_def pl_link Let_def cut_off_def
          holds_list_def only_changes_def split: if_splits)
  next
    case 3
    then show ?thesis using b u L i
      by (cases xs) (auto simp: ReplaceStmtWithBlock_def Pl_splice_def Pl_erase_def Pl_empty_def Pl_end_def pl_link Let_def cut_off_def
          holds_list_def only_changes_def split: if_splits)
  qed
qed

lemma cut_off_step:
  assumes c: "cut_off d s p q (h, l) (x # xs)" and r: "disjoint_results ns f h (x # xs)" "{d, q} \<inter> new_nodes ns f (x # xs) = {}"
    and u: "replace_stmt (f x) x (h, l) = Some (next, h', l')" "f x \<noteq> Gone"
  shows "\<exists>q'. next = first_of xs None \<and> cut_off d s x q' (h', l') xs \<and> only_changes (set (successors ns f x) \<union> {q, x} \<union> set xs) h h' \<and>
    q' \<in> insert x (set (successors ns f x))"
proof (cases "f x")
  case Kept
  then show ?thesis using u(1) c by (intro exI[of _ x]) (cases xs; auto simp: replace_stmt_def ReplaceStmt1WithStmt2_def pl_link cut_off_def only_changes_def)
next
  case (Became a)
  have "a \<notin> {d, q, x} \<union> set xs" using r(2) Became disjoint_results_Cons(2,3)[OF r(1)] by (auto simp: successors_def new_nodes_Cons)
  moreover have "ReplaceStmt1WithStmt2 (Some x) (Some a) (h, l) = Some (h', l')" "next = nxt h' x"
    using u(1) Became by (auto simp: replace_stmt_def pl_link split: Option.bind_splits)
  ultimately show ?thesis using cut_off_replace[OF c, of a h' l'] Became
    by (intro exI[of _ a]) (auto simp: successors_def only_changes_def)
next
  case (Opened blk)
  have "set (ns blk) \<inter> ({d, q, x} \<union> set xs) = {}" using r(2) Opened disjoint_results_Cons(2,3)[OF r(1)] by (auto simp: successors_def new_nodes_Cons)
  moreover have "ReplaceStmtWithBlock (Some x) blk (h, l) = Some (h', l')" "next = nxt h' x"
    using u(1) Opened by (auto simp: replace_stmt_def pl_link split: Option.bind_splits)
  ultimately show ?thesis using cut_off_open[OF c disjoint_results_Cons(4)[OF r(1) Opened], of h' l'] Opened
    by (intro exI[of _ "last (ns blk)"]) (auto simp: successors_def only_changes_def)
qed (use u in simp)

lemma cut_off_loop:
  assumes "cut_off d s p q (h, l) xs" "disjoint_results ns f h xs" "{d, p, q} \<inter> new_nodes ns f xs = {}"
    "SimplifyBlock_loop n f (first_of xs None) (Some p) (h, l) = Some st"
  shows "nxt (fst st) d = Some s"
  using assms
proof (induction xs arbitrary: h l p q n)
  case Nil
  then show ?case by (auto simp: cut_off_def)
next
  case (Cons x xs)
  obtain m where m: "n = Suc m" using Cons.prems(4) by (cases n) auto
  note D = disjoint_results_Cons[OF Cons.prems(2)]
  have new: "{d, p, q} \<inter> new_nodes ns f xs = {}" using Cons.prems(3) by (auto simp: new_nodes_Cons)
  show ?case
  proof (cases "f x = Gone")
    case True
    obtain y h' l' where u: "unlink_stmt x (Some p) (h, l) = Some (y, h', l')" "SimplifyBlock_loop m f y (Some p) (h', l') = Some st"
      using Cons.prems(4) m True by (auto split: Option.bind_splits)
    note C = cut_off_unlink[OF Cons.prems(1) u(1)]
    have "disjoint_results ns f h' xs" using C D(5) new by (intro disjoint_results_tl[OF Cons.prems(2)]) auto
    then show ?thesis using C u(2) new by (intro Cons.IH[of p p h' l' m]) auto
  next
    case False
    obtain y h' l' where u: "replace_stmt (f x) x (h, l) = Some (y, h', l')" "SimplifyBlock_loop m f y (Some x) (h', l') = Some st"
      using Cons.prems(4) m False by (auto split: Option.bind_splits)
    obtain q' where C: "y = first_of xs None" "cut_off d s x q' (h', l') xs"
      "only_changes (set (successors ns f x) \<union> {q, x} \<union> set xs) h h'" "q' \<in> insert x (set (successors ns f x))"
      using cut_off_step[OF Cons.prems(1,2) _ u(1) False] Cons.prems(3) by auto
    have n: "(set (successors ns f x) \<union> {q, x} \<union> set xs) \<inter> new_nodes ns f xs = {}"
      using D(5,6) new by (cases "f x = Kept") (auto simp: successors_def)
    have "disjoint_results ns f h' xs" using disjoint_results_tl[OF Cons.prems(2) C(3) n] .
    then show ?thesis using C u(2) n new by (intro Cons.IH[of x q' h' l' m]) auto
  qed
qed

lemma cut_off_start:
  assumes "holds_list (h, l) (ds @ x # xs)" "ds \<noteq> []" "a \<notin> set (ds @ x # xs)" "unlink_stmt x (Some a) (h, l) = Some (next, h', l')"
  shows "next = first_of xs None \<and> cut_off (last ds) x a a (h', l') xs \<and> only_changes (insert a (set xs)) h h'"
proof -
  obtain es d where ds: "ds = es @ [d]" using assms(2) by (cases ds rule: rev_cases) auto
  have f: "Some x \<noteq> pl_first l" "pl_first l \<notin> insert None (Some ` set xs)" using assms(1) ds by (cases es; auto simp: holds_list_def)+
  have e: "Some x = pl_last l \<longleftrightarrow> xs = []" using assms(1) by (cases xs rule: rev_cases) (auto simp: holds_list_def)
  show ?thesis
  proof (cases xs)
    case Nil
    then show ?thesis using assms f e ds
      by (auto simp: unlink_stmt_def pl_link Pl_update_back_def cut_off_def only_changes_def holds_list_def split: if_splits)
  next
    case (Cons y ys)
    then show ?thesis using assms f e ds
      by (auto simp: unlink_stmt_def pl_link cut_off_def only_changes_def holds_list_def split: if_splits)
  qed
qed

text \<open>A loop that meets an empty block or a deletion behind a change either stops at a null pointer or leaves a statement
  before the change linked to a deleted one.\<close>

lemma SimplifyBlock_loop_damage:
  assumes "holds_list (h, l) (ds @ xs)" "disjoint_results ns f h xs" "set ds \<inter> new_nodes ns f xs = {}"
    "\<not> changed \<Longrightarrow> prevStmt = last_of None ds"
    "changed \<Longrightarrow> ds \<noteq> [] \<and> (\<exists>a. prevStmt = Some a \<and> a \<notin> set (ds @ xs) \<union> new_nodes ns f xs)"
    "\<not> (no_gone_after_change f changed xs \<and> no_empty_block ns f xs)"
    "SimplifyBlock_loop n f (first_of xs None) prevStmt (h, l) = Some st"
  shows "\<exists>d s. d \<in> set (ds @ concat (map (successors ns f) xs)) \<and> s \<in> set xs \<and> f s = Gone \<and> nxt (fst st) d = Some s"
  using assms
proof (induction xs arbitrary: h l ds changed prevStmt n)
  case (Cons x xs)
  obtain m where m: "n = Suc m" using Cons.prems(7) by (cases n) auto
  note D = disjoint_results_Cons[OF Cons.prems(2)]
  have new: "set (ds @ x # xs) \<inter> new_nodes ns f xs = {}" using D(5) Cons.prems(3) by (auto simp: new_nodes_Cons)
  show ?case
  proof (cases "f x = Gone")
    case True
    obtain y h' l' where u: "unlink_stmt x prevStmt (h, l) = Some (y, h', l')" "SimplifyBlock_loop m f y prevStmt (h', l') = Some st"
      using Cons.prems(7) m True by (auto split: Option.bind_splits)
    show ?thesis
    proof (cases changed)
      case True
      then obtain a where a: "ds \<noteq> []" "prevStmt = Some a" "a \<notin> set (ds @ x # xs) \<union> new_nodes ns f (x # xs)" using Cons.prems(5) by auto
      note C = cut_off_start[OF Cons.prems(1) a(1) _ u(1)[unfolded a(2)]]
      have C: "y = first_of xs None" "cut_off (last ds) x a a (h', l') xs" "only_changes (insert a (set xs)) h h'" using C a(3) by auto
      have "last ds \<in> set ds" using a(1) by simp
      then have "last ds \<notin> new_nodes ns f xs" "a \<notin> new_nodes ns f xs" "set xs \<inter> new_nodes ns f xs = {}"
        using a(3) new by (auto simp: new_nodes_Cons)
      then have n: "insert a (set xs) \<inter> new_nodes ns f xs = {}" "{last ds, a, a} \<inter> new_nodes ns f xs = {}" by auto
      have "nxt (fst st) (last ds) = Some x"
        using cut_off_loop[OF C(2) disjoint_results_tl[OF Cons.prems(2) C(3) n(1)] n(2)] u(2) C(1) a(2) by simp
      then show ?thesis using a(1) \<open>f x = Gone\<close> by (intro exI[of _ "last ds"] exI[of _ x]) auto
    next
      case False
      then have p: "prevStmt = last_of None ds" using Cons.prems(4) by simp
      obtain h'' l'' where v: "unlink_stmt x prevStmt (h, l) = Some (first_of xs None, h'', l'')" "holds_list (h'', l'') (ds @ xs)"
        "only_changes (set (ds @ x # xs)) h h''" using unlink_stmt_ok[OF Cons.prems(1) p] by auto
      have "\<not> (no_gone_after_change f False xs \<and> no_empty_block ns f xs)" using Cons.prems(6) True False by (auto simp: no_empty_block_def)
      then have "\<exists>d s. d \<in> set (ds @ concat (map (successors ns f) xs)) \<and> s \<in> set xs \<and> f s = Gone \<and> nxt (fst st) d = Some s"
        using u v new p False by (intro Cons.IH[OF v(2) disjoint_results_tl[OF Cons.prems(2) v(3) new]]) auto
      then show ?thesis by auto
    qed
  next
    case False
    obtain y h' l' where u: "replace_stmt (f x) x (h, l) = Some (y, h', l')" "SimplifyBlock_loop m f y (Some x) (h', l') = Some st"
      using Cons.prems(7) m False by (auto split: Option.bind_splits)
    have ne: "ns blk \<noteq> []" if "f x = Opened blk" for blk
    proof
      assume "ns blk = []"
      then have "pl_first blk = None" using D(4)[OF that] by (simp add: holds_list_def)
      then show False using u(1) that by (simp add: replace_stmt_def ReplaceStmtWithBlock_def Pl_splice_def)
    qed
    obtain h'' l'' where r: "replace_stmt (f x) x (h, l) = Some (first_of xs None, h'', l'')" "holds_list (h'', l'') ((ds @ successors ns f x) @ xs)"
      "only_changes (set (ds @ x # xs) \<union> set (successors ns f x)) h h''" using replace_stmt_step[OF Cons.prems(1-3) False ne] by auto
    have e: "y = first_of xs None" "h'' = h'" "l'' = l'" using u(1) r(1) by auto
    have s: "successors ns f x \<noteq> []" using False ne by (cases "f x") (auto simp: successors_def)
    have n: "set (successors ns f x) \<inter> new_nodes ns f xs = {}" using D(5,6) by (cases "f x = Kept") (auto simp: successors_def)
    have d: "disjoint_results ns f h'' xs" using n new D(5) by (intro disjoint_results_tl[OF Cons.prems(2) r(3)]) auto
    have x: "x \<notin> set ((ds @ successors ns f x) @ xs) \<union> new_nodes ns f xs" if "f x \<noteq> Kept"
      using that D(1,2) new Cons.prems(1) by (auto simp: holds_list_def)
    have b: "\<not> (no_gone_after_change f (f x \<noteq> Kept) xs \<and> no_empty_block ns f xs)" using Cons.prems(6) False ne by (auto simp: no_empty_block_def)
    have "\<exists>d s. d \<in> set ((ds @ successors ns f x) @ concat (map (successors ns f) xs)) \<and> s \<in> set xs \<and> f s = Gone \<and> nxt (fst st) d = Some s"
    proof (rule Cons.IH[OF r(2) d _ _ _ b])
      show "set (ds @ successors ns f x) \<inter> new_nodes ns f xs = {}" using n new by auto
      show "Some x = last_of None (ds @ successors ns f x)" if "\<not> f x \<noteq> Kept" using that by (simp add: successors_def)
      show "ds @ successors ns f x \<noteq> [] \<and> (\<exists>a. Some x = Some a \<and> a \<notin> set ((ds @ successors ns f x) @ xs) \<union> new_nodes ns f xs)" if "f x \<noteq> Kept"
        using x[OF that] s by auto
      show "SimplifyBlock_loop m f (first_of xs None) (Some x) (h'', l'') = Some st" using u(2) e by simp
    qed
    then show ?thesis by auto
  qed
qed (simp add: no_empty_block_def)

text \<open>The nodes of a list lead to nodes of the list.\<close>

lemma holds_list_next: "holds_list (h, l) xs \<Longrightarrow> d \<in> set xs \<Longrightarrow> nxt h d = Some s \<Longrightarrow> s \<in> set xs"
proof -
  assume h: "holds_list (h, l) xs" "nxt h d = Some s" and "d \<in> set xs"
  then obtain us vs where "xs = us @ d # vs" by (meson split_list)
  then show "s \<in> set xs" using h by (cases vs) (auto simp: holds_list_def)
qed

lemma gone_not_left:
  assumes "disjoint_results ns f h xs" "s \<in> set xs" "f s = Gone"
  shows "s \<notin> set (concat (map (successors ns f) xs))"
proof
  assume "s \<in> set (concat (map (successors ns f) xs))"
  then obtain x where x: "x \<in> set xs" "s \<in> set (successors ns f x)" by auto
  then have "f x \<noteq> Kept" using assms(3) by (auto simp: successors_def)
  then have "s \<in> set (concat (map (\<lambda>s. if f s = Kept then [] else successors ns f s) xs))" using x by auto
  then show False using assms(1,2) by (auto simp: disjoint_results_def)
qed

lemma block_loop_iff:
  assumes "holds_list (h, l) xs" "disjoint_results ns f h xs" "length xs \<le> n"
  shows "(\<exists>st. SimplifyBlock_list n f (h, l) = Some st \<and> holds_list st (concat (map (successors ns f) xs))) \<longleftrightarrow>
    no_gone_after_change f False xs \<and> no_empty_block ns f xs"
proof
  have first: "pl_first l = first_of xs None" using assms(1) by (simp add: holds_list_def)
  show "\<exists>st. SimplifyBlock_list n f (h, l) = Some st \<and> holds_list st (concat (map (successors ns f) xs))"
    if "no_gone_after_change f False xs \<and> no_empty_block ns f xs"
    using SimplifyBlock_loop_ok[of h l "[]" xs ns f False None n] assms that first by (auto simp: SimplifyBlock_list_def)
  assume "\<exists>st. SimplifyBlock_list n f (h, l) = Some st \<and> holds_list st (concat (map (successors ns f) xs))"
  then obtain h' l' where st: "SimplifyBlock_list n f (h, l) = Some (h', l')" "holds_list (h', l') (concat (map (successors ns f) xs))" by auto
  show "no_gone_after_change f False xs \<and> no_empty_block ns f xs"
  proof (rule ccontr)
    assume "\<not> (no_gone_after_change f False xs \<and> no_empty_block ns f xs)"
    then obtain d s where "d \<in> set (concat (map (successors ns f) xs))" "s \<in> set xs" "f s = Gone" "nxt h' d = Some s"
      using SimplifyBlock_loop_damage[of h l "[]" xs ns f False None n "(h', l')"] assms st(1) first by (auto simp: SimplifyBlock_list_def)
    then show False using holds_list_next[OF st(2)] gone_not_left[OF assms(2)] by blast
  qed
qed

text \<open>C40: When a statement is deleted behind a replaced one, or one is replaced by an empty block, the loop over a block of any
  length either stops at a null pointer or leaves a statement that belongs to the result linked to a deleted one. New
  statements are different from all others.\<close>

theorem simplify_block_corrupts:
  assumes "holds_list (h, l) xs" "disjoint_results ns f h xs" "length xs \<le> n"
    "\<not> no_gone_after_change f False xs \<or> \<not> no_empty_block ns f xs"
  shows "SimplifyBlock_list n f (h, l) = None \<or>
    (\<exists>st d s. SimplifyBlock_list n f (h, l) = Some st \<and> d \<in> set (concat (map (successors ns f) xs)) \<and> s \<in> set xs \<and> f s = Gone \<and>
      nxt (fst st) d = Some s)"
proof (cases "SimplifyBlock_list n f (h, l)")
  case (Some st)
  have "pl_first l = first_of xs None" using assms(1) by (simp add: holds_list_def)
  then show ?thesis using SimplifyBlock_loop_damage[of h l "[]" xs ns f False None n st] assms Some by (auto simp: SimplifyBlock_list_def)
qed simp

theorem simplify_block_corrupts_witness:
  "\<exists>st d s. SimplifyBlock_list 2 ((\<lambda>_. Kept)(1 := Became 9, 2 := Gone)) (chain [1, 2]) = Some st \<and> d \<in> {9} \<and> s \<in> {1, 2} \<and>
     ((\<lambda>_. Kept)(1 := Became 9, 2 := Gone)) s = Gone \<and> nxt (fst st) d = Some s"
proof -
  let ?f = "(\<lambda>_. Kept)(1 := Became 9, 2 := Gone)"
  have c: "holds_list (fst (chain [1, 2]), snd (chain [1, 2])) [1, 2]"
    using plist.sequence[OF new_list[of "\<lparr>nxt = \<lambda>_. None, prv = \<lambda>_. None\<rparr>"], of "map PushBack [1, 2]"] by (auto simp: chain_def)
  have "SimplifyBlock_list 2 ?f (chain [1, 2]) \<noteq> None"
    by (simp add: chain_def numeral_2_eq_2 SimplifyBlock_list_def replace_stmt_def unlink_stmt_def ReplaceStmt1WithStmt2_def
        Pl_push_back_def Pl_insert_def Pl_push_front_def Pl_erase_def Pl_update_back_def pl_link Pl_new_def Pl_end_def Let_def)
  moreover have "disjoint_results (\<lambda>_. []) ?f (fst (chain [1, 2])) [1, 2]" "\<not> no_gone_after_change ?f False [1, 2]"
    by (simp_all add: disjoint_results_def successors_def)
  ultimately have "\<exists>st d s. SimplifyBlock_list 2 ?f (chain [1, 2]) = Some st \<and> d \<in> set (concat (map (successors (\<lambda>_. []) ?f) [1, 2])) \<and>
      s \<in> set [1, 2] \<and> ?f s = Gone \<and> nxt (fst st) d = Some s"
    using simplify_block_corrupts[OF c, of "\<lambda>_. []" ?f 2] by (simp only: prod.collapse simp_thms list.size)
  then show ?thesis by (simp add: successors_def)
qed

end
