(* ===== verification/Stmt_Fold.thy ===== *)
theory Stmt_Fold
  imports Constant_Fold_Sem
begin

text \<open>
  The simplification of statements by the constant folder (\<^verbatim>\<open>mpl2mpl/src/constantfold.cpp\<close>: \<open>Simplify\<close> and the functions it calls,
  \<open>ProcessFunc\<close>), and what statements do: a big-step semantics of blocks with structured statements and jumps.
\<close>

section \<open>Statements\<close>

text \<open>The statements that the pass looks into. A unary or n-ary statement (assertions, reference counting, calls, returns)
  carries its opcode as a name, and so does a statement that is left as it is. \<open>WhileStmt True\<close> is \<open>dowhile\<close>,
  \<open>CondGoto True\<close> is \<open>brtrue\<close>. The parts of an \<open>if\<close> and the body of a loop are the lists of their blocks.\<close>

datatype stmt =
    Dassign nat nat node
  | Regassign PrimType nat node
  | UnaryStmt string "node option"
  | NaryStmt string "node list"
  | Block "stmt list"
  | IfStmt node "stmt list" "stmt list option"
  | WhileStmt bool node "stmt list"
  | CondGoto bool nat node
  | Goto nat
  | LabelStmt nat
  | Switch node nat "(int \<times> nat) list"
  | OtherStmt string

text \<open>What the pass depends on: the size of pointers, the types of symbols, the comparison of addresses and the depth of
  folding (theory \<open>Constant_Fold\<close>), whether the module is a Java module, and whether profile data is in use.\<close>

record fold_env =
  fe_ps :: nat
  fe_syms :: symbol_types
  fe_same :: "node \<Rightarrow> node \<Rightarrow> bool"
  fe_depth :: nat
  fe_java :: bool
  fe_profile :: bool

text \<open>\<open>Fold\<close> as the pass calls it: the null pointer (the inner \<^term>\<open>None\<close>) when the node is unchanged.\<close>

definition fold_opnd :: "fold_env \<Rightarrow> node \<Rightarrow> node option option" where
  "fold_opnd env e = do {
     x \<leftarrow> Fold (fe_ps env) (fe_syms env) (fe_same env) (fe_depth env) e;
     Some (if fe_same env x e then None else Some x)
   }"

definition fold_set :: "fold_env \<Rightarrow> node \<Rightarrow> node option" where
  "fold_set env e = do { r \<leftarrow> fold_opnd env e; Some (case r of None \<Rightarrow> e | Some x \<Rightarrow> x) }"

fun fold_list :: "fold_env \<Rightarrow> node list \<Rightarrow> node list option" where
  "fold_list env [] = Some []"
| "fold_list env (e # es) = do { x \<leftarrow> fold_set env e; xs \<leftarrow> fold_list env es; Some (x # xs) }"

section \<open>Simplification\<close>

text \<open>What \<open>Simplify\<close> returns: the statement, changed in place; the null pointer; a new statement; a block.\<close>

datatype simplified_stmt = Same stmt | Null | New stmt | Opened_block "stmt list"

definition SimplifyDassign :: "fold_env \<Rightarrow> nat \<Rightarrow> nat \<Rightarrow> node \<Rightarrow> simplified_stmt option" where
  "SimplifyDassign env st fld e = do { x \<leftarrow> fold_set env e; Some (Same (Dassign st fld x)) }"

definition SimplifyUnary :: "fold_env \<Rightarrow> string \<Rightarrow> node option \<Rightarrow> simplified_stmt option" where
  "SimplifyUnary env opc opnd =
     (case opnd of
        None \<Rightarrow> Some (Same (UnaryStmt opc None))
      | Some e \<Rightarrow> do { x \<leftarrow> fold_set env e; Some (Same (UnaryStmt opc (Some x))) })"

definition SimplifyRegassign :: "fold_env \<Rightarrow> PrimType \<Rightarrow> nat \<Rightarrow> node \<Rightarrow> simplified_stmt option" where
  "SimplifyRegassign env t r e = do { x \<leftarrow> fold_set env e; Some (Same (Regassign t r x)) }"

definition SimplifyNary :: "fold_env \<Rightarrow> string \<Rightarrow> node list \<Rightarrow> simplified_stmt option" where
  "SimplifyNary env opc es = do { xs \<leftarrow> fold_list env es; Some (Same (NaryStmt opc xs)) }"

definition SimplifyCondGotoSelect :: "bool \<Rightarrow> nat \<Rightarrow> node \<Rightarrow> simplified_stmt option" where
  "SimplifyCondGotoSelect brtrue l e =
     (case e of
        Ternary opc t c (Constval t1 c1) (Constval t2 c2) \<Rightarrow>
          (if opc \<noteq> OP_select then Some (Same (CondGoto brtrue l e))
           else do {
             one1 \<leftarrow> Iv_eq_int (mc_value c1) 1;
             one_zero \<leftarrow> andm one1 (Iv_eq_int (mc_value c2) 0);
             (if one_zero then Some (Same (CondGoto brtrue l c))
              else do {
                zero1 \<leftarrow> Iv_eq_int (mc_value c1) 0;
                zero_one \<leftarrow> andm zero1 (Iv_eq_int (mc_value c2) 1);
                Some (Same (if zero_one then CondGoto (\<not> brtrue) l c else CondGoto brtrue l e))
              })
           })
      | _ \<Rightarrow> Some (Same (CondGoto brtrue l e)))"

fun is_select :: "node \<Rightarrow> bool" where
  "is_select (Ternary opc t c a b) \<longleftrightarrow> opc = OP_select"
| "is_select _ \<longleftrightarrow> False"

definition SimplifyCondGoto :: "fold_env \<Rightarrow> bool \<Rightarrow> nat \<Rightarrow> node \<Rightarrow> simplified_stmt option" where
  "SimplifyCondGoto env brtrue l e =
     (if fe_profile env then Some (Same (CondGoto brtrue l e))
      else do {
        r \<leftarrow> fold_opnd env e;
        (if r = None \<and> is_select e then SimplifyCondGotoSelect brtrue l e
         else let x = (case r of None \<Rightarrow> e | Some x \<Rightarrow> x) in
           case x of
             Constval t c \<Rightarrow> do {
               z \<leftarrow> mc_IsZero c;
               Some (if brtrue \<and> \<not> z \<or> \<not> brtrue \<and> z then New (Goto l) else Null)
             }
           | _ \<Rightarrow> Some (Same (CondGoto brtrue l x)))
      })"

fun find_case :: "IntVal \<Rightarrow> nat \<Rightarrow> (int \<times> nat) list \<Rightarrow> nat option" where
  "find_case v dflt [] = Some dflt"
| "find_case v dflt ((c, l) # cases) = do { b \<leftarrow> Iv_eq_int v c; (if b then Some l else find_case v dflt cases) }"

definition SimplifySwitch :: "fold_env \<Rightarrow> node \<Rightarrow> nat \<Rightarrow> (int \<times> nat) list \<Rightarrow> simplified_stmt option" where
  "SimplifySwitch env e dflt cases = do {
     r \<leftarrow> fold_opnd env e;
     (case r of
        None \<Rightarrow> Some (Same (Switch e dflt cases))
      | Some x \<Rightarrow>
          (case x of
             Constval t c \<Rightarrow> do { l \<leftarrow> find_case (mc_value c) dflt cases; Some (New (Goto l)) }
           | _ \<Rightarrow> Some (Same (Switch x dflt cases))))
   }"

text \<open>The end of \<open>SimplifyIf\<close> and of \<open>SimplifyWhile\<close>, after their parts have been simplified.\<close>

definition SimplifyIf_cond :: "fold_env \<Rightarrow> node \<Rightarrow> stmt list \<Rightarrow> stmt list option \<Rightarrow> simplified_stmt option" where
  "SimplifyIf_cond env e th el = do {
     r \<leftarrow> fold_opnd env e;
     (case r of
        None \<Rightarrow> Some (Same (IfStmt e th el))
      | Some x \<Rightarrow>
          (case x of
             Constval t c \<Rightarrow>
               (if \<not> fe_java env then Some (Same (IfStmt x th el))
                else do {
                  z \<leftarrow> Iv_eq_int (mc_value c) 0;
                  Some (if z then (case el of None \<Rightarrow> Null | Some bs \<Rightarrow> Opened_block bs) else Opened_block th)
                })
           | _ \<Rightarrow> Some (Same (IfStmt x th el))))
   }"

definition SimplifyWhile_cond :: "fold_env \<Rightarrow> bool \<Rightarrow> node \<Rightarrow> stmt list \<Rightarrow> simplified_stmt option" where
  "SimplifyWhile_cond env dowhile e body = do {
     r \<leftarrow> fold_opnd env e;
     (case r of
        None \<Rightarrow> Some (Same (WhileStmt dowhile e body))
      | Some x \<Rightarrow>
          (case x of
             Constval t c \<Rightarrow>
               (if \<not> fe_java env then Some (Same (WhileStmt dowhile x body))
                else do {
                  z \<leftarrow> mc_IsZero c;
                  Some (if z then (if dowhile then Opened_block body else Null) else Same (WhileStmt dowhile x body))
                })
           | _ \<Rightarrow> Some (Same (WhileStmt dowhile x body))))
   }"

text \<open>A block returned for a statement of a block takes its place. \<open>replaced\<close> says whether the statement before has been
  replaced. The flag in the result says whether the lists of all blocks are intact: it is lost when an empty block is
  to be put in the place of a statement and when a statement is deleted behind a replaced one, where the list
  operations of the code fail (theory \<open>Stmt_Block\<close>); the statements of the result are then the intended ones.\<close>

fun Simplify :: "fold_env \<Rightarrow> stmt \<Rightarrow> (simplified_stmt \<times> bool) option"
  and SimplifyBlock :: "fold_env \<Rightarrow> bool \<Rightarrow> stmt list \<Rightarrow> (stmt list \<times> bool) option" where
  "Simplify env (Dassign st fld e) = do { r \<leftarrow> SimplifyDassign env st fld e; Some (r, True) }"
| "Simplify env (Regassign t n e) = do { r \<leftarrow> SimplifyRegassign env t n e; Some (r, True) }"
| "Simplify env (UnaryStmt opc opnd) = do { r \<leftarrow> SimplifyUnary env opc opnd; Some (r, True) }"
| "Simplify env (NaryStmt opc es) = do { r \<leftarrow> SimplifyNary env opc es; Some (r, True) }"
| "Simplify env (Block ss) = do { (bs, ok) \<leftarrow> SimplifyBlock env False ss; Some (Opened_block bs, ok) }"
| "Simplify env (IfStmt e th None) = do {
     (th', ok) \<leftarrow> SimplifyBlock env False th;
     r \<leftarrow> SimplifyIf_cond env e th' None;
     Some (r, ok)
   }"
| "Simplify env (IfStmt e th (Some el)) = do {
     (th', ok) \<leftarrow> SimplifyBlock env False th;
     (el', ok') \<leftarrow> SimplifyBlock env False el;
     r \<leftarrow> SimplifyIf_cond env e th' (Some el');
     Some (r, ok \<and> ok')
   }"
| "Simplify env (WhileStmt dowhile e body) = do {
     (body', ok) \<leftarrow> SimplifyBlock env False body;
     r \<leftarrow> SimplifyWhile_cond env dowhile e body';
     Some (r, ok)
   }"
| "Simplify env (CondGoto brtrue l e) = do { r \<leftarrow> SimplifyCondGoto env brtrue l e; Some (r, True) }"
| "Simplify env (Switch e dflt cases) = do { r \<leftarrow> SimplifySwitch env e dflt cases; Some (r, True) }"
| "Simplify env (Goto l) = Some (Same (Goto l), True)"
| "Simplify env (LabelStmt l) = Some (Same (LabelStmt l), True)"
| "Simplify env (OtherStmt opc) = Some (Same (OtherStmt opc), True)"
| "SimplifyBlock env replaced [] = Some ([], True)"
| "SimplifyBlock env replaced (s # ss) = do {
     (r, ok) \<leftarrow> Simplify env s;
     (case r of
        Null \<Rightarrow> do { (rest, ok') \<leftarrow> SimplifyBlock env replaced ss; Some (rest, ok \<and> ok' \<and> \<not> replaced) }
      | Same s' \<Rightarrow> do { (rest, ok') \<leftarrow> SimplifyBlock env False ss; Some (s' # rest, ok \<and> ok') }
      | New s' \<Rightarrow> do { (rest, ok') \<leftarrow> SimplifyBlock env True ss; Some (s' # rest, ok \<and> ok') }
      | Opened_block bs \<Rightarrow> do { (rest, ok') \<leftarrow> SimplifyBlock env True ss; Some (bs @ rest, ok \<and> ok' \<and> bs \<noteq> []) })
   }"

definition ProcessFunc :: "fold_env \<Rightarrow> stmt list \<Rightarrow> (stmt list \<times> bool) option" where
  "ProcessFunc env body = (if body = [] then Some (body, True) else SimplifyBlock env False body)"

section \<open>What statements do\<close>

text \<open>An assignment stores the value of its expression reduced to the type of the variable. Other statements see the bit
  patterns of their operands; a state is a store and the sequence of these statements executed, with their operands.
  \<open>prim\<close> says what such a statement does to the store, and whether it leaves the function.\<close>

type_synonym exec_state = "store \<times> (string \<times> int list) list"

type_synonym prim_stmt = "string \<Rightarrow> int list \<Rightarrow> store \<Rightarrow> (store \<times> bool) option"

datatype outcome = Done | Jump nat | Left

definition opval :: "nat \<Rightarrow> symbol_types \<Rightarrow> store \<Rightarrow> node \<Rightarrow> int option" where
  "opval ps syms \<sigma> e = map_option (take_bit (bits ps (GetPrimType e))) (eval ps syms \<sigma> e)"

fun opvals :: "nat \<Rightarrow> symbol_types \<Rightarrow> store \<Rightarrow> node list \<Rightarrow> int list option" where
  "opvals ps syms \<sigma> [] = Some []"
| "opvals ps syms \<sigma> (e # es) = do { v \<leftarrow> opval ps syms \<sigma> e; vs \<leftarrow> opvals ps syms \<sigma> es; Some (v # vs) }"

fun switch_target :: "int \<Rightarrow> nat \<Rightarrow> (int \<times> nat) list \<Rightarrow> nat" where
  "switch_target v dflt [] = dflt"
| "switch_target v dflt ((c, l) # cases) = (if v = c then l else switch_target v dflt cases)"

text \<open>The statements behind a label of a block.\<close>

fun behind :: "nat \<Rightarrow> stmt list \<Rightarrow> stmt list option" where
  "behind l [] = None"
| "behind l (s # ss) = (if s = LabelStmt l then Some ss else behind l ss)"

definition prim_outcome :: "prim_stmt \<Rightarrow> string \<Rightarrow> int list \<Rightarrow> exec_state \<Rightarrow> (outcome \<times> exec_state) option" where
  "prim_outcome prim opc vs st = do {
     (\<sigma>, leaves) \<leftarrow> prim opc vs (fst st);
     Some (if leaves then Left else Done, \<sigma>, snd st @ [(opc, vs)])
   }"

text \<open>Execution of a statement, and of the rest of a block from a position in it. A jump goes to a label of the same block or
  of an enclosing one.\<close>

inductive exec :: "nat \<Rightarrow> symbol_types \<Rightarrow> prim_stmt \<Rightarrow> stmt \<Rightarrow> exec_state \<Rightarrow> outcome \<Rightarrow> exec_state \<Rightarrow> bool"
  and exec_from :: "nat \<Rightarrow> symbol_types \<Rightarrow> prim_stmt \<Rightarrow> stmt list \<Rightarrow> stmt list \<Rightarrow> exec_state \<Rightarrow> outcome \<Rightarrow> exec_state \<Rightarrow> bool"
  for ps :: nat and syms :: symbol_types and prim :: prim_stmt where
  Ex_Dassign: "eval ps syms (fst st) e = Some v \<Longrightarrow> syms s fld = Some (ty, n) \<Longrightarrow>
    exec ps syms prim (Dassign s fld e) st Done ((fst st)(Inl (s, fld) := wrap ps ty v), snd st)"
| Ex_Regassign: "eval ps syms (fst st) e = Some v \<Longrightarrow>
    exec ps syms prim (Regassign t r e) st Done ((fst st)(Inr r := wrap ps t v), snd st)"
| Ex_Unary: "opvals ps syms (fst st) (case opnd of None \<Rightarrow> [] | Some e \<Rightarrow> [e]) = Some vs \<Longrightarrow> prim_outcome prim opc vs st = Some (out, st') \<Longrightarrow>
    exec ps syms prim (UnaryStmt opc opnd) st out st'"
| Ex_Nary: "opvals ps syms (fst st) es = Some vs \<Longrightarrow> prim_outcome prim opc vs st = Some (out, st') \<Longrightarrow>
    exec ps syms prim (NaryStmt opc es) st out st'"
| Ex_Other: "prim_outcome prim opc [] st = Some (out, st') \<Longrightarrow> exec ps syms prim (OtherStmt opc) st out st'"
| Ex_Block: "exec_from ps syms prim ss ss st out st' \<Longrightarrow> exec ps syms prim (Block ss) st out st'"
| Ex_IfTrue: "eval ps syms (fst st) e = Some v \<Longrightarrow> v \<noteq> 0 \<Longrightarrow> exec_from ps syms prim th th st out st' \<Longrightarrow>
    exec ps syms prim (IfStmt e th el) st out st'"
| Ex_IfFalse: "eval ps syms (fst st) e = Some 0 \<Longrightarrow> exec_from ps syms prim bs bs st out st' \<Longrightarrow>
    exec ps syms prim (IfStmt e th (Some bs)) st out st'"
| Ex_IfNone: "eval ps syms (fst st) e = Some 0 \<Longrightarrow> exec ps syms prim (IfStmt e th None) st Done st"
| Ex_WhileFalse: "eval ps syms (fst st) e = Some 0 \<Longrightarrow> exec ps syms prim (WhileStmt False e body) st Done st"
| Ex_WhileTrue: "eval ps syms (fst st) e = Some v \<Longrightarrow> v \<noteq> 0 \<Longrightarrow> exec_from ps syms prim body body st Done st1 \<Longrightarrow>
    exec ps syms prim (WhileStmt False e body) st1 out st' \<Longrightarrow> exec ps syms prim (WhileStmt False e body) st out st'"
| Ex_WhileOut: "eval ps syms (fst st) e = Some v \<Longrightarrow> v \<noteq> 0 \<Longrightarrow> exec_from ps syms prim body body st out st' \<Longrightarrow> out \<noteq> Done \<Longrightarrow>
    exec ps syms prim (WhileStmt False e body) st out st'"
| Ex_DoEnd: "exec_from ps syms prim body body st Done st' \<Longrightarrow> eval ps syms (fst st') e = Some 0 \<Longrightarrow>
    exec ps syms prim (WhileStmt True e body) st Done st'"
| Ex_DoAgain: "exec_from ps syms prim body body st Done st1 \<Longrightarrow> eval ps syms (fst st1) e = Some v \<Longrightarrow> v \<noteq> 0 \<Longrightarrow>
    exec ps syms prim (WhileStmt True e body) st1 out st' \<Longrightarrow> exec ps syms prim (WhileStmt True e body) st out st'"
| Ex_DoOut: "exec_from ps syms prim body body st out st' \<Longrightarrow> out \<noteq> Done \<Longrightarrow> exec ps syms prim (WhileStmt True e body) st out st'"
| Ex_CondGoto: "eval ps syms (fst st) e = Some v \<Longrightarrow>
    exec ps syms prim (CondGoto brtrue l e) st (if (v \<noteq> 0) = brtrue then Jump l else Done) st"
| Ex_Goto: "exec ps syms prim (Goto l) st (Jump l) st"
| Ex_Label: "exec ps syms prim (LabelStmt l) st Done st"
| Ex_Switch: "eval ps syms (fst st) e = Some v \<Longrightarrow> exec ps syms prim (Switch e dflt cases) st (Jump (switch_target v dflt cases)) st"
| From_End: "exec_from ps syms prim all [] st Done st"
| From_Done: "exec ps syms prim s st Done st1 \<Longrightarrow> exec_from ps syms prim all ss st1 out st' \<Longrightarrow> exec_from ps syms prim all (s # ss) st out st'"
| From_Jump: "exec ps syms prim s st (Jump l) st1 \<Longrightarrow> behind l all = Some ts \<Longrightarrow> exec_from ps syms prim all ts st1 out st' \<Longrightarrow>
    exec_from ps syms prim all (s # ss) st out st'"
| From_Out: "exec ps syms prim s st (Jump l) st' \<Longrightarrow> behind l all = None \<Longrightarrow> exec_from ps syms prim all (s # ss) st (Jump l) st'"
| From_Left: "exec ps syms prim s st Left st' \<Longrightarrow> exec_from ps syms prim all (s # ss) st Left st'"

inductive_cases exec_stmtE:
  "exec ps syms prim (Dassign s fld e) st out st'" "exec ps syms prim (Regassign t r e) st out st'"
  "exec ps syms prim (UnaryStmt opc opnd) st out st'" "exec ps syms prim (NaryStmt opc es) st out st'"
  "exec ps syms prim (OtherStmt opc) st out st'" "exec ps syms prim (Block ss) st out st'"
  "exec ps syms prim (IfStmt e th el) st out st'" "exec ps syms prim (WhileStmt d e body) st out st'"
  "exec ps syms prim (CondGoto b l e) st out st'" "exec ps syms prim (Goto l) st out st'"
  "exec ps syms prim (LabelStmt l) st out st'" "exec ps syms prim (Switch e dflt cases) st out st'"

inductive_cases exec_fromE: "exec_from ps syms prim all [] st out st'" "exec_from ps syms prim all (s # ss) st out st'"

lemma exec_deterministic:
  "exec ps syms prim s st out st' \<Longrightarrow> (\<And>out2 st2. exec ps syms prim s st out2 st2 \<Longrightarrow> out2 = out \<and> st2 = st')"
  "exec_from ps syms prim all ss st out st' \<Longrightarrow> (\<And>out2 st2. exec_from ps syms prim all ss st out2 st2 \<Longrightarrow> out2 = out \<and> st2 = st')"
proof (induction rule: exec_exec_from.inducts)
  case (Ex_WhileTrue st e v body st1 out st')
  from Ex_WhileTrue.prems show ?case by (rule exec_stmtE(8)) (use Ex_WhileTrue in \<open>fastforce+\<close>)
next
  case (Ex_WhileOut st e v body out st')
  from Ex_WhileOut.prems show ?case by (rule exec_stmtE(8)) (use Ex_WhileOut in \<open>fastforce+\<close>)
next
  case (Ex_DoEnd body st st' e)
  from Ex_DoEnd.prems show ?case by (rule exec_stmtE(8)) (use Ex_DoEnd in \<open>fastforce+\<close>)
next
  case (Ex_DoAgain body st st1 e v out st')
  from Ex_DoAgain.prems show ?case by (rule exec_stmtE(8)) (use Ex_DoAgain in \<open>fastforce+\<close>)
next
  case (Ex_DoOut body st out st' e)
  from Ex_DoOut.prems show ?case by (rule exec_stmtE(8)) (use Ex_DoOut in \<open>fastforce+\<close>)
next
  case (From_Done s st st1 all ss out st')
  from From_Done.prems show ?case by (rule exec_fromE(2)) (use From_Done in \<open>fastforce+\<close>)
next
  case (From_Jump s st l st1 all ts out st' ss)
  from From_Jump.prems show ?case by (rule exec_fromE(2)) (use From_Jump in \<open>fastforce+\<close>)
next
  case (From_Out s st l st' all ss)
  from From_Out.prems show ?case by (rule exec_fromE(2)) (use From_Out in \<open>fastforce+\<close>)
next
  case (From_Left s st st' all ss)
  from From_Left.prems show ?case by (rule exec_fromE(2)) (use From_Left in \<open>fastforce+\<close>)
next
  case (Ex_Dassign st e v s fld ty n)
  from Ex_Dassign.prems show ?case by (rule exec_stmtE(1)) (use Ex_Dassign in \<open>auto\<close>)
next
  case (Ex_Regassign st e v t r)
  from Ex_Regassign.prems show ?case by (rule exec_stmtE(2)) (use Ex_Regassign in \<open>auto\<close>)
next
  case (Ex_Unary st opnd vs opc out st')
  from Ex_Unary.prems show ?case by (rule exec_stmtE(3)) (use Ex_Unary in \<open>auto\<close>)
next
  case (Ex_Nary st es vs opc out st')
  from Ex_Nary.prems show ?case by (rule exec_stmtE(4)) (use Ex_Nary in \<open>auto\<close>)
next
  case (Ex_Other opc st out st')
  from Ex_Other.prems show ?case by (rule exec_stmtE(5)) (use Ex_Other in \<open>auto\<close>)
next
  case (Ex_Block ss st out st')
  from Ex_Block.prems show ?case by (rule exec_stmtE(6)) (use Ex_Block in \<open>fastforce+\<close>)
next
  case (Ex_IfTrue st e v th out st' el)
  from Ex_IfTrue.prems show ?case by (rule exec_stmtE(7)) (use Ex_IfTrue in \<open>fastforce+\<close>)
next
  case (Ex_IfFalse st e bs out st' th)
  from Ex_IfFalse.prems show ?case by (rule exec_stmtE(7)) (use Ex_IfFalse in \<open>fastforce+\<close>)
next
  case (Ex_IfNone st e th)
  from Ex_IfNone.prems show ?case by (rule exec_stmtE(7)) (use Ex_IfNone in \<open>auto\<close>)
next
  case (Ex_WhileFalse st e body)
  from Ex_WhileFalse.prems show ?case by (rule exec_stmtE(8)) (use Ex_WhileFalse in \<open>auto\<close>)
next
  case (Ex_CondGoto st e v b l)
  from Ex_CondGoto.prems show ?case by (rule exec_stmtE(9)) (use Ex_CondGoto in \<open>auto\<close>)
next
  case (Ex_Goto l st)
  from Ex_Goto.prems show ?case by (rule exec_stmtE(10)) (use Ex_Goto in \<open>auto\<close>)
next
  case (Ex_Label l st)
  from Ex_Label.prems show ?case by (rule exec_stmtE(11)) (use Ex_Label in \<open>auto\<close>)
next
  case (Ex_Switch st e v dflt cases)
  from Ex_Switch.prems show ?case by (rule exec_stmtE(12)) (use Ex_Switch in \<open>auto\<close>)
next
  case (From_End all st)
  from From_End.prems show ?case by (rule exec_fromE(1)) auto
qed

end
