(* ===== verification/Stmt_Fold_Sound.thy ===== *)
theory Stmt_Fold_Sound
  imports Stmt_Fold Constant_Fold_Sound Stmt_Block
begin

text \<open>
  The simplification of statements returns and keeps the runs of a function, and the loop over the linked statements of a block
  implements it. \<open>agrees\<close> says that a folded operand can stand in the place of the original in every statement;
  \<open>stmt_simulated\<close> and \<open>block_simulated\<close> carry this through the rules of execution.
\<close>

section \<open>Operands, labels and well-typed statements\<close>

fun operands :: "stmt \<Rightarrow> node list" where
  "operands (Dassign st fld e) = [e]"
| "operands (Regassign t r e) = [e]"
| "operands (UnaryStmt opc opnd) = (case opnd of None \<Rightarrow> [] | Some e \<Rightarrow> [e])"
| "operands (NaryStmt opc es) = es"
| "operands (Block ss) = concat (map operands ss)"
| "operands (IfStmt e th None) = e # concat (map operands th)"
| "operands (IfStmt e th (Some el)) = e # concat (map operands th) @ concat (map operands el)"
| "operands (WhileStmt dowhile e body) = e # concat (map operands body)"
| "operands (CondGoto brtrue l e) = [e]"
| "operands (Switch e dflt cases) = [e]"
| "operands (Goto l) = []"
| "operands (LabelStmt l) = []"
| "operands (OtherStmt opc) = []"

fun labels :: "stmt \<Rightarrow> nat list"
  and block_labels :: "stmt list \<Rightarrow> nat list" where
  "labels (LabelStmt l) = [l]"
| "labels (Block ss) = block_labels ss"
| "labels (IfStmt e th None) = block_labels th"
| "labels (IfStmt e th (Some el)) = block_labels th @ block_labels el"
| "labels (WhileStmt dowhile e body) = block_labels body"
| "labels s = []"
| "block_labels [] = []"
| "block_labels (s # ss) = labels s @ block_labels ss"

text \<open>A variable is not wider than the expression assigned to it, so that the assignment does not depend on the sign of the
  type of the expression; the labels of a switch are below the sign bit of its operand for the same reason.\<close>

definition assignable :: "nat \<Rightarrow> PrimType \<Rightarrow> node \<Rightarrow> bool" where
  "assignable ps t e \<longleftrightarrow> ity ps t \<and> (bits ps t \<le> bits ps (GetPrimType e) \<or> boolv e)"

fun wt_stmt :: "nat \<Rightarrow> symbol_types \<Rightarrow> stmt \<Rightarrow> bool" where
  "wt_stmt ps syms (Dassign st fld e) \<longleftrightarrow> (case syms st fld of None \<Rightarrow> True | Some (t, _) \<Rightarrow> assignable ps t e)"
| "wt_stmt ps syms (Regassign t r e) \<longleftrightarrow> assignable ps t e"
| "wt_stmt ps syms (Block ss) \<longleftrightarrow> list_all (wt_stmt ps syms) ss"
| "wt_stmt ps syms (IfStmt e th None) \<longleftrightarrow> list_all (wt_stmt ps syms) th"
| "wt_stmt ps syms (IfStmt e th (Some el)) \<longleftrightarrow> list_all (wt_stmt ps syms) th \<and> list_all (wt_stmt ps syms) el"
| "wt_stmt ps syms (WhileStmt dowhile e body) \<longleftrightarrow> list_all (wt_stmt ps syms) body"
| "wt_stmt ps syms (Switch e dflt cases) \<longleftrightarrow> list_all (\<lambda>(c, l). 0 \<le> c \<and> c < 2 ^ (bits ps (GetPrimType e) - 1)) cases"
| "wt_stmt ps syms s \<longleftrightarrow> True"

section \<open>Folded operands\<close>

text \<open>\<open>x\<close> can be put in the place of \<open>e\<close> in every statement.\<close>

definition agrees :: "nat \<Rightarrow> symbol_types \<Rightarrow> store \<Rightarrow> node \<Rightarrow> node \<Rightarrow> bool" where
  "agrees ps syms \<sigma> e x \<longleftrightarrow>
     (\<forall>v. eval ps syms \<sigma> e = Some v \<longrightarrow>
       (\<exists>u. eval ps syms \<sigma> x = Some u \<and> (u = 0 \<longleftrightarrow> v = 0) \<and> opval ps syms \<sigma> x = opval ps syms \<sigma> e \<and>
         (\<forall>t. assignable ps t e \<longrightarrow> wrap ps t u = wrap ps t v) \<and>
         (\<forall>c. 0 \<le> c \<longrightarrow> c < 2 ^ (bits ps (GetPrimType e) - 1) \<longrightarrow> (u = c \<longleftrightarrow> v = c))))"

lemma agrees_self: "agrees ps syms \<sigma> e e"
  by (simp add: agrees_def)

lemma same_bits_value:
  assumes "ity ps t" "ity ps T" "bits ps T = bits ps t" "wrap ps T u = u" "wrap ps t v = v" "wrap ps t u = wrap ps t v"
    "0 \<le> c" "c < 2 ^ (bits ps t - 1)"
  shows "u = c \<longleftrightarrow> v = c"
proof -
  have e: "take_bit (bits ps t) u = take_bit (bits ps t) v" using assms(6) wrap_eq_iff[OF assms(1)] by blast
  have c: "wrap ps t c = c" "wrap ps T c = c" using wrap_small[OF assms(1,7,8)] wrap_small[OF assms(2,7)] assms(3,8) by auto
  have "u = c \<longleftrightarrow> take_bit (bits ps t) u = take_bit (bits ps t) c"
    using wrap_eq_iff[OF assms(2), of u c] assms(3,4) c(2) by auto
  also have "\<dots> \<longleftrightarrow> v = c" using wrap_eq_iff[OF assms(1), of v c] assms(5) c(1) e by auto
  finally show ?thesis .
qed

lemma stands_for_agrees:
  assumes "wt ps e" "stands_for ps syms \<sigma> (GetPrimType e) e x"
  shows "agrees ps syms \<sigma> e x"
proof -
  obtain v u where E: "eval ps syms \<sigma> e = Some v" "eval ps syms \<sigma> x = Some u" "wrap ps (GetPrimType e) u = wrap ps (GetPrimType e) v"
    "u = 0 \<longleftrightarrow> v = 0" "boolv e \<longrightarrow> u = v" using assms(2) by (rule stands_for_value)
  let ?t = "GetPrimType e" and ?T = "GetPrimType x"
  have w: "wt ps x" "fits ps ?t x" using stands_for_shape[OF assms(2)] by auto
  have T: "ity ps ?t" "ity ps ?T" using wt_type[OF assms(1)] wt_type[OF w(1)] .
  have R: "wrap ps ?t v = v" "wrap ps ?T u = u" using eval_range[OF assms(1) E(1)] eval_range[OF w(1) E(2)] .
  show ?thesis
  proof (cases "u = v")
    case True
    have "take_bit (bits ps ?T) v = take_bit (bits ps ?t) v"
    proof (cases "boolv x")
      case True
      then have "u = 0 \<or> u = 1" using eval_bool[OF w(1) _ E(2)] by blast
      then show ?thesis using \<open>u = v\<close> ity_bits[OF T(1)] ity_bits[OF T(2)] by auto
    next
      case False
      then show ?thesis using w(2) by (simp add: fits_def)
    qed
    then show ?thesis using E(1,2) True by (simp add: agrees_def opval_def)
  next
    case False
    have "\<not> boolv x"
    proof
      assume "boolv x"
      then have "wrap ps ?t u = u" using eval_bool[OF w(1) _ E(2)] wrap_bool[OF T(1)] by blast
      then show False using False E(3) R(1) by simp
    qed
    then have b: "bits ps ?T = bits ps ?t" using w(2) by (simp add: fits_def)
    have tb: "take_bit (bits ps ?t) u = take_bit (bits ps ?t) v" using E(3) wrap_eq_iff[OF T(1)] by blast
    have "wrap ps t u = wrap ps t v" if "assignable ps t e" for t
      using that E(5) False wrap_congI[OF _ tb] by (auto simp: assignable_def)
    then show ?thesis using E(1,2,4) b tb same_bits_value[OF T b R(2,1) E(3)] by (simp add: agrees_def opval_def)
  qed
qed

definition folds_well :: "fold_env \<Rightarrow> node \<Rightarrow> bool" where
  "folds_well env e \<longleftrightarrow> wt (fe_ps env) e \<and> (\<forall>x y. fe_same env x y \<longrightarrow> x = y) \<and>
     (\<exists>x. Fold (fe_ps env) (fe_syms env) (fe_same env) (fe_depth env) e = Some x \<and> wt (fe_ps env) x \<and>
       (\<forall>\<sigma>. agrees (fe_ps env) (fe_syms env) \<sigma> e x))"

lemma fold_opnd_cases:
  assumes "folds_well env e"
  obtains "fold_opnd env e = Some None" "fold_set env e = Some e"
  | x where "fold_opnd env e = Some (Some x)" "fold_set env e = Some x" "wt (fe_ps env) x" "\<And>\<sigma>. agrees (fe_ps env) (fe_syms env) \<sigma> e x"
proof -
  obtain x where x: "Fold (fe_ps env) (fe_syms env) (fe_same env) (fe_depth env) e = Some x" "wt (fe_ps env) x"
    "\<And>\<sigma>. agrees (fe_ps env) (fe_syms env) \<sigma> e x" using assms by (auto simp: folds_well_def)
  then show thesis using that(1) that(2)[of x] by (cases "fe_same env x e") (simp_all add: fold_opnd_def fold_set_def)
qed

lemma fold_set_agrees:
  assumes "folds_well env e"
  obtains x where "fold_set env e = Some x" "wt (fe_ps env) x" "\<And>\<sigma>. agrees (fe_ps env) (fe_syms env) \<sigma> e x"
  using fold_opnd_cases[OF assms] assms agrees_self by (metis folds_well_def)

lemma fold_list_agrees:
  assumes "\<forall>e \<in> set es. folds_well env e"
  shows "\<exists>xs. fold_list env es = Some xs \<and>
    (\<forall>\<sigma> vs. opvals (fe_ps env) (fe_syms env) \<sigma> es = Some vs \<longrightarrow> opvals (fe_ps env) (fe_syms env) \<sigma> xs = Some vs)"
  using assms
proof (induction es)
  case (Cons e es)
  obtain x where x: "fold_set env e = Some x" "\<And>\<sigma>. agrees (fe_ps env) (fe_syms env) \<sigma> e x" 
    using fold_set_agrees[of env e] Cons.prems by (metis list.set_intros(1))
  have v: "opval (fe_ps env) (fe_syms env) \<sigma> x = Some v" if "opval (fe_ps env) (fe_syms env) \<sigma> e = Some v" for \<sigma> v
    using x(2)[of \<sigma>] that by (auto simp: agrees_def opval_def)
  show ?case using Cons x(1) v by (fastforce split: Option.bind_splits)
qed simp

section \<open>The simplified statements\<close>

lemma const_operand_value:
  assumes "wt ps (Constval t c)"
  shows "iv64 (mc_value c)" "eval ps syms \<sigma> (Constval t c) = Some (iv_num (mc_value c))"
    "Iv_eq_int (mc_value c) 0 = Some (iv_num (mc_value c) = 0)" "Iv_eq_int (mc_value c) 1 = Some (iv_num (mc_value c) = 1)"
    "mc_IsZero c = Some (iv_num (mc_value c) = 0)"
proof -
  have "ity ps t" "typed ps t (mc_value c)" using assms by auto
  then show i: "iv64 (mc_value c)" and "eval ps syms \<sigma> (Constval t c) = Some (iv_num (mc_value c))"
    using typed_iv64 typed_num by auto
  show "Iv_eq_int (mc_value c) 0 = Some (iv_num (mc_value c) = 0)" "Iv_eq_int (mc_value c) 1 = Some (iv_num (mc_value c) = 1)"
    "mc_IsZero c = Some (iv_num (mc_value c) = 0)" using Iv_eq_const[OF i] by (simp_all add: mc_IsZero_def)
qed

lemma agrees_const:
  assumes "agrees ps syms \<sigma> e (Constval t c)" "wt ps (Constval t c)" "eval ps syms \<sigma> e = Some v"
  shows "v = 0 \<longleftrightarrow> iv_num (mc_value c) = 0"
  using assms const_operand_value(2)[OF assms(2)] by (auto simp: agrees_def)

lemma SimplifyIf_cond_cases:
  assumes "folds_well env e"
  obtains x where "SimplifyIf_cond env e th el = Some (Same (IfStmt x th el))" "\<And>\<sigma>. agrees (fe_ps env) (fe_syms env) \<sigma> e x"
  | "SimplifyIf_cond env e th el = Some (case el of None \<Rightarrow> Null | Some bs \<Rightarrow> Opened_block bs)"
    "\<And>\<sigma> v. eval (fe_ps env) (fe_syms env) \<sigma> e = Some v \<Longrightarrow> v = 0"
  | "SimplifyIf_cond env e th el = Some (Opened_block th)" "\<And>\<sigma> v. eval (fe_ps env) (fe_syms env) \<sigma> e = Some v \<Longrightarrow> v \<noteq> 0"
proof (rule fold_opnd_cases[OF assms])
  assume "fold_opnd env e = Some None"
  then show thesis by (intro that(1)[of e]) (simp_all add: SimplifyIf_cond_def agrees_self)
next
  fix x assume x: "fold_opnd env e = Some (Some x)" "wt (fe_ps env) x" "\<And>\<sigma>. agrees (fe_ps env) (fe_syms env) \<sigma> e x"
  show thesis
  proof (cases "\<exists>t c. x = Constval t c \<and> fe_java env")
    case True
    then obtain t c where c: "x = Constval t c" "fe_java env" by blast
    note z = agrees_const[OF x(3)[unfolded c(1)] x(2)[unfolded c(1)]] const_operand_value(3)[OF x(2)[unfolded c(1)]]
    show thesis
    proof (cases "iv_num (mc_value c) = 0")
      case True
      then show thesis using x(1) c z by (intro that(2)) (simp_all add: SimplifyIf_cond_def)
    next
      case False
      then show thesis using x(1) c z by (intro that(3)) (simp_all add: SimplifyIf_cond_def)
    qed
  next
    case False
    then have "SimplifyIf_cond env e th el = Some (Same (IfStmt x th el))" using x(1) by (auto simp: SimplifyIf_cond_def split: node.split)
    then show thesis using that(1) x(3) by blast
  qed
qed

lemma SimplifyWhile_cond_cases:
  assumes "folds_well env e"
  obtains x where "SimplifyWhile_cond env d e body = Some (Same (WhileStmt d x body))" "\<And>\<sigma>. agrees (fe_ps env) (fe_syms env) \<sigma> e x"
  | "SimplifyWhile_cond env d e body = Some (if d then Opened_block body else Null)"
    "\<And>\<sigma> v. eval (fe_ps env) (fe_syms env) \<sigma> e = Some v \<Longrightarrow> v = 0"
proof (rule fold_opnd_cases[OF assms])
  assume "fold_opnd env e = Some None"
  then show thesis by (intro that(1)[of e]) (simp_all add: SimplifyWhile_cond_def agrees_self)
next
  fix x assume x: "fold_opnd env e = Some (Some x)" "wt (fe_ps env) x" "\<And>\<sigma>. agrees (fe_ps env) (fe_syms env) \<sigma> e x"
  show thesis
  proof (cases "\<exists>t c. x = Constval t c \<and> fe_java env \<and> iv_num (mc_value c) = 0")
    case True
    then obtain t c where c: "x = Constval t c" "fe_java env" "iv_num (mc_value c) = 0" by blast
    note z = agrees_const[OF x(3)[unfolded c(1)] x(2)[unfolded c(1)]] const_operand_value(5)[OF x(2)[unfolded c(1)]]
    then show thesis using x(1) c z by (intro that(2)) (simp_all add: SimplifyWhile_cond_def)
  next
    case False
    have "SimplifyWhile_cond env d e body = Some (Same (WhileStmt d x body))"
      using x(1,2) False const_operand_value(5) by (auto simp: SimplifyWhile_cond_def simp del: wt.simps split: node.split)
    then show thesis using that(1) x(3) by blast
  qed
qed

text \<open>\<open>x\<close> as the condition of a jump with the sense \<open>b'\<close> is \<open>e\<close> with the sense \<open>b\<close>.\<close>

definition same_jump :: "fold_env \<Rightarrow> bool \<Rightarrow> node \<Rightarrow> bool \<Rightarrow> node \<Rightarrow> bool" where
  "same_jump env b e b' x \<longleftrightarrow> (\<forall>\<sigma> v. eval (fe_ps env) (fe_syms env) \<sigma> e = Some v \<longrightarrow>
     (\<exists>u. eval (fe_ps env) (fe_syms env) \<sigma> x = Some u \<and> ((u \<noteq> 0) = b' \<longleftrightarrow> (v \<noteq> 0) = b)))"

lemma same_jump_agrees: "(\<And>\<sigma>. agrees (fe_ps env) (fe_syms env) \<sigma> e x) \<Longrightarrow> same_jump env b e b x"
  by (fastforce simp: same_jump_def agrees_def)

lemma SimplifyCondGotoSelect_jump:
  assumes "wt (fe_ps env) e"
  shows "\<exists>b' x. SimplifyCondGotoSelect b l e = Some (Same (CondGoto b' l x)) \<and> same_jump env b e b' x"
proof (cases "\<exists>t c t1 c1 t2 c2. e = Ternary OP_select t c (Constval t1 c1) (Constval t2 c2)")
  case True
  then obtain t c t1 c1 t2 c2 where e: "e = Ternary OP_select t c (Constval t1 c1) (Constval t2 c2)" by blast
  then have w: "wt (fe_ps env) (Constval t1 c1)" "wt (fe_ps env) (Constval t2 c2)" "ity (fe_ps env) t" using assms by auto
  let ?x = "iv_num (mc_value c1)" and ?y = "iv_num (mc_value c2)"
  have ev: "eval (fe_ps env) (fe_syms env) \<sigma> e = (case eval (fe_ps env) (fe_syms env) \<sigma> c of None \<Rightarrow> None
      | Some z \<Rightarrow> Some (wrap (fe_ps env) t (if z \<noteq> 0 then ?x else ?y)))" for \<sigma>
    using const_operand_value(2)[OF w(1)] const_operand_value(2)[OF w(2)] e by (simp split: option.split del: eval.simps(3))
  have r: "SimplifyCondGotoSelect b l e = Some (Same (if ?x = 1 \<and> ?y = 0 then CondGoto b l c
      else if ?x = 0 \<and> ?y = 1 then CondGoto (\<not> b) l c else CondGoto b l e))"
    using const_operand_value(3,4)[OF w(1)] const_operand_value(3,4)[OF w(2)] e by (simp add: SimplifyCondGotoSelect_def andm_def)
  have 1: "same_jump env b e b c" if "?x = 1" "?y = 0"
    using ev wrap_bool[OF w(3)] that by (auto simp: same_jump_def split: option.splits if_splits)
  have 2: "same_jump env b e (\<not> b) c" if "?x = 0" "?y = 1"
    using ev wrap_bool[OF w(3)] that by (auto simp: same_jump_def split: option.splits if_splits)
  have 3: "same_jump env b e b e" by (simp add: same_jump_def)
  show ?thesis using r 1 2 3 by (simp split: if_splits)
next
  case False
  then have "SimplifyCondGotoSelect b l e = Some (Same (CondGoto b l e))"
    by (auto simp: SimplifyCondGotoSelect_def split: node.split)
  then show ?thesis by (auto simp: same_jump_def)
qed

lemma SimplifyCondGoto_cases:
  assumes "folds_well env e"
  obtains b' x where "SimplifyCondGoto env b l e = Some (Same (CondGoto b' l x))" "same_jump env b e b' x"
  | "SimplifyCondGoto env b l e = Some (New (Goto l))" "\<And>\<sigma> v. eval (fe_ps env) (fe_syms env) \<sigma> e = Some v \<Longrightarrow> (v \<noteq> 0) = b"
  | "SimplifyCondGoto env b l e = Some Null" "\<And>\<sigma> v. eval (fe_ps env) (fe_syms env) \<sigma> e = Some v \<Longrightarrow> (v \<noteq> 0) \<noteq> b"
proof -
  have w: "wt (fe_ps env) e" using assms by (simp add: folds_well_def)
  obtain r x where r: "fold_opnd env e = Some r" "x = (case r of None \<Rightarrow> e | Some x \<Rightarrow> x)" "wt (fe_ps env) x"
    "\<And>\<sigma>. agrees (fe_ps env) (fe_syms env) \<sigma> e x"
    by (rule fold_opnd_cases[OF assms]) (use w agrees_self in auto)
  consider "fe_profile env" | "\<not> fe_profile env" "r = None" "is_select e"
    | "\<not> fe_profile env" "\<not> (r = None \<and> is_select e)" "\<exists>t c. x = Constval t c"
    | "\<not> fe_profile env" "\<not> (r = None \<and> is_select e)" "\<nexists>t c. x = Constval t c" by blast
  then show thesis
  proof cases
    case 1
    then show thesis by (intro that(1)[of b e]) (simp_all add: SimplifyCondGoto_def same_jump_def)
  next
    case 2
    then show thesis using SimplifyCondGotoSelect_jump[OF w, of b l] that(1) r(1) by (auto simp: SimplifyCondGoto_def)
  next
    case 3
    then obtain t c where c: "x = Constval t c" by blast
    note z = agrees_const[OF r(4)[unfolded c] r(3)[unfolded c]]
    have s: "SimplifyCondGoto env b l e = Some (if b = (iv_num (mc_value c) \<noteq> 0) then New (Goto l) else Null)"
      using 3 r(1) const_operand_value(5)[OF r(3)[unfolded c]] c r(2) by (auto simp: SimplifyCondGoto_def)
    then show thesis using that(2,3) z by (cases "b = (iv_num (mc_value c) \<noteq> 0)") auto
  next
    case 4
    have "SimplifyCondGoto env b l e = Some (Same (CondGoto b l x))"
      using r(1) 4(1,3) by (simp add: SimplifyCondGoto_def if_not_P[OF 4(2)] Let_def r(2)[symmetric] split: node.split)
    then show thesis using that(1) same_jump_agrees[OF r(4)] by blast
  qed
qed

lemma switch_target_cong: "list_all (\<lambda>(c, l). u = c \<longleftrightarrow> v = c) cases \<Longrightarrow> switch_target u dflt cases = switch_target v dflt cases"
  by (induction cases) auto

lemma find_case_target:
  assumes "iv64 v" "list_all (\<lambda>(c, l). 0 \<le> c \<and> c < 2 ^ 63) cases"
  shows "find_case v dflt cases = Some (switch_target (iv_num v) dflt cases)"
  using assms(2)
proof (induction cases)
  case (Cons p cases)
  obtain c l where "p = (c, l)" by fastforce
  then show ?case using Cons iv64_num[OF assms(1)] by (simp add: Iv_eq_int_iff[OF assms(1)] signed_64_eq)
qed simp

lemma switch_labels_bound:
  fixes cases :: "(int \<times> nat) list"
  assumes "ity ps t" "list_all (\<lambda>(c, l). 0 \<le> c \<and> c < 2 ^ (bits ps t - 1)) cases"
  shows "list_all (\<lambda>(c, l). 0 \<le> c \<and> c < 2 ^ 63) cases"
proof -
  have "(2 :: int) ^ (bits ps t - 1) \<le> 2 ^ 63" using ity_bits[OF assms(1)] by (intro power_increasing) auto
  then have "c < 2 ^ 63" if "c < 2 ^ (bits ps t - 1)" for c :: int using that by linarith
  then show ?thesis using assms(2) by (auto simp: list_all_iff)
qed

lemma SimplifySwitch_cases:
  assumes "folds_well env e" "wt_stmt (fe_ps env) (fe_syms env) (Switch e dflt cases)"
  obtains x where "SimplifySwitch env e dflt cases = Some (Same (Switch x dflt cases))"
    "\<And>\<sigma> v. eval (fe_ps env) (fe_syms env) \<sigma> e = Some v \<Longrightarrow>
      \<exists>u. eval (fe_ps env) (fe_syms env) \<sigma> x = Some u \<and> switch_target u dflt cases = switch_target v dflt cases"
  | l where "SimplifySwitch env e dflt cases = Some (New (Goto l))"
    "\<And>\<sigma> v. eval (fe_ps env) (fe_syms env) \<sigma> e = Some v \<Longrightarrow> switch_target v dflt cases = l"
proof (rule fold_opnd_cases[OF assms(1)])
  assume "fold_opnd env e = Some None"
  then show thesis by (intro that(1)[of e]) (simp_all add: SimplifySwitch_def)
next
  fix x assume x: "fold_opnd env e = Some (Some x)" "wt (fe_ps env) x" "\<And>\<sigma>. agrees (fe_ps env) (fe_syms env) \<sigma> e x"
  have t: "ity (fe_ps env) (GetPrimType e)" using assms(1) wt_type by (simp add: folds_well_def)
  have target: "\<exists>u. eval (fe_ps env) (fe_syms env) \<sigma> x = Some u \<and> switch_target u dflt cases = switch_target v dflt cases"
    if ev: "eval (fe_ps env) (fe_syms env) \<sigma> e = Some v" for \<sigma> v
  proof -
    obtain u where u: "eval (fe_ps env) (fe_syms env) \<sigma> x = Some u"
      "\<And>c. 0 \<le> c \<Longrightarrow> c < 2 ^ (bits (fe_ps env) (GetPrimType e) - 1) \<Longrightarrow> (u = c \<longleftrightarrow> v = c)"
      using x(3)[of \<sigma>] ev by (auto simp: agrees_def)
    then have "list_all (\<lambda>(c, l). u = c \<longleftrightarrow> v = c) cases" using assms(2) by (auto simp: list_all_iff)
    then show ?thesis using u(1) switch_target_cong by blast
  qed
  show thesis
  proof (cases "\<exists>t c. x = Constval t c")
    case True
    then obtain t c where c: "x = Constval t c" by blast
    note k = const_operand_value(1,2)[OF x(2)[unfolded c]]
    have "find_case (mc_value c) dflt cases = Some (switch_target (iv_num (mc_value c)) dflt cases)"
      using find_case_target[OF k(1) switch_labels_bound[OF t]] assms(2) by simp
    then show thesis using x(1) c target k(2) by (intro that(2)[of "switch_target (iv_num (mc_value c)) dflt cases"])
        (fastforce simp: SimplifySwitch_def simp del: eval.simps)+
  next
    case False
    then have "SimplifySwitch env e dflt cases = Some (Same (Switch x dflt cases))" using x(1) by (auto simp: SimplifySwitch_def split: node.split)
    then show thesis using that(1) target by blast
  qed
qed

section \<open>The pass returns\<close>

definition stmts_of :: "simplified_stmt \<Rightarrow> stmt list" where
  "stmts_of r = (case r of Same s \<Rightarrow> [s] | Null \<Rightarrow> [] | New s \<Rightarrow> [s] | Opened_block bs \<Rightarrow> bs)"

definition folds_stmt :: "fold_env \<Rightarrow> stmt \<Rightarrow> bool" where
  "folds_stmt env s \<longleftrightarrow> (\<forall>e \<in> set (operands s). folds_well env e) \<and> wt_stmt (fe_ps env) (fe_syms env) s"

lemma block_labels_append [simp]: "block_labels (ss @ ts) = block_labels ss @ block_labels ts"
  by (induction ss) simp_all

lemma stmts_of_simps [simp]: "stmts_of (Same s) = [s]" "stmts_of Null = []" "stmts_of (New s) = [s]" "stmts_of (Opened_block bs) = bs"
  by (simp_all add: stmts_of_def)

lemma folds_stmt_simps [simp]:
  "folds_stmt env (Block ss) \<longleftrightarrow> (\<forall>s \<in> set ss. folds_stmt env s)"
  "folds_stmt env (IfStmt e th None) \<longleftrightarrow> folds_well env e \<and> (\<forall>s \<in> set th. folds_stmt env s)"
  "folds_stmt env (IfStmt e th (Some el)) \<longleftrightarrow> folds_well env e \<and> (\<forall>s \<in> set th. folds_stmt env s) \<and> (\<forall>s \<in> set el. folds_stmt env s)"
  "folds_stmt env (WhileStmt d e body) \<longleftrightarrow> folds_well env e \<and> (\<forall>s \<in> set body. folds_stmt env s)"
  by (auto simp: folds_stmt_def list_all_iff)

lemma folds_stmt_operand: "folds_stmt env s \<Longrightarrow> e \<in> set (operands s) \<Longrightarrow> folds_well env e"
  by (simp add: folds_stmt_def)

definition returns_result :: "(simplified_stmt \<times> bool) option \<Rightarrow> stmt \<Rightarrow> bool" where
  "returns_result p s \<longleftrightarrow> (\<exists>r ok. p = Some (r, ok) \<and> set (block_labels (stmts_of r)) \<subseteq> set (labels s))"

definition returns_block :: "(stmt list \<times> bool) option \<Rightarrow> stmt list \<Rightarrow> bool" where
  "returns_block p ss \<longleftrightarrow> (\<exists>bs ok. p = Some (bs, ok) \<and> set (block_labels bs) \<subseteq> set (block_labels ss))"

lemma Simplify_IfNone_returns:
  assumes "returns_block (SimplifyBlock env False th) th" "folds_well env e"
  shows "returns_result (Simplify env (IfStmt e th None)) (IfStmt e th None)"
proof -
  obtain th' ok where t: "SimplifyBlock env False th = Some (th', ok)" "set (block_labels th') \<subseteq> set (block_labels th)"
    using assms(1) by (auto simp: returns_block_def)
  show ?thesis
    by (rule SimplifyIf_cond_cases[OF assms(2), of th' None]) (use t in \<open>simp_all add: returns_result_def\<close>)
qed

lemma Simplify_If_returns:
  assumes "returns_block (SimplifyBlock env False th) th" "returns_block (SimplifyBlock env False el) el" "folds_well env e"
  shows "returns_result (Simplify env (IfStmt e th (Some el))) (IfStmt e th (Some el))"
proof -
  obtain th' ok where t: "SimplifyBlock env False th = Some (th', ok)" "set (block_labels th') \<subseteq> set (block_labels th)"
    using assms(1) by (auto simp: returns_block_def)
  obtain el' ok' where l: "SimplifyBlock env False el = Some (el', ok')" "set (block_labels el') \<subseteq> set (block_labels el)"
    using assms(2) by (auto simp: returns_block_def)
  show ?thesis
    by (rule SimplifyIf_cond_cases[OF assms(3), of th' "Some el'"]) (use t l in \<open>auto simp: returns_result_def\<close>)
qed

lemma Simplify_While_returns:
  assumes "returns_block (SimplifyBlock env False body) body" "folds_well env e"
  shows "returns_result (Simplify env (WhileStmt d e body)) (WhileStmt d e body)"
proof -
  obtain body' ok where t: "SimplifyBlock env False body = Some (body', ok)" "set (block_labels body') \<subseteq> set (block_labels body)"
    using assms(1) by (auto simp: returns_block_def)
  show ?thesis
    by (rule SimplifyWhile_cond_cases[OF assms(2), of d body']) (use t in \<open>auto simp: returns_result_def\<close>)
qed

lemma SimplifyBlock_Cons:
  assumes "Simplify env s = Some (r, ok)"
    "SimplifyBlock env (case r of Same _ \<Rightarrow> False | Null \<Rightarrow> replaced | _ \<Rightarrow> True) ss = Some (rest, ok')"
  shows "SimplifyBlock env replaced (s # ss) =
    Some (stmts_of r @ rest, ok \<and> ok' \<and> (case r of Null \<Rightarrow> \<not> replaced | Opened_block bs \<Rightarrow> bs \<noteq> [] | _ \<Rightarrow> True))"
  using assms by (cases r) auto

lemma simple_stmts_return:
  "folds_stmt env (Dassign st fld e) \<Longrightarrow> returns_result (Simplify env (Dassign st fld e)) (Dassign st fld e)"
  "folds_stmt env (Regassign t n e) \<Longrightarrow> returns_result (Simplify env (Regassign t n e)) (Regassign t n e)"
  "folds_stmt env (UnaryStmt opc opnd) \<Longrightarrow> returns_result (Simplify env (UnaryStmt opc opnd)) (UnaryStmt opc opnd)"
  "folds_stmt env (NaryStmt opc es) \<Longrightarrow> returns_result (Simplify env (NaryStmt opc es)) (NaryStmt opc es)"
proof -
  have set: "\<exists>x. fold_set env e = Some x" if "folds_well env e" for e using fold_set_agrees[OF that] by blast
  show "folds_stmt env (Dassign st fld e) \<Longrightarrow> returns_result (Simplify env (Dassign st fld e)) (Dassign st fld e)"
    "folds_stmt env (Regassign t n e) \<Longrightarrow> returns_result (Simplify env (Regassign t n e)) (Regassign t n e)"
    "folds_stmt env (UnaryStmt opc opnd) \<Longrightarrow> returns_result (Simplify env (UnaryStmt opc opnd)) (UnaryStmt opc opnd)"
    using set by (fastforce simp: folds_stmt_def returns_result_def SimplifyDassign_def SimplifyRegassign_def SimplifyUnary_def split: option.splits)+
  show "folds_stmt env (NaryStmt opc es) \<Longrightarrow> returns_result (Simplify env (NaryStmt opc es)) (NaryStmt opc es)"
    using fold_list_agrees[of es env] by (fastforce simp: folds_stmt_def returns_result_def SimplifyNary_def)
qed

lemma jumps_return:
  "folds_stmt env (CondGoto b l e) \<Longrightarrow> returns_result (Simplify env (CondGoto b l e)) (CondGoto b l e)"
  "folds_stmt env (Switch e dflt cases) \<Longrightarrow> returns_result (Simplify env (Switch e dflt cases)) (Switch e dflt cases)"
proof -
  assume f: "folds_stmt env (CondGoto b l e)"
  show "returns_result (Simplify env (CondGoto b l e)) (CondGoto b l e)"
    by (rule SimplifyCondGoto_cases[OF folds_stmt_operand[OF f], of e b l]) (auto simp: returns_result_def)
next
  assume f: "folds_stmt env (Switch e dflt cases)"
  then have w: "wt_stmt (fe_ps env) (fe_syms env) (Switch e dflt cases)" by (simp add: folds_stmt_def)
  show "returns_result (Simplify env (Switch e dflt cases)) (Switch e dflt cases)"
    by (rule SimplifySwitch_cases[OF folds_stmt_operand[OF f] w]) (auto simp: returns_result_def)
qed

lemma Simplify_returns:
  "folds_stmt env s \<Longrightarrow> returns_result (Simplify env s) s"
  "(\<forall>s \<in> set ss. folds_stmt env s) \<Longrightarrow> returns_block (SimplifyBlock env replaced ss) ss"
proof (induction env s and env replaced ss rule: Simplify_SimplifyBlock.induct)
  case (5 env ss)
  then show ?case by (fastforce simp: returns_block_def returns_result_def)
next
  case (7 env e th el)
  then have t: "returns_block (SimplifyBlock env False th) th" by simp
  then have "returns_block (SimplifyBlock env False el) el" using 7 by (auto simp: returns_block_def)
  then show ?case using Simplify_If_returns[OF t] 7(3) by simp
next
  case (15 env replaced s ss)
  then obtain r ok where r: "Simplify env s = Some (r, ok)" "set (block_labels (stmts_of r)) \<subseteq> set (labels s)" by (auto simp: returns_result_def)
  have "returns_block (SimplifyBlock env (case r of Same _ \<Rightarrow> False | Null \<Rightarrow> replaced | _ \<Rightarrow> True) ss) ss"
    using 15 r(1) by (cases r) auto
  then show ?case using SimplifyBlock_Cons[OF r(1)] r(2) by (auto simp: returns_block_def)
qed (auto simp: simple_stmts_return jumps_return Simplify_IfNone_returns Simplify_While_returns
    returns_result_def[of "Some _"] returns_block_def[of "Some _"] simp del: Simplify.simps(1-4,6-10))

section \<open>Execution of the simplified statements\<close>

inductive_cases exec_LabelE: "exec ps syms prim (LabelStmt l) st out st'"

text \<open>What the result of simplifying a statement does in a block.\<close>

definition acts :: "nat \<Rightarrow> symbol_types \<Rightarrow> prim_stmt \<Rightarrow> simplified_stmt \<Rightarrow> exec_state \<Rightarrow> outcome \<Rightarrow> exec_state \<Rightarrow> bool" where
  "acts ps syms prim r st out st' \<longleftrightarrow>
     (case r of Same s \<Rightarrow> exec ps syms prim s st out st' | Null \<Rightarrow> out = Done \<and> st' = st
      | New s \<Rightarrow> exec ps syms prim s st out st' | Opened_block bs \<Rightarrow> exec_from ps syms prim bs bs st out st')"

text \<open>How a block goes on after a statement, with the statements \<open>rest\<close> behind it.\<close>

definition continues :: "nat \<Rightarrow> symbol_types \<Rightarrow> prim_stmt \<Rightarrow> stmt list \<Rightarrow> stmt list \<Rightarrow> outcome \<Rightarrow> exec_state \<Rightarrow> outcome \<Rightarrow> exec_state \<Rightarrow> bool" where
  "continues ps syms prim all rest out st out' st' \<longleftrightarrow>
     (case out of
        Done \<Rightarrow> exec_from ps syms prim all rest st out' st'
      | Jump l \<Rightarrow> (case behind l all of None \<Rightarrow> out' = Jump l \<and> st' = st | Some ts \<Rightarrow> exec_from ps syms prim all ts st out' st')
      | Left \<Rightarrow> out' = Left \<and> st' = st)"

lemma exec_continues:
  "exec ps syms prim s st out st1 \<Longrightarrow> continues ps syms prim all rest out st1 out' st' \<Longrightarrow> exec_from ps syms prim all (s # rest) st out' st'"
  by (cases out) (auto simp: continues_def split: option.splits intro: exec_exec_from.intros)

lemma behind_append: "behind l (ss @ ts) = (case behind l ss of None \<Rightarrow> behind l ts | Some us \<Rightarrow> Some (us @ ts))"
  by (induction ss) auto

lemma behind_split: "behind l ss = Some ts \<Longrightarrow> \<exists>us. ss = us @ LabelStmt l # ts \<and> behind l us = None"
proof (induction ss)
  case (Cons s ss)
  then show ?case by (cases "s = LabelStmt l") (fastforce intro: exI[of _ "s # _"])+
qed simp

lemma behind_labels: "l \<notin> set (block_labels ss) \<Longrightarrow> behind l ss = None"
  by (induction ss) auto

text \<open>A block opened in the middle of another.\<close>

lemma exec_embedded:
  assumes "exec_from ps syms prim bs ts st out st1" "continues ps syms prim (pre @ bs @ rest) rest out st1 out' st'"
    "\<And>l. l \<in> set (block_labels bs) \<Longrightarrow> behind l pre = None"
  shows "exec_from ps syms prim (pre @ bs @ rest) (ts @ rest) st out' st'"
  using assms
proof (induction rule: exec_exec_from.inducts(2)[where ?P1.0 = "\<lambda>_ _ _ _. True", consumes 1])
  case (From_Jump s st l st1 bs us out st2 ss)
  obtain vs where "bs = vs @ LabelStmt l # us" "behind l vs = None" using behind_split From_Jump by blast
  then have "behind l (pre @ bs @ rest) = Some (us @ rest)" using From_Jump by (simp add: behind_append)
  then show ?case using From_Jump by (auto intro: exec_exec_from.intros)
next
  case (From_Out s st l st1 bs ss)
  then have "continues ps syms prim (pre @ bs @ rest) (ss @ rest) (Jump l) st1 out' st'" by (simp add: continues_def)
  then show ?case using exec_continues[OF From_Out(1)] by simp
next
  case (From_Left s st st1 bs ss)
  then have "continues ps syms prim (pre @ bs @ rest) (ss @ rest) Left st1 out' st'" by (simp add: continues_def)
  then show ?case using exec_continues[OF From_Left(1)] by simp
qed (auto simp: continues_def intro: exec_exec_from.intros)

lemma acts_continues:
  assumes "acts ps syms prim r st out st1" "continues ps syms prim (pre @ stmts_of r @ rest) rest out st1 out' st'"
    "\<And>l. l \<in> set (block_labels (stmts_of r)) \<Longrightarrow> behind l pre = None"
  shows "exec_from ps syms prim (pre @ stmts_of r @ rest) (stmts_of r @ rest) st out' st'"
  using assms exec_continues exec_embedded[where pre = pre and rest = rest] by (cases r) (auto simp: acts_def continues_def)

text \<open>The statements of a block after the pass, one statement at a time.\<close>

definition simplified_list :: "fold_env \<Rightarrow> stmt \<Rightarrow> stmt list" where
  "simplified_list env s = (case Simplify env s of None \<Rightarrow> [] | Some (r, ok) \<Rightarrow> stmts_of r)"

definition simplified_block :: "fold_env \<Rightarrow> stmt list \<Rightarrow> stmt list" where
  "simplified_block env ss = concat (map (simplified_list env) ss)"

text \<open>Every statement is simplified and no list is broken.\<close>

definition simplifies :: "fold_env \<Rightarrow> stmt list \<Rightarrow> bool" where
  "simplifies env ss \<longleftrightarrow> (\<forall>s \<in> set ss. folds_stmt env s \<and> (\<exists>r. Simplify env s = Some (r, True))) \<and> distinct (block_labels ss)"

lemma simplified_block_simps [simp]: "simplified_block env [] = []"
  "simplified_block env (s # ss) = simplified_list env s @ simplified_block env ss"
  "simplified_block env (ss @ ts) = simplified_block env ss @ simplified_block env ts"
  by (simp_all add: simplified_block_def)

lemma simplified_list_label [simp]: "simplified_list env (LabelStmt l) = [LabelStmt l]"
  by (simp add: simplified_list_def)

lemma SimplifyBlock_intact:
  assumes "SimplifyBlock env replaced ss = Some (bs, True)"
  shows "bs = simplified_block env ss \<and> (\<forall>s \<in> set ss. \<exists>r. Simplify env s = Some (r, True))"
  using assms
proof (induction ss arbitrary: bs replaced)
  case (Cons s ss)
  then obtain r ok where r: "Simplify env s = Some (r, ok)" by (auto split: Option.bind_splits)
  then obtain rest ok' where t: "SimplifyBlock env (case r of Same _ \<Rightarrow> False | Null \<Rightarrow> replaced | _ \<Rightarrow> True) ss = Some (rest, ok')"
    using Cons.prems by (cases r) (auto split: Option.bind_splits)
  have "ok \<and> ok' \<and> bs = stmts_of r @ rest" using SimplifyBlock_Cons[OF r t] Cons.prems by simp
  then show ?case using Cons.IH[of _ rest] r t by (auto simp: simplified_list_def)
qed simp

lemma simplified_labels:
  assumes "folds_stmt env s"
  shows "set (block_labels (simplified_list env s)) \<subseteq> set (labels s)"
  using Simplify_returns(1)[OF assms] by (auto simp: returns_result_def simplified_list_def)

lemma simplified_block_labels: "\<forall>s \<in> set ss. folds_stmt env s \<Longrightarrow> set (block_labels (simplified_block env ss)) \<subseteq> set (block_labels ss)"
  using simplified_labels by (induction ss) fastforce+

lemma label_of_other:
  assumes "distinct (block_labels ss)" "LabelStmt l \<in> set ss" "s \<in> set ss" "s \<noteq> LabelStmt l"
  shows "l \<notin> set (labels s)"
proof -
  have l: "set (labels s) \<subseteq> set (block_labels ts)" if "s \<in> set ts" for s ts using that by (induction ts) auto
  show ?thesis using assms
  proof (induction ss)
    case (Cons a ss)
    then show ?case using l[of "LabelStmt l" ss] l[of s ss] by auto
  qed simp
qed

lemma simplified_behind:
  assumes "simplifies env ss"
  shows "behind l ss = Some ts \<Longrightarrow> behind l (simplified_block env ss) = Some (simplified_block env ts)"
    "l \<notin> set (block_labels ss) \<Longrightarrow> behind l (simplified_block env ss) = None"
proof -
  have f: "\<forall>s \<in> set ss. folds_stmt env s" "distinct (block_labels ss)" using assms by (auto simp: simplifies_def)
  show "l \<notin> set (block_labels ss) \<Longrightarrow> behind l (simplified_block env ss) = None"
    using simplified_block_labels[OF f(1)] by (auto intro: behind_labels)
  assume "behind l ss = Some ts"
  then obtain us where us: "ss = us @ LabelStmt l # ts" using behind_split by blast
  have "set (block_labels (simplified_block env us)) \<subseteq> set (block_labels us)" using f(1) us by (intro simplified_block_labels) auto
  then have "behind l (simplified_block env us) = None" using f(2) us by (intro behind_labels) auto
  then show "behind l (simplified_block env ss) = Some (simplified_block env ts)" using us by (simp add: behind_append)
qed

definition stmt_simulated :: "fold_env \<Rightarrow> prim_stmt \<Rightarrow> stmt \<Rightarrow> exec_state \<Rightarrow> outcome \<Rightarrow> exec_state \<Rightarrow> bool" where
  "stmt_simulated env prim s st out st' \<longleftrightarrow>
     (\<forall>r. folds_stmt env s \<longrightarrow> Simplify env s = Some (r, True) \<longrightarrow> distinct (labels s) \<longrightarrow> (\<forall>l. out = Jump l \<longrightarrow> l \<notin> set (labels s)) \<longrightarrow>
       acts (fe_ps env) (fe_syms env) prim r st out st')"

definition block_simulated :: "fold_env \<Rightarrow> prim_stmt \<Rightarrow> stmt list \<Rightarrow> stmt list \<Rightarrow> exec_state \<Rightarrow> outcome \<Rightarrow> exec_state \<Rightarrow> bool" where
  "block_simulated env prim all ss st out st' \<longleftrightarrow>
     (simplifies env all \<longrightarrow> (\<exists>us. all = us @ ss) \<longrightarrow> (\<forall>l. out = Jump l \<longrightarrow> l \<notin> set (block_labels all)) \<longrightarrow>
       exec_from (fe_ps env) (fe_syms env) prim (simplified_block env all) (simplified_block env ss) st out st')"

text \<open>The step from a statement to the block it is in.\<close>

lemma block_simulated_Cons:
  assumes "stmt_simulated env prim s st out1 st1" "simplifies env all" "all = us @ s # ss" "\<And>l. out1 = Jump l \<Longrightarrow> l \<notin> set (labels s)"
    "continues (fe_ps env) (fe_syms env) prim (simplified_block env all) (simplified_block env ss) out1 st1 out st'"
  shows "exec_from (fe_ps env) (fe_syms env) prim (simplified_block env all) (simplified_block env (s # ss)) st out st'"
proof -
  obtain r where r: "Simplify env s = Some (r, True)" using assms(2,3) by (auto simp: simplifies_def)
  have f: "folds_stmt env s" "\<forall>s \<in> set us. folds_stmt env s" "distinct (labels s)" "set (block_labels us) \<inter> set (labels s) = {}"
    using assms(2,3) by (auto simp: simplifies_def)
  have a: "acts (fe_ps env) (fe_syms env) prim r st out1 st1" using assms(1,4) r f(1,3) by (simp add: stmt_simulated_def)
  have s: "simplified_list env s = stmts_of r" using r by (simp add: simplified_list_def)
  have "behind l (simplified_block env us) = None" if "l \<in> set (block_labels (stmts_of r))" for l
    using that simplified_labels[OF f(1)] simplified_block_labels[OF f(2)] f(4) s by (intro behind_labels) auto
  then show ?thesis using acts_continues[OF a] assms(3,5) s by simp
qed

lemma inner_block:
  assumes "block_simulated env prim ss ss st out st'" "SimplifyBlock env b ss = Some (bs, True)" "\<forall>s \<in> set ss. folds_stmt env s"
    "distinct (block_labels ss)" "\<And>l. out = Jump l \<Longrightarrow> l \<notin> set (block_labels ss)"
  shows "exec_from (fe_ps env) (fe_syms env) prim bs bs st out st'"
  using assms SimplifyBlock_intact[OF assms(2)] by (auto simp: block_simulated_def simplifies_def)

lemma assignments_simulated:
  assumes "eval (fe_ps env) (fe_syms env) (fst st) e = Some v"
  shows "fe_syms env s fld = Some (ty, n) \<Longrightarrow> stmt_simulated env prim (Dassign s fld e) st Done ((fst st)(Inl (s, fld) := wrap (fe_ps env) ty v), snd st)"
    "stmt_simulated env prim (Regassign t r e) st Done ((fst st)(Inr r := wrap (fe_ps env) t v), snd st)"
proof -
  have x: "\<exists>x u. fold_set env e = Some x \<and> eval (fe_ps env) (fe_syms env) (fst st) x = Some u \<and> (\<forall>t. assignable (fe_ps env) t e \<longrightarrow> wrap (fe_ps env) t u = wrap (fe_ps env) t v)"
    if "folds_well env e" using fold_set_agrees[OF that] assms unfolding agrees_def by metis
  show "stmt_simulated env prim (Dassign s fld e) st Done ((fst st)(Inl (s, fld) := wrap (fe_ps env) ty v), snd st)" if "fe_syms env s fld = Some (ty, n)"
    unfolding stmt_simulated_def
  proof (intro allI impI)
    fix q assume "folds_stmt env (Dassign s fld e)" and q: "Simplify env (Dassign s fld e) = Some (q, True)"
    then have f: "folds_well env e" "assignable (fe_ps env) ty e" using that by (simp_all add: folds_stmt_def)
    obtain x u where "fold_set env e = Some x" "eval (fe_ps env) (fe_syms env) (fst st) x = Some u" "wrap (fe_ps env) ty u = wrap (fe_ps env) ty v"
      using x[OF f(1)] f(2) by blast
    then show "acts (fe_ps env) (fe_syms env) prim q st Done ((fst st)(Inl (s, fld) := wrap (fe_ps env) ty v), snd st)"
      using Ex_Dassign[of "fe_ps env" "fe_syms env" st x u, OF _ that] q by (auto simp: acts_def SimplifyDassign_def)
  qed
  show "stmt_simulated env prim (Regassign t r e) st Done ((fst st)(Inr r := wrap (fe_ps env) t v), snd st)"
    unfolding stmt_simulated_def
  proof (intro allI impI)
    fix q assume "folds_stmt env (Regassign t r e)" and q: "Simplify env (Regassign t r e) = Some (q, True)"
    then have f: "folds_well env e" "assignable (fe_ps env) t e" by (simp_all add: folds_stmt_def)
    obtain x u where "fold_set env e = Some x" "eval (fe_ps env) (fe_syms env) (fst st) x = Some u" "wrap (fe_ps env) t u = wrap (fe_ps env) t v"
      using x[OF f(1)] f(2) by blast
    then show "acts (fe_ps env) (fe_syms env) prim q st Done ((fst st)(Inr r := wrap (fe_ps env) t v), snd st)"
      using Ex_Regassign[of "fe_ps env" "fe_syms env" st x u prim t r] q by (auto simp: acts_def SimplifyRegassign_def)
  qed
qed

lemma primitives_simulated:
  assumes "prim_outcome prim opc vs st = Some (out, st')"
  shows "opvals (fe_ps env) (fe_syms env) (fst st) (case opnd of None \<Rightarrow> [] | Some e \<Rightarrow> [e]) = Some vs \<Longrightarrow>
      stmt_simulated env prim (UnaryStmt opc opnd) st out st'"
    "opvals (fe_ps env) (fe_syms env) (fst st) es = Some vs \<Longrightarrow> stmt_simulated env prim (NaryStmt opc es) st out st'"
proof -
  show "stmt_simulated env prim (NaryStmt opc es) st out st'" if v: "opvals (fe_ps env) (fe_syms env) (fst st) es = Some vs"
    unfolding stmt_simulated_def
  proof (intro allI impI)
    fix q assume "folds_stmt env (NaryStmt opc es)" and q: "Simplify env (NaryStmt opc es) = Some (q, True)"
    then obtain xs where "fold_list env es = Some xs" "opvals (fe_ps env) (fe_syms env) (fst st) xs = Some vs"
      using fold_list_agrees[of es env] v by (auto simp: folds_stmt_def)
    then show "acts (fe_ps env) (fe_syms env) prim q st out st'"
      using Ex_Nary[OF _ assms] q by (auto simp: acts_def SimplifyNary_def)
  qed
  show "stmt_simulated env prim (UnaryStmt opc opnd) st out st'"
    if v: "opvals (fe_ps env) (fe_syms env) (fst st) (case opnd of None \<Rightarrow> [] | Some e \<Rightarrow> [e]) = Some vs"
    unfolding stmt_simulated_def
  proof (intro allI impI)
    fix q assume f: "folds_stmt env (UnaryStmt opc opnd)" and q: "Simplify env (UnaryStmt opc opnd) = Some (q, True)"
    show "acts (fe_ps env) (fe_syms env) prim q st out st'"
    proof (cases opnd)
      case None
      then show ?thesis using Ex_Unary[OF v assms] q by (auto simp: acts_def SimplifyUnary_def)
    next
      case (Some e)
      obtain xs where xs: "fold_list env [e] = Some xs" "opvals (fe_ps env) (fe_syms env) (fst st) xs = Some vs"
        using fold_list_agrees[of "[e]" env] v f Some by (auto simp: folds_stmt_def)
      then obtain x where "fold_set env e = Some x" "xs = [x]" by (auto split: Option.bind_splits)
      then show ?thesis using Ex_Unary[of "fe_ps env" "fe_syms env" st "Some x", OF _ assms] xs(2) q Some
        by (auto simp: acts_def SimplifyUnary_def)
    qed
  qed
qed

lemma jumps_simulated:
  assumes "eval (fe_ps env) (fe_syms env) (fst st) e = Some v"
  shows "stmt_simulated env prim (CondGoto b l e) st (if (v \<noteq> 0) = b then Jump l else Done) st"
    "stmt_simulated env prim (Switch e dflt cases) st (Jump (switch_target v dflt cases)) st"
proof -
  show "stmt_simulated env prim (CondGoto b l e) st (if (v \<noteq> 0) = b then Jump l else Done) st" unfolding stmt_simulated_def
  proof (intro allI impI)
    fix q assume f: "folds_stmt env (CondGoto b l e)" and q: "Simplify env (CondGoto b l e) = Some (q, True)"
    have w: "folds_well env e" using f by (simp add: folds_stmt_def)
    show "acts (fe_ps env) (fe_syms env) prim q st (if (v \<noteq> 0) = b then Jump l else Done) st"
    proof (rule SimplifyCondGoto_cases[OF w, of b l])
      fix b' x assume x: "SimplifyCondGoto env b l e = Some (Same (CondGoto b' l x))" "same_jump env b e b' x"
      then obtain u where "eval (fe_ps env) (fe_syms env) (fst st) x = Some u" "(u \<noteq> 0) = b' \<longleftrightarrow> (v \<noteq> 0) = b"
        using assms unfolding same_jump_def by blast
      then show ?thesis using Ex_CondGoto[of "fe_ps env" "fe_syms env" st x u prim b' l] q x(1) by (auto simp: acts_def)
    qed (use q assms in \<open>auto simp: acts_def intro: Ex_Goto\<close>)
  qed
  show "stmt_simulated env prim (Switch e dflt cases) st (Jump (switch_target v dflt cases)) st" unfolding stmt_simulated_def
  proof (intro allI impI)
    fix q assume f: "folds_stmt env (Switch e dflt cases)" and q: "Simplify env (Switch e dflt cases) = Some (q, True)"
    have w: "folds_well env e" "wt_stmt (fe_ps env) (fe_syms env) (Switch e dflt cases)" using f by (simp_all add: folds_stmt_def)
    show "acts (fe_ps env) (fe_syms env) prim q st (Jump (switch_target v dflt cases)) st"
    proof (rule SimplifySwitch_cases[OF w])
      fix x assume x: "SimplifySwitch env e dflt cases = Some (Same (Switch x dflt cases))"
        and t: "\<And>\<sigma> v. eval (fe_ps env) (fe_syms env) \<sigma> e = Some v \<Longrightarrow>
          \<exists>u. eval (fe_ps env) (fe_syms env) \<sigma> x = Some u \<and> switch_target u dflt cases = switch_target v dflt cases"
      then obtain u where "eval (fe_ps env) (fe_syms env) (fst st) x = Some u" "switch_target u dflt cases = switch_target v dflt cases"
        using assms by blast
      then show ?thesis using Ex_Switch[of "fe_ps env" "fe_syms env" st x u prim dflt cases] q x by (auto simp: acts_def)
    qed (use q assms in \<open>auto simp: acts_def intro: Ex_Goto\<close>)
  qed
qed

text \<open>Statements with parts. Each lemma takes the execution of the parts as simulated.\<close>

lemma Block_simulated: "block_simulated env prim ss ss st out st' \<Longrightarrow> stmt_simulated env prim (Block ss) st out st'"
  unfolding stmt_simulated_def by (auto simp: acts_def split: Option.bind_splits intro!: inner_block)

lemma eval_zero_agrees:
  "agrees ps syms \<sigma> e x \<Longrightarrow> eval ps syms \<sigma> e = Some v \<Longrightarrow> \<exists>u. eval ps syms \<sigma> x = Some u \<and> (u = 0 \<longleftrightarrow> v = 0)"
  by (auto simp: agrees_def)

lemma If_simulated:
  assumes "eval (fe_ps env) (fe_syms env) (fst st) e = Some v"
    "if v \<noteq> 0 then block_simulated env prim th th st out st'
     else case el of None \<Rightarrow> out = Done \<and> st' = st | Some bs \<Rightarrow> block_simulated env prim bs bs st out st'"
  shows "stmt_simulated env prim (IfStmt e th el) st out st'"
  unfolding stmt_simulated_def
proof (intro allI impI)
  fix q assume f: "folds_stmt env (IfStmt e th el)" and q: "Simplify env (IfStmt e th el) = Some (q, True)"
    and d: "distinct (labels (IfStmt e th el))" and j: "\<forall>l. out = Jump l \<longrightarrow> l \<notin> set (labels (IfStmt e th el))"
  obtain th' el' where P: "SimplifyBlock env False th = Some (th', True)" "SimplifyIf_cond env e th' el' = Some q"
      "case el of None \<Rightarrow> el' = None | Some bs \<Rightarrow> \<exists>bs'. el' = Some bs' \<and> SimplifyBlock env False bs = Some (bs', True)"
    using q by (cases el) (auto split: Option.bind_splits)
  have w: "folds_well env e" "\<forall>s \<in> set th. folds_stmt env s" using f by (cases el; simp)+
  have t: "exec_from (fe_ps env) (fe_syms env) prim th' th' st out st'" if "v \<noteq> 0"
    using assms(2) that d j w(2) by (intro inner_block[OF _ P(1)]) (cases el; auto)+
  have l: "exec_from (fe_ps env) (fe_syms env) prim bs' bs' st out st'" if "v = 0" "el = Some bs" "el' = Some bs'" for bs bs'
    using assms(2) that d j f P(3) by (intro inner_block[of env prim bs]) auto
  show "acts (fe_ps env) (fe_syms env) prim q st out st'"
  proof (rule SimplifyIf_cond_cases[OF w(1), of th' el'])
    fix x assume x: "SimplifyIf_cond env e th' el' = Some (Same (IfStmt x th' el'))" "\<And>\<sigma>. agrees (fe_ps env) (fe_syms env) \<sigma> e x"
    obtain u where u: "eval (fe_ps env) (fe_syms env) (fst st) x = Some u" "u = 0 \<longleftrightarrow> v = 0" using eval_zero_agrees[OF x(2) assms(1)] by blast
    have "exec (fe_ps env) (fe_syms env) prim (IfStmt x th' el') st out st'"
    proof (cases "v = 0")
      case True
      then show ?thesis using u l P(3) assms(2) by (cases el) (auto intro: Ex_IfFalse Ex_IfNone)
    qed (use u t in \<open>auto intro: Ex_IfTrue\<close>)
    then show ?thesis using x(1) P(2) by (auto simp: acts_def)
  next
    assume "SimplifyIf_cond env e th' el' = Some (case el' of None \<Rightarrow> Null | Some bs \<Rightarrow> Opened_block bs)"
      "\<And>\<sigma> v. eval (fe_ps env) (fe_syms env) \<sigma> e = Some v \<Longrightarrow> v = 0"
    then show ?thesis using P(2,3) l assms by (cases el) (auto simp: acts_def)
  next
    assume "SimplifyIf_cond env e th' el' = Some (Opened_block th')" "\<And>\<sigma> v. eval (fe_ps env) (fe_syms env) \<sigma> e = Some v \<Longrightarrow> v \<noteq> 0"
    then show ?thesis using P(2) t assms(1) by (auto simp: acts_def)
  qed
qed

text \<open>The loops: a \<open>while\<close> that is not left at once, a \<open>dowhile\<close> after its first round.\<close>

lemma While_result:
  assumes "Simplify env (WhileStmt d e body) = Some (q, True)" "folds_stmt env (WhileStmt d e body)"
  obtains body' x where "SimplifyBlock env False body = Some (body', True)" "q = Same (WhileStmt d x body')"
      "\<And>\<sigma>. agrees (fe_ps env) (fe_syms env) \<sigma> e x"
  | body' where "SimplifyBlock env False body = Some (body', True)" "q = (if d then Opened_block body' else Null)"
      "\<And>\<sigma> v. eval (fe_ps env) (fe_syms env) \<sigma> e = Some v \<Longrightarrow> v = 0"
proof -
  obtain body' where b: "SimplifyBlock env False body = Some (body', True)" "SimplifyWhile_cond env d e body' = Some q"
    using assms(1) by (auto split: Option.bind_splits)
  have "folds_well env e" using assms(2) by simp
  then show thesis by (rule SimplifyWhile_cond_cases[of env e d body']) (use that b in auto)
qed

lemma While_exit_simulated:
  assumes "eval (fe_ps env) (fe_syms env) (fst st) e = Some 0"
  shows "stmt_simulated env prim (WhileStmt False e body) st Done st"
  unfolding stmt_simulated_def
proof (intro allI impI)
  fix q assume f: "folds_stmt env (WhileStmt False e body)" and q: "Simplify env (WhileStmt False e body) = Some (q, True)"
  show "acts (fe_ps env) (fe_syms env) prim q st Done st"
  proof (rule While_result[OF q f])
    fix body' x assume x: "q = Same (WhileStmt False x body')" "\<And>\<sigma>. agrees (fe_ps env) (fe_syms env) \<sigma> e x"
    show ?thesis using eval_zero_agrees[OF x(2) assms] x(1) by (auto simp: acts_def intro: Ex_WhileFalse)
  qed (simp add: acts_def)
qed

lemma While_round_simulated:
  assumes "eval (fe_ps env) (fe_syms env) (fst st) e = Some v" "v \<noteq> 0" "block_simulated env prim body body st out1 st1"
    "if out1 = Done then stmt_simulated env prim (WhileStmt False e body) st1 out st' else out = out1 \<and> st' = st1"
  shows "stmt_simulated env prim (WhileStmt False e body) st out st'"
  unfolding stmt_simulated_def
proof (intro allI impI)
  fix q assume f: "folds_stmt env (WhileStmt False e body)" and q: "Simplify env (WhileStmt False e body) = Some (q, True)"
    and d: "distinct (labels (WhileStmt False e body))" and j: "\<forall>l. out = Jump l \<longrightarrow> l \<notin> set (labels (WhileStmt False e body))"
  show "acts (fe_ps env) (fe_syms env) prim q st out st'"
  proof (rule While_result[OF q f])
    fix body' x assume b: "SimplifyBlock env False body = Some (body', True)"
      and x: "q = Same (WhileStmt False x body')" "\<And>\<sigma>. agrees (fe_ps env) (fe_syms env) \<sigma> e x"
    have r: "exec_from (fe_ps env) (fe_syms env) prim body' body' st out1 st1"
      using f d j assms(4) by (intro inner_block[OF assms(3) b]) (auto split: if_splits)
    obtain u where u: "eval (fe_ps env) (fe_syms env) (fst st) x = Some u" "u \<noteq> 0" using eval_zero_agrees[OF x(2) assms(1)] assms(2) by blast
    show ?thesis
    proof (cases "out1 = Done")
      case True
      then have "acts (fe_ps env) (fe_syms env) prim q st1 out st'" using assms(4) f q d j by (simp add: stmt_simulated_def)
      then show ?thesis using Ex_WhileTrue[OF u] r True x(1) by (simp add: acts_def)
    next
      case False
      then show ?thesis using Ex_WhileOut[OF u r] assms(4) x(1) by (simp add: acts_def)
    qed
  qed (use assms(1,2) in auto)
qed

lemma Do_round_simulated:
  assumes "block_simulated env prim body body st out1 st1"
    "if out1 = Done then \<exists>v. eval (fe_ps env) (fe_syms env) (fst st1) e = Some v \<and>
       (if v = 0 then out = Done \<and> st' = st1 else stmt_simulated env prim (WhileStmt True e body) st1 out st')
     else out = out1 \<and> st' = st1"
  shows "stmt_simulated env prim (WhileStmt True e body) st out st'"
  unfolding stmt_simulated_def
proof (intro allI impI)
  fix q assume f: "folds_stmt env (WhileStmt True e body)" and q: "Simplify env (WhileStmt True e body) = Some (q, True)"
    and d: "distinct (labels (WhileStmt True e body))" and j: "\<forall>l. out = Jump l \<longrightarrow> l \<notin> set (labels (WhileStmt True e body))"
  have r: "exec_from (fe_ps env) (fe_syms env) prim body' body' st out1 st1" if "SimplifyBlock env False body = Some (body', True)" for body'
    using f d j assms(2) by (intro inner_block[OF assms(1) that]) (auto split: if_splits)
  show "acts (fe_ps env) (fe_syms env) prim q st out st'"
  proof (rule While_result[OF q f])
    fix body' x assume b: "SimplifyBlock env False body = Some (body', True)"
      and x: "q = Same (WhileStmt True x body')" "\<And>\<sigma>. agrees (fe_ps env) (fe_syms env) \<sigma> e x"
    note r = r[OF b]
    show ?thesis
    proof (cases "out1 = Done")
      case True
      then obtain v where v: "eval (fe_ps env) (fe_syms env) (fst st1) e = Some v"
        "if v = 0 then out = Done \<and> st' = st1 else stmt_simulated env prim (WhileStmt True e body) st1 out st'" using assms(2) by auto
      obtain u where u: "eval (fe_ps env) (fe_syms env) (fst st1) x = Some u" "u = 0 \<longleftrightarrow> v = 0" using eval_zero_agrees[OF x(2) v(1)] by blast
      have "acts (fe_ps env) (fe_syms env) prim q st1 out st'" if "v \<noteq> 0" using v(2) that f q d j by (simp add: stmt_simulated_def)
      then show ?thesis using Ex_DoEnd[of "fe_ps env" "fe_syms env" prim body' st st1 x] Ex_DoAgain[of "fe_ps env" "fe_syms env" prim body' st st1 x u]
          r True x(1) u v(2) by (cases "v = 0") (auto simp: acts_def)
    next
      case False
      then show ?thesis using Ex_DoOut[OF r] assms(2) x(1) by (simp add: acts_def)
    qed
  next
    fix body' assume b: "SimplifyBlock env False body = Some (body', True)" and z: "q = (if True then Opened_block body' else Null)"
      "\<And>\<sigma> v. eval (fe_ps env) (fe_syms env) \<sigma> e = Some v \<Longrightarrow> v = 0"
    have "out = out1 \<and> st' = st1" using assms(2) z(2) by (auto split: if_splits)
    then show ?thesis using r[OF b] z(1) by (simp add: acts_def)
  qed
qed

lemma unchanged_simulated:
  "Simplify env s = Some (Same s, True) \<Longrightarrow> exec (fe_ps env) (fe_syms env) prim s st out st' \<Longrightarrow> stmt_simulated env prim s st out st'"
  by (simp add: stmt_simulated_def acts_def)

lemma exec_simulated:
  "exec ps syms prim s st out st' \<Longrightarrow> ps = fe_ps env \<Longrightarrow> syms = fe_syms env \<Longrightarrow> stmt_simulated env prim s st out st'"
  "exec_from ps syms prim all ss st out st' \<Longrightarrow> ps = fe_ps env \<Longrightarrow> syms = fe_syms env \<Longrightarrow> block_simulated env prim all ss st out st'"
proof (induction rule: exec_exec_from.inducts)
  case (Ex_IfNone st e th)
  then show ?case by (intro If_simulated[where v = 0]) auto
next
  case (Ex_WhileTrue st e v body st1 out st')
  then show ?case by (intro While_round_simulated[where ?out1.0 = Done]) auto
next
  case (Ex_WhileOut st e v body out st')
  then show ?case by (intro While_round_simulated[where ?out1.0 = out]) auto
next
  case (Ex_DoEnd body st st' e)
  then show ?case by (intro Do_round_simulated[where ?out1.0 = Done]) auto
next
  case (Ex_DoAgain body st st1 e v out st')
  then show ?case by (intro Do_round_simulated[where ?out1.0 = Done]) auto
next
  case (Ex_DoOut body st out st' e)
  then show ?case by (intro Do_round_simulated[where ?out1.0 = out]) auto
next
  case (From_End all st)
  then show ?case by (auto simp: block_simulated_def intro: exec_exec_from.From_End)
next
  case (From_Done s st st1 all ss out st')
  show ?case unfolding block_simulated_def
  proof (intro impI, elim exE)
    fix us assume a: "simplifies env all" "\<forall>l. out = Jump l \<longrightarrow> l \<notin> set (block_labels all)" "all = us @ s # ss"
    then have "exec_from (fe_ps env) (fe_syms env) prim (simplified_block env all) (simplified_block env ss) st1 out st'"
      using From_Done by (auto simp: block_simulated_def intro: exI[of _ "us @ [s]"])
    then show "exec_from (fe_ps env) (fe_syms env) prim (simplified_block env all) (simplified_block env (s # ss)) st out st'"
      using From_Done a by (intro block_simulated_Cons[where ?out1.0 = Done]) (auto simp: continues_def)
  qed
next
  case (From_Jump s st l st1 all ts out st' ss)
  show ?case unfolding block_simulated_def
  proof (intro impI, elim exE)
    fix us assume a: "simplifies env all" "\<forall>l. out = Jump l \<longrightarrow> l \<notin> set (block_labels all)" "all = us @ s # ss"
    obtain vs where vs: "all = vs @ LabelStmt l # ts" using behind_split From_Jump.hyps by blast
    then have "\<exists>us. all = us @ ts" by (intro exI[of _ "vs @ [LabelStmt l]"]) simp
    then have e: "exec_from (fe_ps env) (fe_syms env) prim (simplified_block env all) (simplified_block env ts) st1 out st'"
      using From_Jump a by (simp add: block_simulated_def)
    have "s \<noteq> LabelStmt l" using From_Jump(1) by (auto elim: exec_LabelE)
    moreover have "LabelStmt l \<in> set all" using vs by simp
    moreover have "s \<in> set all" using a(3) by simp
    moreover have "distinct (block_labels all)" using a(1) by (simp add: simplifies_def)
    ultimately have "l \<notin> set (labels s)" using label_of_other by blast
    then show "exec_from (fe_ps env) (fe_syms env) prim (simplified_block env all) (simplified_block env (s # ss)) st out st'"
      using From_Jump a(1,3) e simplified_behind(1)[OF a(1)] by (intro block_simulated_Cons[where ?out1.0 = "Jump l"]) (auto simp: continues_def)
  qed
next
  case (From_Out s st l st' all ss)
  show ?case unfolding block_simulated_def
  proof (intro impI, elim exE)
    fix us assume a: "simplifies env all" "\<forall>k. Jump l = Jump k \<longrightarrow> k \<notin> set (block_labels all)" "all = us @ s # ss"
    then show "exec_from (fe_ps env) (fe_syms env) prim (simplified_block env all) (simplified_block env (s # ss)) st (Jump l) st'"
      using From_Out simplified_behind(2)[OF a(1)] by (intro block_simulated_Cons[where ?out1.0 = "Jump l"]) (auto simp: continues_def)
  qed
next
  case (From_Left s st st' all ss)
  show ?case unfolding block_simulated_def
  proof (intro impI, elim exE)
    fix us assume a: "simplifies env all" "all = us @ s # ss"
    then show "exec_from (fe_ps env) (fe_syms env) prim (simplified_block env all) (simplified_block env (s # ss)) st Left st'"
      using From_Left by (intro block_simulated_Cons[where ?out1.0 = Left]) (auto simp: continues_def)
  qed
next
  case (Ex_Dassign st e v s fld ty n)
  then show ?case using assignments_simulated(1)[of env st e v s fld ty n] by simp
next
  case (Ex_Regassign st e v t r)
  then show ?case using assignments_simulated(2)[of env st e v] by simp
next
  case (Ex_Unary st opnd vs opc out st')
  then show ?case by (intro primitives_simulated(1)) simp_all
next
  case (Ex_Nary st es vs opc out st')
  then show ?case by (intro primitives_simulated(2)) simp_all
next
  case (Ex_Block ss st out st')
  then show ?case by (intro Block_simulated) simp_all
next
  case (Ex_WhileFalse st e body)
  then show ?case by (intro While_exit_simulated) simp_all
next
  case (Ex_CondGoto st e v b l)
  then show ?case by (intro jumps_simulated(1)) simp_all
next
  case (Ex_Switch st e v dflt cases)
  then show ?case by (intro jumps_simulated(2)) simp_all
next
  case (Ex_IfTrue st e v th out st' el)
  then show ?case by (intro If_simulated[where v = v]) simp_all
next
  case (Ex_IfFalse st e bs out st' th)
  then show ?case by (intro If_simulated[where v = 0]) simp_all
next
  case (Ex_Other opc st out st')
  then show ?case by (intro unchanged_simulated) (auto intro: exec_exec_from.intros)
next
  case (Ex_Goto l st)
  then show ?case by (intro unchanged_simulated) (auto intro: exec_exec_from.intros)
next
  case (Ex_Label l st)
  then show ?case by (intro unchanged_simulated) (auto intro: exec_exec_from.intros)
qed

section \<open>Properties of the pass\<close>

lemma eventually_folds_well:
  assumes "wt (fe_ps env) e" "\<exists>\<sigma> v. eval (fe_ps env) (fe_syms env) \<sigma> e = Some v" "syms_ok (fe_ps env) (fe_syms env)"
    "\<And>x y. fe_same env x y \<Longrightarrow> x = y"
  shows "\<exists>N. \<forall>k. N \<le> k \<longrightarrow> folds_well (env\<lparr>fe_depth := k\<rparr>) e"
proof -
  obtain \<sigma> v where "eval (fe_ps env) (fe_syms env) \<sigma> e = Some v" using assms(2) by blast
  then obtain N x where x: "\<And>k. N \<le> k \<Longrightarrow> Fold (fe_ps env) (fe_syms env) (fe_same env) k e = Some x"
      "\<And>\<sigma> v. eval (fe_ps env) (fe_syms env) \<sigma> e = Some v \<Longrightarrow> stands_for (fe_ps env) (fe_syms env) \<sigma> (GetPrimType e) e x" and s: "wt (fe_ps env) x"
    using Fold_all_stores[OF assms(1) _ assms(3,4)] stands_for_shape(1) by metis
  have "agrees (fe_ps env) (fe_syms env) \<tau> e x" for \<tau>
    using stands_for_agrees[OF assms(1) x(2)] by (cases "eval (fe_ps env) (fe_syms env) \<tau> e") (auto simp: agrees_def)
  then show ?thesis using x(1) s assms(1,4) by (auto simp: folds_well_def)
qed

lemma eventually_all:
  fixes P :: "nat \<Rightarrow> 'a \<Rightarrow> bool"
  assumes "\<forall>x \<in> set xs. \<exists>N. \<forall>k. N \<le> k \<longrightarrow> P k x"
  shows "\<exists>N. \<forall>k. N \<le> k \<longrightarrow> (\<forall>x \<in> set xs. P k x)"
  using assms
proof (induction xs)
  case (Cons x xs)
  then obtain N M where "\<forall>k. N \<le> k \<longrightarrow> (\<forall>x \<in> set xs. P k x)" "\<forall>k. M \<le> k \<longrightarrow> P k x" by auto
  then show ?case by (intro exI[of _ "max N M"]) simp
qed simp

lemma ProcessFunc_block: "ProcessFunc env body = SimplifyBlock env False body"
  by (simp add: ProcessFunc_def)

text \<open>A function body the pass is shown for.\<close>

definition body_ok :: "fold_env \<Rightarrow> stmt list \<Rightarrow> bool" where
  "body_ok env body \<longleftrightarrow> list_all (wt_stmt (fe_ps env) (fe_syms env)) body \<and> list_all (wt (fe_ps env)) (concat (map operands body)) \<and>
     distinct (block_labels body)"

text \<open>C4: From some depth of folding on the pass over a function returns, and when no list of statements is broken on the
  way, a run of the function that ends at the end of its body or leaves it is the one run of the simplified function from
  the same state: with the same calls and other statements on the same operands in the same order, and the same store.
  This is for functions whose statements are well-typed, whose operands are in the class \<open>wt\<close> of expressions that folding
  keeps and have a value in some store, and whose labels are not repeated (\<open>body_ok\<close>).\<close>

theorem pass_keeps_runs:
  assumes "body_ok env body" "\<forall>e \<in> set (concat (map operands body)). \<exists>\<sigma> v. eval (fe_ps env) (fe_syms env) \<sigma> e = Some v"
    "syms_ok (fe_ps env) (fe_syms env)" "\<And>x y. fe_same env x y \<Longrightarrow> x = y"
  shows "\<exists>N. \<forall>k. N \<le> k \<longrightarrow> (\<exists>body' intact. ProcessFunc (env\<lparr>fe_depth := k\<rparr>) body = Some (body', intact) \<and>
    (\<forall>prim st out st'. intact \<longrightarrow> out = Done \<or> out = Left \<longrightarrow> exec_from (fe_ps env) (fe_syms env) prim body body st out st' \<longrightarrow>
      (\<forall>out' st''. exec_from (fe_ps env) (fe_syms env) prim body' body' st out' st'' \<longleftrightarrow> out' = out \<and> st'' = st')))"
proof -
  have "\<forall>e \<in> set (concat (map operands body)). \<exists>N. \<forall>k. N \<le> k \<longrightarrow> folds_well (env\<lparr>fe_depth := k\<rparr>) e"
    using eventually_folds_well[OF _ _ assms(3,4)] assms(1,2) by (auto simp: body_ok_def list_all_iff)
  then obtain N where N: "\<And>k e. N \<le> k \<Longrightarrow> e \<in> set (concat (map operands body)) \<Longrightarrow> folds_well (env\<lparr>fe_depth := k\<rparr>) e"
    using eventually_all[of "concat (map operands body)" "\<lambda>k. folds_well (env\<lparr>fe_depth := k\<rparr>)"] by blast
  show ?thesis
  proof (intro exI[of _ N] allI impI)
    fix k assume "N \<le> k"
    let ?env = "env\<lparr>fe_depth := k\<rparr>"
    have f: "\<forall>s \<in> set body. folds_stmt ?env s" using N[OF \<open>N \<le> k\<close>] assms(1) by (auto simp: folds_stmt_def body_ok_def list_all_iff)
    then obtain body' ok where b: "SimplifyBlock ?env False body = Some (body', ok)"
      using Simplify_returns(2)[OF f, of False] by (auto simp: returns_block_def)
    have "exec_from (fe_ps env) (fe_syms env) prim body' body' st out' st'' \<longleftrightarrow> out' = out \<and> st'' = st'"
      if ok "out = Done \<or> out = Left" "exec_from (fe_ps env) (fe_syms env) prim body body st out st'" for prim st out st' out' st''
    proof -
      have "exec_from (fe_ps env) (fe_syms env) prim body' body' st out st'"
        using inner_block[OF exec_simulated(2)[OF that(3)], of ?env False body'] b f that(1,2) assms(1) by (auto simp: body_ok_def)
      then show ?thesis using exec_deterministic(2) by blast
    qed
    then show "\<exists>body' intact. ProcessFunc ?env body = Some (body', intact) \<and>
      (\<forall>prim st out st'. intact \<longrightarrow> out = Done \<or> out = Left \<longrightarrow> exec_from (fe_ps env) (fe_syms env) prim body body st out st' \<longrightarrow>
        (\<forall>out' st''. exec_from (fe_ps env) (fe_syms env) prim body' body' st out' st'' \<longleftrightarrow> out' = out \<and> st'' = st'))"
      using b by (intro exI[of _ body'] exI[of _ ok]) (simp add: ProcessFunc_block)
  qed
qed

section \<open>Examples\<close>

definition example_env :: fold_env where
  "example_env = \<lparr>fe_ps = 8, fe_syms = no_symbols, fe_same = (=), fe_depth = 1, fe_java = True, fe_profile = False\<rparr>"

definition example_body :: "stmt list" where
  "example_body = [Regassign PTY_i32 1 example_expr, CondGoto True 7 (i32_const 1), NaryStmt ''call'' [], LabelStmt 7,
     NaryStmt ''return'' [Regread PTY_i32 1]]"

lemma example_body_ok: "body_ok example_env example_body"
  using example_wt example_type i32_const_facts(1)[of 1] type_values
  by (simp add: body_ok_def example_env_def example_body_def assignable_def)

lemma example_body_values: "\<forall>e \<in> set (concat (map operands example_body)). \<exists>\<sigma> v. eval (fe_ps example_env) (fe_syms example_env) \<sigma> e = Some v"
  using example_eval i32_const_facts(2)[of 1] by (auto simp: example_env_def example_body_def)

lemma example_env_ok: "syms_ok (fe_ps example_env) (fe_syms example_env)" "fe_same example_env x y \<Longrightarrow> x = y"
  by (simp_all add: example_env_def no_symbols_ok)

lemma example_const_folds: "fold_opnd (example_env\<lparr>fe_depth := Suc k\<rparr>) (i32_const n) = Some None"
  using leaf_dispatch(2)[of 8 no_symbols "(=)" k n] by (simp add: fold_opnd_def example_env_def Fold_def PairToExpr_None)

lemma example_jump_at:
  "SimplifyCondGoto (example_env\<lparr>fe_depth := Suc k\<rparr>) True 7 (i32_const 1) = Some (New (Goto 7))"
  "SimplifyCondGoto (example_env\<lparr>fe_depth := Suc k\<rparr>) True 8 (i32_const 0) = Some Null"
proof -
  have C: "\<exists>c. i32_const n = Constval PTY_i32 c \<and> mc_IsZero c = Some (n = 0)" if "n < 128" for n
    using i32_const_facts(4)[OF that] by (auto simp: mc_IsZero_def Iv_eq_const)
  obtain c0 c1 where c: "i32_const 0 = Constval PTY_i32 c0" "mc_IsZero c0 = Some True" "i32_const 1 = Constval PTY_i32 c1" "mc_IsZero c1 = Some False"
    using C[of 0] C[of 1] by auto
  have p: "\<not> fe_profile (example_env\<lparr>fe_depth := Suc k\<rparr>)" by (simp add: example_env_def)
  show "SimplifyCondGoto (example_env\<lparr>fe_depth := Suc k\<rparr>) True 7 (i32_const 1) = Some (New (Goto 7))"
    "SimplifyCondGoto (example_env\<lparr>fe_depth := Suc k\<rparr>) True 8 (i32_const 0) = Some Null"
    unfolding SimplifyCondGoto_def if_not_P[OF p] example_const_folds using c by simp_all
qed

lemma example_jump:
  "SimplifyCondGoto example_env True 7 (i32_const 1) = Some (New (Goto 7))" "SimplifyCondGoto example_env True 8 (i32_const 0) = Some Null"
proof -
  have "example_env\<lparr>fe_depth := Suc 0\<rparr> = example_env" by (simp add: example_env_def)
  then show "SimplifyCondGoto example_env True 7 (i32_const 1) = Some (New (Goto 7))" "SimplifyCondGoto example_env True 8 (i32_const 0) = Some Null"
    using example_jump_at[of 0] by simp_all
qed

text \<open>A run of the example: \<open>return\<close> leaves the function, calls do nothing.\<close>

definition example_prim :: prim_stmt where
  "example_prim opc vs \<sigma> = Some (\<sigma>, opc = ''return'')"

definition example_end :: exec_state where
  "example_end = ((\<lambda>_. 7)(Inr 1 := 36), [(''return'', [36])])"

lemma example_run: "exec_from 8 no_symbols example_prim example_body example_body (\<lambda>_. 7, []) Left example_end"
proof -
  let ?s = "(\<lambda>_. 7)(Inr 1 := 36) :: store"
  have w: "wrap 8 PTY_i32 36 = 36" by (simp add: wrap_i32)
  have 1: "exec 8 no_symbols example_prim (Regassign PTY_i32 1 example_expr) (\<lambda>_. 7, []) Done (?s, [])"
    using Ex_Regassign[of 8 no_symbols "(\<lambda>_. 7, [])" example_expr 36 example_prim PTY_i32 1] example_eval w by simp
  have 2: "exec 8 no_symbols example_prim (CondGoto True 7 (i32_const 1)) (?s, []) (Jump 7) (?s, [])"
    using Ex_CondGoto[of 8 no_symbols "(?s, [])" "i32_const 1" 1 example_prim True 7] i32_const_facts(2)[of 1] by simp
  have 3: "exec 8 no_symbols example_prim (NaryStmt ''return'' [Regread PTY_i32 1]) (?s, []) Left example_end"
    using w type_values(3) by (intro Ex_Nary[where vs = "[36]"])
      (simp_all add: opval_def prim_outcome_def example_prim_def example_end_def take_bit_int_eq_self)
  show ?thesis unfolding example_body_def
    by (rule From_Done[OF 1 From_Jump[OF 2 _ From_Left[OF 3]]]) simp
qed

lemma example_intact:
  assumes "ProcessFunc (example_env\<lparr>fe_depth := Suc k\<rparr>) example_body = Some (body, intact)"
  shows intact
proof -
  have "SimplifyCondGoto (example_env\<lparr>fe_depth := Suc k\<rparr>) True 7 (i32_const 1) = Some (New (Goto 7))" by (rule example_jump_at)
  then show ?thesis using assms
    by (auto simp: ProcessFunc_def example_body_def SimplifyRegassign_def SimplifyNary_def split: Option.bind_splits)
qed

theorem pass_keeps_runs_witness:
  "\<exists>k body'. ProcessFunc (example_env\<lparr>fe_depth := k\<rparr>) example_body = Some (body', True) \<and>
    exec_from 8 no_symbols example_prim body' body' (\<lambda>_. 7, []) Left example_end"
proof -
  have e: "fe_ps example_env = 8" "fe_syms example_env = no_symbols" by (simp_all add: example_env_def)
  obtain N where N: "\<forall>k. N \<le> k \<longrightarrow> (\<exists>body' intact. ProcessFunc (example_env\<lparr>fe_depth := k\<rparr>) example_body = Some (body', intact) \<and>
      (\<forall>prim st out st'. intact \<longrightarrow> out = Done \<or> out = Left \<longrightarrow> exec_from 8 no_symbols prim example_body example_body st out st' \<longrightarrow>
        (\<forall>out' st''. exec_from 8 no_symbols prim body' body' st out' st'' \<longleftrightarrow> out' = out \<and> st'' = st')))"
    using pass_keeps_runs[OF example_body_ok example_body_values example_env_ok, unfolded e] by blast
  have "N \<le> Suc N" by simp
  then obtain body' intact where b: "ProcessFunc (example_env\<lparr>fe_depth := Suc N\<rparr>) example_body = Some (body', intact)"
      "\<forall>prim st out st'. intact \<longrightarrow> out = Done \<or> out = Left \<longrightarrow> exec_from 8 no_symbols prim example_body example_body st out st' \<longrightarrow>
        (\<forall>out' st''. exec_from 8 no_symbols prim body' body' st out' st'' \<longleftrightarrow> out' = out \<and> st'' = st')"
    using N by blast
  have i: "intact = True" using example_intact[OF b(1)] by simp
  have "exec_from 8 no_symbols example_prim body' body' (\<lambda>_. 7, []) Left example_end" using b(2) i example_run by blast
  then show ?thesis using b(1) unfolding i by blast
qed

text \<open>Programs on which the pass breaks the list of statements: a conditional jump on 1 followed by one on 0, of which
  the first is replaced and the second deleted, and a nested empty block.\<close>

lemma pass_breaks_list:
  "ProcessFunc example_env [CondGoto True 7 (i32_const 1), CondGoto True 8 (i32_const 0), LabelStmt 7] = Some ([Goto 7, LabelStmt 7], False) \<and>
   ProcessFunc example_env [Block [], LabelStmt 7] = Some ([LabelStmt 7], False)"
  using example_jump by (simp add: ProcessFunc_def)

section \<open>The list of statements\<close>

text \<open>The statement that a node holds is \<open>content a\<close> before and \<open>content' a\<close> after the pass. The result \<open>f a\<close> of simplifying it, as the
  loop over the list sees it, is the result of \<open>Simplify\<close>; \<open>ns\<close> gives the nodes of a block.\<close>

definition node_result :: "fold_env \<Rightarrow> (nat \<Rightarrow> stmt) \<Rightarrow> (nat \<Rightarrow> stmt) \<Rightarrow> (ptr_list \<Rightarrow> nat list) \<Rightarrow> (nat \<Rightarrow> simplified) \<Rightarrow> nat \<Rightarrow> bool" where
  "node_result env content content' ns f a \<longleftrightarrow>
     (case Simplify env (content a) of
        None \<Rightarrow> False
      | Some (r, ok) \<Rightarrow>
          (case r of
             Same s \<Rightarrow> f a = Kept \<and> content' a = s
           | Null \<Rightarrow> f a = Gone
           | New s \<Rightarrow> (case f a of Became b \<Rightarrow> content' b = s | _ \<Rightarrow> False)
           | Opened_block bs \<Rightarrow> (case f a of Opened blk \<Rightarrow> map content' (ns blk) = bs | _ \<Rightarrow> False)))"

text \<open>The flag that the pass on lists of statements returns says what it should: the simplification of every statement left its own
  blocks intact, nothing was deleted behind a change and no empty block was opened.\<close>

lemma node_results_block:
  assumes "list_all (node_result env content content' ns f) xs" "SimplifyBlock env replaced (map content xs) = Some (ss, intact)"
  shows "map content' (concat (map (successors ns f) xs)) = ss \<and>
    (intact \<longleftrightarrow> list_all (\<lambda>a. \<exists>r. Simplify env (content a) = Some (r, True)) xs \<and> no_gone_after_change f replaced xs \<and> no_empty_block ns f xs)"
  using assms
proof (induction xs arbitrary: replaced ss intact)
  case (Cons a xs)
  obtain r ok where r: "Simplify env (content a) = Some (r, ok)" using Cons.prems(1) by (auto simp: node_result_def split: option.splits)
  let ?next = "case r of Same _ \<Rightarrow> False | Null \<Rightarrow> replaced | _ \<Rightarrow> True"
  obtain rest ok' where t: "SimplifyBlock env ?next (map content xs) = Some (rest, ok')"
    using Cons.prems(2) r by (cases r) (auto split: Option.bind_splits)
  have s: "ss = stmts_of r @ rest" "intact \<longleftrightarrow> ok \<and> ok' \<and> (r = Null \<longrightarrow> \<not> replaced) \<and> r \<noteq> Opened_block []"
    using SimplifyBlock_Cons[OF r t] Cons.prems(2) by (auto split: simplified_stmt.splits)
  have IH: "map content' (concat (map (successors ns f) xs)) = rest"
    "ok' \<longleftrightarrow> list_all (\<lambda>a. \<exists>r. Simplify env (content a) = Some (r, True)) xs \<and> no_gone_after_change f ?next xs \<and> no_empty_block ns f xs"
    using Cons.IH[OF _ t] Cons.prems(1) by auto
  have n: "map content' (successors ns f a) = stmts_of r" "f a = Gone \<longleftrightarrow> r = Null" "f a = Kept \<longleftrightarrow> (\<exists>s. r = Same s)"
    "(\<exists>blk. f a = Opened blk \<and> ns blk = []) \<longleftrightarrow> r = Opened_block []"
    using Cons.prems(1) r by (auto simp: node_result_def successors_def split: simplified_stmt.splits simplified.splits)
  have "(if f a = Gone then replaced else f a \<noteq> Kept) = ?next" using n(2,3) by (cases r) auto
  then have "no_gone_after_change f replaced (a # xs) \<longleftrightarrow> (r = Null \<longrightarrow> \<not> replaced) \<and> no_gone_after_change f ?next xs" using n(2) by simp
  moreover have "no_empty_block ns f (a # xs) \<longleftrightarrow> r \<noteq> Opened_block [] \<and> no_empty_block ns f xs" using n(4) by (auto simp: no_empty_block_def)
  ultimately show ?case using IH n(1) s r by auto
qed (auto simp: no_empty_block_def)

text \<open>C17: The loop over the linked statements of a block implements the pass on lists of statements: when the pass leaves
  the lists intact, the loop ends without an access through a null pointer, and the block then holds the nodes of
  the simplified statements in their order.\<close>

theorem block_loop_implements_pass:
  assumes "SimplifyBlock env False (map content xs) = Some (ss, True)" "list_all (node_result env content content' ns f) xs"
    "holds_list (h, l) xs" "fresh_results ns f h xs" "length xs \<le> n"
  shows "\<exists>st ys. SimplifyBlock_list n f (h, l) = Some st \<and> holds_list st ys \<and> map content' ys = ss"
proof -
  have r: "map content' (concat (map (successors ns f) xs)) = ss" "no_gone_after_change f False xs \<and> no_empty_block ns f xs"
    using node_results_block[OF assms(2,1)] by auto
  have "disjoint_results ns f h xs" using assms(4) by (simp add: fresh_results_iff)
  then show ?thesis using block_loop_iff[OF assms(3) _ assms(5)] r by blast
qed

theorem block_loop_implements_pass_witness:
  "\<exists>st ys. SimplifyBlock_list 2 ((\<lambda>_. Kept)(1 := Became 9)) (chain [1, 2]) = Some st \<and> holds_list st ys \<and>
    map ((\<lambda>_. LabelStmt 7)(9 := Goto 7)) ys = [Goto 7, LabelStmt 7]"
proof -
  let ?content = "(\<lambda>_. LabelStmt 7)(1 := CondGoto True 7 (i32_const 1))"
  have c: "holds_list (fst (chain [1, 2]), snd (chain [1, 2])) [1, 2]"
    using plist.sequence[OF new_list[of "\<lparr>nxt = \<lambda>_. None, prv = \<lambda>_. None\<rparr>"], of "map PushBack [1, 2]"] by (auto simp: chain_def)
  note S = example_jump[unfolded One_nat_def]
  have "\<exists>st ys. SimplifyBlock_list 2 ((\<lambda>_. Kept)(1 := Became 9)) (fst (chain [1, 2]), snd (chain [1, 2])) = Some st \<and> holds_list st ys \<and>
      map ((\<lambda>_. LabelStmt 7)(9 := Goto 7)) ys = [Goto 7, LabelStmt 7]"
    by (rule block_loop_implements_pass[where env = example_env and content = ?content and ns = "\<lambda>_. []", OF _ _ c])
      (simp_all add: S node_result_def fresh_results_def successors_def)
  then show ?thesis by simp
qed

text \<open>C18: Where the blocks inside the statements stay intact, the flag of the pass on lists of statements is true exactly when
  the loop over the linked statements ends with the block holding the nodes of the simplified statements. A statement
  deleted behind a changed one, or an empty block opened, makes it false, and the list is then broken.\<close>

theorem pass_flag_exact:
  assumes "SimplifyBlock env False (map content xs) = Some (ss, intact)" "list_all (node_result env content content' ns f) xs"
    "list_all (\<lambda>a. \<exists>r. Simplify env (content a) = Some (r, True)) xs" "holds_list (h, l) xs" "disjoint_results ns f h xs" "length xs \<le> n"
  shows "intact \<longleftrightarrow> (\<exists>st. SimplifyBlock_list n f (h, l) = Some st \<and> holds_list st (concat (map (successors ns f) xs)))"
  using node_results_block[OF assms(2,1)] assms(3) block_loop_iff[OF assms(4-6)] by simp

theorem pass_flag_exact_witness:
  "\<not> (\<exists>st. SimplifyBlock_list 2 ((\<lambda>_. Kept)(1 := Became 9, 2 := Gone)) (chain [1, 2]) = Some st \<and> holds_list st [9])"
proof -
  let ?f = "(\<lambda>_. Kept)(1 := Became 9, 2 := Gone)"
  let ?content = "(\<lambda>_. CondGoto True 8 (i32_const 0))(1 := CondGoto True 7 (i32_const 1))"
  have c: "holds_list (fst (chain [1, 2]), snd (chain [1, 2])) [1, 2]"
    using plist.sequence[OF new_list[of "\<lparr>nxt = \<lambda>_. None, prv = \<lambda>_. None\<rparr>"], of "map PushBack [1, 2]"] by (auto simp: chain_def)
  note S = example_jump[unfolded One_nat_def]
  have "False \<longleftrightarrow> (\<exists>st. SimplifyBlock_list 2 ?f (fst (chain [1, 2]), snd (chain [1, 2])) = Some st \<and>
      holds_list st (concat (map (successors (\<lambda>_. []) ?f) [1, 2])))"
    by (rule pass_flag_exact[where env = example_env and content = ?content and content' = "\<lambda>_. Goto 7", OF _ _ _ c])
      (simp_all add: S node_result_def disjoint_results_def successors_def)
  then show ?thesis by (simp add: successors_def)
qed

end
